(* ===== verification/Kumo_Prelude.thy ===== *)
theory Kumo_Prelude
  imports Main "HOL-Library.Word" "HOL-Library.Monad_Syntax"
begin

text \<open>
  Shared vocabulary of the development: the names of the C integer types, the page-size
  constants of \<open>mm/pmm.h\<close>, and the generic facts about 32-bit words, bits and lists
  that the component theories rely on.

  A C function that may fail to return (an endless loop, or a CPU exception, after which
  \<open>isr_handler\<close> in \<open>arch/x86/exception.c\<close> halts for ever) has a result of type
  \<open>'a option\<close>: \<^term>\<open>None\<close> means that the call does not return.
\<close>

unbundle bit_operations_syntax

section \<open>C integer types\<close>

type_synonym u8 = "8 word"
type_synonym u16 = "16 word"
type_synonym u32 = "32 word"
type_synonym u64 = "64 word"

named_theorems word_nat
  \<comment> \<open>rules that move an equation or comparison of words to natural numbers\<close>

section \<open>Page constants\<close>

abbreviation PAGE_SIZE :: u32 where "PAGE_SIZE \<equiv> 4096"
abbreviation MANAGED_BASE :: u32 where "MANAGED_BASE \<equiv> 0x100000"
abbreviation USER_MEM_START :: u32 where "USER_MEM_START \<equiv> 0x800000"

section \<open>Words as natural numbers\<close>

lemma unat_u32_lt [simp]: "unat (x :: u32) < 4294967296"
  using unsigned_less [of x, where ?'a = nat] by simp

lemma unat_u32_le [simp]: "unat (x :: u32) \<le> 4294967295"
  using unat_u32_lt [of x] by linarith

lemma unat_add_no_wrap:
  "unat (a :: u32) + unat b < 4294967296 \<Longrightarrow> unat (a + b) = unat a + unat b"
  by (simp add: unat_word_ariths)

lemma unat_add_wrap:
  assumes "4294967296 \<le> unat (a :: u32) + unat b"
  shows "unat (a + b) = unat a + unat b - 4294967296"
proof -
  have "unat (a + b) = (unat a + unat b) mod 4294967296"
    by (simp only: unat_word_ariths) simp
  also have "\<dots> = (unat a + unat b - 4294967296) mod 4294967296"
    using assms by (rule le_mod_geq)
  also have "\<dots> = unat a + unat b - 4294967296"
    using unat_u32_lt [of a] unat_u32_lt [of b] by (intro mod_less) linarith
  finally show ?thesis .
qed

lemma unat_sub_no_wrap: "b \<le> (a :: u32) \<Longrightarrow> unat (a - b) = unat a - unat b"
  by (simp add: unat_sub_if' word_le_nat_alt)

lemma unat_of_nat_u32: "n < 4294967296 \<Longrightarrow> unat (of_nat n :: u32) = n"
  by (simp add: unat_of_nat)

lemma unat_mult_no_wrap:
  "unat (a :: u32) * unat b < 4294967296 \<Longrightarrow> unat (a * b) = unat a * unat b"
  by (simp add: unat_word_ariths)

lemma u32_eq_iff: "(a :: u32) = b \<longleftrightarrow> unat a = unat b"
  by (simp add: word_unat_eq_iff)

text \<open>Signed readings of small words.\<close>

lemma sint_small:
  assumes "unat (x :: u32) < 2147483648"
  shows "sint x = int (unat x)"
proof -
  have "x < 0x80000000"
    using assms by (simp add: word_less_nat_alt)
  then have u: "uint x < 2 ^ 31"
    by (simp add: word_less_def)
  have "- (2 ^ 31) \<le> (0 :: int)" "0 \<le> uint x"
    by simp_all
  then have "- (2 ^ 31) \<le> uint x"
    by (rule order_trans)
  then have "signed_take_bit 31 (uint x) = uint x"
    using u by (rule signed_take_bit_int_eq_self)
  then show ?thesis
    by (simp add: sint_uint)
qed

lemma sless_zero_small: "unat (x :: u32) < 2147483648 \<Longrightarrow> 0 <s x \<longleftrightarrow> x \<noteq> 0"
  by (simp only: word_sless_alt sint_0 sint_small of_nat_0_less_iff unat_gt_0)

lemmas word_nat_simps [word_nat] =
  word_less_nat_alt word_le_nat_alt unat_sub_no_wrap unat_add_no_wrap

section \<open>Bits of a byte\<close>

text \<open>Stated for \<open>2 ^ n\<close>, to which the simplifier rewrites \<open>push_bit n 1\<close>.\<close>

lemma byte_test_bit:
  "(b :: u8) AND 2 ^ n \<noteq> 0 \<longleftrightarrow> n < 8 \<and> bit b n"
proof -
  have "b AND 2 ^ n = (if n < 8 \<and> bit b n then 2 ^ n else 0)"
    by (rule bit_eqI) (auto simp: bit_simps)
  then show ?thesis
    by simp
qed

lemma byte_set_bit:
  "n < 8 \<Longrightarrow> bit ((b :: u8) OR 2 ^ n) m \<longleftrightarrow> bit b m \<or> m = n"
  by (auto simp: bit_simps)

lemma byte_clear_bit:
  "m < 8 \<Longrightarrow> bit ((b :: u8) AND NOT (2 ^ n)) m \<longleftrightarrow> bit b m \<and> m \<noteq> n"
  by (auto simp: bit_simps)

section \<open>Intervals\<close>

lemma ivl_disjoint_iff:
  "{a..<b} \<inter> {c..<d} = {} \<longleftrightarrow> b \<le> c \<or> d \<le> a \<or> b \<le> a \<or> d \<le> (c :: nat)"
  by (auto simp: min_def max_def)

section \<open>Page alignment\<close>

lemma and_not_fff: "(x :: u32) AND NOT 0xFFF = x - x mod 4096"
proof -
  have m: "(0xFFF :: u32) = mask 12"
    by (simp add: mask_eq_exp_minus_1)
  have "x AND mask 12 = take_bit 12 x"
    by (simp add: take_bit_eq_mask)
  also have "\<dots> = x mod 4096"
    by (simp add: take_bit_eq_mod)
  finally have a: "x AND mask 12 = x mod 4096" .
  have "(x AND mask 12) + (x AND NOT (mask 12)) = x"
    using word_plus_and_or [of "x AND mask 12" "x AND NOT (mask 12)"]
    by (simp add: bit.conj_disj_distrib [symmetric] ac_simps)
  then show ?thesis
    using a m by (simp add: algebra_simps)
qed

text \<open>Clearing the low \<open>k\<close> bits, the C idiom \<open>x & ~(2^k - 1)\<close>.\<close>

lemma unat_align_down: "unat ((x :: u32) AND NOT (mask k)) = 2 ^ k * (unat x div 2 ^ k)"
proof -
  have "x AND mask k = take_bit k x"
    by (simp add: take_bit_eq_mask)
  moreover have "(x AND mask k) + (x AND NOT (mask k)) = x"
    using word_plus_and_or [of "x AND mask k" "x AND NOT (mask k)"]
    by (simp add: bit.conj_disj_distrib [symmetric] ac_simps)
  ultimately have e: "x AND NOT (mask k) = x - take_bit k x"
    by (simp add: algebra_simps)
  have t: "unat (take_bit k x) = unat x mod 2 ^ k"
    unfolding unsigned_take_bit_eq by (rule take_bit_eq_mod)
  then have "take_bit k x \<le> x"
    by (simp add: word_le_nat_alt)
  then show ?thesis
    by (simp add: e unat_sub_no_wrap t minus_mod_eq_mult_div)
qed

lemma unat_align8_down: "unat ((x :: u32) AND NOT 7) = 8 * (unat x div 8)"
  using unat_align_down [of x 3] by (simp add: mask_eq_exp_minus_1)

lemma unat_align4096_down: "unat ((x :: u32) AND NOT 0xFFF) = 4096 * (unat x div 4096)"
  using unat_align_down [of x 12] by (simp add: mask_eq_exp_minus_1)

lemma page_bounds: "4096 * (n div 4096) \<le> n" "n < 4096 * (n div 4096) + (4096 :: nat)"
  using mult_div_mod_eq [of 4096 n] mod_less_divisor [of 4096 n] by linarith+

lemma inside_page_unaligned:
  assumes "4096 * k < n" "n < 4096 * k + (4096 :: nat)"
  shows "\<not> 4096 dvd n"
proof
  assume "4096 dvd n"
  then obtain j where "n = 4096 * j" ..
  then have "k < j" "j < k + 1"
    using assms by simp_all
  then show False by simp
qed

end
