(* ===== verification/Byte_Memory.thy ===== *)
theory Byte_Memory
  imports Kumo_Prelude
begin

text \<open>
  Physical memory as the kernel sees it: a byte per 32-bit address. The kernel runs on an
  identity mapping, so a C pointer is the address of the bytes it reads. A 32-bit load or
  store is four little-endian byte accesses, as on x86; the laws below say when two of
  them interfere.
\<close>

type_synonym mem = "u32 \<Rightarrow> u8"

definition load16 :: "mem \<Rightarrow> u32 \<Rightarrow> u16" where
  "load16 m a = ucast (m a) OR push_bit 8 (ucast (m (a + 1)))"

definition load32 :: "mem \<Rightarrow> u32 \<Rightarrow> u32" where
  "load32 m a = ucast (m a) OR push_bit 8 (ucast (m (a + 1)))
     OR push_bit 16 (ucast (m (a + 2))) OR push_bit 24 (ucast (m (a + 3)))"

definition load64 :: "mem \<Rightarrow> u32 \<Rightarrow> u64" where
  "load64 m a = ucast (load32 m a) OR push_bit 32 (ucast (load32 m (a + 4)))"

definition store32 :: "mem \<Rightarrow> u32 \<Rightarrow> u32 \<Rightarrow> mem" where
  "store32 m a v = m(a := ucast v, a + 1 := ucast (drop_bit 8 v),
     a + 2 := ucast (drop_bit 16 v), a + 3 := ucast (drop_bit 24 v))"

text \<open>A byte loop \<open>for (i = 0; i < n; i++) dst[i] = src i\<close>, in index order.\<close>

primrec store_bytes :: "mem \<Rightarrow> u32 \<Rightarrow> u8 list \<Rightarrow> mem" where
  "store_bytes m a [] = m"
| "store_bytes m a (b # bs) = store_bytes (m(a := b)) (a + 1) bs"

primrec load_bytes :: "mem \<Rightarrow> u32 \<Rightarrow> nat \<Rightarrow> u8 list" where
  "load_bytes m a 0 = []"
| "load_bytes m a (Suc n) = m a # load_bytes m (a + 1) n"

text \<open>\<open>for (i = 0; i < n; i++) dst[i] = src[i]\<close>, byte by byte.\<close>

primrec copy_bytes :: "mem \<Rightarrow> u32 \<Rightarrow> u32 \<Rightarrow> nat \<Rightarrow> mem" where
  "copy_bytes m dst src 0 = m"
| "copy_bytes m dst src (Suc n) = copy_bytes (m(dst := m src)) (dst + 1) (src + 1) n"

section \<open>Address arithmetic\<close>

lemma u32_offset_neq:
  "x \<noteq> y \<Longrightarrow> (a :: u32) + x \<noteq> a + y" "y \<noteq> 0 \<Longrightarrow> (a :: u32) \<noteq> a + y" "x \<noteq> 0 \<Longrightarrow> (a :: u32) + x \<noteq> a"
  by auto

text \<open>Four consecutive bytes, and when two such ranges do not meet.\<close>

definition word_at :: "u32 \<Rightarrow> u32 set" where
  "word_at a = {a, a + 1, a + 2, a + 3}"

definition aligned4 :: "u32 \<Rightarrow> bool" where
  "aligned4 a \<longleftrightarrow> a AND 3 = 0"

lemma aligned4_unat: "aligned4 a \<longleftrightarrow> 4 dvd unat a"
proof -
  have "a AND 3 = a mod 4"
    using take_bit_eq_mod [of 2 a] take_bit_eq_mask [of 2 a]
    by (simp add: mask_eq_exp_minus_1)
  then have "aligned4 a \<longleftrightarrow> unat (a mod 4) = 0"
    by (simp add: aligned4_def u32_eq_iff)
  then show ?thesis
    by (simp add: unat_mod dvd_eq_mod_eq_0)
qed

lemma unat_word_offset:
  assumes "aligned4 a" "unat k < 4"
  shows "unat (a + k) = unat a + unat k"
proof -
  obtain q where q: "unat a = 4 * q"
    using assms(1) by (auto simp: aligned4_unat)
  have "4 * q < 4294967296"
    using q unat_u32_lt [of a] by simp
  then have "q \<le> 1073741823" by simp
  then have "unat a + unat k < 4294967296"
    using q assms(2) by linarith
  then show ?thesis
    by (rule unat_add_no_wrap)
qed

lemma word_at_disjoint:
  assumes "aligned4 a" "aligned4 b" "a \<noteq> b"
  shows "word_at a \<inter> word_at b = {}"
proof -
  have *: "\<exists>k. x = a + k \<and> unat k < 4" if "x \<in> word_at a" for x a
    using that unfolding word_at_def
    by (auto intro: exI [of _ "0 :: u32"] exI [of _ "1 :: u32"] exI [of _ "2 :: u32"]
        exI [of _ "3 :: u32"])
  have "a = b" if x: "x \<in> word_at a" "x \<in> word_at b" for x
  proof -
    from * [OF x(1)] obtain k where k: "x = a + k" "unat k < 4" by blast
    from * [OF x(2)] obtain l where l: "x = b + l" "unat l < 4" by blast
    note kl = k l
    have e: "unat a + unat k = unat b + unat l"
      using unat_word_offset [OF assms(1) kl(2)] unat_word_offset [OF assms(2) kl(4)] kl(1,3)
      by simp
    have "4 dvd unat a" "4 dvd unat b"
      using assms(1,2) by (simp_all add: aligned4_unat)
    then have "unat a = unat b"
      using e kl(2,4) by presburger
    then show "a = b"
      by (simp add: u32_eq_iff)
  qed
  then show ?thesis
    using assms(3) by blast
qed

section \<open>Laws of 32-bit accesses\<close>

lemma word_bytes_assemble:
  fixes v :: u32
  shows "(ucast (ucast v :: u8) :: u32) OR push_bit 8 (ucast (ucast (drop_bit 8 v) :: u8))
    OR push_bit 16 (ucast (ucast (drop_bit 16 v) :: u8))
    OR push_bit 24 (ucast (ucast (drop_bit 24 v) :: u8)) = v"
proof (rule bit_eqI)
  fix n assume "possible_bit TYPE(u32) n"
  then have n: "n < 32" by simp
  show "bit ((ucast (ucast v :: u8) :: u32) OR push_bit 8 (ucast (ucast (drop_bit 8 v) :: u8))
    OR push_bit 16 (ucast (ucast (drop_bit 16 v) :: u8))
    OR push_bit 24 (ucast (ucast (drop_bit 24 v) :: u8))) n = bit v n"
    using n by (cases "n < 8"; cases "n < 16"; cases "n < 24") (auto simp: bit_simps)
qed

lemma load32_store32_same [simp]: "load32 (store32 m a v) a = v"
  by (simp add: load32_def store32_def word_bytes_assemble)

lemma store32_outside: "x \<notin> word_at a \<Longrightarrow> store32 m a v x = m x"
  by (simp add: store32_def word_at_def)

lemma load32_cong: "(\<And>x. x \<in> word_at a \<Longrightarrow> m x = m' x) \<Longrightarrow> load32 m a = load32 m' a"
  by (simp add: load32_def word_at_def)

lemma load32_store32_other:
  assumes "aligned4 a" "aligned4 b" "a \<noteq> b"
  shows "load32 (store32 m a v) b = load32 m b"
proof (rule load32_cong)
  fix x assume "x \<in> word_at b"
  then have "x \<notin> word_at a"
    using word_at_disjoint [OF assms] by blast
  then show "store32 m a v x = m x"
    by (rule store32_outside)
qed

lemma load32_store32:
  "aligned4 a \<Longrightarrow> aligned4 b \<Longrightarrow>
   load32 (store32 m a v) b = (if a = b then v else load32 m b)"
  by (simp add: load32_store32_other)

lemma load32_byte_other: "x \<notin> word_at a \<Longrightarrow> load32 (m(x := b)) a = load32 m a"
  by (rule load32_cong) auto

lemma load32_zero:
  assumes "\<And>x. x \<in> word_at a \<Longrightarrow> m x = 0"
  shows "load32 m a = 0"
  using assms by (simp add: load32_def word_at_def)

section \<open>Laws of byte loops\<close>

definition range_at :: "u32 \<Rightarrow> nat \<Rightarrow> u32 set" where
  "range_at a n = (\<lambda>i. a + of_nat i) ` {..<n}"

lemma minus_one_unat: "unat (- 1 :: u32) = 4294967295"
  by (simp add: unsigned_minus_1_eq_mask mask_eq_exp_minus_1)

lemma range_at_Suc: "range_at a (Suc n) = insert a (range_at (a + 1) n)"
  unfolding range_at_def lessThan_Suc_eq_insert_0 image_insert image_image
  by (simp add: ac_simps)

lemma range_at_0 [simp]: "range_at a 0 = {}"
  by (simp add: range_at_def)

lemma range_at_iff:
  assumes "n \<le> 4294967296"
  shows "x \<in> range_at a n \<longleftrightarrow> unat (x - a) < n"
proof
  assume "x \<in> range_at a n"
  then obtain i where "i < n" "x = a + of_nat i"
    by (auto simp: range_at_def)
  then show "unat (x - a) < n"
    using assms by (simp add: unat_of_nat_u32)
next
  assume "unat (x - a) < n"
  then show "x \<in> range_at a n"
    unfolding range_at_def by (auto intro!: image_eqI [where x = "unat (x - a)"])
qed

lemma store_bytes_outside:
  "x \<notin> range_at a (length bs) \<Longrightarrow> store_bytes m a bs x = m x"
  by (induction bs arbitrary: m a) (auto simp: range_at_Suc)

lemma store_bytes_inside:
  assumes "i < length bs" "length bs \<le> 4294967296"
  shows "store_bytes m a bs (a + of_nat i) = bs ! i"
  using assms
proof (induction bs arbitrary: m a i)
  case Nil
  then show ?case by simp
next
  case (Cons b bs)
  show ?case
  proof (cases i)
    case 0
    have "a \<notin> range_at (a + 1) (length bs)"
      using Cons.prems(2) by (simp add: range_at_iff minus_one_unat)
    with 0 show ?thesis
      by (simp add: store_bytes_outside)
  next
    case (Suc j)
    have e: "a + of_nat i = (a + 1) + of_nat j"
      using Suc by (simp add: ac_simps)
    have "store_bytes (m(a := b)) (a + 1) bs ((a + 1) + of_nat j) = bs ! j"
      using Suc Cons.prems by (intro Cons.IH) auto
    with Suc e show ?thesis
      by (simp only: store_bytes.simps nth_Cons_Suc)
  qed
qed

lemma length_load_bytes [simp]: "length (load_bytes m a n) = n"
  by (induction n arbitrary: a) auto

lemma nth_load_bytes: "i < n \<Longrightarrow> load_bytes m a n ! i = m (a + of_nat i)"
proof (induction n arbitrary: a i)
  case 0
  then show ?case by simp
next
  case (Suc n)
  then show ?case
    by (cases i) (auto simp: ac_simps)
qed

lemma load_store_bytes:
  "length bs \<le> 4294967296 \<Longrightarrow> load_bytes (store_bytes m a bs) a (length bs) = bs"
  by (rule nth_equalityI) (simp_all add: nth_load_bytes store_bytes_inside)

lemma load_bytes_cong:
  "(\<And>x. x \<in> range_at a n \<Longrightarrow> m x = m' x) \<Longrightarrow> load_bytes m a n = load_bytes m' a n"
  by (induction n arbitrary: a) (auto simp: range_at_Suc)

lemma copy_bytes_outside: "x \<notin> range_at dst n \<Longrightarrow> copy_bytes m dst src n x = m x"
  by (induction n arbitrary: m dst src) (auto simp: range_at_Suc)

text \<open>Without overlap the byte loop copies the source.\<close>

lemma copy_bytes_store:
  "range_at dst n \<inter> range_at src n = {} \<Longrightarrow>
   copy_bytes m dst src n = store_bytes m dst (load_bytes m src n)"
proof (induction n arbitrary: m dst src)
  case (Suc n)
  have d: "range_at (dst + 1) n \<inter> range_at (src + 1) n = {}" "dst \<notin> range_at (src + 1) n"
    using Suc.prems by (auto simp: range_at_Suc)
  have "load_bytes (m(dst := m src)) (src + 1) n = load_bytes m (src + 1) n"
    using d(2) by (intro load_bytes_cong) auto
  then show ?case
    by (simp only: copy_bytes.simps load_bytes.simps store_bytes.simps Suc.IH [OF d(1)])
qed simp

end
