(* ===== verification/PMM.thy ===== *)
theory PMM
  imports Kumo_Prelude
begin

text \<open>
  The physical page-frame allocator, \<open>mm/pmm.c\<close>. Its static variables are the record
  \<open>pmm_state\<close>; the bitmap that \<open>pmm_init\<close> places behind the kernel image is kept as a
  list of bytes in that record (bit set = page in use), because the allocator is the only
  code that reads or writes it and, as \<open>pmm_wf\<close> says, no page it hands out lies below
  \<open>first_free\<close>, the end of the bitmap. Page indices, which the C code holds in
  \<open>uint32_t\<close> loop variables that never pass \<open>total_pages\<close>, are natural numbers.

  Two allocators share the bitmap: the kernel region (indices below \<open>kernel_end_idx\<close>)
  and the user region (indices from \<open>user_start_idx\<close>). What both promise is stated once,
  as the locales \<open>page_allocator\<close> and \<open>run_allocator\<close>, and interpreted for both.
\<close>

section \<open>State\<close>

text \<open>The kernel-owned memory map filled by \<open>multiboot_parse\<close> (\<open>mm/multiboot.h\<close>):
  the list holds the first \<open>count\<close> entries of the C array.\<close>

record usable_region =
  reg_base :: u32
  reg_length :: u32

record memory_map =
  regions :: "usable_region list"
  top_of_memory :: u32

record pmm_state =
  kernel_end_idx :: u32
  user_start_idx :: u32
  bitmap_addr :: u32
  bitmap :: "u8 list"
  total_pages :: u32
  free_pages :: u32
  bitmap_pages_count :: u32
  first_free :: u32

section \<open>Bitmap access\<close>

text \<open>\<open>bitmap[i / 8] & (1 << (i % 8))\<close>, \<open>|=\<close> and \<open>&= ~\<close>.\<close>

definition page_used :: "pmm_state \<Rightarrow> nat \<Rightarrow> bool" where
  "page_used s i \<longleftrightarrow> bitmap s ! (i div 8) AND push_bit (i mod 8) 1 \<noteq> 0"

definition mark_used :: "pmm_state \<Rightarrow> nat \<Rightarrow> pmm_state" where
  "mark_used s i = s\<lparr>bitmap := (bitmap s)[i div 8 := bitmap s ! (i div 8) OR push_bit (i mod 8) 1]\<rparr>"

definition mark_free :: "pmm_state \<Rightarrow> nat \<Rightarrow> pmm_state" where
  "mark_free s i =
     s\<lparr>bitmap := (bitmap s)[i div 8 := bitmap s ! (i div 8) AND NOT (push_bit (i mod 8) 1)]\<rparr>"

text \<open>\<open>MANAGED_BASE + i * PAGE_SIZE\<close>\<close>

definition page_addr :: "nat \<Rightarrow> u32" where
  "page_addr i = MANAGED_BASE + of_nat i * PAGE_SIZE"

section \<open>Initialisation\<close>

text \<open>Step 2 of \<open>pmm_init\<close>: the inner loop over one region, and the loop over all of them.
  The address is a \<open>uint32_t\<close> that may wrap, so the loop may run for ever.\<close>

partial_function (option) free_region_pages ::
    "pmm_state \<Rightarrow> u32 \<Rightarrow> u32 \<Rightarrow> pmm_state option" where
  "free_region_pages s addr end_addr =
     (if addr < end_addr then
        free_region_pages
          (if addr < first_free s then s
           else (mark_free s (unat ((addr - MANAGED_BASE) div PAGE_SIZE)))
                  \<lparr>free_pages := free_pages s + 1\<rparr>)
          (addr + PAGE_SIZE) end_addr
      else Some s)"

fun free_regions :: "pmm_state \<Rightarrow> u32 \<Rightarrow> usable_region list \<Rightarrow> pmm_state option" where
  "free_regions s top_mem [] = Some s"
| "free_regions s top_mem (r # rs) = do {
     let base = reg_base r;
     let end_addr = base + reg_length r;
     let base = (if base < MANAGED_BASE then MANAGED_BASE else base);
     let end_addr = (if end_addr > top_mem then top_mem else end_addr);
     s' \<leftarrow> free_region_pages s base end_addr;
     free_regions s' top_mem rs }"

text \<open>\<open>kernel_end\<close> is the address of the linker symbol \<open>_kernel_end\<close>.\<close>

definition pmm_init :: "u32 \<Rightarrow> memory_map \<Rightarrow> pmm_state option" where
  "pmm_init kernel_end mm =
     (let top_mem = top_of_memory mm;
          total = (top_mem - MANAGED_BASE) div PAGE_SIZE;
          boundary = (USER_MEM_START - MANAGED_BASE) div PAGE_SIZE;
          bitmap_bytes = (total + 7) div 8;
          pages_count = (bitmap_bytes + PAGE_SIZE - 1) div PAGE_SIZE;
          baddr = (kernel_end + PAGE_SIZE - 1) AND NOT (PAGE_SIZE - 1)
      in free_regions
           \<lparr>kernel_end_idx = boundary, user_start_idx = boundary, bitmap_addr = baddr,
            bitmap = replicate (unat bitmap_bytes) 0xFF, total_pages = total,
            free_pages = 0, bitmap_pages_count = pages_count,
            first_free = baddr + pages_count * PAGE_SIZE\<rparr>
           top_mem (regions mm))"

section \<open>Single pages\<close>

text \<open>The search loop shared by both page allocators: first clear bit in \<open>[i, lim)\<close>.\<close>

function find_free_page :: "pmm_state \<Rightarrow> nat \<Rightarrow> nat \<Rightarrow> nat option" where
  "find_free_page s i lim =
     (if i < lim then if \<not> page_used s i then Some i else find_free_page s (Suc i) lim
      else None)"
  by pat_completeness auto
termination by (relation "measure (\<lambda>(s, i, lim). lim - i)") auto

declare find_free_page.simps [simp del]

definition take_page :: "pmm_state \<Rightarrow> nat option \<Rightarrow> u32 \<times> pmm_state" where
  "take_page s r =
     (case r of None \<Rightarrow> (0, s)
      | Some i \<Rightarrow> (page_addr i, (mark_used s i)\<lparr>free_pages := free_pages s - 1\<rparr>))"

definition kernel_limit :: "pmm_state \<Rightarrow> nat" where
  "kernel_limit s = min (unat (kernel_end_idx s)) (unat (total_pages s))"

definition pmm_alloc_page :: "pmm_state \<Rightarrow> u32 \<times> pmm_state" where
  "pmm_alloc_page s = take_page s (find_free_page s 0 (kernel_limit s))"

definition pmm_alloc_user_page :: "pmm_state \<Rightarrow> u32 \<times> pmm_state" where
  "pmm_alloc_user_page s =
     take_page s (find_free_page s (unat (user_start_idx s)) (unat (total_pages s)))"

section \<open>Contiguous runs\<close>

text \<open>The search loop of the contiguous allocators with its two counters.\<close>

function find_free_run :: "pmm_state \<Rightarrow> nat \<Rightarrow> nat \<Rightarrow> nat \<Rightarrow> nat \<Rightarrow> nat \<Rightarrow> nat option" where
  "find_free_run s count consecutive start_idx i lim =
     (if i < lim then
        if \<not> page_used s i then
          (let start_idx = (if consecutive = 0 then i else start_idx);
               consecutive = consecutive + 1
           in if consecutive = count then Some start_idx
              else find_free_run s count consecutive start_idx (Suc i) lim)
        else find_free_run s count 0 start_idx (Suc i) lim
      else None)"
  by pat_completeness auto
termination by (relation "measure (\<lambda>(s, count, c, st, i, lim). lim - i)") auto

declare find_free_run.simps [simp del]

text \<open>\<open>for (j = start_idx; j < start_idx + count; j++)\<close>: set the bit, count down.\<close>

primrec mark_run :: "pmm_state \<Rightarrow> nat \<Rightarrow> nat \<Rightarrow> pmm_state" where
  "mark_run s j 0 = s"
| "mark_run s j (Suc n) = mark_run ((mark_used s j)\<lparr>free_pages := free_pages s - 1\<rparr>) (Suc j) n"

definition take_run :: "pmm_state \<Rightarrow> nat \<Rightarrow> nat option \<Rightarrow> u32 \<times> pmm_state" where
  "take_run s count r =
     (case r of None \<Rightarrow> (0, s) | Some i \<Rightarrow> (page_addr i, mark_run s i count))"

definition pmm_alloc_contiguous_pages :: "pmm_state \<Rightarrow> u32 \<Rightarrow> u32 \<times> pmm_state" where
  "pmm_alloc_contiguous_pages s count =
     (if count = 0 \<or> count > free_pages s then (0, s)
      else take_run s (unat count) (find_free_run s (unat count) 0 0 0 (kernel_limit s)))"

definition pmm_alloc_contiguous_user_pages :: "pmm_state \<Rightarrow> u32 \<Rightarrow> u32 \<times> pmm_state" where
  "pmm_alloc_contiguous_user_pages s count =
     (if count = 0 \<or> count > free_pages s then (0, s)
      else take_run s (unat count)
             (find_free_run s (unat count) 0 0 (unat (user_start_idx s)) (unat (total_pages s))))"

definition pmm_free_page_count :: "pmm_state \<Rightarrow> u32" where
  "pmm_free_page_count s = free_pages s"

section \<open>Abstract state and invariant\<close>

text \<open>The abstract state of the allocator is the set of free page indices.\<close>

definition free_set :: "pmm_state \<Rightarrow> nat set" where
  "free_set s = {i. i < unat (total_pages s) \<and> \<not> page_used s i}"

definition pmm_wf :: "pmm_state \<Rightarrow> bool" where
  "pmm_wf s \<longleftrightarrow>
     unat (total_pages s) \<le> 8 * length (bitmap s) \<and>
     0x100000 + 4096 * unat (total_pages s) < 4294967296 \<and>
     kernel_end_idx s = 1792 \<and> user_start_idx s = 1792 \<and>
     unat (free_pages s) = card (free_set s) \<and>
     (\<forall>i\<in>free_set s. unat (first_free s) \<le> 0x100000 + 4096 * i)"

definition kernel_zone :: "nat set" where
  "kernel_zone = {i. i < 1792}"

definition user_zone :: "nat set" where
  "user_zone = {i. 1792 \<le> i}"

lemma mem_zone [simp]:
  "i \<in> kernel_zone \<longleftrightarrow> i < 1792" "i \<in> user_zone \<longleftrightarrow> 1792 \<le> i"
  by (simp_all add: kernel_zone_def user_zone_def)

lemma finite_free_set [simp, intro]: "finite (free_set s)"
  by (rule finite_subset [of _ "{..<unat (total_pages s)}"]) (auto simp: free_set_def)

lemma page_used_bit: "page_used s i \<longleftrightarrow> bit (bitmap s ! (i div 8)) (i mod 8)"
  by (simp add: page_used_def byte_test_bit)

lemma div8_lt: "i < 8 * n \<Longrightarrow> i div 8 < (n :: nat)"
  by auto

lemma div_mod_8_eq: "i div 8 = j div 8 \<Longrightarrow> i mod 8 = j mod (8 :: nat) \<Longrightarrow> i = j"
  by (metis div_mult_mod_eq)

lemma page_used_mark_used:
  assumes "i < 8 * length (bitmap s)"
  shows "page_used (mark_used s i) j \<longleftrightarrow> page_used s j \<or> j = i"
  using div8_lt [OF assms] div_mod_8_eq [of i j]
  by (cases "i div 8 = j div 8") (auto simp: page_used_bit mark_used_def byte_set_bit)

lemma page_used_mark_free:
  assumes "i < 8 * length (bitmap s)"
  shows "page_used (mark_free s i) j \<longleftrightarrow> page_used s j \<and> j \<noteq> i"
  using div8_lt [OF assms] div_mod_8_eq [of i j]
  by (cases "i div 8 = j div 8") (auto simp: page_used_bit mark_free_def byte_clear_bit)

lemma mark_used_fields [simp]:
  "length (bitmap (mark_used s i)) = length (bitmap s)"
  "total_pages (mark_used s i) = total_pages s" "free_pages (mark_used s i) = free_pages s"
  "kernel_end_idx (mark_used s i) = kernel_end_idx s"
  "user_start_idx (mark_used s i) = user_start_idx s" "first_free (mark_used s i) = first_free s"
  "bitmap_addr (mark_used s i) = bitmap_addr s"
  "bitmap_pages_count (mark_used s i) = bitmap_pages_count s"
  by (simp_all add: mark_used_def)

lemma mark_free_fields [simp]:
  "length (bitmap (mark_free s i)) = length (bitmap s)"
  "total_pages (mark_free s i) = total_pages s" "free_pages (mark_free s i) = free_pages s"
  "kernel_end_idx (mark_free s i) = kernel_end_idx s"
  "user_start_idx (mark_free s i) = user_start_idx s" "first_free (mark_free s i) = first_free s"
  "bitmap_addr (mark_free s i) = bitmap_addr s"
  "bitmap_pages_count (mark_free s i) = bitmap_pages_count s"
  by (simp_all add: mark_free_def)

lemma page_used_free_pages [simp]: "page_used (s\<lparr>free_pages := n\<rparr>) i = page_used s i"
  by (simp add: page_used_def)

lemma free_set_free_pages [simp]: "free_set (s\<lparr>free_pages := n\<rparr>) = free_set s"
  by (simp add: free_set_def)

lemma free_set_mark_used:
  "i < 8 * length (bitmap s) \<Longrightarrow> free_set (mark_used s i) = free_set s - {i}"
  by (auto simp: free_set_def page_used_mark_used)

text \<open>The address of a managed page, as a number.\<close>

lemma unat_page_addr:
  "0x100000 + 4096 * i < 4294967296 \<Longrightarrow> unat (page_addr i) = 0x100000 + 4096 * i"
  unfolding page_addr_def
  by (simp add: unat_word_ariths unat_of_nat)

lemma free_set_addr:
  assumes "pmm_wf s" "i \<in> free_set s"
  shows "unat (page_addr i) = 0x100000 + 4096 * i"
  using assms by (intro unat_page_addr) (auto simp: pmm_wf_def free_set_def)

lemma page_addr_neq_0: "pmm_wf s \<Longrightarrow> i \<in> free_set s \<Longrightarrow> page_addr i \<noteq> 0"
  using free_set_addr [of s i] by (auto simp: u32_eq_iff)

lemma page_addr_inj:
  "0x100000 + 4096 * i < 4294967296 \<Longrightarrow> 0x100000 + 4096 * j < 4294967296 \<Longrightarrow>
   page_addr i = page_addr j \<longleftrightarrow> i = j"
  by (simp add: u32_eq_iff unat_page_addr)

text \<open>Taking one free page keeps the invariant.\<close>

lemma pmm_wf_take:
  assumes wf: "pmm_wf s" and i: "i \<in> free_set s"
  defines "s' \<equiv> (mark_used s i)\<lparr>free_pages := free_pages s - 1\<rparr>"
  shows "pmm_wf s' \<and> free_set s' = free_set s - {i}"
proof -
  have b: "i < 8 * length (bitmap s)"
    using wf i by (auto simp: pmm_wf_def free_set_def)
  have fs: "free_set s' = free_set s - {i}"
    by (simp add: s'_def free_set_mark_used b)
  have c: "0 < card (free_set s)"
    using i by (auto simp: card_gt_0_iff)
  then have "1 \<le> free_pages s"
    using wf by (simp add: pmm_wf_def word_le_nat_alt)
  then have "unat (free_pages s - 1) = card (free_set s')"
    using wf i fs by (simp add: unat_sub_no_wrap pmm_wf_def)
  then show ?thesis
    using wf fs by (auto simp: pmm_wf_def s'_def)
qed

section \<open>The searches\<close>

lemma find_free_page_Some:
  "find_free_page s i lim = Some k \<Longrightarrow>
   i \<le> k \<and> k < lim \<and> \<not> page_used s k \<and> (\<forall>j. i \<le> j \<and> j < k \<longrightarrow> page_used s j)"
proof (induction s i lim rule: find_free_page.induct)
  case (1 s i lim)
  show ?case
  proof (cases "i < lim \<and> page_used s i")
    case True
    then have "find_free_page s (Suc i) lim = Some k"
      using "1.prems" by (simp add: find_free_page.simps [of s i])
    then have "Suc i \<le> k \<and> k < lim \<and> \<not> page_used s k \<and> (\<forall>j. Suc i \<le> j \<and> j < k \<longrightarrow> page_used s j)"
      using "1.IH" True by blast
    then show ?thesis
      using True by (metis Suc_leI Suc_le_lessD le_neq_implies_less less_imp_le)
  next
    case False
    then show ?thesis
      using "1.prems" by (auto simp: find_free_page.simps [of s i] split: if_splits)
  qed
qed

lemma find_free_page_None:
  "find_free_page s i lim = None \<Longrightarrow> i \<le> j \<Longrightarrow> j < lim \<Longrightarrow> page_used s j"
proof (induction s i lim rule: find_free_page.induct)
  case (1 s i lim)
  have il: "i < lim"
    using "1.prems" by simp
  then have u: "page_used s i" "find_free_page s (Suc i) lim = None"
    using "1.prems"(1) by (auto simp: find_free_page.simps [of s i] split: if_splits)
  show ?case
  proof (cases "j = i")
    case False
    then show ?thesis
      using "1.IH" [OF il] u "1.prems" by simp
  qed (use u in simp)
qed

lemma find_free_run_Some:
  "find_free_run s count c st i lim = Some k \<Longrightarrow> c < count \<Longrightarrow> c \<le> i \<Longrightarrow>
   (0 < c \<longrightarrow> st = i - c) \<Longrightarrow> (\<forall>j. i - c \<le> j \<and> j < i \<longrightarrow> \<not> page_used s j) \<Longrightarrow>
   i - c \<le> k \<and> k + count \<le> lim \<and> (\<forall>j. k \<le> j \<and> j < k + count \<longrightarrow> \<not> page_used s j)"
proof (induction s count c st i lim rule: find_free_run.induct)
  case (1 s count c st i lim)
  have il: "i < lim"
    using "1.prems"(1) by (auto simp: find_free_run.simps [of s count c st i] split: if_splits)
  let ?st = "if c = 0 then i else st"
  show ?case
  proof (cases "page_used s i")
    case True
    then have "find_free_run s count 0 st (Suc i) lim = Some k"
      using "1.prems"(1) il by (simp add: find_free_run.simps [of s count c st i])
    then have "Suc i - 0 \<le> k \<and> k + count \<le> lim \<and> (\<forall>j. k \<le> j \<and> j < k + count \<longrightarrow> \<not> page_used s j)"
      using il True "1.prems"(2) by (intro "1.IH"(2)) auto
    then show ?thesis
      using "1.prems"(3) by auto
  next
    case False
    have free: "\<forall>j. i - c \<le> j \<and> j < Suc i \<longrightarrow> \<not> page_used s j"
      using "1.prems"(5) False by (auto simp: less_Suc_eq)
    have st: "?st = i - c"
      using "1.prems"(4) by auto
    show ?thesis
    proof (cases "c + 1 = count")
      case True
      then have "k = i - c"
        using "1.prems"(1) il False st
        by (simp add: find_free_run.simps [of s count c st i] Let_def)
      then show ?thesis
        using True il free "1.prems"(3) by auto
    next
      case False
      then have "find_free_run s count (c + 1) ?st (Suc i) lim = Some k"
        using "1.prems"(1) il \<open>\<not> page_used s i\<close>
        by (simp add: find_free_run.simps [of s count c st i] Let_def)
      then show ?thesis
        using "1.IH"(1) [OF il \<open>\<not> page_used s i\<close> refl refl] False "1.prems"(2,3) st free by simp
    qed
  qed
qed

text \<open>Completeness: if the search fails there is no run of the wanted length, not even one
  that starts in the pages already counted.\<close>

lemma find_free_run_None:
  "find_free_run s count c st i lim = None \<Longrightarrow> c < count \<Longrightarrow> c \<le> i \<Longrightarrow>
   (\<forall>j. i - c \<le> j \<and> j < i \<longrightarrow> \<not> page_used s j) \<Longrightarrow>
   i - c \<le> k \<Longrightarrow> k + count \<le> lim \<Longrightarrow> \<exists>j. k \<le> j \<and> j < k + count \<and> page_used s j"
proof (induction s count c st i lim rule: find_free_run.induct)
  case (1 s count c st i lim)
  show ?case
  proof (cases "i < lim")
    case False
    then show ?thesis
      using "1.prems" by auto
  next
    case il: True
    show ?thesis
    proof (cases "page_used s i")
      case True
      then have n: "find_free_run s count 0 st (Suc i) lim = None"
        using "1.prems"(1) il by (simp add: find_free_run.simps [of s count c st i])
      show ?thesis
      proof (cases "k \<le> i")
        case True
        have "i < k + count"
          using "1.prems"(2,3,5) by linarith
        then show ?thesis
          using True \<open>page_used s i\<close> by blast
      next
        case False
        then show ?thesis
          using "1.IH"(2) [OF il] True n "1.prems" by simp
      qed
    next
      case False
      let ?st = "if c = 0 then i else st"
      have "c + 1 \<noteq> count" "find_free_run s count (c + 1) ?st (Suc i) lim = None"
        using "1.prems"(1) il False
        by (auto simp: find_free_run.simps [of s count c st i] Let_def split: if_splits)
      moreover have "\<forall>j. i - c \<le> j \<and> j < Suc i \<longrightarrow> \<not> page_used s j"
        using "1.prems"(4) False by (auto simp: less_Suc_eq)
      ultimately show ?thesis
        using "1.IH"(1) [OF il False refl refl] "1.prems" by simp
    qed
  qed
qed

lemma mark_run_wf:
  "pmm_wf s \<Longrightarrow> {i..<i + n} \<subseteq> free_set s \<Longrightarrow>
   pmm_wf (mark_run s i n) \<and> free_set (mark_run s i n) = free_set s - {i..<i + n}"
proof (induction n arbitrary: s i)
  case 0
  then show ?case by simp
next
  case (Suc n)
  let ?s = "(mark_used s i)\<lparr>free_pages := free_pages s - 1\<rparr>"
  have i: "i \<in> free_set s"
    using Suc.prems by auto
  note t = pmm_wf_take [OF Suc.prems(1) i]
  have "{Suc i..<Suc i + n} \<subseteq> free_set ?s"
    using t Suc.prems(2) by auto
  then have "pmm_wf (mark_run ?s (Suc i) n) \<and>
      free_set (mark_run ?s (Suc i) n) = free_set ?s - {Suc i..<Suc i + n}"
    using t by (intro Suc.IH) auto
  moreover have "free_set s - {i} - {Suc i..<Suc i + n} = free_set s - {i..<i + Suc n}"
    by auto
  ultimately show ?case
    using t by simp
qed


text \<open>First fit: no earlier run of the wanted length exists.\<close>

lemma find_free_run_first:
  "find_free_run s count c st i lim = Some k \<Longrightarrow> c < count \<Longrightarrow> c \<le> i \<Longrightarrow>
   (0 < c \<longrightarrow> st = i - c) \<Longrightarrow> i - c \<le> k' \<Longrightarrow> k' < k \<Longrightarrow>
   \<exists>j. k' \<le> j \<and> j < k' + count \<and> page_used s j"
proof (induction s count c st i lim rule: find_free_run.induct)
  case (1 s count c st i lim)
  have il: "i < lim"
    using "1.prems"(1) by (auto simp: find_free_run.simps [of s count c st i] split: if_splits)
  let ?st = "if c = 0 then i else st"
  have st: "?st = i - c"
    using "1.prems"(4) by auto
  show ?case
  proof (cases "page_used s i")
    case True
    then have n: "find_free_run s count 0 st (Suc i) lim = Some k"
      using "1.prems"(1) il by (simp add: find_free_run.simps [of s count c st i])
    show ?thesis
    proof (cases "k' \<le> i")
      case True
      then have "i < k' + count"
        using "1.prems"(2,3,5) by linarith
      then show ?thesis
        using True \<open>page_used s i\<close> by blast
    next
      case False
      then show ?thesis
        using "1.IH"(2) [OF il] True n "1.prems" by simp
    qed
  next
    case False
    have "c + 1 \<noteq> count"
    proof
      assume "c + 1 = count"
      then have "k = i - c"
        using "1.prems"(1) il False st
        by (simp add: find_free_run.simps [of s count c st i] Let_def)
      then show False
        using "1.prems"(5,6) by simp
    qed
    then have "find_free_run s count (c + 1) ?st (Suc i) lim = Some k"
      using "1.prems"(1) il False by (simp add: find_free_run.simps [of s count c st i] Let_def)
    then show ?thesis
      using "1.IH"(1) [OF il False refl refl] \<open>c + 1 \<noteq> count\<close> st "1.prems" by simp
  qed
qed

section \<open>The interface of a page allocator\<close>

text \<open>\<open>n\<close> successive calls of a single-page allocator.\<close>

fun alloc_many :: "('s \<Rightarrow> u32 \<times> 's) \<Rightarrow> nat \<Rightarrow> 's \<Rightarrow> u32 list \<times> 's" where
  "alloc_many alloc 0 s = ([], s)"
| "alloc_many alloc (Suc n) s =
     (let (p, s') = alloc s; (ps, s'') = alloc_many alloc n s' in (p # ps, s''))"

locale page_allocator =
  fixes alloc :: "'s \<Rightarrow> u32 \<times> 's" and inv :: "'s \<Rightarrow> bool"
    and free :: "'s \<Rightarrow> nat set" and zone :: "nat set"
  assumes alloc_page: "inv s \<Longrightarrow> free s \<inter> zone \<noteq> {} \<Longrightarrow>
      \<exists>i s'. alloc s = (page_addr i, s') \<and> i \<in> free s \<inter> zone \<and> (\<forall>j\<in>free s \<inter> zone. i \<le> j) \<and>
        inv s' \<and> free s' = free s - {i}"
    and alloc_none: "inv s \<Longrightarrow> free s \<inter> zone = {} \<Longrightarrow> alloc s = (0, s)"
    and free_in_memory: "inv s \<Longrightarrow> i \<in> free s \<Longrightarrow> 0x100000 + 4096 * i < 4294967296"
    and free_finite: "finite (free s)"
begin

lemma page_addr_free: "inv s \<Longrightarrow> i \<in> free s \<Longrightarrow> page_addr i \<noteq> 0"
  using unat_page_addr [OF free_in_memory, of s i] by (auto simp: u32_eq_iff)

lemma alloc_zero_iff: "inv s \<Longrightarrow> fst (alloc s) = 0 \<longleftrightarrow> free s \<inter> zone = {}"
  using alloc_page [of s] alloc_none [of s] page_addr_free [of s] by fastforce

lemma alloc_inv: "inv s \<Longrightarrow> inv (snd (alloc s))"
  using alloc_page [of s] alloc_none [of s] by (cases "free s \<inter> zone = {}") auto

lemma alloc_free: "inv s \<Longrightarrow> alloc s = (p, s') \<Longrightarrow> p \<noteq> 0 \<Longrightarrow>
    \<exists>i. p = page_addr i \<and> i \<in> free s \<inter> zone \<and> inv s' \<and> free s' = free s - {i}"
  using alloc_page [of s] alloc_none [of s] by (cases "free s \<inter> zone = {}") auto

lemma alloc_many_pages:
  "inv s \<Longrightarrow> n \<le> card (free s \<inter> zone) \<Longrightarrow>
   \<exists>ks s'. alloc_many alloc n s = (map page_addr ks, s') \<and> length ks = n \<and> distinct ks \<and>
     set ks \<subseteq> free s \<inter> zone \<and> inv s' \<and> free s' = free s - set ks"
proof (induction n arbitrary: s)
  case 0
  then show ?case by auto
next
  case (Suc n)
  from Suc.prems(2) have "free s \<inter> zone \<noteq> {}" by auto
  then obtain i t where i: "alloc s = (page_addr i, t)" "i \<in> free s \<inter> zone"
      "inv t" "free t = free s - {i}"
    using alloc_page [OF Suc.prems(1)] by blast
  have "free t \<inter> zone = (free s \<inter> zone) - {i}"
    using i by auto
  then have "n \<le> card (free t \<inter> zone)"
    using Suc.prems(2) i(2) free_finite by (simp add: card_Diff_singleton)
  from Suc.IH [OF i(3) this] obtain ks u where u: "alloc_many alloc n t = (map page_addr ks, u)"
      "length ks = n" "distinct ks" "set ks \<subseteq> free t \<inter> zone" "inv u" "free u = free t - set ks"
    by blast
  have "alloc_many alloc (Suc n) s = (map page_addr (i # ks), u)"
    using i(1) u(1) by simp
  moreover have "distinct (i # ks)" "set (i # ks) \<subseteq> free s \<inter> zone" "free u = free s - set (i # ks)"
    using i u by auto
  ultimately show ?case
    using u(2,5) by (metis length_Cons)
qed

end

locale run_allocator =
  fixes alloc_run :: "'s \<Rightarrow> u32 \<Rightarrow> u32 \<times> 's" and inv :: "'s \<Rightarrow> bool"
    and free :: "'s \<Rightarrow> nat set" and zone :: "nat set"
  assumes run_found: "inv s \<Longrightarrow> alloc_run s n = (p, s') \<Longrightarrow> p \<noteq> 0 \<Longrightarrow>
      n \<noteq> 0 \<and> (\<exists>i. p = page_addr i \<and> {i..<i + unat n} \<subseteq> free s \<inter> zone \<and>
        inv s' \<and> free s' = free s - {i..<i + unat n})"
    and run_failed: "inv s \<Longrightarrow> alloc_run s n = (0, s') \<Longrightarrow>
      s' = s \<and> (n = 0 \<or> (\<forall>i. \<not> {i..<i + unat n} \<subseteq> free s \<inter> zone))"
begin

lemma run_inv: "inv s \<Longrightarrow> inv (snd (alloc_run s n))"
  using run_found [of s n] run_failed [of s n] by (metis prod.collapse)

lemma run_free_subset: "inv s \<Longrightarrow> free (snd (alloc_run s n)) \<subseteq> free s"
  using run_found [of s n] run_failed [of s n] by (metis Diff_subset order_refl prod.collapse)

end

section \<open>Both regions provide it\<close>

lemma kernel_limit_wf: "pmm_wf s \<Longrightarrow> kernel_limit s = min 1792 (unat (total_pages s))"
  by (simp add: kernel_limit_def pmm_wf_def)

lemma take_first_free:
  assumes wf: "pmm_wf s" and z: "\<And>i. i \<in> free_set s \<inter> zone \<longleftrightarrow> i \<in> free_set s \<and> lo \<le> i \<and> i < lim"
    and lim: "lim \<le> unat (total_pages s)"
  shows "free_set s \<inter> zone \<noteq> {} \<Longrightarrow>
      \<exists>i s'. take_page s (find_free_page s lo lim) = (page_addr i, s') \<and> i \<in> free_set s \<inter> zone \<and>
        (\<forall>j\<in>free_set s \<inter> zone. i \<le> j) \<and> pmm_wf s' \<and> free_set s' = free_set s - {i}"
    and "free_set s \<inter> zone = {} \<Longrightarrow> take_page s (find_free_page s lo lim) = (0, s)"
proof -
  assume ne: "free_set s \<inter> zone \<noteq> {}"
  show "\<exists>i s'. take_page s (find_free_page s lo lim) = (page_addr i, s') \<and> i \<in> free_set s \<inter> zone \<and>
        (\<forall>j\<in>free_set s \<inter> zone. i \<le> j) \<and> pmm_wf s' \<and> free_set s' = free_set s - {i}"
  proof (cases "find_free_page s lo lim")
    case None
    have False
      using ne z find_free_page_None [OF None] by (auto simp: free_set_def)
    then show ?thesis ..
  next
    case (Some i)
    note f = find_free_page_Some [OF Some]
    have i: "i \<in> free_set s"
      using f lim by (auto simp: free_set_def)
    moreover have "\<forall>j\<in>free_set s \<inter> zone. i \<le> j"
      using f z by (metis (no_types, lifting) free_set_def mem_Collect_eq not_le)
    moreover have "i \<in> zone"
      using i f z [of i] by auto
    ultimately show ?thesis
      using pmm_wf_take [OF wf i] Some by (auto simp: take_page_def)
  qed
next
  assume e: "free_set s \<inter> zone = {}"
  show "take_page s (find_free_page s lo lim) = (0, s)"
  proof (cases "find_free_page s lo lim")
    case (Some i)
    then have False
      using find_free_page_Some [OF Some] e z [of i] lim by (auto simp: free_set_def)
    then show ?thesis ..
  qed (simp add: take_page_def)
qed

lemma page_in_memory: "pmm_wf s \<Longrightarrow> i \<in> free_set s \<Longrightarrow> 0x100000 + 4096 * i < 4294967296"
  by (auto simp: pmm_wf_def free_set_def)

lemma take_found_run:
  assumes wf: "pmm_wf s" and z: "\<And>i. i \<in> free_set s \<inter> zone \<longleftrightarrow> i \<in> free_set s \<and> lo \<le> i \<and> i < lim"
    and lim: "lim \<le> unat (total_pages s)"
    and r: "(if n = 0 \<or> n > free_pages s then (0, s)
             else take_run s (unat n) (find_free_run s (unat n) 0 0 lo lim)) = (p, s')"
  shows "p \<noteq> 0 \<Longrightarrow> n \<noteq> 0 \<and> (\<exists>i. p = page_addr i \<and> {i..<i + unat n} \<subseteq> free_set s \<inter> zone \<and>
        pmm_wf s' \<and> free_set s' = free_set s - {i..<i + unat n})"
    and "p = 0 \<Longrightarrow> s' = s \<and> (n = 0 \<or> (\<forall>i. \<not> {i..<i + unat n} \<subseteq> free_set s \<inter> zone))"
proof -
  have found: "{i..<i + unat n} \<subseteq> free_set s \<inter> zone \<and> p = page_addr i \<and> pmm_wf s' \<and>
      free_set s' = free_set s - {i..<i + unat n} \<and> n \<noteq> 0 \<and> p \<noteq> 0"
    if n: "n \<noteq> 0" "\<not> n > free_pages s" and f: "find_free_run s (unat n) 0 0 lo lim = Some i" for i
  proof -
    have c: "0 < unat n"
      using n(1) by (simp add: unat_gt_0)
    have v: "\<forall>j. lo - 0 \<le> j \<and> j < lo \<longrightarrow> \<not> page_used s j" by auto
    have k: "lo \<le> i \<and> i + unat n \<le> lim \<and> (\<forall>j. i \<le> j \<and> j < i + unat n \<longrightarrow> \<not> page_used s j)"
      using find_free_run_Some [OF f c _ _ v] by simp
    have sub: "{i..<i + unat n} \<subseteq> free_set s \<inter> zone"
    proof
      fix x assume "x \<in> {i..<i + unat n}"
      then have "x \<in> free_set s \<and> lo \<le> x \<and> x < lim"
        using k lim by (auto simp: free_set_def)
      then show "x \<in> free_set s \<inter> zone"
        using z by blast
    qed
    then have "i \<in> free_set s"
      using c by auto
    then show ?thesis
      using mark_run_wf [OF wf, of i "unat n"] sub r n f page_addr_neq_0 [OF wf]
      by (auto simp: take_run_def)
  qed
  show "n \<noteq> 0 \<and> (\<exists>i. p = page_addr i \<and> {i..<i + unat n} \<subseteq> free_set s \<inter> zone \<and>
        pmm_wf s' \<and> free_set s' = free_set s - {i..<i + unat n})" if "p \<noteq> 0"
    using that r found by (auto simp: take_run_def split: if_splits option.splits)
  show "s' = s \<and> (n = 0 \<or> (\<forall>i. \<not> {i..<i + unat n} \<subseteq> free_set s \<inter> zone))" if p: "p = 0"
  proof (cases "n = 0 \<or> n > free_pages s")
    case True
    have "\<not> {i..<i + unat n} \<subseteq> free_set s \<inter> zone" if "n > free_pages s" for i
    proof
      assume "{i..<i + unat n} \<subseteq> free_set s \<inter> zone"
      then have "card {i..<i + unat n} \<le> card (free_set s)"
        by (intro card_mono) auto
      then show False
        using that wf by (simp add: pmm_wf_def word_less_nat_alt)
    qed
    then show ?thesis
      using True r by auto
  next
    case False
    then have c: "0 < unat n"
      by (simp add: unat_gt_0)
    have none: "find_free_run s (unat n) 0 0 lo lim = None"
      using found False p by (cases "find_free_run s (unat n) 0 0 lo lim") auto
    have "\<not> {i..<i + unat n} \<subseteq> free_set s \<inter> zone" for i
    proof
      assume sub: "{i..<i + unat n} \<subseteq> free_set s \<inter> zone"
      then have "i \<in> free_set s \<inter> zone" "i + unat n - 1 \<in> free_set s \<inter> zone"
        using c by auto
      then have "lo \<le> i" "i + unat n - 1 < lim"
        using z by blast+
      moreover have "\<forall>j. lo - 0 \<le> j \<and> j < lo \<longrightarrow> \<not> page_used s j" by auto
      ultimately have "\<exists>j. i \<le> j \<and> j < i + unat n \<and> page_used s j"
        using find_free_run_None [OF none c, of i] c by simp
      then show False
        using sub by (auto simp: free_set_def)
    qed
    then show ?thesis
      using False r none by (simp add: take_run_def)
  qed
qed

lemma kernel_zone_limits:
  "pmm_wf s \<Longrightarrow> i \<in> free_set s \<inter> kernel_zone \<longleftrightarrow> i \<in> free_set s \<and> 0 \<le> i \<and> i < kernel_limit s"
  by (auto simp: kernel_limit_wf free_set_def)

lemma user_zone_limits:
  "pmm_wf s \<Longrightarrow> i \<in> free_set s \<inter> user_zone \<longleftrightarrow>
     i \<in> free_set s \<and> unat (user_start_idx s) \<le> i \<and> i < unat (total_pages s)"
  by (auto simp: free_set_def pmm_wf_def)

interpretation kernel_page: page_allocator pmm_alloc_page pmm_wf free_set kernel_zone
  using take_first_free [OF _ kernel_zone_limits]
  by unfold_locales (auto simp: pmm_alloc_page_def kernel_limit_def dest: page_in_memory)

interpretation user_page: page_allocator pmm_alloc_user_page pmm_wf free_set user_zone
  using take_first_free [OF _ user_zone_limits]
  by unfold_locales (auto simp: pmm_alloc_user_page_def dest: page_in_memory)

interpretation kernel_run: run_allocator pmm_alloc_contiguous_pages pmm_wf free_set kernel_zone
  by unfold_locales
    (use take_found_run [OF _ kernel_zone_limits] in
      \<open>auto simp: pmm_alloc_contiguous_pages_def kernel_limit_def\<close>)

interpretation user_run: run_allocator pmm_alloc_contiguous_user_pages pmm_wf free_set user_zone
  by unfold_locales
    (use take_found_run [OF _ user_zone_limits] in \<open>auto simp: pmm_alloc_contiguous_user_pages_def\<close>)


section \<open>Initialisation is correct\<close>

text \<open>A memory map as GRUB delivers it on a PC: page-aligned regions that do not overlap and
  end at or below the top of memory.\<close>

definition region_end :: "usable_region \<Rightarrow> nat" where
  "region_end r = unat (reg_base r) + unat (reg_length r)"

definition map_ok :: "memory_map \<Rightarrow> bool" where
  "map_ok mm \<longleftrightarrow>
     4096 dvd unat (top_of_memory mm) \<and> 0x100000 \<le> unat (top_of_memory mm) \<and>
     (\<forall>r\<in>set (regions mm). 4096 dvd unat (reg_base r) \<and> 4096 dvd unat (reg_length r) \<and>
        region_end r \<le> unat (top_of_memory mm)) \<and>
     sorted_wrt (\<lambda>r r'. region_end r \<le> unat (reg_base r') \<or> region_end r' \<le> unat (reg_base r))
       (regions mm)"

text \<open>The pages that a region contributes.\<close>

definition region_pages :: "pmm_state \<Rightarrow> usable_region \<Rightarrow> nat set" where
  "region_pages s r = {i. unat (reg_base r) \<le> 0x100000 + 4096 * i \<and> 0x100000 + 4096 * i < region_end r
     \<and> unat (first_free s) \<le> 0x100000 + 4096 * i}"

lemma pmm_wf_release:
  assumes wf: "pmm_wf s" and i: "i < unat (total_pages s)" "i \<notin> free_set s"
    and f: "unat (first_free s) \<le> 0x100000 + 4096 * i"
  defines "s' \<equiv> (mark_free s i)\<lparr>free_pages := free_pages s + 1\<rparr>"
  shows "pmm_wf s' \<and> free_set s' = insert i (free_set s)"
proof -
  have b: "i < 8 * length (bitmap s)"
    using wf i by (auto simp: pmm_wf_def)
  have fs: "free_set s' = insert i (free_set s)"
    using i b by (auto simp: s'_def free_set_def page_used_mark_free)
  have "total_pages s' = total_pages s"
    by (simp add: s'_def)
  then have "free_set s' \<subseteq> {..<unat (total_pages s)}"
    by (auto simp: free_set_def)
  then have "card (free_set s') \<le> unat (total_pages s)"
    using card_mono [of "{..<unat (total_pages s)}"] by simp
  then have "unat (free_pages s + 1) = card (free_set s')"
    using wf i fs by (simp add: unat_word_ariths pmm_wf_def)
  then show ?thesis
    using wf f fs by (auto simp: pmm_wf_def s'_def)
qed

lemma free_region_pages_step:
  assumes "0x100000 + 4096 * i < 4294963200"
  shows "page_addr i + PAGE_SIZE = page_addr (Suc i)"
    and "unat ((page_addr i - MANAGED_BASE) div PAGE_SIZE) = i"
proof -
  show "page_addr i + PAGE_SIZE = page_addr (Suc i)"
    by (simp add: page_addr_def algebra_simps)
  have "unat (of_nat i * PAGE_SIZE) = i * 4096"
    using assms by (simp add: unat_word_ariths unat_of_nat)
  then have "unat (page_addr i - MANAGED_BASE) = i * 4096"
    by (simp add: page_addr_def)
  then show "unat ((page_addr i - MANAGED_BASE) div PAGE_SIZE) = i"
    by (simp add: unat_div)
qed

lemma free_region_pages_ok:
  assumes "pmm_wf s" "i \<le> j" "j \<le> unat (total_pages s)" "{i..<j} \<inter> free_set s = {}"
    "unat e = 0x100000 + 4096 * j"
  shows "\<exists>s'. free_region_pages s (page_addr i) e = Some s' \<and> pmm_wf s' \<and>
     free_set s' = free_set s \<union> {k. i \<le> k \<and> k < j \<and> unat (first_free s) \<le> 0x100000 + 4096 * k} \<and>
     first_free s' = first_free s \<and> total_pages s' = total_pages s \<and>
     bitmap_addr s' = bitmap_addr s \<and> length (bitmap s') = length (bitmap s)"
  using assms
proof (induction "j - i" arbitrary: s i)
  case 0
  then have "i = j" by simp
  moreover have "unat (page_addr j) = 0x100000 + 4096 * j"
    using 0 by (intro unat_page_addr) (auto simp: pmm_wf_def)
  ultimately show ?case
    using 0 by (subst free_region_pages.simps) (auto simp: word_less_nat_alt)
next
  case (Suc n)
  have ij: "i < j" and lt: "0x100000 + 4096 * i < 4294963200"
    using Suc.hyps(2) Suc.prems by (auto simp: pmm_wf_def)
  have addr: "unat (page_addr i) = 0x100000 + 4096 * i"
    using lt by (intro unat_page_addr) simp
  note st = free_region_pages_step [OF lt]
  let ?s = "if page_addr i < first_free s then s
            else (mark_free s i)\<lparr>free_pages := free_pages s + 1\<rparr>"
  have i: "i < unat (total_pages s)" "i \<notin> free_set s"
    using Suc.prems ij by auto
  have s: "pmm_wf ?s" "free_set ?s = free_set s \<union> (if page_addr i < first_free s then {} else {i})"
    "first_free ?s = first_free s" "total_pages ?s = total_pages s"
    "bitmap_addr ?s = bitmap_addr s" "length (bitmap ?s) = length (bitmap s)"
    using Suc.prems(1) pmm_wf_release [OF Suc.prems(1) i] addr by (auto simp: word_less_nat_alt)
  have "free_region_pages s (page_addr i) e = free_region_pages ?s (page_addr (Suc i)) e"
    using ij addr Suc.prems(5) st
    by (subst free_region_pages.simps) (simp add: word_less_nat_alt)
  moreover have "\<exists>s'. free_region_pages ?s (page_addr (Suc i)) e = Some s' \<and> pmm_wf s' \<and>
     free_set s' = free_set ?s \<union> {k. Suc i \<le> k \<and> k < j \<and> unat (first_free ?s) \<le> 0x100000 + 4096 * k} \<and>
     first_free s' = first_free ?s \<and> total_pages s' = total_pages ?s \<and>
     bitmap_addr s' = bitmap_addr ?s \<and> length (bitmap s') = length (bitmap ?s)"
  proof (rule Suc.hyps(1))
    have "{Suc i..<j} \<subseteq> {i..<j} - {i}" by auto
    then show "{Suc i..<j} \<inter> free_set ?s = {}"
      using Suc.prems(4) s(2) by (auto split: if_splits)
  qed (use Suc.prems Suc.hyps(2) s ij in auto)
  moreover have "free_set ?s \<union> {k. Suc i \<le> k \<and> k < j \<and> unat (first_free ?s) \<le> 0x100000 + 4096 * k} =
      free_set s \<union> {k. i \<le> k \<and> k < j \<and> unat (first_free s) \<le> 0x100000 + 4096 * k}"
  proof (cases "page_addr i < first_free s")
    case True
    then have "unat (first_free s) \<le> 0x100000 + 4096 * k \<Longrightarrow> k \<noteq> i" for k
      using addr by (auto simp: word_less_nat_alt)
    moreover have "i \<le> k \<longleftrightarrow> k = i \<or> Suc i \<le> k" for k
      by auto
    ultimately show ?thesis
      using True by auto
  next
    case False
    then have "unat (first_free s) \<le> 0x100000 + 4096 * i"
      using addr by (simp add: word_less_nat_alt)
    moreover have "i \<le> k \<longleftrightarrow> k = i \<or> Suc i \<le> k" for k
      by auto
    ultimately show ?thesis
      using False s(2,3) ij by auto
  qed
  ultimately show ?case
    using s by auto
qed

lemma page_addr_of_aligned:
  assumes "4096 dvd unat a" "0x100000 \<le> unat a"
  shows "a = page_addr ((unat a - 0x100000) div 4096)"
    and "unat a = 0x100000 + 4096 * ((unat a - 0x100000) div 4096)"
proof -
  have "4096 dvd unat a - 0x100000"
    using assms(1) by (intro dvd_diff_nat) auto
  then show e: "unat a = 0x100000 + 4096 * ((unat a - 0x100000) div 4096)"
    using assms(2) by simp
  have "0x100000 + 4096 * ((unat a - 0x100000) div 4096) < 4294967296"
    using e unat_u32_lt [of a] by linarith
  then have "unat (page_addr ((unat a - 0x100000) div 4096)) = unat a"
    by (rule unat_page_addr [THEN trans, OF _ e [symmetric]])
  then show "a = page_addr ((unat a - 0x100000) div 4096)"
    by (simp only: u32_eq_iff)
qed

lemma free_region_pages_clamped:
  assumes wf: "pmm_wf s" and al: "4096 dvd unat (reg_base r)" "4096 dvd unat (reg_length r)"
    and e: "region_end r \<le> unat top_mem" and t: "unat top_mem = 0x100000 + 4096 * unat (total_pages s)"
    and disj: "region_pages s r \<inter> free_set s = {}"
    and first: "\<forall>i\<in>free_set s. unat (first_free s) \<le> 0x100000 + 4096 * i"
  shows "\<exists>s'. free_region_pages s
      (if reg_base r < MANAGED_BASE then MANAGED_BASE else reg_base r)
      (if reg_base r + reg_length r > top_mem then top_mem else reg_base r + reg_length r) = Some s' \<and>
    pmm_wf s' \<and> free_set s' = free_set s \<union> region_pages s r \<and> first_free s' = first_free s \<and>
    total_pages s' = total_pages s \<and> bitmap_addr s' = bitmap_addr s \<and>
    length (bitmap s') = length (bitmap s)"
proof -
  let ?b = "if reg_base r < MANAGED_BASE then MANAGED_BASE else reg_base r"
  let ?e = "reg_base r + reg_length r"
  have ue: "unat ?e = region_end r"
    unfolding region_end_def using e unat_u32_lt [of top_mem]
    by (intro unat_add_no_wrap) (unfold region_end_def, linarith)
  then have le: "\<not> ?e > top_mem"
    using e by (simp add: word_less_nat_alt)
  have ub: "unat ?b = max 0x100000 (unat (reg_base r))"
    by (simp add: word_less_nat_alt)
  have alb: "4096 dvd unat ?b" "0x100000 \<le> unat ?b"
    using al(1) by (simp_all add: max_def ub)
  have ale: "4096 dvd unat ?e"
    using al by (simp add: ue region_end_def)
  define i where "i = (unat ?b - 0x100000) div 4096"
  have bi: "?b = page_addr i" "unat ?b = 0x100000 + 4096 * i"
    using page_addr_of_aligned [OF alb] by (simp_all add: i_def)
  show ?thesis
  proof (cases "unat ?b < unat ?e")
    case False
    then have "free_region_pages s ?b ?e = Some s"
      by (subst free_region_pages.simps) (simp add: word_less_nat_alt)
    moreover have "region_pages s r = {}"
      using False ue ub by (auto simp: region_pages_def)
    ultimately show ?thesis
      using wf le by simp
  next
    case True
    then have "0x100000 \<le> unat ?e"
      using alb by linarith
    then obtain j where j: "unat ?e = 0x100000 + 4096 * j"
      using page_addr_of_aligned(2) [OF ale] by blast
    have ij: "i \<le> j" and jt: "j \<le> unat (total_pages s)"
      using True bi j e t ue by auto
    have rp: "region_pages s r = {k. i \<le> k \<and> k < j \<and> unat (first_free s) \<le> 0x100000 + 4096 * k}"
      using ub bi j ue by (auto simp: region_pages_def max_def split: if_splits)
    have "{i..<j} \<inter> free_set s = {}"
      using disj first rp by auto
    from free_region_pages_ok [OF wf ij jt this j] show ?thesis
      using bi(1) le rp by auto
  qed
qed

lemma free_regions_ok:
  assumes "pmm_wf s" "unat top_mem = 0x100000 + 4096 * unat (total_pages s)"
    "\<forall>r\<in>set rs. 4096 dvd unat (reg_base r) \<and> 4096 dvd unat (reg_length r) \<and> region_end r \<le> unat top_mem"
    "sorted_wrt (\<lambda>r r'. region_end r \<le> unat (reg_base r') \<or> region_end r' \<le> unat (reg_base r)) rs"
    "\<forall>r\<in>set rs. region_pages s r \<inter> free_set s = {}"
  shows "\<exists>s'. free_regions s top_mem rs = Some s' \<and> pmm_wf s' \<and>
     free_set s' = free_set s \<union> (\<Union>r\<in>set rs. region_pages s r) \<and> first_free s' = first_free s \<and>
     total_pages s' = total_pages s \<and> bitmap_addr s' = bitmap_addr s \<and>
     length (bitmap s') = length (bitmap s)"
  using assms
proof (induction rs arbitrary: s)
  case Nil
  then show ?case by simp
next
  case (Cons r rs)
  have first: "\<forall>i\<in>free_set s. unat (first_free s) \<le> 0x100000 + 4096 * i"
    using Cons.prems(1) by (simp add: pmm_wf_def)
  from free_region_pages_clamped [OF Cons.prems(1) _ _ _ Cons.prems(2) _ first, of r] Cons.prems(3,5)
  obtain t where t: "free_region_pages s
      (if reg_base r < MANAGED_BASE then MANAGED_BASE else reg_base r)
      (if reg_base r + reg_length r > top_mem then top_mem else reg_base r + reg_length r) = Some t"
    "pmm_wf t" "free_set t = free_set s \<union> region_pages s r" "first_free t = first_free s"
    "total_pages t = total_pages s" "bitmap_addr t = bitmap_addr s"
    "length (bitmap t) = length (bitmap s)"
    by auto
  have rp: "region_pages t = region_pages s"
    using t(4) by (auto simp: region_pages_def fun_eq_iff)
  have "\<forall>r'\<in>set rs. region_pages s r' \<inter> region_pages s r = {}"
    using Cons.prems(4) by (fastforce simp: region_pages_def)
  then have "\<exists>s'. free_regions t top_mem rs = Some s' \<and> pmm_wf s' \<and>
     free_set s' = free_set t \<union> (\<Union>r\<in>set rs. region_pages t r) \<and> first_free s' = first_free t \<and>
     total_pages s' = total_pages t \<and> bitmap_addr s' = bitmap_addr t \<and>
     length (bitmap s') = length (bitmap t)"
    using Cons.prems t rp by (intro Cons.IH) auto
  then show ?case
    using t rp by (auto simp: Let_def)
qed


lemma full_byte_bit:
  assumes "k < 8" shows "bit (0xFF :: u8) k"
proof -
  have "(0xFF :: u8) = mask 8"
    by (simp add: mask_eq_exp_minus_1)
  moreover have "bit (mask 8 :: u8) k"
    using assms by (simp only: bit_mask_iff) simp
  ultimately show ?thesis
    by metis
qed

lemma align_up_unat:
  assumes "unat a + 4096 < 4294967296"
  shows "unat a \<le> unat ((a + PAGE_SIZE - 1) AND NOT (PAGE_SIZE - 1))"
    and "unat ((a + PAGE_SIZE - 1) AND NOT (PAGE_SIZE - 1)) < unat a + 4096"
    and "4096 dvd unat ((a + PAGE_SIZE - 1) AND NOT (PAGE_SIZE - 1))"
proof -
  let ?b = "a + PAGE_SIZE - 1"
  have ub: "unat ?b = unat a + 4095"
  proof -
    have "?b = a + 4095" by simp
    then show ?thesis
      using assms by (simp add: unat_add_no_wrap)
  qed
  have "?b AND NOT (PAGE_SIZE - 1) = ?b - ?b mod 4096"
    using and_not_fff [of ?b] by simp
  moreover have "unat (?b - ?b mod 4096) = unat ?b - unat ?b mod 4096"
    by (simp add: unat_sub_no_wrap word_le_nat_alt unat_mod)
  ultimately have e: "unat (?b AND NOT (PAGE_SIZE - 1)) = unat a + 4095 - (unat a + 4095) mod 4096"
    using ub by simp
  have d: "unat a + 4095 - (unat a + 4095) mod 4096 = 4096 * ((unat a + 4095) div 4096)"
    by (simp add: minus_mod_eq_mult_div)
  show "4096 dvd unat (?b AND NOT (PAGE_SIZE - 1))"
    unfolding e d by simp
  have "(unat a + 4095) mod 4096 < 4096" by simp
  then show "unat a \<le> unat (?b AND NOT (PAGE_SIZE - 1))"
    "unat (?b AND NOT (PAGE_SIZE - 1)) < unat a + 4096"
    unfolding e by linarith+
qed

section \<open>Properties\<close>

lemma pmm_init_ok:
  assumes mm: "map_ok mm" and k: "unat kernel_end \<le> 0x800000"
  shows "\<exists>s. pmm_init kernel_end mm = Some s \<and> pmm_wf s \<and>
    free_set s = (\<Union>r\<in>set (regions mm). region_pages s r) \<and>
    unat kernel_end \<le> unat (bitmap_addr s) \<and>
    unat (bitmap_addr s) + length (bitmap s) \<le> unat (first_free s) \<and>
    4096 dvd unat (first_free s)"
proof -
  define t where "t = top_of_memory mm"
  define total where "total = (t - MANAGED_BASE) div PAGE_SIZE"
  define bytes where "bytes = (total + 7) div 8"
  define pgs where "pgs = (bytes + PAGE_SIZE - 1) div PAGE_SIZE"
  define base where "base = (kernel_end + PAGE_SIZE - 1) AND NOT (PAGE_SIZE - 1)"
  define s0 where "s0 = \<lparr>kernel_end_idx = 1792, user_start_idx = 1792, bitmap_addr = base,
    bitmap = replicate (unat bytes) 0xFF, total_pages = total, free_pages = 0,
    bitmap_pages_count = pgs, first_free = base + pgs * PAGE_SIZE\<rparr>"
  have t: "4096 dvd unat t" "0x100000 \<le> unat t"
    using mm by (simp_all add: map_ok_def t_def)
  then have "unat total = (unat t - 0x100000) div 4096"
    by (simp add: total_def unat_div unat_sub_no_wrap word_le_nat_alt)
  then have tot: "unat t = 0x100000 + 4096 * unat total" "unat total \<le> 1048319"
    using page_addr_of_aligned(2) [OF t] unat_u32_le [of t] by linarith+
  have bytes: "unat bytes = (unat total + 7) div 8"
    using tot(2) by (simp add: bytes_def unat_div unat_add_no_wrap)
  have "bytes + PAGE_SIZE - 1 = bytes + 4095" by simp
  then have pgs: "unat pgs = (unat bytes + 4095) div 4096"
    using bytes tot(2) by (simp add: pgs_def unat_div unat_add_no_wrap)
  have "unat bytes \<le> 4096 * unat pgs"
    using div_mult_mod_eq [of "unat bytes + 4095" 4096] mod_less_divisor [of 4096 "unat bytes + 4095"]
    by (simp add: pgs)
  moreover have "4096 * unat pgs \<le> 0x200000"
    using pgs bytes tot(2) by linarith
  ultimately have len: "unat bytes \<le> 4096 * unat pgs" "unat (pgs * PAGE_SIZE) = 4096 * unat pgs"
    "4096 * unat pgs \<le> 0x200000"
    by (simp_all add: unat_mult_no_wrap)
  have "unat kernel_end + 4096 < 4294967296"
    using k by simp
  note base = align_up_unat [OF this, folded base_def]
  have ff: "unat (first_free s0) = unat base + 4096 * unat pgs"
    using base(2) k len by (simp add: s0_def unat_add_no_wrap)
  have used: "page_used s0 i" if "i < unat total" for i
  proof -
    have "i div 8 < unat bytes"
      using that bytes by linarith
    then show ?thesis
      using full_byte_bit [of "i mod 8"] by (simp add: page_used_bit s0_def)
  qed
  then have fs0: "free_set s0 = {}"
    by (auto simp: free_set_def s0_def)
  then have wf: "pmm_wf s0"
    using bytes tot unat_u32_lt [of t] by (simp add: pmm_wf_def s0_def)
  have "pmm_init kernel_end mm = free_regions s0 t (regions mm)"
    by (simp add: pmm_init_def Let_def s0_def t_def total_def bytes_def pgs_def base_def)
  moreover have "\<exists>s'. free_regions s0 t (regions mm) = Some s' \<and> pmm_wf s' \<and>
     free_set s' = free_set s0 \<union> (\<Union>r\<in>set (regions mm). region_pages s0 r) \<and>
     first_free s' = first_free s0 \<and> total_pages s' = total_pages s0 \<and>
     bitmap_addr s' = bitmap_addr s0 \<and> length (bitmap s') = length (bitmap s0)"
    using mm tot fs0 by (intro free_regions_ok [OF wf]) (auto simp: map_ok_def t_def s0_def)
  ultimately obtain s' where s': "pmm_init kernel_end mm = Some s'" "pmm_wf s'"
    "free_set s' = free_set s0 \<union> (\<Union>r\<in>set (regions mm). region_pages s0 r)"
    "first_free s' = first_free s0" "bitmap_addr s' = bitmap_addr s0"
    "length (bitmap s') = length (bitmap s0)"
    by auto
  have "region_pages s' = region_pages s0"
    using s'(4) by (auto simp: region_pages_def fun_eq_iff)
  moreover have "4096 dvd unat (first_free s0)"
    using base(3) by (simp add: ff)
  moreover have "bitmap_addr s0 = base" "length (bitmap s0) = unat bytes"
    by (simp_all add: s0_def)
  ultimately show ?thesis
    using s' fs0 base(1) len(1) ff by (intro exI [of _ s']) simp
qed

text \<open>C1: \<open>pmm_init\<close> terminates on every page-aligned, non-overlapping memory map; it frees exactly
  the pages of the usable regions that lie at or above \<open>first_free\<close>; the kernel image and
  the bitmap lie below \<open>first_free\<close>; and \<open>free_pages\<close> counts the clear bits (\<open>pmm_wf\<close>).\<close>

theorem pmm_init_correct:
  assumes mm: "map_ok mm" and k: "unat kernel_end \<le> 0x800000"
  shows "\<exists>s. pmm_init kernel_end mm = Some s \<and> pmm_wf s \<and>
    free_set s = (\<Union>r\<in>set (regions mm). region_pages s r) \<and>
    unat kernel_end \<le> unat (bitmap_addr s) \<and>
    unat (bitmap_addr s) + length (bitmap s) \<le> unat (first_free s) \<and>
    4096 dvd unat (first_free s)"
  by (rule pmm_init_ok [OF assms])

text \<open>C2: \<open>pmm_alloc_page\<close> is a first-fit search of the kernel region: it returns 0, changing
  nothing, exactly when no kernel page is free, and otherwise the lowest free kernel page,
  which it takes out of the free set.\<close>

theorem pmm_alloc_page_first_fit:
  assumes "pmm_wf s"
  shows "pmm_alloc_page s = (0, s) \<and> free_set s \<inter> kernel_zone = {} \<or>
    (\<exists>i s'. pmm_alloc_page s = (page_addr i, s') \<and> page_addr i \<noteq> 0 \<and>
       i \<in> free_set s \<inter> kernel_zone \<and> (\<forall>j\<in>free_set s \<inter> kernel_zone. i \<le> j) \<and>
       pmm_wf s' \<and> free_set s' = free_set s - {i} \<and>
       unat (free_pages s') = unat (free_pages s) - 1)"
proof (cases "free_set s \<inter> kernel_zone = {}")
  case True
  then show ?thesis
    using kernel_page.alloc_none [OF assms] by simp
next
  case False
  from kernel_page.alloc_page [OF assms False] obtain i s' where
    i: "pmm_alloc_page s = (page_addr i, s')" "i \<in> free_set s \<inter> kernel_zone"
      "\<forall>j\<in>free_set s \<inter> kernel_zone. i \<le> j" "pmm_wf s'" "free_set s' = free_set s - {i}"
    by blast
  have "unat (free_pages s') = unat (free_pages s) - 1"
    using assms i by (simp add: pmm_wf_def)
  then show ?thesis
    using i page_addr_neq_0 [OF assms, of i] by blast
qed

text \<open>\<open>pmm_alloc_contiguous_pages\<close> is complete and first-fit: it returns 0 exactly when no run
  of \<open>count\<close> free pages exists in the kernel region; otherwise it returns the lowest such
  run and takes exactly its pages.\<close>

theorem pmm_alloc_contiguous_first_fit:
  assumes "pmm_wf s" and "count \<noteq> 0"
  shows "pmm_alloc_contiguous_pages s count = (0, s) \<and>
      (\<forall>i. \<not> {i..<i + unat count} \<subseteq> free_set s \<inter> kernel_zone) \<or>
    (\<exists>i s'. pmm_alloc_contiguous_pages s count = (page_addr i, s') \<and> page_addr i \<noteq> 0 \<and>
       {i..<i + unat count} \<subseteq> free_set s \<inter> kernel_zone \<and>
       (\<forall>k<i. \<not> {k..<k + unat count} \<subseteq> free_set s \<inter> kernel_zone) \<and>
       pmm_wf s' \<and> free_set s' = free_set s - {i..<i + unat count})"
proof -
  obtain p s' where r: "pmm_alloc_contiguous_pages s count = (p, s')"
    by fastforce
  show ?thesis
  proof (cases "p = 0")
    case True
    then show ?thesis
      using kernel_run.run_failed [OF assms(1)] r assms(2) by blast
  next
    case False
    from kernel_run.run_found [OF assms(1) r False] obtain i where
      i: "p = page_addr i" "{i..<i + unat count} \<subseteq> free_set s \<inter> kernel_zone" "pmm_wf s'"
        "free_set s' = free_set s - {i..<i + unat count}"
      by blast
    have c: "0 < unat count"
      using assms(2) by (simp add: unat_gt_0)
    obtain j where j: "find_free_run s (unat count) 0 0 0 (kernel_limit s) = Some j" "p = page_addr j"
      using r False
      by (auto simp: pmm_alloc_contiguous_pages_def take_run_def split: if_splits option.splits)
    have "j + unat count \<le> kernel_limit s" "i \<in> free_set s"
      using find_free_run_Some [OF j(1) c] i(2) c by auto
    moreover have "0x100000 + 4096 * j < 4294967296"
      using calculation(1) assms(1) by (simp add: kernel_limit_def pmm_wf_def)
    ultimately have "j = i"
      using i(1) j(2) page_in_memory [OF assms(1)] page_addr_inj by metis
    have "\<not> {k..<k + unat count} \<subseteq> free_set s \<inter> kernel_zone" if "k < i" for k
    proof
      assume "{k..<k + unat count} \<subseteq> free_set s \<inter> kernel_zone"
      moreover have "\<exists>m. k \<le> m \<and> m < k + unat count \<and> page_used s m"
        using find_free_run_first [OF j(1) c, of k] that \<open>j = i\<close> by auto
      ultimately show False
        by (auto simp: free_set_def)
    qed
    then show ?thesis
      using r i False by blast
  qed
qed

section \<open>Sequences of allocations\<close>

text \<open>Any interleaving of the four allocation calls, with the grants it returns: the start
  address and the number of pages of every call that succeeded.\<close>

datatype pmm_call = Alloc_page | Alloc_user_page | Alloc_run u32 | Alloc_user_run u32

fun pmm_do :: "pmm_call \<Rightarrow> pmm_state \<Rightarrow> (u32 \<times> nat) \<times> pmm_state" where
  "pmm_do Alloc_page s = (let (p, s') = pmm_alloc_page s in ((p, 1), s'))"
| "pmm_do Alloc_user_page s = (let (p, s') = pmm_alloc_user_page s in ((p, 1), s'))"
| "pmm_do (Alloc_run n) s = (let (p, s') = pmm_alloc_contiguous_pages s n in ((p, unat n), s'))"
| "pmm_do (Alloc_user_run n) s =
     (let (p, s') = pmm_alloc_contiguous_user_pages s n in ((p, unat n), s'))"

fun pmm_trace :: "pmm_call list \<Rightarrow> pmm_state \<Rightarrow> (u32 \<times> nat) list \<times> pmm_state" where
  "pmm_trace [] s = ([], s)"
| "pmm_trace (c # cs) s =
     (let (g, s') = pmm_do c s; (gs, s'') = pmm_trace cs s'
      in (if fst g = 0 then gs else g # gs, s''))"

fun call_zone :: "pmm_call \<Rightarrow> nat set" where
  "call_zone Alloc_page = kernel_zone"
| "call_zone (Alloc_run n) = kernel_zone"
| "call_zone Alloc_user_page = user_zone"
| "call_zone (Alloc_user_run n) = user_zone"

text \<open>The bytes of a grant.\<close>

fun grant_bytes :: "u32 \<times> nat \<Rightarrow> nat set" where
  "grant_bytes (p, n) = {unat p ..< unat p + 4096 * n}"

lemma mark_run_fields [simp]:
  "first_free (mark_run s i n) = first_free s" "total_pages (mark_run s i n) = total_pages s"
  by (induction n arbitrary: s i) simp_all

lemma take_page_fields:
  "take_page s r = (p, s') \<Longrightarrow> first_free s' = first_free s \<and> total_pages s' = total_pages s"
  by (auto simp: take_page_def split: option.splits)

lemma take_run_fields:
  "take_run s n r = (p, s') \<Longrightarrow> first_free s' = first_free s \<and> total_pages s' = total_pages s"
  by (auto simp: take_run_def split: option.splits)

lemma pmm_do_fields:
  "pmm_do c s = (g, s') \<Longrightarrow> first_free s' = first_free s \<and> total_pages s' = total_pages s"
  by (cases c) (auto simp: pmm_alloc_page_def pmm_alloc_user_page_def
      pmm_alloc_contiguous_pages_def pmm_alloc_contiguous_user_pages_def
      dest: take_page_fields take_run_fields split: prod.splits if_splits)

lemma pmm_do_grant:
  assumes wf: "pmm_wf s" and d: "pmm_do c s = ((p, n), s')" and p: "p \<noteq> 0"
  shows "\<exists>i. p = page_addr i \<and> {i..<i + n} \<subseteq> free_set s \<inter> call_zone c \<and> i \<in> free_set s \<and>
    pmm_wf s' \<and> free_set s' = free_set s - {i..<i + n}"
proof -
  have one: "{i..<i + 1} = {i}" for i :: nat by auto
  have first: "i \<in> free_set s" if "{i..<i + unat m} \<subseteq> free_set s \<inter> z" "m \<noteq> 0" for i m z
    using that by (auto simp: unat_gt_0 subset_iff)
  show ?thesis
  proof (cases c)
    case Alloc_page
    then show ?thesis
      using d p kernel_page.alloc_free [OF wf, of p s']
      by (fastforce simp: one split: prod.splits)
  next
    case Alloc_user_page
    then show ?thesis
      using d p user_page.alloc_free [OF wf, of p s']
      by (fastforce simp: one split: prod.splits)
  next
    case (Alloc_run m)
    then have "pmm_alloc_contiguous_pages s m = (p, s')" "n = unat m"
      using d by (auto split: prod.splits)
    then show ?thesis
      using kernel_run.run_found [OF wf _ p, of m s'] first Alloc_run by fastforce
  next
    case (Alloc_user_run m)
    then have "pmm_alloc_contiguous_user_pages s m = (p, s')" "n = unat m"
      using d by (auto split: prod.splits)
    then show ?thesis
      using user_run.run_found [OF wf _ p, of m s'] first Alloc_user_run by fastforce
  qed
qed

lemma pmm_do_none:
  assumes wf: "pmm_wf s" and d: "pmm_do c s = ((0, n), s')"
  shows "s' = s"
  using d
proof (cases c)
  case Alloc_page
  then show ?thesis
    using d kernel_page.alloc_zero_iff [OF wf] kernel_page.alloc_none [OF wf]
    by (auto split: prod.splits)
next
  case Alloc_user_page
  then show ?thesis
    using d user_page.alloc_zero_iff [OF wf] user_page.alloc_none [OF wf]
    by (auto split: prod.splits)
next
  case (Alloc_run m)
  then show ?thesis
    using d kernel_run.run_failed [OF wf] by (auto split: prod.splits)
next
  case (Alloc_user_run m)
  then show ?thesis
    using d user_run.run_failed [OF wf] by (auto split: prod.splits)
qed

lemma grant_bytes_page:
  "pmm_wf s \<Longrightarrow> i \<in> free_set s \<Longrightarrow>
   grant_bytes (page_addr i, n) = {0x100000 + 4096 * i ..< 0x100000 + 4096 * (i + n)}"
  by (simp add: free_set_addr algebra_simps)

lemma pmm_trace_grants:
  "pmm_wf s \<Longrightarrow> pmm_trace cs s = (gs, s') \<Longrightarrow>
   pmm_wf s' \<and> first_free s' = first_free s \<and> total_pages s' = total_pages s \<and>
   free_set s' \<subseteq> free_set s \<and>
   sorted_wrt (\<lambda>g h. grant_bytes g \<inter> grant_bytes h = {}) gs \<and>
   (\<forall>g\<in>set gs. \<exists>i n. g = (page_addr i, n) \<and> i \<in> free_set s \<and> {i..<i + n} \<subseteq> free_set s)"
proof (induction cs arbitrary: s gs)
  case Nil
  then show ?case by simp
next
  case (Cons c cs)
  obtain p n t where d: "pmm_do c s = ((p, n), t)"
    by (metis prod.collapse)
  obtain hs where h: "pmm_trace cs t = (hs, s')" "gs = (if p = 0 then hs else (p, n) # hs)"
    using Cons.prems(2) d by (auto split: prod.splits)
  show ?case
  proof (cases "p = 0")
    case True
    then have "t = s"
      using pmm_do_none [OF Cons.prems(1)] d by blast
    then show ?thesis
      using Cons.IH [OF Cons.prems(1)] h True by simp
  next
    case False
    from pmm_do_grant [OF Cons.prems(1) d False] obtain i where
      i: "p = page_addr i" "{i..<i + n} \<subseteq> free_set s" "i \<in> free_set s" "pmm_wf t"
        "free_set t = free_set s - {i..<i + n}"
      by auto
    note ih = Cons.IH [OF i(4) h(1)]
    have "grant_bytes (p, n) \<inter> grant_bytes g = {}" if g: "g \<in> set hs" for g
    proof -
      obtain j m where j: "g = (page_addr j, m)" "j \<in> free_set t" "{j..<j + m} \<subseteq> free_set t"
        using ih g by blast
      have "{i..<i + n} \<inter> {j..<j + m} = {}" "j \<in> free_set s"
        using j i(5) by blast+
      then have "i + n \<le> j \<or> j + m \<le> i \<or> n = 0 \<or> m = 0"
        by (simp add: ivl_disjoint_iff) auto
      then show ?thesis
        unfolding i(1) j(1) grant_bytes_page [OF Cons.prems(1) i(3)]
          grant_bytes_page [OF Cons.prems(1) \<open>j \<in> free_set s\<close>]
        by auto
    qed
    moreover have "\<exists>j m. g = (page_addr j, m) \<and> j \<in> free_set s \<and> {j..<j + m} \<subseteq> free_set s"
      if "g \<in> set gs" for g
    proof (cases "g = (p, n)")
      case False
      then have "g \<in> set hs"
        using that h(2) by (simp split: if_splits)
      then show ?thesis
        using ih i(5) by blast
    qed (use i in blast)
    ultimately show ?thesis
      using ih h(2) False i(5) pmm_do_fields [OF d] by auto
  qed
qed

text \<open>C3: over any interleaving of the four allocation calls no byte is ever granted twice, and no
  grant reaches below \<open>first_free\<close> (the kernel image and the bitmap) or past managed memory.\<close>

theorem pmm_no_double_allocation:
  assumes "pmm_wf s" and "pmm_trace cs s = (gs, s')"
  shows "pmm_wf s' \<and> sorted_wrt (\<lambda>g h. grant_bytes g \<inter> grant_bytes h = {}) gs \<and>
    (\<forall>g\<in>set gs. grant_bytes g \<subseteq>
       {unat (first_free s) ..< 0x100000 + 4096 * unat (total_pages s)})"
proof -
  note t = pmm_trace_grants [OF assms]
  have "grant_bytes g \<subseteq> {unat (first_free s) ..< 0x100000 + 4096 * unat (total_pages s)}"
    if "g \<in> set gs" for g
  proof -
    obtain i n where g: "g = (page_addr i, n)" "i \<in> free_set s" "{i..<i + n} \<subseteq> free_set s"
      using t \<open>g \<in> set gs\<close> by blast
    have "unat (first_free s) \<le> 0x100000 + 4096 * i"
      using assms(1) g(2) by (simp add: pmm_wf_def)
    moreover have "n = 0 \<or> i + n - 1 < unat (total_pages s)"
      using g(3) by (cases n) (auto simp: free_set_def subset_iff)
    ultimately show ?thesis
      unfolding g(1) grant_bytes_page [OF assms(1) g(2)] by auto
  qed
  then show ?thesis
    using t by blast
qed

text \<open>the two regions are separate: every page of a kernel-region call lies below
  \<open>USER_MEM_START\<close>, every page of a user-region call at or above it.\<close>

theorem pmm_region_separation:
  assumes "pmm_wf s" and "pmm_do c s = ((p, n), s')" and "p \<noteq> 0"
  shows "if call_zone c = kernel_zone then grant_bytes (p, n) \<subseteq> {0x100000 ..< unat USER_MEM_START}
    else grant_bytes (p, n) \<subseteq> {unat USER_MEM_START ..}"
proof -
  obtain i where i: "p = page_addr i" "{i..<i + n} \<subseteq> free_set s \<inter> call_zone c" "i \<in> free_set s"
    using pmm_do_grant [OF assms] by blast
  have bytes: "grant_bytes (p, n) = {0x100000 + 4096 * i ..< 0x100000 + 4096 * (i + n)}"
    unfolding i(1) by (rule grant_bytes_page [OF assms(1) i(3)])
  have run: "n = 0 \<or> i \<in> call_zone c \<and> i + n - 1 \<in> call_zone c"
    using i(2) by (cases n) auto
  show ?thesis
  proof (cases "call_zone c = kernel_zone")
    case True
    then have "n = 0 \<or> i + n \<le> 1792"
      using run by auto
    then have "0x100000 + 4096 * (i + n) \<le> 0x800000 \<or> n = 0"
      by auto
    then show ?thesis
      unfolding bytes using True by (auto simp: ivl_subset)
  next
    case False
    then have "call_zone c = user_zone"
      by (cases c) auto
    then have "n = 0 \<or> 1792 \<le> i"
      using run by auto
    then have "0x800000 \<le> 0x100000 + 4096 * i \<or> n = 0"
      by auto
    then show ?thesis
      unfolding bytes using False by (auto simp: subset_iff)
  qed
qed

section \<open>A concrete allocator state\<close>

text \<open>8 free pages at the start of the kernel region's fifth bitmap byte, 8 free user pages.\<close>

definition pmm_example :: pmm_state where
  "pmm_example = \<lparr>kernel_end_idx = 1792, user_start_idx = 1792, bitmap_addr = 0x110000,
     bitmap = replicate 32 0xFF @ 0 # replicate 191 0xFF @ [0], total_pages = 1800,
     free_pages = 16, bitmap_pages_count = 1, first_free = 0x111000\<rparr>"

lemma nth_example_bitmap:
  "n \<le> a + b + 1 \<Longrightarrow> (replicate a x @ y # replicate b x @ [z]) ! n =
     (if n < a then x else if n = a then y else if n \<le> a + b then x else z)"
  by (auto simp: nth_append nth_Cons')

lemma pmm_example_used:
  assumes "i < 1800"
  shows "page_used pmm_example i \<longleftrightarrow> \<not> (i div 8 = 32 \<or> i div 8 = 224)"
proof -
  have n: "i div 8 \<le> 32 + 191 + 1"
    using assms by linarith
  have "bitmap pmm_example ! (i div 8) = (if i div 8 = 32 \<or> i div 8 = 224 then 0 else 0xFF)"
    unfolding pmm_example_def pmm_state.simps nth_example_bitmap [OF n] using n by auto
  then show ?thesis
    using full_byte_bit [of "i mod 8"] by (simp add: page_used_bit)
qed

lemma pmm_example_free: "free_set pmm_example = {256..<264} \<union> {1792..<1800}"
proof -
  have "unat (total_pages pmm_example) = 1800"
    by (simp add: pmm_example_def)
  then have "free_set pmm_example = {i. i < 1800 \<and> (i div 8 = 32 \<or> i div 8 = 224)}"
    by (auto simp: free_set_def pmm_example_used)
  also have "\<dots> = {256..<264} \<union> {1792..<1800}"
    by auto
  finally show ?thesis .
qed

lemma pmm_example_wf: "pmm_wf pmm_example"
proof -
  have "card (free_set pmm_example) = 16"
    unfolding pmm_example_free by (subst card_Un_disjoint) auto
  then show ?thesis
    unfolding pmm_wf_def pmm_example_free by (auto simp: pmm_example_def)
qed

section \<open>Witnesses\<close>

definition map_example :: memory_map where
  "map_example = \<lparr>regions = [\<lparr>reg_base = 0, reg_length = 0x9F000\<rparr>,
     \<lparr>reg_base = 0x100000, reg_length = 0x1F00000\<rparr>], top_of_memory = 0x2000000\<rparr>"

theorem pmm_init_correct_witness:
  "\<exists>s. pmm_init 0x10A123 map_example = Some s \<and> pmm_wf s \<and>
    free_set s = (\<Union>r\<in>set (regions map_example). region_pages s r) \<and>
    unat (0x10A123 :: u32) \<le> unat (bitmap_addr s) \<and>
    unat (bitmap_addr s) + length (bitmap s) \<le> unat (first_free s) \<and>
    4096 dvd unat (first_free s)"
proof -
  have "map_ok map_example"
    by (simp add: map_ok_def map_example_def region_end_def)
  then show ?thesis
    by (rule pmm_init_correct) simp
qed

theorem pmm_alloc_page_first_fit_witness:
  "pmm_wf pmm_example \<and> fst (pmm_alloc_page pmm_example) = 0x200000"
proof -
  have z: "free_set pmm_example \<inter> kernel_zone = {256..<264}"
    unfolding pmm_example_free by auto
  have low: "i = 256" if "i \<in> {256..<264}" "\<forall>j\<in>{256..<264}. i \<le> j" for i :: nat
  proof -
    have "(256 :: nat) \<in> {256..<264}" by simp
    with that(2) have "i \<le> 256" by (rule bspec)
    then show ?thesis
      using that(1) by simp
  qed
  have "{256..<264} \<noteq> ({} :: nat set)" by simp
  then obtain i s' where "pmm_alloc_page pmm_example = (page_addr i, s')"
    "i \<in> {256..<264}" "\<forall>j\<in>{256..<264}. i \<le> j"
    using pmm_alloc_page_first_fit [OF pmm_example_wf, unfolded z] by blast
  then show ?thesis
    using low [of i] pmm_example_wf by (simp add: page_addr_def)
qed

theorem pmm_alloc_contiguous_first_fit_witness:
  "pmm_wf pmm_example \<and> (2 :: u32) \<noteq> 0 \<and>
   (pmm_alloc_contiguous_pages pmm_example 2 = (0, pmm_example) \<and>
      (\<forall>i. \<not> {i..<i + unat (2 :: u32)} \<subseteq> free_set pmm_example \<inter> kernel_zone) \<or>
    (\<exists>i s'. pmm_alloc_contiguous_pages pmm_example 2 = (page_addr i, s') \<and> page_addr i \<noteq> 0 \<and>
       {i..<i + unat (2 :: u32)} \<subseteq> free_set pmm_example \<inter> kernel_zone \<and>
       (\<forall>k<i. \<not> {k..<k + unat (2 :: u32)} \<subseteq> free_set pmm_example \<inter> kernel_zone) \<and>
       pmm_wf s' \<and> free_set s' = free_set pmm_example - {i..<i + unat (2 :: u32)}))"
proof -
  have n: "(2 :: u32) \<noteq> 0" by simp
  show ?thesis
    using pmm_alloc_contiguous_first_fit [OF pmm_example_wf n] pmm_example_wf n by blast
qed

theorem pmm_no_double_allocation_witness:
  "pmm_wf (snd (pmm_trace [Alloc_page, Alloc_run 3, Alloc_user_page] pmm_example))"
  using pmm_no_double_allocation
    [OF pmm_example_wf, of "[Alloc_page, Alloc_run 3, Alloc_user_page]"
      "fst (pmm_trace [Alloc_page, Alloc_run 3, Alloc_user_page] pmm_example)"
      "snd (pmm_trace [Alloc_page, Alloc_run 3, Alloc_user_page] pmm_example)"]
  by simp

lemma pmm_example_user_page: "pmm_do Alloc_user_page pmm_example =
  ((0x800000, 1), (mark_used pmm_example 1792)\<lparr>free_pages := free_pages pmm_example - 1\<rparr>)"
proof -
  have "unat (user_start_idx pmm_example) = 1792" "unat (total_pages pmm_example) = 1800"
    by (simp_all add: pmm_example_def)
  moreover have "find_free_page pmm_example 1792 1800 = Some 1792"
    by (subst find_free_page.simps) (simp add: pmm_example_used)
  ultimately show ?thesis
    by (simp add: pmm_alloc_user_page_def take_page_def page_addr_def)
qed

theorem pmm_region_separation_witness:
  "grant_bytes (0x800000, 1) \<subseteq> {unat USER_MEM_START ..}"
proof -
  have "(0x800000 :: u32) \<noteq> 0" by simp
  from pmm_region_separation [OF pmm_example_wf pmm_example_user_page this]
  have "if user_zone = kernel_zone
    then grant_bytes (0x800000, 1) \<subseteq> {0x100000 ..< unat USER_MEM_START}
    else grant_bytes (0x800000, 1) \<subseteq> {unat USER_MEM_START ..}"
    by simp
  moreover have "1792 \<in> user_zone" "1792 \<notin> kernel_zone"
    by simp_all
  ultimately show ?thesis
    by metis
qed

end
