(* ===== verification/KHeap.thy ===== *)
theory KHeap
  imports Byte_Memory PMM
begin

text \<open>
  The kernel heap, \<open>mm/kheap.c\<close>: a first-fit free-list allocator whose block headers and
  free-list links live in physical memory. The state \<open>heap_state\<close> holds the memory, the
  page allocator it takes its pages from, and the statics \<open>free_head\<close> and \<open>heap_pages\<close>
  (the list is as long as \<open>heap_page_count\<close>).

  Loops that follow memory contents (\<open>kmalloc\<close>'s search and \<open>coalesce_backward\<close>'s walk)
  are partial functions: with corrupt contents they do not return. The invariant
  \<open>heap_wf\<close> ties memory to a set of blocks and a list of free blocks; under it every
  operation returns and does what an allocator promises.
\<close>

section \<open>State and block headers\<close>

record heap_state =
  memory :: mem
  pmm :: pmm_state
  free_head :: u32
  heap_pages :: "u32 list"

text \<open>\<open>block_header_t\<close> (size, free) and the links \<open>next_ptr\<close>, \<open>prev_ptr\<close> stored in the data
  area of a free block.\<close>

datatype field = Size | Free | Next | Prev

fun field_offset :: "field \<Rightarrow> u32" where
  "field_offset Size = 0"
| "field_offset Free = 4"
| "field_offset Next = 8"
| "field_offset Prev = 12"

definition get :: "mem \<Rightarrow> u32 \<Rightarrow> field \<Rightarrow> u32" where
  "get m b f = load32 m (b + field_offset f)"

definition put :: "mem \<Rightarrow> u32 \<Rightarrow> field \<Rightarrow> u32 \<Rightarrow> mem" where
  "put m b f v = store32 m (b + field_offset f) v"

abbreviation HEADER_SIZE :: u32 where "HEADER_SIZE \<equiv> 8"
abbreviation MIN_BLOCK_SIZE :: u32 where "MIN_BLOCK_SIZE \<equiv> 16"
abbreviation HEAP_INIT_PAGES :: u32 where "HEAP_INIT_PAGES \<equiv> 16"
abbreviation MAX_HEAP_PAGES :: nat where "MAX_HEAP_PAGES \<equiv> 256"
abbreviation EXPAND_PAGES :: u32 where "EXPAND_PAGES \<equiv> 4"

section \<open>Free-list operations\<close>

definition fl_insert :: "'a heap_state_scheme \<Rightarrow> u32 \<Rightarrow> 'a heap_state_scheme" where
  "fl_insert s b =
     (let m = put (memory s) b Free 1;
          m = put m b Next (free_head s);
          m = put m b Prev 0;
          m = (if free_head s \<noteq> 0 then put m (free_head s) Prev b else m)
      in s\<lparr>memory := m, free_head := b\<rparr>)"

definition fl_remove :: "'a heap_state_scheme \<Rightarrow> u32 \<Rightarrow> 'a heap_state_scheme" where
  "fl_remove s b =
     (let n = get (memory s) b Next;
          p = get (memory s) b Prev;
          s = (if p \<noteq> 0 then s\<lparr>memory := put (memory s) p Next n\<rparr> else s\<lparr>free_head := n\<rparr>)
      in if n \<noteq> 0 then s\<lparr>memory := put (memory s) n Prev p\<rparr> else s)"

section \<open>Coalescing\<close>

definition page_of :: "u32 \<Rightarrow> u32" where
  "page_of p = p AND NOT (PAGE_SIZE - 1)"

definition coalesce_forward :: "'a heap_state_scheme \<Rightarrow> u32 \<Rightarrow> 'a heap_state_scheme" where
  "coalesce_forward s b =
     (let pend = page_of b + PAGE_SIZE;
          nx = b + get (memory s) b Size
      in if nx \<ge> pend then s
         else if get (memory s) nx Free = 0 then s
         else (let s = fl_remove s nx
               in s\<lparr>memory := put (memory s) b Size (get (memory s) b Size + get (memory s) nx Size)\<rparr>))"

text \<open>The loop \<open>while (curr < b) { prev = curr; curr += curr->size; }\<close>.\<close>

partial_function (option) walk_back :: "mem \<Rightarrow> u32 \<Rightarrow> u32 \<Rightarrow> u32 \<Rightarrow> u32 option" where
  "walk_back m prev cur b =
     (if cur < b then walk_back m cur (cur + get m cur Size) b else Some prev)"

definition coalesce_backward ::
    "'a heap_state_scheme \<Rightarrow> u32 \<Rightarrow> (bool \<times> 'a heap_state_scheme) option" where
  "coalesce_backward s b =
     (let ps = page_of b
      in if b = ps then Some (False, s)
         else do {
           prev \<leftarrow> walk_back (memory s) 0 ps b;
           if prev = 0 \<or> get (memory s) prev Free = 0 then Some (False, s)
           else Some (True, s\<lparr>memory :=
                  put (memory s) prev Size (get (memory s) prev Size + get (memory s) b Size)\<rparr>) })"

section \<open>Expansion and initialisation\<close>

text \<open>The common part of \<open>heap_expand\<close> and \<open>kheap_init\<close>: one block over \<open>n\<close> new pages.\<close>

definition add_pages :: "'a heap_state_scheme \<Rightarrow> u32 \<Rightarrow> u32 \<Rightarrow> 'a heap_state_scheme" where
  "add_pages s base n =
     (let s = fl_insert (s\<lparr>memory := put (memory s) base Size (n * PAGE_SIZE)\<rparr>) base
      in s\<lparr>heap_pages := heap_pages s @ map (\<lambda>i. base + of_nat i * PAGE_SIZE) [0..<unat n]\<rparr>)"

definition heap_expand :: "'a heap_state_scheme \<Rightarrow> bool \<times> 'a heap_state_scheme" where
  "heap_expand s =
     (if length (heap_pages s) + unat EXPAND_PAGES > MAX_HEAP_PAGES then (False, s)
      else let (base, p) = pmm_alloc_contiguous_pages (pmm s) EXPAND_PAGES;
               s = s\<lparr>pmm := p\<rparr>
           in if base = 0 then (False, s) else (True, add_pages s base EXPAND_PAGES))"

definition kheap_init :: "'a heap_state_scheme \<Rightarrow> 'a heap_state_scheme" where
  "kheap_init s =
     (let s = s\<lparr>free_head := 0, heap_pages := []\<rparr>;
          (base, p) = pmm_alloc_contiguous_pages (pmm s) HEAP_INIT_PAGES;
          s = s\<lparr>pmm := p\<rparr>
      in if base = 0 then s else add_pages s base HEAP_INIT_PAGES)"

section \<open>kmalloc\<close>

definition block_need :: "u32 \<Rightarrow> u32" where
  "block_need sz =
     (let aligned = (sz + 7) AND NOT 7;
          needed = aligned + HEADER_SIZE
      in if needed < MIN_BLOCK_SIZE then MIN_BLOCK_SIZE else needed)"

text \<open>First fit: follow the free list; 0 stands for the end of the list.\<close>

partial_function (option) first_fit :: "mem \<Rightarrow> u32 \<Rightarrow> u32 \<Rightarrow> u32 option" where
  "first_fit m b needed =
     (if b = 0 then Some 0
      else if get m b Size \<ge> needed then Some b
      else first_fit m (get m b Next) needed)"

text \<open>Split \<open>b\<close>, or take all of it.\<close>

definition take_block :: "'a heap_state_scheme \<Rightarrow> u32 \<Rightarrow> u32 \<Rightarrow> 'a heap_state_scheme" where
  "take_block s b needed =
     (let s = (if get (memory s) b Size - needed \<ge> MIN_BLOCK_SIZE then
                 (let r = b + needed;
                      m = put (memory s) r Size (get (memory s) b Size - needed);
                      m = put m r Free 1;
                      n = get m b Next;
                      p = get m b Prev;
                      m = put m r Next n;
                      m = put m r Prev p;
                      s = s\<lparr>memory := m\<rparr>;
                      s = (if p \<noteq> 0 then s\<lparr>memory := put (memory s) p Next r\<rparr>
                           else s\<lparr>free_head := r\<rparr>);
                      s = (if n \<noteq> 0 then s\<lparr>memory := put (memory s) n Prev r\<rparr> else s)
                  in s\<lparr>memory := put (memory s) b Size needed\<rparr>)
               else fl_remove s b)
      in s\<lparr>memory := put (memory s) b Free 0\<rparr>)"

partial_function (option) kmalloc ::
    "'a heap_state_scheme \<Rightarrow> u32 \<Rightarrow> (u32 \<times> 'a heap_state_scheme) option" where
  "kmalloc s sz =
     do { b \<leftarrow> first_fit (memory s) (free_head s) (block_need sz);
          if b \<noteq> 0 then Some (b + HEADER_SIZE, take_block s b (block_need sz))
          else (case heap_expand s of (ok, s) \<Rightarrow> if ok then kmalloc s sz else Some (0, s)) }"

section \<open>kfree\<close>

definition kfree :: "'a heap_state_scheme \<Rightarrow> u32 \<Rightarrow> 'a heap_state_scheme option" where
  "kfree s ptr =
     (if ptr = 0 then Some s
      else let b = ptr - 8
           in if get (memory s) b Free \<noteq> 0 then Some s
              else do {
                let s = s\<lparr>memory := put (memory s) b Free 1\<rparr>;
                let s = coalesce_forward s b;
                (merged, s) \<leftarrow> coalesce_backward s b;
                Some (if merged then s else fl_insert s b) })"

section \<open>Separate headers\<close>

text \<open>Two header addresses are separate when their 16 bytes do not meet.\<close>

definition header_ok :: "u32 \<Rightarrow> bool" where
  "header_ok b \<longleftrightarrow> 8 dvd unat b \<and> unat b + 16 \<le> 4294967296"

definition separate :: "u32 \<Rightarrow> u32 \<Rightarrow> bool" where
  "separate b c \<longleftrightarrow> unat b + 16 \<le> unat c \<or> unat c + 16 \<le> unat b"

lemma separate_sym: "separate b c \<longleftrightarrow> separate c b"
  by (auto simp: separate_def)

lemma unat_field: "header_ok b \<Longrightarrow> unat (b + field_offset f) = unat b + unat (field_offset f)"
proof (rule unat_add_no_wrap)
  assume "header_ok b"
  then show "unat b + unat (field_offset f) < 4294967296"
    by (cases f) (auto simp: header_ok_def)
qed

lemma aligned_field: "header_ok b \<Longrightarrow> aligned4 (b + field_offset f)"
  unfolding aligned4_unat unat_field
  by (cases f) (auto simp: header_ok_def elim: dvd_trans [rotated])

lemma unat_field_offset: "unat (field_offset f) \<le> 12" "unat (field_offset f) = unat (field_offset g) \<longleftrightarrow> f = g"
  by (cases f; cases g; simp)+

lemma field_addr_neq:
  assumes "header_ok b" "header_ok c" "b = c \<or> separate b c" "\<not> (b = c \<and> f = g)"
  shows "b + field_offset f \<noteq> c + field_offset g"
proof
  assume "b + field_offset f = c + field_offset g"
  then have "unat b + unat (field_offset f) = unat c + unat (field_offset g)"
    using unat_field [OF assms(1), of f] unat_field [OF assms(2), of g] by simp
  then show False
    using assms(3,4) unat_field_offset(1) [of f] unat_field_offset(1) [of g]
      unat_field_offset(2) [of f g]
    by (auto simp: separate_def)
qed

lemma get_put:
  assumes "header_ok b" "header_ok c" "b = c \<or> separate b c"
  shows "get (put m b f v) c g = (if b = c \<and> f = g then v else get m c g)"
proof (cases "b = c \<and> f = g")
  case False
  then show ?thesis
    using field_addr_neq [OF assms False] assms
    by (auto simp: get_def put_def load32_store32_other aligned_field)
qed (simp add: get_def put_def)

lemma get_put_same [simp]: "get (put m b f v) b f = v"
  by (simp add: get_def put_def)

text \<open>The bytes a field write touches.\<close>

lemma word_at_unat:
  assumes "aligned4 a" "x \<in> word_at a"
  shows "unat a \<le> unat x \<and> unat x < unat a + 4"
proof -
  from assms(2) obtain k where "x = a + k" "unat k < 4"
    by (auto simp: word_at_def intro: that [of 0] that [of 1] that [of 2] that [of 3])
  then show ?thesis
    using unat_word_offset [OF assms(1), of k] by simp
qed

lemma put_outside:
  assumes "header_ok b" "unat x < unat b \<or> unat b + 16 \<le> unat x"
  shows "put m b f v x = m x"
proof -
  have "x \<notin> word_at (b + field_offset f)"
  proof
    assume "x \<in> word_at (b + field_offset f)"
    then have "unat b + unat (field_offset f) \<le> unat x" "unat x < unat b + unat (field_offset f) + 4"
      using word_at_unat [OF aligned_field [OF assms(1)]] unat_field [OF assms(1), of f] by fastforce+
    then show False
      using assms(2) unat_field_offset(1) [of f] by linarith
  qed
  then show ?thesis
    by (simp add: put_def store32_outside)
qed

section \<open>The free list as a list\<close>

text \<open>\<open>dseg m q p xs q' p'\<close>: from pointer \<open>p\<close>, whose predecessor is \<open>q\<close>, the links run
  through \<open>xs\<close> to the pointer \<open>p'\<close>, whose predecessor is \<open>q'\<close>.\<close>

fun dseg :: "mem \<Rightarrow> u32 \<Rightarrow> u32 \<Rightarrow> u32 list \<Rightarrow> u32 \<Rightarrow> u32 \<Rightarrow> bool" where
  "dseg m q p [] q' p' \<longleftrightarrow> q = q' \<and> p = p'"
| "dseg m q p (x # xs) q' p' \<longleftrightarrow>
     p = x \<and> x \<noteq> 0 \<and> get m x Prev = q \<and> dseg m x (get m x Next) xs q' p'"

definition dll :: "mem \<Rightarrow> u32 \<Rightarrow> u32 list \<Rightarrow> bool" where
  "dll m h fs \<longleftrightarrow> (\<exists>l. dseg m 0 h fs l 0)"

definition headers :: "u32 set \<Rightarrow> bool" where
  "headers H \<longleftrightarrow> (\<forall>b\<in>H. header_ok b \<and> b \<noteq> 0) \<and> (\<forall>b\<in>H. \<forall>c\<in>H. b \<noteq> c \<longrightarrow> separate b c)"

lemma get_put_headers:
  "headers H \<Longrightarrow> b \<in> H \<Longrightarrow> c \<in> H \<Longrightarrow>
   get (put m b f v) c g = (if b = c \<and> f = g then v else get m c g)"
  by (rule get_put) (auto simp: headers_def)

lemma headers_subset: "headers H \<Longrightarrow> G \<subseteq> H \<Longrightarrow> headers G"
  by (auto simp: headers_def)

lemma dseg_append:
  "dseg m q p (xs @ ys) q' p' \<longleftrightarrow> (\<exists>r t. dseg m q p xs r t \<and> dseg m r t ys q' p')"
  by (induction xs arbitrary: q p) auto

lemma dseg_cong:
  "(\<And>x. x \<in> set xs \<Longrightarrow> get m x Next = get m' x Next \<and> get m x Prev = get m' x Prev) \<Longrightarrow>
   dseg m q p xs q' p' \<longleftrightarrow> dseg m' q p xs q' p'"
  by (induction xs arbitrary: q p) auto

lemma dll_cong:
  "(\<And>x. x \<in> set xs \<Longrightarrow> get m x Next = get m' x Next \<and> get m x Prev = get m' x Prev) \<Longrightarrow>
   dll m h xs \<longleftrightarrow> dll m' h xs"
  unfolding dll_def using dseg_cong [of xs m m'] by blast

lemma dseg_ends:
  "dseg m q p xs q' p' \<Longrightarrow>
   q' = (if xs = [] then q else last xs) \<and> p = (if xs = [] then p' else hd xs)"
  by (induction xs arbitrary: q p) (auto split: if_splits)

lemma dseg_set_tail_next:
  assumes "headers H" "set xs \<subseteq> H" "distinct xs" "xs \<noteq> []" "dseg m q p xs l n"
  shows "dseg (put m (last xs) Next n') q p xs l n'"
proof -
  obtain ys z where xs: "xs = ys @ [z]"
    using assms(4) by (metis append_butlast_last_id)
  have same: "get m x g = get (put m z Next n') x g" if "x \<in> set ys" for x g
    using get_put_headers [OF assms(1), of z x m Next n' g] assms(2,3) that by (auto simp: xs)
  have "dseg m q p ys r t \<longleftrightarrow> dseg (put m z Next n') q p ys r t" for r t
    by (rule dseg_cong) (auto simp: same)
  moreover have "get (put m z Next n') z Prev = get m z Prev"
    using get_put_headers [OF assms(1), of z z m Next n' Prev] assms(2) by (auto simp: xs)
  ultimately show ?thesis
    using assms(5) by (auto simp: xs dseg_append)
qed

lemma dseg_set_head_prev:
  assumes "headers H" "set xs \<subseteq> H" "distinct xs" "xs \<noteq> []" "dseg m q p xs l n"
  shows "dseg (put m (hd xs) Prev q') q' p xs l n"
proof -
  obtain y ys where xs: "xs = y # ys"
    using assms(4) by (cases xs) auto
  have same: "get m x g = get (put m y Prev q') x g" if "x \<in> set ys" for x g
    using get_put_headers [OF assms(1), of y x m Prev q' g] assms(2,3) that by (auto simp: xs)
  have "dseg m y t ys l n \<longleftrightarrow> dseg (put m y Prev q') y t ys l n" for t
    by (rule dseg_cong) (auto simp: same)
  moreover have "get (put m y Prev q') y Next = get m y Next"
    using get_put_headers [OF assms(1), of y y m Prev q' Next] assms(2) by (auto simp: xs)
  ultimately show ?thesis
    using assms(5) by (auto simp: xs)
qed

section \<open>What a header update leaves alone\<close>

text \<open>Memory outside the 16 header bytes of the blocks in \<open>F\<close> is unchanged.\<close>

definition only_headers :: "mem \<Rightarrow> mem \<Rightarrow> u32 set \<Rightarrow> bool" where
  "only_headers m m' F \<longleftrightarrow>
     (\<forall>x. (\<forall>b\<in>F. unat x < unat b \<or> unat b + 16 \<le> unat x) \<longrightarrow> m' x = m x)"

lemma only_headers_refl [simp]: "only_headers m m F"
  by (simp add: only_headers_def)

lemma only_headers_put: "header_ok b \<Longrightarrow> b \<in> F \<Longrightarrow> only_headers m (put m b f v) F"
  by (auto simp: only_headers_def put_outside)

lemma only_headers_trans:
  "only_headers m m' F \<Longrightarrow> only_headers m' m'' G \<Longrightarrow> F \<subseteq> K \<Longrightarrow> G \<subseteq> K \<Longrightarrow> only_headers m m'' K"
  by (auto simp: only_headers_def subset_iff)

lemma only_headers_put_trans:
  "only_headers m m' F \<Longrightarrow> header_ok b \<Longrightarrow> b \<in> F \<Longrightarrow> only_headers m (put m' b f v) F"
  by (rule only_headers_trans [OF _ only_headers_put]) auto

section \<open>Effects of the list operations\<close>

lemma fl_insert_effect:
  assumes H: "headers H" "b \<in> H" "set fs \<subseteq> H" and l: "dll (memory s) (free_head s) fs"
    and d: "distinct fs" "b \<notin> set fs"
  defines "m \<equiv> memory s" and "m' \<equiv> memory (fl_insert s b)"
  shows "dll m' (free_head (fl_insert s b)) (b # fs)"
    and "\<And>c. c \<in> H \<Longrightarrow> get m' c Size = get m c Size"
    and "\<And>c. c \<in> H \<Longrightarrow> get m' c Free = (if c = b then 1 else get m c Free)"
    and "only_headers m m' (insert b (set fs))"
proof -
  obtain l where seg: "dseg m 0 (free_head s) fs l 0"
    using l by (auto simp: dll_def m_def)
  have h: "free_head s = (if fs = [] then 0 else hd fs)"
    using dseg_ends [OF seg] by auto
  have nz: "b \<noteq> 0" "header_ok b" "x \<in> set fs \<Longrightarrow> x \<noteq> 0 \<and> header_ok x" for x
    using H by (auto simp: headers_def)
  let ?m3 = "put (put (put m b Free 1) b Next (free_head s)) b Prev 0"
  have m': "m' = (if fs = [] then ?m3 else put ?m3 (hd fs) Prev b)"
    using h nz(3) [of "hd fs"] by (auto simp: m'_def m_def fl_insert_def Let_def)
  have hd: "fs \<noteq> [] \<Longrightarrow> hd fs \<in> H \<and> hd fs \<noteq> b"
    using H d by (cases fs) auto
  note gp = get_put_headers [OF H(1)]
  show "get m' c Size = get m c Size" if "c \<in> H" for c
    using that H(2) hd by (auto simp: m' gp)
  show "get m' c Free = (if c = b then 1 else get m c Free)" if "c \<in> H" for c
    using that H(2) hd by (auto simp: m' gp)
  show "only_headers m m' (insert b (set fs))"
    using nz hd by (cases fs) (auto simp: m' intro!: only_headers_put_trans)
  have "get ?m3 x g = get m x g" if "x \<in> set fs" for x g
    using that H d by (auto simp: gp subset_iff)
  then have seg3: "dseg ?m3 0 (free_head s) fs l 0"
    using seg dseg_cong [of fs m ?m3] by auto
  have b3: "get ?m3 b Next = free_head s" "get ?m3 b Prev = 0"
    using H by (auto simp: gp)
  have "dseg m' 0 b (b # fs) (if fs = [] then b else l) 0"
  proof (cases "fs = []")
    case True
    then show ?thesis
      using b3 nz h by (auto simp: m')
  next
    case False
    have "dseg (put ?m3 (hd fs) Prev b) b (free_head s) fs l 0"
      by (rule dseg_set_head_prev [OF H(1,3) d(1) False seg3])
    then show ?thesis
      using b3 nz False hd H(2) by (auto simp: m' gp)
  qed
  then show "dll m' (free_head (fl_insert s b)) (b # fs)"
    by (auto simp: dll_def fl_insert_def Let_def)
qed

lemma fl_remove_effect:
  assumes H: "headers H" "set (xs @ b # ys) \<subseteq> H" and d: "distinct (xs @ b # ys)"
    and l: "dll (memory s) (free_head s) (xs @ b # ys)"
  defines "m \<equiv> memory s" and "m' \<equiv> memory (fl_remove s b)"
  shows "dll m' (free_head (fl_remove s b)) (xs @ ys)"
    and "\<And>c. c \<in> H \<Longrightarrow> get m' c Size = get m c Size"
    and "\<And>c. c \<in> H \<Longrightarrow> get m' c Free = get m c Free"
    and "only_headers m m' (set (xs @ ys))"
proof -
  obtain l p where xs: "dseg m 0 (free_head s) xs p b" and b: "b \<noteq> 0" "get m b Prev = p"
    and ys: "dseg m b (get m b Next) ys l 0"
    using l by (auto simp: dll_def m_def dseg_append)
  let ?n = "get m b Next"
  have p: "p = (if xs = [] then 0 else last xs)" "free_head s = (if xs = [] then b else hd xs)"
    using dseg_ends [OF xs] by auto
  have n: "?n = (if ys = [] then 0 else hd ys)"
    using dseg_ends [OF ys] by auto
  have sub: "set xs \<subseteq> H" "set ys \<subseteq> H" "b \<in> H" and dist: "distinct xs" "distinct ys"
    using H(2) d by auto
  have nz: "x \<in> H \<Longrightarrow> x \<noteq> 0 \<and> header_ok x" for x
    using H(1) by (auto simp: headers_def)
  define m1 where "m1 = (if xs = [] then m else put m (last xs) Next ?n)"
  have last: "xs \<noteq> [] \<Longrightarrow> last xs \<in> set xs \<and> last xs \<in> H"
    and hd: "ys \<noteq> [] \<Longrightarrow> hd ys \<in> set ys \<and> hd ys \<in> H"
    using sub by (auto intro: last_in_set hd_in_set)
  have pn: "p \<noteq> 0 \<longleftrightarrow> xs \<noteq> []" "?n \<noteq> 0 \<longleftrightarrow> ys \<noteq> []"
    using p(1) n nz last hd by auto
  have m': "m' = (if ys = [] then m1 else put m1 (hd ys) Prev p)"
    and h': "free_head (fl_remove s b) = (if xs = [] then ?n else free_head s)"
    using pn p(1) n b(2) unfolding m'_def m_def m1_def fl_remove_def Let_def by (simp_all split: if_splits)
  have neq: "x \<in> set xs \<Longrightarrow> y \<in> set ys \<Longrightarrow> x \<noteq> y" for x y
    using d by auto
  note gp = get_put_headers [OF H(1)]
  have m1: "x \<in> H \<Longrightarrow> f \<noteq> Next \<Longrightarrow> get m1 x f = get m x f" for x f
    using last by (auto simp: m1_def gp)
  show "get m' c Size = get m c Size" if "c \<in> H" for c
    using that hd m1 by (auto simp: m' gp)
  show "get m' c Free = get m c Free" if "c \<in> H" for c
    using that hd m1 by (auto simp: m' gp)
  have "only_headers m m1 (set (xs @ ys))"
    using last nz by (auto simp: m1_def intro!: only_headers_put)
  then show "only_headers m m' (set (xs @ ys))"
    using hd nz by (auto simp: m' intro!: only_headers_put_trans)
  \<comment> \<open>the left part now runs to \<open>?n\<close>\<close>
  have xs1: "dseg m1 0 (if xs = [] then ?n else free_head s) xs p ?n"
  proof (cases "xs = []")
    case False
    then show ?thesis
      using dseg_set_tail_next [OF H(1) sub(1) dist(1) False xs] by (simp add: m1_def)
  qed (use p in simp)
  have "get m1 x g = get m x g" if "x \<in> set ys" for x g
    using that sub last neq [of "last xs" x] by (auto simp: m1_def gp subset_iff)
  then have ys1: "dseg m1 b ?n ys l 0"
    using ys dseg_cong [of ys m m1] by auto
  have "dseg m' p ?n ys (if ys = [] then p else l) 0"
  proof (cases "ys = []")
    case False
    then show ?thesis
      using dseg_set_head_prev [OF H(1) sub(2) dist(2) False ys1] by (simp add: m')
  qed (use n in simp)
  moreover have "get m' x g = get m1 x g" if "x \<in> set xs" for x g
    using that sub hd neq [of x "hd ys"] by (auto simp: m' gp subset_iff)
  then have "dseg m' 0 (if xs = [] then ?n else free_head s) xs p ?n"
    using xs1 dseg_cong [of xs m1 m'] by auto
  ultimately show "dll m' (free_head (fl_remove s b)) (xs @ ys)"
    unfolding dll_def dseg_append h' by blast
qed

section \<open>The heap invariant\<close>

definition extent :: "mem \<Rightarrow> u32 \<Rightarrow> nat set" where
  "extent m b = {unat b ..< unat b + unat (get m b Size)}"

definition block_ok :: "mem \<Rightarrow> u32 \<Rightarrow> bool" where
  "block_ok m b \<longleftrightarrow> 8 dvd unat b \<and> 0x100000 \<le> unat b \<and> 16 \<le> unat (get m b Size) \<and>
     8 dvd unat (get m b Size) \<and> unat b + unat (get m b Size) \<le> 0x800000"

text \<open>Blocks are well formed and disjoint, and what follows a block is another block or a page
  boundary (the end of a region).\<close>

definition heap_core :: "mem \<Rightarrow> u32 set \<Rightarrow> bool" where
  "heap_core m B \<longleftrightarrow> finite B \<and> (\<forall>b\<in>B. block_ok m b) \<and>
     (\<forall>b\<in>B. \<forall>c\<in>B. b \<noteq> c \<longrightarrow> extent m b \<inter> extent m c = {}) \<and>
     (\<forall>b\<in>B. 4096 dvd unat (b + get m b Size) \<or> b + get m b Size \<in> B)"

text \<open>The free list holds exactly the blocks marked free.\<close>

definition heap_wf :: "mem \<Rightarrow> u32 \<Rightarrow> u32 set \<Rightarrow> u32 list \<Rightarrow> bool" where
  "heap_wf m h B fs \<longleftrightarrow> heap_core m B \<and> dll m h fs \<and> distinct fs \<and>
     set fs = {b \<in> B. get m b Free \<noteq> 0}"

text \<open>The abstract state: the allocated blocks and their sizes.\<close>

definition alloc_map :: "mem \<Rightarrow> u32 set \<Rightarrow> u32 \<rightharpoonup> nat" where
  "alloc_map m B b = (if b \<in> B \<and> get m b Free = 0 then Some (unat (get m b Size)) else None)"

text \<open>All bytes of the allocated blocks keep their values.\<close>

definition preserves :: "mem \<Rightarrow> u32 set \<Rightarrow> mem \<Rightarrow> bool" where
  "preserves m B m' \<longleftrightarrow>
     (\<forall>c\<in>B. get m c Free = 0 \<longrightarrow> (\<forall>x. unat x \<in> extent m c \<longrightarrow> m' x = m x))"

lemma block_end:
  "block_ok m b \<Longrightarrow> unat (b + get m b Size) = unat b + unat (get m b Size)"
  by (rule unat_add_no_wrap) (simp add: block_ok_def)

lemma block_header: "block_ok m b \<Longrightarrow> header_ok b \<and> b \<noteq> 0"
  by (auto simp: block_ok_def header_ok_def)

lemma extent_separate:
  assumes "block_ok m b" "block_ok m c" "extent m b \<inter> extent m c = {}"
  shows "separate b c"
proof -
  have "16 \<le> unat (get m b Size)" "16 \<le> unat (get m c Size)"
    using assms(1,2) by (auto simp: block_ok_def)
  then show ?thesis
    using assms(3) by (auto simp: extent_def ivl_disjoint_iff separate_def simp del: Int_atLeastLessThan)
qed

lemma core_headers:
  assumes "heap_core m B"
  shows "headers B"
  unfolding headers_def
proof (intro conjI ballI impI)
  fix b assume b: "b \<in> B"
  then have bok: "block_ok m b"
    using assms by (auto simp: heap_core_def)
  then show "header_ok b" "b \<noteq> 0"
    using block_header by auto
  fix c assume "c \<in> B" "b \<noteq> c"
  then have "block_ok m c" "extent m b \<inter> extent m c = {}"
    using assms b by (auto simp: heap_core_def)
  then show "separate b c"
    using extent_separate bok by blast
qed

lemma wf_headers: "heap_wf m h B fs \<Longrightarrow> headers B"
  by (auto simp: heap_wf_def intro: core_headers)

lemma preserves_headers:
  assumes "only_headers m m' F"
    and "\<And>f c. f \<in> F \<Longrightarrow> c \<in> B \<Longrightarrow> get m c Free = 0 \<Longrightarrow> {unat f..<unat f + 16} \<inter> extent m c = {}"
  shows "preserves m B m'"
  unfolding preserves_def
proof (intro ballI impI allI)
  fix c x :: u32 assume c: "c \<in> B" "get m c Free = 0" and x: "unat x \<in> extent m c"
  have "\<forall>f\<in>F. unat x < unat f \<or> unat f + 16 \<le> unat x"
  proof
    fix f assume "f \<in> F"
    then have "unat x \<notin> {unat f..<unat f + 16}"
      using assms(2) [of f c] c x by blast
    then show "unat x < unat f \<or> unat f + 16 \<le> unat x" by auto
  qed
  then show "m' x = m x"
    using assms(1) by (auto simp: only_headers_def)
qed

text \<open>The header of a free block, and of anything inside it, is clear of the allocated blocks.\<close>

lemma inside_free_clear:
  assumes "heap_core m B" "b \<in> B" "c \<in> B" "b \<noteq> c" "unat b \<le> unat f"
    "unat f + 16 \<le> unat b + unat (get m b Size)"
  shows "{unat f..<unat f + 16} \<inter> extent m c = {}"
proof -
  have "extent m b \<inter> extent m c = {}"
    using assms by (auto simp: heap_core_def)
  moreover have "{unat f..<unat f + 16} \<subseteq> extent m b"
    using assms by (auto simp: extent_def)
  ultimately show ?thesis by blast
qed

lemma header_clear:
  assumes "heap_core m B" "b \<in> B" "c \<in> B" "b \<noteq> c"
  shows "{unat b..<unat b + 16} \<inter> extent m c = {}"
  using assms by (intro inside_free_clear [of m B b]) (auto simp: heap_core_def block_ok_def)

text \<open>The invariant only depends on the header fields.\<close>

lemma heap_core_cong:
  assumes "\<And>b. b \<in> B \<Longrightarrow> get m' b Size = get m b Size"
  shows "heap_core m' B \<longleftrightarrow> heap_core m B"
proof -
  have "extent m' b = extent m b" "block_ok m' b = block_ok m b" if "b \<in> B" for b
    using assms [OF that] by (auto simp: extent_def block_ok_def)
  then show ?thesis
    using assms by (auto simp: heap_core_def)
qed

lemma alloc_map_cong:
  assumes "\<And>b. b \<in> B \<Longrightarrow> get m' b Size = get m b Size \<and> (get m' b Free = 0 \<longleftrightarrow> get m b Free = 0)"
  shows "alloc_map m' B = alloc_map m B"
  using assms by (auto simp: alloc_map_def fun_eq_iff)

section \<open>Searching\<close>

lemma first_fit_dseg:
  "dseg m q p fs l 0 \<Longrightarrow>
   first_fit m p needed = Some (case find (\<lambda>b. needed \<le> get m b Size) fs of None \<Rightarrow> 0 | Some b \<Rightarrow> b)"
proof (induction fs arbitrary: q p)
  case Nil
  then show ?case by (subst first_fit.simps) simp
next
  case (Cons b fs)
  then show ?case by (subst first_fit.simps) auto
qed

lemma first_fit_wf:
  "heap_wf m h B fs \<Longrightarrow>
   first_fit m h needed = Some (case find (\<lambda>b. needed \<le> get m b Size) fs of None \<Rightarrow> 0 | Some b \<Rightarrow> b)"
  unfolding heap_wf_def dll_def using first_fit_dseg by blast

section \<open>Taking a block\<close>

lemma heap_core_replace:
  assumes core: "heap_core m B" and b: "b \<in> B"
    and need: "16 \<le> unat needed" "8 dvd unat needed" "unat needed + 16 \<le> unat (get m b Size)"
    and new: "\<And>c. c \<in> B \<Longrightarrow> c \<noteq> b \<Longrightarrow> get m' c Size = get m c Size"
      "get m' b Size = needed" "get m' (b + needed) Size = get m b Size - needed"
  shows "heap_core m' (insert (b + needed) B)" "b + needed \<notin> B"
    "\<Union>(extent m' ` insert (b + needed) B) = \<Union>(extent m ` B)"
proof -
  let ?r = "b + needed"
  have bok: "block_ok m b"
    using core b by (auto simp: heap_core_def)
  have r: "unat ?r = unat b + unat needed"
    using bok need by (intro unat_add_no_wrap) (simp add: block_ok_def)
  have rs: "unat (get m b Size - needed) = unat (get m b Size) - unat needed"
    using need by (intro unat_sub_no_wrap) (simp add: word_le_nat_alt)
  have e: "extent m' ?r = {unat b + unat needed ..< unat b + unat (get m b Size)}"
    "extent m' b = {unat b ..< unat b + unat needed}"
    using need by (simp_all add: extent_def new r rs)
  have split: "extent m b = extent m' b \<union> extent m' ?r" "extent m' b \<inter> extent m' ?r = {}"
    using need unfolding e by (auto simp: extent_def)
  have other: "extent m' c = extent m c" if "c \<in> B" "c \<noteq> b" for c
    using new(1) [OF that] by (simp add: extent_def)
  have disj: "extent m b \<inter> extent m c = {}" if "c \<in> B" "c \<noteq> b" for c
    using core b that by (auto simp: heap_core_def)
  show rB: "?r \<notin> B"
  proof
    assume rin: "?r \<in> B"
    moreover have neq: "?r \<noteq> b"
      using r need(1) by auto
    ultimately have "16 \<le> unat (get m ?r Size)"
      using core by (auto simp: heap_core_def block_ok_def)
    then have "unat ?r \<in> extent m ?r" "unat ?r \<in> extent m b"
      using r need by (auto simp: extent_def)
    then show False
      using disj [OF rin neq] by blast
  qed
  then have UB: "B = insert b (B - {b})"
    using b by auto
  show "\<Union>(extent m' ` insert ?r B) = \<Union>(extent m ` B)"
  proof -
    have "\<Union>(extent m' ` insert ?r B) = extent m' ?r \<union> extent m' b \<union> \<Union>(extent m' ` (B - {b}))"
      using UB by (subst UB) auto
    also have "\<Union>(extent m' ` (B - {b})) = \<Union>(extent m ` (B - {b}))"
      using other by auto
    also have "extent m' ?r \<union> extent m' b \<union> \<Union>(extent m ` (B - {b})) = \<Union>(extent m ` B)"
      using split(1) by (subst (2) UB) auto
    finally show ?thesis .
  qed
  have blk: "block_ok m' c" if "c \<in> insert ?r B" for c
  proof -
    have "block_ok m' ?r"
      using bok need by (auto simp: block_ok_def new r rs)
    moreover have "block_ok m' b"
      using bok need by (auto simp: block_ok_def new)
    moreover have "c \<noteq> b \<Longrightarrow> c \<noteq> ?r \<Longrightarrow> block_ok m' c"
      using core that new(1) [of c] by (auto simp: block_ok_def heap_core_def)
    ultimately show ?thesis by blast
  qed
  have dis: "extent m' c \<inter> extent m' d = {}" if "c \<in> insert ?r B" "d \<in> insert ?r B" "c \<noteq> d" for c d
  proof -
    have old: "\<exists>c'\<in>B. extent m' c \<subseteq> extent m c' \<and> (c' = c \<or> c = ?r \<and> c' = b)" if "c \<in> insert ?r B" for c
      using that split(1) other b by (cases "c = ?r \<or> c = b") auto
    obtain c' d' where cd: "c' \<in> B" "extent m' c \<subseteq> extent m c'" "c' = c \<or> c = ?r \<and> c' = b"
      "d' \<in> B" "extent m' d \<subseteq> extent m d'" "d' = d \<or> d = ?r \<and> d' = b"
      using old [OF \<open>c \<in> insert ?r B\<close>] old [OF \<open>d \<in> insert ?r B\<close>] by blast
    show ?thesis
    proof (cases "c' = d'")
      case True
      then have "c = b \<and> d = ?r \<or> c = ?r \<and> d = b"
        using cd \<open>c \<noteq> d\<close> rB by auto
      then show ?thesis
        using split(2) by auto
    next
      case False
      then have "extent m c' \<inter> extent m d' = {}"
        using core cd by (auto simp: heap_core_def)
      then show ?thesis
        using cd by blast
    qed
  qed
  have chn: "4096 dvd unat (c + get m' c Size) \<or> c + get m' c Size \<in> insert ?r B" if "c \<in> insert ?r B" for c
  proof -
    have old: "4096 dvd unat (c + get m c Size) \<or> c + get m c Size \<in> B" if "c \<in> B" for c
      using core that by (auto simp: heap_core_def)
    have "?r + (get m b Size - needed) = b + get m b Size"
      by simp
    then show ?thesis
      using that old [of b] old [of c] b new(1) [of c]
      by (cases "c = ?r"; cases "c = b") (auto simp: new(2,3))
  qed
  show "heap_core m' (insert ?r B)"
    using core blk dis chn unfolding heap_core_def by simp
qed

text \<open>The split branch of \<open>kmalloc\<close> on the list: the remainder \<open>r\<close> takes the place of \<open>b\<close>.\<close>

lemma split_effect:
  assumes H: "headers H" "set (xs @ b # ys) \<subseteq> H" "r \<in> H" and d: "distinct (xs @ b # ys)"
    "r \<notin> set (xs @ b # ys)"
    and l: "dll (memory s) (free_head s) (xs @ b # ys)"
    and r: "r = b + needed" and split: "get (memory s) b Size - needed \<ge> 16"
  defines "m \<equiv> memory s" and "m' \<equiv> memory (take_block s b needed)"
  shows "dll m' (free_head (take_block s b needed)) (xs @ r # ys)"
    and "\<And>c. c \<in> H \<Longrightarrow> get m' c Size =
           (if c = b then needed else if c = r then get m b Size - needed else get m c Size)"
    and "\<And>c. c \<in> H \<Longrightarrow> get m' c Free = (if c = b then 0 else if c = r then 1 else get m c Free)"
    and "only_headers m m' (set (xs @ b # r # ys))"
proof -
  obtain l p where xs: "dseg m 0 (free_head s) xs p b" and b: "b \<noteq> 0" "get m b Prev = p"
    and ys: "dseg m b (get m b Next) ys l 0"
    using l by (auto simp: dll_def m_def dseg_append)
  let ?n = "get m b Next"
  have p: "p = (if xs = [] then 0 else last xs)" "free_head s = (if xs = [] then b else hd xs)"
    using dseg_ends [OF xs] by auto
  have n: "?n = (if ys = [] then 0 else hd ys)"
    using dseg_ends [OF ys] by auto
  have sub: "set xs \<subseteq> H" "set ys \<subseteq> H" "b \<in> H" "r \<in> H" and dist: "distinct xs" "distinct ys"
    and neq: "b \<noteq> r" "b \<notin> set xs" "b \<notin> set ys" "r \<notin> set xs" "r \<notin> set ys"
    using H(2,3) d by auto
  have nz: "x \<in> H \<Longrightarrow> x \<noteq> 0 \<and> header_ok x" for x
    using H(1) by (auto simp: headers_def)
  note gp = get_put_headers [OF H(1)]
  define m0 where
    "m0 = put (put (put (put m r Size (get m b Size - needed)) r Free 1) r Next ?n) r Prev p"
  define m1 where "m1 = (if xs = [] then m0 else put m0 (last xs) Next r)"
  define m2 where "m2 = (if ys = [] then m1 else put m1 (hd ys) Prev r)"
  have last: "xs \<noteq> [] \<Longrightarrow> last xs \<in> set xs \<and> last xs \<in> H"
    and hd: "ys \<noteq> [] \<Longrightarrow> hd ys \<in> set ys \<and> hd ys \<in> H"
    using sub by (auto intro: last_in_set hd_in_set)
  have pn: "p \<noteq> 0 \<longleftrightarrow> xs \<noteq> []" "?n \<noteq> 0 \<longleftrightarrow> ys \<noteq> []"
    using p(1) n nz last hd by auto
  have bread: "get m' b f = get m' b f" for f by simp
  have same_b: "get (put (put m r Size v) r Free 1) b f = get m b f"
    "get (put (put (put m r Size v) r Free 1) r Next w) b f = get m b f" for f v w
    using sub neq by (simp_all add: gp)
  have m': "m' = put (put m2 b Size needed) b Free 0"
    and h': "free_head (take_block s b needed) = (if xs = [] then r else free_head s)"
    using pn p(1) n b(2) split sub neq
    unfolding m'_def m2_def m1_def m0_def m_def take_block_def Let_def r [symmetric]
    by (simp_all add: gp split: if_splits)
  have m0: "x \<in> H \<Longrightarrow> x \<noteq> r \<Longrightarrow> get m0 x f = get m x f"
    "get m0 r Size = get m b Size - needed" "get m0 r Free = 1" "get m0 r Next = ?n" "get m0 r Prev = p" for x f
    using sub by (auto simp: m0_def gp)
  have m1: "x \<in> H \<Longrightarrow> f \<noteq> Next \<or> x \<notin> set xs \<Longrightarrow> get m1 x f = get m0 x f" for x f
    using last by (auto simp: m1_def gp)
  have m2: "x \<in> H \<Longrightarrow> f \<noteq> Prev \<or> x \<notin> set ys \<Longrightarrow> get m2 x f = get m1 x f" for x f
    using hd by (auto simp: m2_def gp)
  show "get m' c Size =
           (if c = b then needed else if c = r then get m b Size - needed else get m c Size)" if "c \<in> H" for c
    using that sub neq m0 m1 [of c Size] m2 [of c Size] by (auto simp: m' gp)
  show "get m' c Free = (if c = b then 0 else if c = r then 1 else get m c Free)" if "c \<in> H" for c
    using that sub neq m0 m1 [of c Free] m2 [of c Free] by (auto simp: m' gp)
  have "only_headers m m0 (set (xs @ b # r # ys))"
    using nz sub by (auto simp: m0_def intro!: only_headers_put_trans)
  then have "only_headers m m1 (set (xs @ b # r # ys))"
    using last nz by (auto simp: m1_def intro!: only_headers_put_trans)
  then show "only_headers m m' (set (xs @ b # r # ys))"
    using hd nz sub by (auto simp: m' m2_def intro!: only_headers_put_trans)
  have xs0: "dseg m0 0 (free_head s) xs p b"
    using xs m0 sub neq dseg_cong [of xs m m0] by (metis subsetD)
  have xs1: "dseg m1 0 (if xs = [] then r else free_head s) xs p r"
  proof (cases "xs = []")
    case False
    then show ?thesis
      using dseg_set_tail_next [OF H(1) sub(1) dist(1) False xs0] by (simp add: m1_def)
  qed (use p in simp)
  have "get m x f = get m1 x f" if "x \<in> set ys" for x f
  proof -
    have "x \<in> H" "x \<noteq> r" "x \<notin> set xs"
      using that sub neq d by auto
    then show ?thesis
      using m0 m1 [of x f] by auto
  qed
  then have ys1: "dseg m1 b ?n ys l 0"
    using ys dseg_cong [of ys m m1] by auto
  have ys2: "dseg m2 r ?n ys (if ys = [] then r else l) 0"
  proof (cases "ys = []")
    case False
    then show ?thesis
      using dseg_set_head_prev [OF H(1) sub(2) dist(2) False ys1] by (simp add: m2_def)
  qed (use n in simp)
  have "get m1 x f = get m2 x f" if "x \<in> set xs" for x f
  proof -
    have "x \<in> H" "x \<notin> set ys"
      using that sub d by auto
    then show ?thesis
      using m2 [of x f] by auto
  qed
  then have xs2: "dseg m2 0 (if xs = [] then r else free_head s) xs p r"
    using xs1 dseg_cong [of xs m1 m2] by auto
  have "get m2 r Next = ?n" "get m2 r Prev = p" "r \<noteq> 0"
    using m2 m1 m0 sub neq nz by auto
  then have all: "dseg m2 0 (if xs = [] then r else free_head s) (xs @ r # ys) (if ys = [] then r else l) 0"
    using xs2 ys2 by (auto simp: dseg_append)
  have "get m2 x f = get m' x f" if "x \<in> set (xs @ r # ys)" for x f
    using that sub neq by (auto simp: m' gp)
  then have "dll m' (if xs = [] then r else free_head s) (xs @ r # ys)"
    using all dseg_cong [of "xs @ r # ys" m2 m'] unfolding dll_def by blast
  then show "dll m' (free_head (take_block s b needed)) (xs @ r # ys)"
    by (simp add: h')
qed

lemma take_block_fields [simp]:
  "pmm (fl_remove s b) = pmm s" "heap_pages (fl_remove s b) = heap_pages s"
  "pmm (fl_insert s b) = pmm s" "heap_pages (fl_insert s b) = heap_pages s"
  "pmm (take_block s b needed) = pmm s" "heap_pages (take_block s b needed) = heap_pages s"
  by (simp_all add: take_block_def fl_remove_def fl_insert_def Let_def)

lemma remainder_header:
  assumes core: "heap_core m B" and b: "b \<in> B"
    and need: "16 \<le> unat needed" "8 dvd unat needed" "unat needed + 16 \<le> unat (get m b Size)"
  shows "b + needed \<notin> B" "headers (insert (b + needed) B)"
    "c \<in> B \<Longrightarrow> c \<noteq> b \<Longrightarrow> {unat (b + needed)..<unat (b + needed) + 16} \<inter> extent m c = {}"
proof -
  let ?r = "b + needed"
  have bok: "block_ok m b"
    using core b by (auto simp: heap_core_def)
  have r: "unat ?r = unat b + unat needed"
    using bok need by (intro unat_add_no_wrap) (simp add: block_ok_def)
  have clear: "{unat ?r..<unat ?r + 16} \<inter> extent m c = {}" if "c \<in> B" "c \<noteq> b" for c
    by (rule inside_free_clear [OF core b that(1)]) (use that(2) need r in auto)
  then show "c \<in> B \<Longrightarrow> c \<noteq> b \<Longrightarrow> {unat ?r..<unat ?r + 16} \<inter> extent m c = {}" .
  have hd: "unat c \<in> extent m c" "{unat c..<unat c + 16} \<subseteq> extent m c" if "c \<in> B" for c
    using core that by (auto simp: heap_core_def block_ok_def extent_def)
  have neq: "?r \<noteq> b"
    using r need(1) by auto
  show rB: "?r \<notin> B"
  proof
    assume rin: "?r \<in> B"
    then have "unat ?r \<in> {unat ?r..<unat ?r + 16} \<inter> extent m ?r"
      using hd by auto
    then show False
      using clear [OF rin neq] by blast
  qed
  have "separate ?r c" if "c \<in> B" for c
  proof (cases "c = b")
    case False
    then have "{unat ?r..<unat ?r + 16} \<inter> {unat c..<unat c + 16} = {}"
      using clear [OF that] hd(2) [OF that] by blast
    then show ?thesis
      by (auto simp: separate_def ivl_disjoint_iff simp del: Int_atLeastLessThan)
  qed (use r need in \<open>auto simp: separate_def\<close>)
  moreover have "header_ok ?r" "?r \<noteq> 0"
    using bok need r by (auto simp: header_ok_def block_ok_def u32_eq_iff)
  ultimately show "headers (insert ?r B)"
    using core_headers [OF core] by (auto simp: headers_def separate_sym)
qed

text \<open>What \<open>kmalloc\<close> does once it has found a free block.\<close>

definition granted :: "mem \<Rightarrow> u32 set \<Rightarrow> mem \<Rightarrow> u32 set \<Rightarrow> u32 \<Rightarrow> u32 \<Rightarrow> bool" where
  "granted m B m' B' b needed \<longleftrightarrow> b \<in> B' \<and> get m' b Free = 0 \<and> alloc_map m B b = None \<and>
     alloc_map m' B' = (alloc_map m B)(b \<mapsto> unat (get m' b Size)) \<and>
     unat needed \<le> unat (get m' b Size) \<and> unat (get m' b Size) < unat needed + 16 \<and>
     preserves m B m' \<and> \<Union>(extent m' ` B') = \<Union>(extent m ` B)"

lemma take_block_whole:
  assumes wf: "heap_wf (memory s) (free_head s) B (xs @ b # ys)"
    and need: "needed \<le> get (memory s) b Size" "\<not> get (memory s) b Size - needed \<ge> 16"
  shows "heap_wf (memory (take_block s b needed)) (free_head (take_block s b needed)) B (xs @ ys)"
    and "granted (memory s) B (memory (take_block s b needed)) B b needed"
proof -
  let ?m = "memory s" let ?m1 = "memory (fl_remove s b)" let ?m' = "memory (take_block s b needed)"
  have core: "heap_core ?m B" and l: "dll ?m (free_head s) (xs @ b # ys)"
    and d: "distinct (xs @ b # ys)" and fs: "set (xs @ b # ys) = {b \<in> B. get ?m b Free \<noteq> 0}"
    using wf by (auto simp: heap_wf_def)
  have H: "headers B" "set (xs @ b # ys) \<subseteq> B" "b \<in> B" "get ?m b Free \<noteq> 0"
    using core_headers [OF core] fs by auto
  note e = fl_remove_effect [OF H(1,2) d l]
  have t: "take_block s b needed = (fl_remove s b)\<lparr>memory := put ?m1 b Free 0\<rparr>"
    using need by (simp add: take_block_def Let_def)
  have g: "c \<in> B \<Longrightarrow> get ?m' c f = (if c = b \<and> f = Free then 0 else get ?m1 c f)" for c f
    using H by (simp add: t get_put_headers)
  have sz: "c \<in> B \<Longrightarrow> get ?m' c Size = get ?m c Size" for c
    using e(2) g by simp
  have fr: "c \<in> B \<Longrightarrow> get ?m' c Free = (if c = b then 0 else get ?m c Free)" for c
    using e(3) g by simp
  have links: "get ?m1 x Next = get ?m' x Next \<and> get ?m1 x Prev = get ?m' x Prev" if "x \<in> set (xs @ ys)" for x
    using that H(2) g by auto
  then have "dll ?m' (free_head (take_block s b needed)) (xs @ ys)"
    using e(1) dll_cong [of "xs @ ys" ?m1 ?m'] by (simp add: t)
  moreover have "set (xs @ ys) = {c \<in> B. get ?m c Free \<noteq> 0} - {b}"
    unfolding fs [symmetric] using d by auto
  then have "set (xs @ ys) = {c \<in> B. get ?m' c Free \<noteq> 0}"
    using fr by (auto split: if_splits)
  ultimately show "heap_wf ?m' (free_head (take_block s b needed)) B (xs @ ys)"
    using core d heap_core_cong [of B ?m' ?m] sz by (auto simp: heap_wf_def)
  have oh: "only_headers ?m ?m' (set (xs @ b # ys))"
    unfolding t using H by (auto intro!: only_headers_put_trans only_headers_trans [OF e(4) only_headers_refl] simp: headers_def)
  have "preserves ?m B ?m'"
    using fs core by (intro preserves_headers [OF oh] header_clear) auto
  moreover have "unat (get ?m b Size - needed) < 16"
    using need by (simp add: word_less_nat_alt not_le)
  then have "unat (get ?m b Size) < unat needed + 16"
    using need(1) by (simp add: unat_sub_no_wrap word_le_nat_alt)
  moreover have "alloc_map ?m' B = (alloc_map ?m B)(b \<mapsto> unat (get ?m b Size))"
    using H sz fr by (auto simp: alloc_map_def fun_eq_iff split: if_splits)
  moreover have "\<Union>(extent ?m' ` B) = \<Union>(extent ?m ` B)"
    using sz by (auto simp: extent_def)
  ultimately show "granted ?m B ?m' B b needed"
    using H need(1) sz fr by (auto simp: granted_def alloc_map_def word_le_nat_alt)
qed

lemma take_block_split:
  assumes wf: "heap_wf (memory s) (free_head s) B (xs @ b # ys)"
    and need: "16 \<le> unat needed" "8 dvd unat needed" "needed \<le> get (memory s) b Size"
      "get (memory s) b Size - needed \<ge> 16"
  shows "heap_wf (memory (take_block s b needed)) (free_head (take_block s b needed))
           (insert (b + needed) B) (xs @ (b + needed) # ys)"
    and "granted (memory s) B (memory (take_block s b needed)) (insert (b + needed) B) b needed"
proof -
  let ?m = "memory s" let ?m' = "memory (take_block s b needed)" let ?r = "b + needed"
  let ?B = "insert ?r B"
  have core: "heap_core ?m B" and l: "dll ?m (free_head s) (xs @ b # ys)"
    and d: "distinct (xs @ b # ys)" and fs: "set (xs @ b # ys) = {b \<in> B. get ?m b Free \<noteq> 0}"
    using wf by (auto simp: heap_wf_def)
  have b: "b \<in> B" "get ?m b Free \<noteq> 0" and sub: "set (xs @ b # ys) \<subseteq> B"
    using fs by auto
  have diff: "unat (get ?m b Size - needed) = unat (get ?m b Size) - unat needed"
    using need(3) by (rule unat_sub_no_wrap)
  have n16: "unat needed + 16 \<le> unat (get ?m b Size)"
    using need(3,4) diff by (simp add: word_le_nat_alt)
  note r = remainder_header [OF core b(1) need(1,2) n16]
  have neq: "?r \<noteq> b"
    using r(1) b(1) by auto
  have sub': "set (xs @ b # ys) \<subseteq> ?B" "?r \<notin> set (xs @ b # ys)"
    using sub r(1) by blast+
  note e0 = split_effect [OF r(2) sub'(1) insertI1 d sub'(2) l refl need(4)]
  have e: "dll ?m' (free_head (take_block s b needed)) (xs @ ?r # ys)"
    "\<And>c. c \<in> ?B \<Longrightarrow> get ?m' c Size =
           (if c = b then needed else if c = ?r then get ?m b Size - needed else get ?m c Size)"
    "\<And>c. c \<in> ?B \<Longrightarrow> get ?m' c Free = (if c = b then 0 else if c = ?r then 1 else get ?m c Free)"
    "only_headers ?m ?m' (set (xs @ b # ?r # ys))"
    by (rule e0, assumption?)+
  have new: "get ?m' b Size = needed" "get ?m' ?r Size = get ?m b Size - needed"
    "\<And>c. c \<in> B \<Longrightarrow> c \<noteq> b \<Longrightarrow> get ?m' c Size = get ?m c Size"
    using e(2) b r(1) neq by auto
  note c = heap_core_replace [OF core b(1) need(1,2) n16 new(3) new(1,2)]
  have fr: "get ?m' b Free = 0" "get ?m' ?r Free = 1"
    "\<And>c. c \<in> B \<Longrightarrow> c \<noteq> b \<Longrightarrow> get ?m' c Free = get ?m c Free"
    using e(3) b r(1) neq by auto
  have "set (xs @ ?r # ys) = insert ?r ({c \<in> B. get ?m c Free \<noteq> 0} - {b})"
    unfolding fs [symmetric] using d by auto
  also have "\<dots> = {c \<in> ?B. get ?m' c Free \<noteq> 0}"
  proof (rule set_eqI)
    show "c \<in> insert ?r ({c \<in> B. get ?m c Free \<noteq> 0} - {b}) \<longleftrightarrow> c \<in> {c \<in> ?B. get ?m' c Free \<noteq> 0}" for c
      using fr(1,2) fr(3) [of c] r(1) b neq by (cases "c = b"; cases "c = ?r") auto
  qed
  finally show "heap_wf ?m' (free_head (take_block s b needed)) ?B (xs @ ?r # ys)"
    using c(1) e(1) d sub r(1) unfolding heap_wf_def by auto
  have "preserves ?m B ?m'"
  proof (rule preserves_headers [OF e(4)])
    fix f c assume f: "f \<in> set (xs @ b # ?r # ys)" and cB: "c \<in> B" "get ?m c Free = 0"
    then have "c \<noteq> b" "f \<noteq> ?r \<Longrightarrow> f \<in> {c \<in> B. get ?m c Free \<noteq> 0}"
      using b fs by auto
    then show "{unat f..<unat f + 16} \<inter> extent ?m c = {}"
      using r(3) [OF cB(1)] header_clear [OF core, of f c] cB by (cases "f = ?r") auto
  qed
  moreover have "alloc_map ?m' ?B c = ((alloc_map ?m B)(b \<mapsto> unat needed)) c" for c
    using fr(1,2) fr(3) [of c] new(1) new(3) [of c] r(1) b neq
    by (cases "c = b"; cases "c = ?r") (auto simp: alloc_map_def)
  then have "alloc_map ?m' ?B = (alloc_map ?m B)(b \<mapsto> unat needed)" ..
  ultimately show "granted ?m B ?m' ?B b needed"
    using b fr new(1) c(3) by (simp add: granted_def alloc_map_def)
qed

lemma take_block_ok:
  assumes wf: "heap_wf (memory s) (free_head s) B fs" and b: "b \<in> set fs"
    and need: "16 \<le> unat needed" "8 dvd unat needed" "needed \<le> get (memory s) b Size"
  obtains B' fs' where
    "heap_wf (memory (take_block s b needed)) (free_head (take_block s b needed)) B' fs'"
    "granted (memory s) B (memory (take_block s b needed)) B' b needed"
proof -
  obtain xs ys where fs: "fs = xs @ b # ys"
    using b by (auto simp: in_set_conv_decomp)
  show ?thesis
    using take_block_whole [of s B xs b ys needed] take_block_split [of s B xs b ys needed] wf need that
    unfolding fs by (cases "get (memory s) b Size - needed \<ge> 16") blast+
qed

section \<open>New pages\<close>

definition page_bytes :: "nat set \<Rightarrow> nat set" where
  "page_bytes P = (\<Union>i\<in>P. {0x100000 + 4096 * i ..< 0x100000 + 4096 * i + 4096})"

text \<open>The state of heap and page allocator together: no block lies in a page that the page
  allocator still owns.\<close>

definition heap_inv :: "'a heap_state_scheme \<Rightarrow> u32 set \<Rightarrow> u32 list \<Rightarrow> bool" where
  "heap_inv s B fs \<longleftrightarrow> heap_wf (memory s) (free_head s) B fs \<and> pmm_wf (pmm s) \<and>
     \<Union>(extent (memory s) ` B) \<inter> page_bytes (free_set (pmm s)) = {}"

lemma page_bytes_mono: "P \<subseteq> Q \<Longrightarrow> page_bytes P \<subseteq> page_bytes Q"
  by (auto simp: page_bytes_def)

lemma mem_page_bytes:
  "x \<in> page_bytes P \<longleftrightarrow> 0x100000 \<le> x \<and> (x - 0x100000) div 4096 \<in> P"
proof
  assume "x \<in> page_bytes P"
  then obtain i where "i \<in> P" "0x100000 + 4096 * i \<le> x" "x < 0x100000 + 4096 * i + 4096"
    by (auto simp: page_bytes_def)
  moreover from this have "(x - 0x100000) div 4096 = i" by linarith
  ultimately show "0x100000 \<le> x \<and> (x - 0x100000) div 4096 \<in> P" by simp
next
  assume "0x100000 \<le> x \<and> (x - 0x100000) div 4096 \<in> P"
  moreover from this
  have "0x100000 + 4096 * ((x - 0x100000) div 4096) \<le> x"
    "x < 0x100000 + 4096 * ((x - 0x100000) div 4096) + 4096"
    by linarith+
  ultimately show "x \<in> page_bytes P"
    unfolding page_bytes_def by (auto intro!: bexI [of _ "(x - 0x100000) div 4096"])
qed

lemma page_bytes_ivl:
  "page_bytes {i..<i + n} = {0x100000 + 4096 * i ..< 0x100000 + 4096 * (i + n)}"
proof (rule set_eqI)
  fix x
  show "x \<in> page_bytes {i..<i + n} \<longleftrightarrow> x \<in> {0x100000 + 4096 * i ..< 0x100000 + 4096 * (i + n)}"
    unfolding mem_page_bytes atLeastLessThan_iff
    by (cases "0x100000 \<le> x")
      (auto simp: less_eq_div_iff_mult_less_eq div_less_iff_less_mult)
qed

lemma headers_insert:
  assumes core: "heap_core m B" and b: "header_ok b" "b \<noteq> 0"
    and clear: "{unat b..<unat b + 16} \<inter> \<Union>(extent m ` B) = {}"
  shows "headers (insert b B)" "b \<notin> B"
proof -
  have hd: "{unat c..<unat c + 16} \<subseteq> extent m c" if "c \<in> B" for c
    using core that by (auto simp: heap_core_def block_ok_def extent_def)
  have disj: "{unat b..<unat b + 16} \<inter> {unat c..<unat c + 16} = {}" if "c \<in> B" for c
    using clear hd [OF that] that by blast
  then show "b \<notin> B" by force
  have "separate b c" if "c \<in> B" for c
    using disj [OF that] by (auto simp: separate_def ivl_disjoint_iff simp del: Int_atLeastLessThan)
  then show "headers (insert b B)"
    using core_headers [OF core] b by (auto simp: headers_def separate_sym)
qed

lemma heap_core_insert:
  assumes core: "heap_core m B" and b: "b \<notin> B" "block_ok m' b" "4096 dvd unat (b + get m' b Size)"
    and same: "\<And>c. c \<in> B \<Longrightarrow> get m' c Size = get m c Size"
    and clear: "extent m' b \<inter> \<Union>(extent m ` B) = {}"
  shows "heap_core m' (insert b B)"
proof -
  have core': "heap_core m' B"
    using core heap_core_cong [of B m' m] same by blast
  have ext: "extent m' c = extent m c" if "c \<in> B" for c
    using same [OF that] by (simp add: extent_def)
  have disj: "extent m' c \<inter> extent m' d = {}" if "c \<in> insert b B" "d \<in> insert b B" "c \<noteq> d" for c d
  proof (cases "c = b \<or> d = b")
    case True
    then show ?thesis
      using that clear ext by auto
  next
    case False
    then show ?thesis
      using that core' unfolding heap_core_def by blast
  qed
  have "finite B" "\<forall>c\<in>B. block_ok m' c"
    "\<forall>c\<in>B. 4096 dvd unat (c + get m' c Size) \<or> c + get m' c Size \<in> B"
    using core' by (auto simp: heap_core_def)
  then show ?thesis
    using disj b(2,3) unfolding heap_core_def by auto
qed

lemma add_pages_ok:
  assumes wf: "heap_wf (memory s) (free_head s) B fs"
    and i: "{i..<i + unat n} \<subseteq> kernel_zone" "n \<noteq> 0"
    and clear: "\<Union>(extent (memory s) ` B) \<inter> page_bytes {i..<i + unat n} = {}"
  defines "s' \<equiv> add_pages s (page_addr i) n"
  shows "heap_wf (memory s') (free_head s') (insert (page_addr i) B) (page_addr i # fs)"
    "alloc_map (memory s') (insert (page_addr i) B) = alloc_map (memory s) B"
    "preserves (memory s) B (memory s')"
    "\<Union>(extent (memory s') ` insert (page_addr i) B) =
       page_bytes {i..<i + unat n} \<union> \<Union>(extent (memory s) ` B)"
    "pmm s' = pmm s" "length (heap_pages s') = length (heap_pages s) + unat n"
    "get (memory s') (page_addr i) Size = n * 4096"
proof -
  let ?b = "page_addr i" let ?m = "memory s" let ?m' = "memory s'"
  have n0: "0 < unat n"
    using i(2) by (simp add: unat_gt_0)
  then have "i + unat n - 1 \<in> kernel_zone"
    using i(1) by (intro subsetD [OF i(1)]) simp
  then have n: "0 < unat n" "i + unat n \<le> 1792"
    using n0 by simp_all
  have b: "unat ?b = 0x100000 + 4096 * i"
    using n by (intro unat_page_addr) simp
  have sz: "unat (n * 4096) = unat n * 4096"
    using n by (subst unat_mult_no_wrap) simp_all
  have end_b: "unat (?b + n * 4096) = 0x100000 + 4096 * (i + unat n)"
    using n b sz by (subst unat_add_no_wrap) simp_all
  have core: "heap_core ?m B" and l: "dll ?m (free_head s) fs" and d: "distinct fs"
    and fs: "set fs = {c \<in> B. get ?m c Free \<noteq> 0}"
    using wf by (auto simp: heap_wf_def)
  have bytes: "page_bytes {i..<i + unat n} = {unat ?b ..< unat ?b + unat (n * 4096)}"
    using b sz by (simp add: page_bytes_ivl algebra_simps)
  have hdr: "header_ok ?b" "?b \<noteq> 0"
    using b n by (auto simp: header_ok_def u32_eq_iff intro!: dvd_add)
  have "{unat ?b..<unat ?b + 16} \<subseteq> page_bytes {i..<i + unat n}"
    unfolding bytes using sz n by auto
  then have H: "headers (insert ?b B)" "?b \<notin> B"
    using headers_insert [OF core hdr] clear by blast+
  let ?s1 = "s\<lparr>memory := put ?m ?b Size (n * 4096)\<rparr>"
  have g1: "c \<in> insert ?b B \<Longrightarrow> get (memory ?s1) c f = (if c = ?b \<and> f = Size then n * 4096 else get ?m c f)" for c f
    using H(1) by (simp add: get_put_headers)
  have fsB: "set fs \<subseteq> insert ?b B" "?b \<notin> set fs"
    using fs H(2) by auto
  have "get ?m x Next = get (memory ?s1) x Next \<and> get ?m x Prev = get (memory ?s1) x Prev" if "x \<in> set fs" for x
    using g1 [of x] that fsB by auto
  then have l1: "dll (memory ?s1) (free_head ?s1) fs"
    using l dll_cong [of fs ?m "memory ?s1"] by simp
  note e = fl_insert_effect [OF H(1) insertI1 fsB(1) l1 d fsB(2)]
  have s': "memory s' = memory (fl_insert ?s1 ?b)" "free_head s' = free_head (fl_insert ?s1 ?b)"
    "pmm s' = pmm s" "length (heap_pages s') = length (heap_pages s) + unat n"
    by (simp_all add: s'_def add_pages_def Let_def)
  then show "pmm s' = pmm s" "length (heap_pages s') = length (heap_pages s) + unat n"
    by simp_all
  have size: "get ?m' ?b Size = n * 4096" "\<And>c. c \<in> B \<Longrightarrow> get ?m' c Size = get ?m c Size"
    using e(2) g1 H(2) by (auto simp: s')
  show "get ?m' ?b Size = n * 4096" by (rule size)
  have free: "get ?m' ?b Free = 1" "\<And>c. c \<in> B \<Longrightarrow> get ?m' c Free = get ?m c Free"
    using e(3) g1 H(2) by (auto simp: s')
  have ext: "extent ?m' ?b = page_bytes {i..<i + unat n}"
    by (simp add: extent_def size bytes)
  have bok: "block_ok ?m' ?b"
    using b n sz size by (auto simp: block_ok_def intro!: dvd_add dvd_mult)
  have "4096 dvd unat (?b + n * 4096)"
    unfolding end_b by (intro dvd_add) simp_all
  then have core': "heap_core ?m' (insert ?b B)"
    using heap_core_insert [OF core H(2) bok _ size(2)] size(1) clear ext by auto
  have "set (?b # fs) = {c \<in> insert ?b B. get ?m' c Free \<noteq> 0}"
    using fs free H(2) by auto
  then show "heap_wf ?m' (free_head s') (insert ?b B) (?b # fs)"
    using core' e(1) d fsB(2) by (simp add: heap_wf_def s')
  show "alloc_map ?m' (insert ?b B) = alloc_map ?m B"
    using size(2) free H(2) by (auto simp: alloc_map_def fun_eq_iff)
  show "\<Union>(extent ?m' ` insert ?b B) = page_bytes {i..<i + unat n} \<union> \<Union>(extent ?m ` B)"
    using ext size(2) by (auto simp: extent_def)
  have "only_headers ?m ?m' (insert ?b (set fs))"
    unfolding s' using hdr(1)
    by (intro only_headers_trans [OF only_headers_put [of ?b "insert ?b (set fs)" ?m Size "n * 4096"]])
      (use e(4) in auto)
  then show "preserves ?m B ?m'"
  proof (rule preserves_headers)
    fix f c assume f: "f \<in> insert ?b (set fs)" and c: "c \<in> B" "get ?m c Free = 0"
    show "{unat f..<unat f + 16} \<inter> extent ?m c = {}"
    proof (cases "f = ?b")
      case True
      then show ?thesis
        using \<open>{unat ?b..<unat ?b + 16} \<subseteq> page_bytes {i..<i + unat n}\<close> clear c by blast
    next
      case False
      then show ?thesis
        using f c fs header_clear [OF core, of f c] by auto
    qed
  qed
qed

section \<open>kmalloc\<close>

lemma unat_block_need:
  "16 \<le> unat (block_need sz) \<and> 8 dvd unat (block_need sz)"
  "unat sz \<le> 0xFFFFFFF0 \<Longrightarrow> unat (block_need sz) = max 16 (8 * ((unat sz + 7) div 8) + 8)"
proof -
  let ?a = "(sz + 7) AND NOT 7"
  note a = unat_align8_down [of "sz + 7"]
  have "unat (?a + 8) = (unat ?a + 8) mod 4294967296"
    by (simp add: unat_word_ariths)
  also have "\<dots> = (8 * (unat (sz + 7) div 8 + 1)) mod (8 * 536870912)"
    unfolding a by (simp add: algebra_simps)
  finally have n: "unat (?a + 8) = 8 * ((unat (sz + 7) div 8 + 1) mod 536870912)"
    by (simp only: mult_mod_right)
  have "8 dvd unat (?a + 8)"
    unfolding n by (rule dvd_triv_left)
  then show "16 \<le> unat (block_need sz) \<and> 8 dvd unat (block_need sz)"
    unfolding block_need_def Let_def by (simp add: word_less_nat_alt not_less)
  assume sz: "unat sz \<le> 0xFFFFFFF0"
  then have s7: "unat (sz + 7) = unat sz + 7"
    by (intro trans [OF unat_add_no_wrap]) simp_all
  have "(unat sz + 7) div 8 + 1 < 536870912"
    using sz by linarith
  then have "unat (?a + 8) = 8 * ((unat sz + 7) div 8) + 8"
    unfolding n s7 by (simp add: algebra_simps)
  then show "unat (block_need sz) = max 16 (8 * ((unat sz + 7) div 8) + 8)"
    unfolding block_need_def Let_def by (auto simp: word_less_nat_alt max_def)
qed

lemma preserves_alloc:
  "preserves m B m' \<longleftrightarrow>
     (\<forall>c n. alloc_map m B c = Some n \<longrightarrow> (\<forall>x. unat c \<le> unat x \<and> unat x < unat c + n \<longrightarrow> m' x = m x))"
  by (auto simp: preserves_def alloc_map_def extent_def)

lemma preserves_trans:
  "preserves m B m1 \<Longrightarrow> alloc_map m1 B1 = alloc_map m B \<Longrightarrow> preserves m1 B1 m2 \<Longrightarrow> preserves m B m2"
  by (simp add: preserves_alloc)

lemma heap_expand_ok:
  assumes inv: "heap_inv s B fs" and ok: "heap_expand s = (True, s')"
  obtains b where "heap_inv s' (insert b B) (b # fs)"
    "alloc_map (memory s') (insert b B) = alloc_map (memory s) B"
    "preserves (memory s) B (memory s')" "length (heap_pages s') = length (heap_pages s) + 4"
    "length (heap_pages s') \<le> 256" "free_set (pmm s') \<subseteq> free_set (pmm s)"
    "free_set (pmm s) - free_set (pmm s') \<subseteq> kernel_zone"
proof -
  obtain p t where r: "pmm_alloc_contiguous_pages (pmm s) 4 = (p, t)"
    by fastforce
  have len: "length (heap_pages s) + 4 \<le> 256" and p: "p \<noteq> 0"
    and s': "s' = add_pages (s\<lparr>pmm := t\<rparr>) p 4"
    using ok r by (auto simp: heap_expand_def Let_def split: if_splits)
  have wf: "heap_wf (memory s) (free_head s) B fs" "pmm_wf (pmm s)"
    and clear: "\<Union>(extent (memory s) ` B) \<inter> page_bytes (free_set (pmm s)) = {}"
    using inv by (auto simp: heap_inv_def)
  from kernel_run.run_found [OF wf(2) r p] obtain i where i: "p = page_addr i"
    "{i..<i + 4} \<subseteq> free_set (pmm s) \<inter> kernel_zone" "pmm_wf t"
    "free_set t = free_set (pmm s) - {i..<i + 4}"
    by auto
  have pages: "page_bytes {i..<i + 4} \<subseteq> page_bytes (free_set (pmm s))"
    "page_bytes (free_set t) \<subseteq> page_bytes (free_set (pmm s))"
    using i by (auto intro!: page_bytes_mono)
  have apart: "page_bytes {i..<i + 4} \<inter> page_bytes (free_set t) = {}"
    using i(4) by (auto simp: mem_page_bytes)
  have "heap_wf (memory (s\<lparr>pmm := t\<rparr>)) (free_head (s\<lparr>pmm := t\<rparr>)) B fs"
    "{i..<i + unat (4 :: u32)} \<subseteq> kernel_zone" "(4 :: u32) \<noteq> 0"
    "\<Union>(extent (memory (s\<lparr>pmm := t\<rparr>)) ` B) \<inter> page_bytes {i..<i + unat (4 :: u32)} = {}"
    using wf i(2) pages(1) clear by (auto simp del: mem_zone)
  note a = add_pages_ok [OF this, folded i(1), folded s']
  have "heap_inv s' (insert p B) (p # fs)"
    unfolding heap_inv_def using a(1,4,5) i(3) apart pages(2) clear by auto
  then show ?thesis
    using a len i(2,4) by (intro that [of p]) auto
qed

lemma heap_expand_fail:
  assumes inv: "heap_inv s B fs" and fail: "heap_expand s = (False, s')"
  shows "s' = s" "256 < length (heap_pages s) + 4 \<or>
    (\<forall>i. \<not> {i..<i + 4} \<subseteq> free_set (pmm s) \<inter> kernel_zone)"
proof -
  obtain p t where r: "pmm_alloc_contiguous_pages (pmm s) 4 = (p, t)"
    by fastforce
  have wf: "pmm_wf (pmm s)"
    using inv by (simp add: heap_inv_def)
  have c: "256 < length (heap_pages s) + 4 \<and> s' = s \<or> p = 0 \<and> s' = s\<lparr>pmm := t\<rparr>"
    using fail r by (auto simp: heap_expand_def Let_def split: if_splits)
  have "p = 0 \<Longrightarrow> t = pmm s \<and> (\<forall>i. \<not> {i..<i + 4} \<subseteq> free_set (pmm s) \<inter> kernel_zone)"
    using kernel_run.run_failed [OF wf, of 4 t] r by auto
  then show "s' = s" "256 < length (heap_pages s) + 4 \<or>
    (\<forall>i. \<not> {i..<i + 4} \<subseteq> free_set (pmm s) \<inter> kernel_zone)"
    using c by auto
qed

text \<open>The contract of \<open>kmalloc\<close>, for a call that maps state \<open>s\<close> to \<open>s'\<close> and returns \<open>p\<close>.\<close>

definition kmalloc_post :: "'a heap_state_scheme \<Rightarrow> u32 set \<Rightarrow> u32 \<Rightarrow> u32 \<Rightarrow>
    'a heap_state_scheme \<Rightarrow> u32 set \<Rightarrow> u32 list \<Rightarrow> bool" where
  "kmalloc_post s B sz p s' B' fs' \<longleftrightarrow>
     heap_inv s' B' fs' \<and> preserves (memory s) B (memory s') \<and>
     free_set (pmm s') \<subseteq> free_set (pmm s) \<and>
     free_set (pmm s) - free_set (pmm s') \<subseteq> kernel_zone \<and>
     (if p = 0 then
        alloc_map (memory s') B' = alloc_map (memory s) B \<and>
        (\<forall>b\<in>set fs'. get (memory s') b Size < block_need sz) \<and>
        (256 < length (heap_pages s') + 4 \<or>
         (\<forall>i. \<not> {i..<i + 4} \<subseteq> free_set (pmm s') \<inter> kernel_zone))
      else
        8 dvd unat p \<and> alloc_map (memory s) B (p - 8) = None \<and>
        (\<exists>n. alloc_map (memory s') B' = (alloc_map (memory s) B)(p - 8 \<mapsto> n) \<and>
           unat (block_need sz) \<le> n \<and> n < unat (block_need sz) + 16))"

lemma kmalloc_found:
  assumes inv: "heap_inv s B fs" and f: "find (\<lambda>b. block_need sz \<le> get (memory s) b Size) fs = Some b"
  obtains s' B' fs' where "kmalloc s sz = Some (b + 8, s')" "b + 8 \<noteq> 0" "kmalloc_post s B sz (b + 8) s' B' fs'"
proof -
  have wf: "heap_wf (memory s) (free_head s) B fs"
    using inv by (simp add: heap_inv_def)
  have b: "b \<in> set fs" "block_need sz \<le> get (memory s) b Size"
    using f by (auto simp: find_Some_iff)
  then have "block_ok (memory s) b"
    using wf by (auto simp: heap_wf_def heap_core_def)
  then have b8: "unat (b + 8) = unat b + 8" "8 dvd unat b" "b \<noteq> 0" "0 < unat b"
    using block_header by (auto simp: block_ok_def intro!: trans [OF unat_add_no_wrap])
  obtain B' fs' where t: "heap_wf (memory (take_block s b (block_need sz)))
      (free_head (take_block s b (block_need sz))) B' fs'"
    "granted (memory s) B (memory (take_block s b (block_need sz))) B' b (block_need sz)"
    using take_block_ok [OF wf b(1) _ _ b(2)] unat_block_need(1) by blast
  have k: "kmalloc s sz = Some (b + 8, take_block s b (block_need sz))"
    by (subst kmalloc.simps) (simp add: first_fit_wf [OF wf] f b8(3))
  have "b + 8 \<noteq> 0" "b + 8 - 8 = b" "8 dvd unat (b + 8)"
    using b8 by (auto simp: u32_eq_iff)
  moreover have "heap_inv (take_block s b (block_need sz)) B' fs'"
    using inv t by (simp add: heap_inv_def granted_def)
  ultimately have "kmalloc_post s B sz (b + 8) (take_block s b (block_need sz)) B' fs'"
    using t(2) by (auto simp: kmalloc_post_def granted_def)
  then show ?thesis
    using that k \<open>b + 8 \<noteq> 0\<close> by blast
qed

lemma kmalloc_post_grown:
  assumes "heap_inv s1 B1 fs1" "alloc_map (memory s1) B1 = alloc_map (memory s) B"
    "preserves (memory s) B (memory s1)" "free_set (pmm s1) \<subseteq> free_set (pmm s)"
    "free_set (pmm s) - free_set (pmm s1) \<subseteq> kernel_zone"
    and "kmalloc_post s1 B1 sz p s' B' fs'"
  shows "kmalloc_post s B sz p s' B' fs'"
proof -
  have "preserves (memory s) B (memory s')"
    using assms preserves_trans unfolding kmalloc_post_def by blast
  moreover have "free_set (pmm s) - free_set (pmm s') \<subseteq> kernel_zone"
    using assms(5,6) unfolding kmalloc_post_def by blast
  ultimately show ?thesis
    using assms(2,4,6) unfolding kmalloc_post_def by auto
qed

lemma kmalloc_returns:
  "heap_inv s B fs \<Longrightarrow> \<exists>p s' B' fs'. kmalloc s sz = Some (p, s') \<and> kmalloc_post s B sz p s' B' fs'"
proof (induction "256 - length (heap_pages s)" arbitrary: s B fs rule: less_induct)
  case less
  have wf: "heap_wf (memory s) (free_head s) B fs"
    using less.prems by (simp add: heap_inv_def)
  show ?case
  proof (cases "find (\<lambda>b. block_need sz \<le> get (memory s) b Size) fs")
    case (Some b)
    show ?thesis
      by (rule kmalloc_found [OF less.prems Some]) (rule exI conjI, assumption?)+
  next
    case None
    obtain ok s1 where e: "heap_expand s = (ok, s1)" by fastforce
    have k: "kmalloc s sz = (if ok then kmalloc s1 sz else Some (0, s1))"
      by (subst kmalloc.simps) (simp add: first_fit_wf [OF wf] None e)
    show ?thesis
    proof (cases ok)
      case True
      then have e': "heap_expand s = (True, s1)"
        using e by simp
      obtain b where
        h: "heap_inv s1 (insert b B) (b # fs)" "alloc_map (memory s1) (insert b B) = alloc_map (memory s) B"
          "preserves (memory s) B (memory s1)" "length (heap_pages s1) = length (heap_pages s) + 4"
          "length (heap_pages s1) \<le> 256" "free_set (pmm s1) \<subseteq> free_set (pmm s)"
          "free_set (pmm s) - free_set (pmm s1) \<subseteq> kernel_zone"
        by (rule heap_expand_ok [OF less.prems e'])
      then have "256 - length (heap_pages s1) < 256 - length (heap_pages s)" by simp
      from less.hyps [OF this h(1)] obtain p s' B' fs' where
        r: "kmalloc s1 sz = Some (p, s')" "kmalloc_post s1 (insert b B) sz p s' B' fs'"
        by blast
      have "kmalloc_post s B sz p s' B' fs'"
        by (rule kmalloc_post_grown [OF h(1,2,3,6,7) r(2)])
      then show ?thesis
        using r(1) k True by (intro exI conjI) auto
    next
      case False
      then have e': "heap_expand s = (False, s1)"
        using e by simp
      have "\<forall>b\<in>set fs. get (memory s) b Size < block_need sz"
        using None by (auto simp: find_None_iff not_le)
      then have "kmalloc_post s B sz 0 s B fs"
        using less.prems heap_expand_fail [OF less.prems e']
        by (auto simp: kmalloc_post_def preserves_def)
      then show ?thesis
        using k False heap_expand_fail(1) [OF less.prems e'] by auto
    qed
  qed
qed

section \<open>kfree\<close>

text \<open>The invariant while a block \<open>b\<close> is marked free but not yet in the list.\<close>

definition heap_pending :: "mem \<Rightarrow> u32 \<Rightarrow> u32 set \<Rightarrow> u32 list \<Rightarrow> u32 \<Rightarrow> bool" where
  "heap_pending m h B fs b \<longleftrightarrow> heap_core m B \<and> dll m h fs \<and> distinct fs \<and> b \<in> B \<and>
     get m b Free \<noteq> 0 \<and> set fs = {c \<in> B. get m c Free \<noteq> 0} - {b}"

text \<open>A step of \<open>kfree\<close> keeps the allocated blocks and the bytes managed.\<close>

definition same_blocks :: "mem \<Rightarrow> u32 set \<Rightarrow> mem \<Rightarrow> u32 set \<Rightarrow> bool" where
  "same_blocks m B m' B' \<longleftrightarrow> alloc_map m' B' = alloc_map m B \<and> preserves m B m' \<and>
     \<Union>(extent m' ` B') = \<Union>(extent m ` B)"

lemma same_blocks_trans:
  "same_blocks m B m1 B1 \<Longrightarrow> same_blocks m1 B1 m2 B2 \<Longrightarrow> same_blocks m B m2 B2"
  unfolding same_blocks_def using preserves_trans by metis

lemma same_blocks_refl [simp]: "same_blocks m B m B"
  by (simp add: same_blocks_def preserves_def)

text \<open>Merging a block with the one right behind it.\<close>

lemma heap_core_merge:
  assumes core: "heap_core m B" and a: "a \<in> B" "c \<in> B" "c = a + get m a Size"
    and new: "get m' a Size = get m a Size + get m c Size"
      "\<And>d. d \<in> B \<Longrightarrow> d \<noteq> a \<Longrightarrow> d \<noteq> c \<Longrightarrow> get m' d Size = get m d Size"
  shows "heap_core m' (B - {c})" "a \<noteq> c" "\<Union>(extent m' ` (B - {c})) = \<Union>(extent m ` B)"
proof -
  have aok: "block_ok m a" and cok: "block_ok m c"
    using core a by (auto simp: heap_core_def)
  have c: "unat c = unat a + unat (get m a Size)"
    using block_end [OF aok] a(3) by simp
  have sz: "unat (get m' a Size) = unat (get m a Size) + unat (get m c Size)"
    unfolding new(1) using aok cok by (intro unat_add_no_wrap) (simp add: block_ok_def)
  show neq: "a \<noteq> c"
    using c aok by (auto simp: block_ok_def)
  have ext: "extent m' a = extent m a \<union> extent m c"
    by (auto simp: extent_def sz c)
  have other: "extent m' d = extent m d" if "d \<in> B" "d \<noteq> a" "d \<noteq> c" for d
    using new(2) [OF that] by (simp add: extent_def)
  have disj: "extent m d \<inter> extent m e = {}" if "d \<in> B" "e \<in> B" "d \<noteq> e" for d e
    using core that by (auto simp: heap_core_def)
  have UB: "B - {c} = insert a (B - {a, c})" "B = insert a (insert c (B - {a, c}))"
    using a neq by auto
  show "\<Union>(extent m' ` (B - {c})) = \<Union>(extent m ` B)"
  proof -
    have "\<Union>(extent m' ` (B - {a, c})) = \<Union>(extent m ` (B - {a, c}))"
      using other by auto
    then show ?thesis
      by (subst UB(1), subst (2) UB(2)) (simp add: ext Un_assoc)
  qed
  have "block_ok m' d" if "d \<in> B - {c}" for d
  proof (cases "d = a")
    case True
    then show ?thesis
      using aok cok sz c by (auto simp: block_ok_def)
  next
    case False
    then show ?thesis
      using core that new(2) [of d] by (auto simp: block_ok_def heap_core_def)
  qed
  moreover have "extent m' d \<inter> extent m' e = {}" if "d \<in> B - {c}" "e \<in> B - {c}" "d \<noteq> e" for d e
    using that disj [of a e] disj [of c e] disj [of d a] disj [of d c] disj [of d e] a ext
      other [of d] other [of e]
    by (cases "d = a"; cases "e = a") auto
  moreover have "4096 dvd unat (d + get m' d Size) \<or> d + get m' d Size \<in> B - {c}" if "d \<in> B - {c}" for d
  proof -
    have old: "4096 dvd unat (x + get m x Size) \<or> x + get m x Size \<in> B" if "x \<in> B" for x
      using core that by (auto simp: heap_core_def)
    have nc: "d + get m d Size \<noteq> c" if "d \<noteq> a" "d \<in> B" for d
    proof
      assume e: "d + get m d Size = c"
      have dok: "block_ok m d"
        using core \<open>d \<in> B\<close> by (auto simp: heap_core_def)
      then have "unat d + unat (get m d Size) = unat a + unat (get m a Size)"
        using block_end [of m d] e c by simp
      then have "unat c - 1 \<in> extent m d" "unat c - 1 \<in> extent m a"
        using dok aok c by (auto simp: extent_def block_ok_def)
      then show False
        using disj [OF \<open>d \<in> B\<close> a(1) \<open>d \<noteq> a\<close>] by blast
    qed
    have cc: "c + get m c Size \<noteq> c"
      using cok by (auto simp: block_ok_def)
    show ?thesis
    proof (cases "d = a")
      case True
      have "a + get m' a Size = c + get m c Size"
        by (simp add: new(1) a(3) add.assoc)
      then show ?thesis
        using old [OF a(2)] cc True by simp
    next
      case False
      then show ?thesis
        using old [of d] nc [of d] new(2) [of d] that by auto
    qed
  qed
  ultimately show "heap_core m' (B - {c})"
    using core unfolding heap_core_def by simp
qed

lemma unat_page_of: "unat (page_of p) = 4096 * (unat p div 4096)"
  using unat_align4096_down [of p] by (simp add: page_of_def)

lemma page_of_le: "page_of b \<le> b"
  by (simp add: word_le_nat_alt unat_page_of)

lemma block_size_bounds:
  "heap_core m B \<Longrightarrow> b \<in> B \<Longrightarrow> 16 \<le> unat (get m b Size) \<and> unat b + unat (get m b Size) \<le> 0x800000
     \<and> unat (b + get m b Size) = unat b + unat (get m b Size)"
  using block_end [of m b] by (auto simp: heap_core_def block_ok_def)

text \<open>A block that starts before \<open>b\<close> ends at \<open>b\<close> or before it.\<close>

lemma block_before:
  assumes "heap_core m B" "a \<in> B" "b \<in> B" "unat a < unat b"
  shows "unat a + unat (get m a Size) \<le> unat b"
proof -
  have "a \<noteq> b"
    using assms(4) by auto
  then have "extent m a \<inter> extent m b = {}" "16 \<le> unat (get m b Size)" "16 \<le> unat (get m a Size)"
    using assms(1-3) unfolding heap_core_def block_ok_def by blast+
  then show ?thesis
    using assms(4) by (auto simp: extent_def ivl_disjoint_iff simp del: Int_atLeastLessThan)
qed

text \<open>Inside one page the size chain reaches \<open>b\<close> exactly.\<close>

lemma walk_back_finds:
  assumes core: "heap_core m B" and b: "b \<in> B"
  shows "cur \<in> B \<Longrightarrow> page_of b \<le> cur \<Longrightarrow> cur < b \<Longrightarrow>
    \<exists>p\<in>B. walk_back m prev cur b = Some p \<and> p + get m p Size = b \<and> p \<noteq> b"
proof (induction "unat b - unat cur" arbitrary: prev cur rule: less_induct)
  case less
  let ?n = "cur + get m cur Size"
  note sz = block_size_bounds [OF core less.prems(1)]
  have n: "unat ?n = unat cur + unat (get m cur Size)" "unat ?n \<le> unat b"
    using sz block_before [OF core less.prems(1) b] less.prems(3) by (simp_all add: word_less_nat_alt)
  have step: "walk_back m prev cur b = walk_back m cur ?n b"
    using less.prems(3) by (subst walk_back.simps) simp
  show ?case
  proof (cases "?n = b")
    case True
    have "walk_back m cur b b = Some cur"
      by (subst walk_back.simps) simp
    then show ?thesis
      using step True less.prems by (intro bexI [of _ cur]) auto
  next
    case False
    then have lt: "unat ?n < unat b"
      using n(2) by (simp add: u32_eq_iff)
    have lo: "4096 * (unat b div 4096) < unat ?n"
      using less.prems(2) n(1) sz by (simp add: word_le_nat_alt unat_page_of)
    have "\<not> 4096 dvd unat ?n"
      using inside_page_unaligned [OF lo] lt page_bounds [of "unat b"] by linarith
    then have "?n \<in> B"
      using core less.prems(1) by (auto simp: heap_core_def)
    moreover have "page_of b \<le> ?n" "?n < b"
      using lo lt by (simp_all add: word_le_nat_alt word_less_nat_alt unat_page_of)
    moreover have "unat b - unat ?n < unat b - unat cur"
      using n sz lt by linarith
    ultimately show ?thesis
      using less.hyps [of ?n cur] step by simp
  qed
qed

lemma coalesce_forward_ok:
  assumes pend: "heap_pending (memory s) (free_head s) B fs b"
  defines "s' \<equiv> coalesce_forward s b"
  obtains B' fs' where "heap_pending (memory s') (free_head s') B' fs' b"
    "same_blocks (memory s) B (memory s') B'" "\<And>c. c \<in> B \<Longrightarrow> c \<le> b \<Longrightarrow> c \<in> B'"
proof -
  let ?m = "memory s" let ?nx = "b + get ?m b Size"
  have core: "heap_core ?m B" and b: "b \<in> B" "get ?m b Free \<noteq> 0" and l: "dll ?m (free_head s) fs"
    and d: "distinct fs" and fs: "set fs = {c \<in> B. get ?m c Free \<noteq> 0} - {b}"
    using pend by (auto simp: heap_pending_def)
  note sz = block_size_bounds [OF core b(1)]
  have "4096 * (unat b div 4096) + 4096 < 4294967296"
    using sz page_bounds(1) [of "unat b"] by linarith
  then have pend: "unat (page_of b + 4096) = 4096 * (unat b div 4096) + 4096"
    by (intro trans [OF unat_add_no_wrap]) (simp_all add: unat_page_of)
  show ?thesis
  proof (cases "?nx \<ge> page_of b + 4096 \<or> get ?m ?nx Free = 0")
    case True
    then have "s' = s"
      by (auto simp: s'_def coalesce_forward_def Let_def)
    then show ?thesis
      using assms(1) by (intro that [of B fs]) auto
  next
    case False
    have "unat b < unat ?nx" "unat ?nx < 4096 * (unat b div 4096) + 4096"
      using False sz pend by (auto simp: word_le_nat_alt)
    then have "\<not> 4096 dvd unat ?nx"
      using page_bounds [of "unat b"] by (intro inside_page_unaligned [of "unat b div 4096"]) linarith+
    then have nB: "?nx \<in> B"
      using core b(1) by (auto simp: heap_core_def)
    have neq: "?nx \<noteq> b"
      using sz by (auto simp: u32_eq_iff)
    then have "?nx \<in> set fs"
      using False nB fs by auto
    then obtain xs ys where xy: "fs = xs @ ?nx # ys"
      by (auto simp: in_set_conv_decomp)
    have H: "headers B" "set (xs @ ?nx # ys) \<subseteq> B"
      using core_headers [OF core] fs xy by auto
    note e = fl_remove_effect [OF H d [unfolded xy] l [unfolded xy]]
    let ?m1 = "memory (fl_remove s ?nx)"
    let ?v = "get ?m1 b Size + get ?m1 ?nx Size"
    have s': "s' = (fl_remove s ?nx)\<lparr>memory := put ?m1 b Size ?v\<rparr>"
      using False by (simp add: s'_def coalesce_forward_def Let_def)
    let ?m' = "memory s'"
    have g: "c \<in> B \<Longrightarrow> get ?m' c f = (if c = b \<and> f = Size then ?v else get ?m1 c f)" for c f
      using H b by (simp add: s' get_put_headers)
    have new: "get ?m' b Size = get ?m b Size + get ?m ?nx Size"
      "\<And>c. c \<in> B \<Longrightarrow> c \<noteq> b \<Longrightarrow> c \<noteq> ?nx \<Longrightarrow> get ?m' c Size = get ?m c Size"
      using g e(2) b nB by auto
    note mg = heap_core_merge [OF core b(1) nB refl new]
    have fr: "\<And>c. c \<in> B \<Longrightarrow> get ?m' c Free = get ?m c Free"
      using g e(3) by simp
    have "get ?m1 x Next = get ?m' x Next \<and> get ?m1 x Prev = get ?m' x Prev" if "x \<in> set (xs @ ys)" for x
      using that H(2) g by auto
    then have l': "dll ?m' (free_head s') (xs @ ys)"
      using e(1) dll_cong [of "xs @ ys" ?m1 ?m'] by (simp add: s')
    have "set (xs @ ys) = set fs - {?nx}"
      using d by (auto simp: xy)
    also have "\<dots> = {c \<in> B - {?nx}. get ?m' c Free \<noteq> 0} - {b}"
      unfolding fs using fr by auto
    finally have "heap_pending ?m' (free_head s') (B - {?nx}) (xs @ ys) b"
      using mg(1) l' d b fr neq by (auto simp: heap_pending_def xy)
    moreover have "same_blocks ?m B ?m' (B - {?nx})"
    proof -
      have "only_headers ?m ?m' (insert b (set fs))"
        unfolding s' xy using H b by (auto intro!: only_headers_put_trans only_headers_trans [OF e(4) only_headers_refl] simp: headers_def)
      then have "preserves ?m B ?m'"
        using fs b core by (intro preserves_headers [of ?m ?m' "insert b (set fs)"] header_clear) auto
      moreover have "alloc_map ?m' (B - {?nx}) c = alloc_map ?m B c" for c
        using new(2) [of c] fr [of c] fr [OF nB] b False by (cases "c = b"; cases "c = ?nx") (auto simp: alloc_map_def)
      ultimately show ?thesis
        using mg(3) by (auto simp: same_blocks_def)
    qed
    moreover have "c \<in> B - {?nx}" if "c \<in> B" "c \<le> b" for c
      using that \<open>unat b < unat ?nx\<close> by (auto simp: word_le_nat_alt)
    ultimately show ?thesis
      using that by blast
  qed
qed

lemma coalesce_backward_ok:
  assumes pend: "heap_pending (memory s) (free_head s) B fs b" and start: "page_of b \<in> B"
  obtains merged s' where "coalesce_backward s b = Some (merged, s')" "pmm s' = pmm s" "heap_pages s' = heap_pages s"
    "merged \<Longrightarrow> heap_wf (memory s') (free_head s') (B - {b}) fs \<and> same_blocks (memory s) B (memory s') (B - {b}) \<and>
       get (memory s') b Free \<noteq> 0"
    "\<not> merged \<Longrightarrow> s' = s"
proof -
  let ?m = "memory s"
  have core: "heap_core ?m B" and b: "b \<in> B" "get ?m b Free \<noteq> 0" and l: "dll ?m (free_head s) fs"
    and d: "distinct fs" and fs: "set fs = {c \<in> B. get ?m c Free \<noteq> 0} - {b}"
    using pend by (auto simp: heap_pending_def)
  have H: "headers B"
    by (rule core_headers [OF core])
  show ?thesis
  proof (cases "b = page_of b")
    case True
    then have "coalesce_backward s b = Some (False, s)"
      by (simp add: coalesce_backward_def Let_def)
    then show ?thesis
      by (rule that) simp_all
  next
    case False
    then have "page_of b < b"
      using page_of_le [of b] by simp
    from walk_back_finds [OF core b(1) start order_refl this] obtain p where
      p: "p \<in> B" "walk_back ?m 0 (page_of b) b = Some p" "b = p + get ?m p Size" "p \<noteq> b"
      by blast
    have p0: "p \<noteq> 0"
      using H p(1) by (auto simp: headers_def)
    show ?thesis
    proof (cases "get ?m p Free = 0")
      case True
      then have "coalesce_backward s b = Some (False, s)"
        using False p(2) by (simp add: coalesce_backward_def Let_def)
      then show ?thesis
        by (rule that) simp_all
    next
      case merge: False
      let ?v = "get ?m p Size + get ?m b Size"
      let ?s' = "s\<lparr>memory := put ?m p Size ?v\<rparr>"
      let ?m' = "memory ?s'"
      have c: "coalesce_backward s b = Some (True, ?s')"
        using False p(2) p0 merge by (simp add: coalesce_backward_def Let_def)
      have g: "x \<in> B \<Longrightarrow> get ?m' x f = (if x = p \<and> f = Size then ?v else get ?m x f)" for x f
        using H p(1) by (simp add: get_put_headers)
      have new: "get ?m' p Size = ?v" "\<And>x. x \<in> B \<Longrightarrow> x \<noteq> p \<Longrightarrow> x \<noteq> b \<Longrightarrow> get ?m' x Size = get ?m x Size"
        using g p(1) by auto
      note mg = heap_core_merge [OF core p(1) b(1) p(3) new]
      have "get ?m x Next = get ?m' x Next \<and> get ?m x Prev = get ?m' x Prev" if "x \<in> set fs" for x
        using that fs g [of x] by auto
      then have l': "dll ?m' (free_head ?s') fs"
        using l dll_cong [of fs ?m ?m'] by simp
      have "set fs = {x \<in> B - {b}. get ?m' x Free \<noteq> 0}"
        unfolding fs using g by auto
      then have "heap_wf ?m' (free_head ?s') (B - {b}) fs"
        using mg(1) l' d by (simp add: heap_wf_def)
      moreover have "same_blocks ?m B ?m' (B - {b})"
      proof -
        have "only_headers ?m ?m' {p}"
          using H p(1) by (auto intro!: only_headers_put simp: headers_def)
        then have "preserves ?m B ?m'"
          using p(1) merge core by (intro preserves_headers [of ?m ?m' "{p}"] header_clear) auto
        moreover have "alloc_map ?m' (B - {b}) x = alloc_map ?m B x" for x
          using g [of x] b merge by (auto simp: alloc_map_def)
        ultimately show ?thesis
          using mg(3) by (auto simp: same_blocks_def)
      qed
      moreover have "get ?m' b Free \<noteq> 0"
        using g b by simp
      ultimately show ?thesis
        using c by (intro that [of True ?s']) simp_all
    qed
  qed
qed

lemma fl_insert_ok:
  assumes pend: "heap_pending (memory s) (free_head s) B fs b"
  shows "heap_wf (memory (fl_insert s b)) (free_head (fl_insert s b)) B (b # fs)"
    "same_blocks (memory s) B (memory (fl_insert s b)) B"
    "get (memory (fl_insert s b)) b Free \<noteq> 0"
proof -
  let ?m = "memory s" let ?m' = "memory (fl_insert s b)"
  have core: "heap_core ?m B" and b: "b \<in> B" "get ?m b Free \<noteq> 0" and l: "dll ?m (free_head s) fs"
    and d: "distinct fs" and fs: "set fs = {c \<in> B. get ?m c Free \<noteq> 0} - {b}"
    using pend by (auto simp: heap_pending_def)
  have sub: "set fs \<subseteq> B" "b \<notin> set fs"
    using fs by auto
  note e = fl_insert_effect [OF core_headers [OF core] b(1) sub(1) l d sub(2)]
  have "set (b # fs) = {c \<in> B. get ?m' c Free \<noteq> 0}"
    using fs e(3) b by (auto split: if_splits)
  then show "heap_wf ?m' (free_head (fl_insert s b)) B (b # fs)"
    using core e(1,2) d sub heap_core_cong [of B ?m' ?m] by (simp add: heap_wf_def)
  have "preserves ?m B ?m'"
    using fs b core by (intro preserves_headers [OF e(4)] header_clear) auto
  moreover have "alloc_map ?m' B = alloc_map ?m B"
    using e(2,3) b by (intro alloc_map_cong) auto
  moreover have "\<Union>(extent ?m' ` B) = \<Union>(extent ?m ` B)"
    using e(2) by (auto simp: extent_def)
  ultimately show "same_blocks ?m B ?m' B"
    by (simp add: same_blocks_def)
  show "get ?m' b Free \<noteq> 0"
    using e(3) b by simp
qed

text \<open>Marking an allocated block.\<close>

lemma mark_free_pending:
  assumes wf: "heap_wf m h B fs" and b: "b \<in> B" "get m b Free = 0"
  defines "m' \<equiv> put m b Free 1"
  shows "heap_pending m' h B fs b" "alloc_map m' B = (alloc_map m B)(b := None)"
    "only_headers m m' {b}" "\<Union>(extent m' ` B) = \<Union>(extent m ` B)"
proof -
  have core: "heap_core m B" and l: "dll m h fs" and d: "distinct fs"
    and fs: "set fs = {c \<in> B. get m c Free \<noteq> 0}"
    using wf by (auto simp: heap_wf_def)
  have g: "c \<in> B \<Longrightarrow> get m' c f = (if c = b \<and> f = Free then 1 else get m c f)" for c f
    using core_headers [OF core] b(1) by (simp add: m'_def get_put_headers)
  then have "heap_core m' B"
    using core heap_core_cong [of B m' m] by simp
  moreover have "get m x Next = get m' x Next \<and> get m x Prev = get m' x Prev" if "x \<in> set fs" for x
    using that fs g [of x] by auto
  then have "dll m' h fs"
    using l dll_cong [of fs m m'] by simp
  moreover have "set fs = {c \<in> B. get m' c Free \<noteq> 0} - {b}"
    unfolding fs using g b by (auto split: if_splits)
  ultimately show "heap_pending m' h B fs b"
    using d b g by (simp add: heap_pending_def)
  show "alloc_map m' B = (alloc_map m B)(b := None)"
    using g by (auto simp: alloc_map_def fun_eq_iff)
  show "only_headers m m' {b}"
    using core_headers [OF core] b(1) by (auto simp: m'_def headers_def intro!: only_headers_put)
  show "\<Union>(extent m' ` B) = \<Union>(extent m ` B)"
    using g by (auto simp: extent_def)
qed

lemma coalesce_fields [simp]:
  "pmm (coalesce_forward s b) = pmm s" "heap_pages (coalesce_forward s b) = heap_pages s"
  by (simp_all add: coalesce_forward_def Let_def)

text \<open>The abstract view of a heap: \<open>heap_view s A\<close> holds when the invariant does and \<open>A\<close> maps
  every allocated block to its size, header included.\<close>

definition heap_view :: "'a heap_state_scheme \<Rightarrow> (u32 \<rightharpoonup> nat) \<Rightarrow> bool" where
  "heap_view s A \<longleftrightarrow> (\<exists>B fs. heap_inv s B fs \<and> A = alloc_map (memory s) B)"

text \<open>The bytes of the blocks of \<open>A\<close> are the same in both memories.\<close>

definition same_bytes :: "(u32 \<rightharpoonup> nat) \<Rightarrow> mem \<Rightarrow> mem \<Rightarrow> bool" where
  "same_bytes A m m' \<longleftrightarrow>
     (\<forall>c n x. A c = Some n \<longrightarrow> unat c \<le> unat x \<longrightarrow> unat x < unat c + n \<longrightarrow> m' x = m x)"

lemma same_bytes_preserves: "same_bytes (alloc_map m B) m m' \<longleftrightarrow> preserves m B m'"
  by (auto simp: same_bytes_def preserves_alloc)

lemma kfree_returns:
  assumes inv: "heap_inv s B fs" and a: "alloc_map (memory s) B b = Some n" and start: "page_of b \<in> B"
  shows "\<exists>s' B' fs'. kfree s (b + 8) = Some s' \<and> heap_inv s' B' fs' \<and>
    alloc_map (memory s') B' = (alloc_map (memory s) B)(b := None) \<and> pmm s' = pmm s \<and>
    get (memory s') b Free \<noteq> 0 \<and>
    same_bytes ((alloc_map (memory s) B)(b := None)) (memory s) (memory s')"
proof -
  let ?m = "memory s" let ?A = "(alloc_map ?m B)(b := None)"
  have wf: "heap_wf ?m (free_head s) B fs" and b: "b \<in> B" "get ?m b Free = 0"
    using inv a by (auto simp: heap_inv_def alloc_map_def split: if_splits)
  have core: "heap_core ?m B"
    using wf by (simp add: heap_wf_def)
  define s1 where "s1 = s\<lparr>memory := put ?m b Free 1\<rparr>"
  note mk = mark_free_pending [OF wf b]
  have p1: "heap_pending (memory s1) (free_head s1) B fs b"
    using mk(1) by (simp add: s1_def)
  define s2 where "s2 = coalesce_forward s1 b"
  obtain B2 fs2 where p2: "heap_pending (memory s2) (free_head s2) B2 fs2 b"
    "same_blocks (memory s1) B (memory s2) B2" "\<And>c. c \<in> B \<Longrightarrow> c \<le> b \<Longrightarrow> c \<in> B2"
    using coalesce_forward_ok [OF p1] unfolding s2_def by blast
  have start2: "page_of b \<in> B2"
    using p2(3) start page_of_le by blast
  obtain merged s3 where p3: "coalesce_backward s2 b = Some (merged, s3)" "pmm s3 = pmm s2"
    "merged \<Longrightarrow> heap_wf (memory s3) (free_head s3) (B2 - {b}) fs2 \<and>
       same_blocks (memory s2) B2 (memory s3) (B2 - {b}) \<and> get (memory s3) b Free \<noteq> 0" "\<not> merged \<Longrightarrow> s3 = s2"
    using coalesce_backward_ok [OF p2(1) start2] by blast
  define s' where "s' = (if merged then s3 else fl_insert s3 b)"
  define B' where "B' = (if merged then B2 - {b} else B2)"
  have b8: "b + 8 \<noteq> 0"
    using block_size_bounds [OF core b(1)] core b(1) trans [OF unat_add_no_wrap [of b 8]]
    by (auto simp: u32_eq_iff heap_core_def block_ok_def)
  have k: "kfree s (b + 8) = Some s'"
    using b8 b(2) p3(1) by (simp add: kfree_def Let_def s1_def [symmetric] s2_def [symmetric] s'_def)
  obtain fs' where f: "heap_wf (memory s') (free_head s') B' fs'" "same_blocks (memory s2) B2 (memory s') B'"
    "get (memory s') b Free \<noteq> 0"
    using p3(3,4) fl_insert_ok [OF p2(1)] by (cases merged) (auto simp: s'_def B'_def)
  have sb: "same_blocks (memory s1) B (memory s') B'"
    by (rule same_blocks_trans [OF p2(2) f(2)])
  have pm: "pmm s' = pmm s"
    using p3(2) by (simp add: s'_def s2_def s1_def)
  have am: "alloc_map (memory s') B' = ?A"
    using sb mk(2) by (simp add: same_blocks_def s1_def)
  have "heap_inv s' B' fs'"
    using f(1) inv sb mk(4) pm by (simp add: heap_inv_def same_blocks_def s1_def)
  moreover have "same_bytes ?A ?m (memory s')"
    unfolding same_bytes_def
  proof (intro allI impI)
    fix c k and x :: u32 assume c: "?A c = Some k" "unat c \<le> unat x" "unat x < unat c + k"
    then have cB: "c \<in> B" "c \<noteq> b" "k = unat (get ?m c Size)"
      by (auto simp: alloc_map_def split: if_splits)
    then have "{unat b..<unat b + 16} \<inter> extent ?m c = {}"
      using header_clear [OF core b(1)] by auto
    then have "memory s1 x = ?m x"
      using mk(3) c(2,3) cB(3) by (auto simp: only_headers_def extent_def s1_def ivl_disjoint_iff simp del: Int_atLeastLessThan)
    moreover have "memory s' x = memory s1 x"
    proof -
      have "alloc_map (memory s1) B c = Some k"
        using mk(2) c(1) by (simp add: s1_def)
      moreover have "preserves (memory s1) B (memory s')"
        using sb by (simp add: same_blocks_def)
      ultimately show ?thesis
        using c(2,3) by (auto simp: preserves_alloc)
    qed
    ultimately show "memory s' x = ?m x" by simp
  qed
  ultimately show ?thesis
    using k am pm f(3) by blast
qed

section \<open>Clients may write their blocks\<close>

lemma get_cong:
  assumes "header_ok c"
    and "\<And>x. unat c + unat (field_offset f) \<le> unat x \<Longrightarrow> unat x < unat c + unat (field_offset f) + 4 \<Longrightarrow> m' x = m x"
  shows "get m' c f = get m c f"
  unfolding get_def
proof (rule load32_cong)
  fix x assume "x \<in> word_at (c + field_offset f)"
  then show "m' x = m x"
    using word_at_unat [OF aligned_field [OF assms(1)], of x f] unat_field [OF assms(1), of f] assms(2) [of x]
    by simp
qed

lemma heap_inv_write:
  assumes inv: "heap_inv s B fs" and a: "alloc_map (memory s) B b = Some n"
    and only: "\<And>x. \<not> (unat b + 8 \<le> unat x \<and> unat x < unat b + n) \<Longrightarrow> m' x = memory s x"
  shows "heap_inv (s\<lparr>memory := m'\<rparr>) B fs \<and> alloc_map m' B = alloc_map (memory s) B \<and>
    \<Union>(extent m' ` B) = \<Union>(extent (memory s) ` B)"
proof -
  let ?m = "memory s"
  have wf: "heap_wf ?m (free_head s) B fs" and core: "heap_core ?m B"
    using inv by (auto simp: heap_inv_def heap_wf_def)
  have b: "b \<in> B" "get ?m b Free = 0" "n = unat (get ?m b Size)"
    using a by (auto simp: alloc_map_def split: if_splits)
  have hdr: "header_ok c" if "c \<in> B" for c
    using core_headers [OF core] that by (auto simp: headers_def)
  have same: "get m' c f = get ?m c f" if c: "c \<in> B" "c \<noteq> b \<or> f = Size \<or> f = Free" for c f
  proof (rule get_cong [OF hdr [OF c(1)]], rule only)
    fix x :: u32
    assume x: "unat c + unat (field_offset f) \<le> unat x" "unat x < unat c + unat (field_offset f) + 4"
    show "\<not> (unat b + 8 \<le> unat x \<and> unat x < unat b + n)"
    proof (cases "c = b")
      case True
      then show ?thesis
        using c(2) x by auto
    next
      case False
      then have "{unat c..<unat c + 16} \<inter> extent ?m b = {}"
        by (rule header_clear [OF core c(1) b(1)])
      moreover have "unat x \<in> {unat c..<unat c + 16}"
        using x unat_field_offset(1) [of f] by auto
      ultimately have "unat x \<notin> extent ?m b" by blast
      then show ?thesis
        using b(3) by (auto simp: extent_def)
    qed
  qed
  have bfs: "b \<notin> set fs" "set fs \<subseteq> B"
    using wf b(2) by (auto simp: heap_wf_def)
  have "heap_core m' B"
    using core heap_core_cong [of B m' ?m] same by simp
  moreover have "get ?m x Next = get m' x Next \<and> get ?m x Prev = get m' x Prev" if "x \<in> set fs" for x
  proof -
    have "x \<in> B" "x \<noteq> b"
      using bfs that by auto
    then show ?thesis
      using same by simp
  qed
  then have "dll m' (free_head s) fs"
    using wf dll_cong [of fs ?m m'] by (simp add: heap_wf_def)
  moreover have "{c \<in> B. get m' c Free \<noteq> 0} = {c \<in> B. get ?m c Free \<noteq> 0}"
    using same by auto
  ultimately have "heap_wf m' (free_head s) B fs"
    using wf by (simp add: heap_wf_def)
  moreover have "\<Union>(extent m' ` B) = \<Union>(extent ?m ` B)"
    using same by (auto simp: extent_def)
  moreover have "alloc_map m' B = alloc_map ?m B"
    using same by (intro alloc_map_cong) auto
  ultimately show ?thesis
    using inv by (simp add: heap_inv_def)
qed

section \<open>The allocator interface\<close>

text \<open>What the rest of the kernel relies on: blocks are fresh, large enough and disjoint, calls
  do not touch live blocks, and clients may write the data of the blocks they own. \<open>A\<close> maps the
  live blocks (by header address) to their sizes.\<close>

locale heap_allocator =
  fixes malloc :: "'s \<Rightarrow> u32 \<Rightarrow> (u32 \<times> 's) option" and mem_of :: "'s \<Rightarrow> mem"
    and set_mem :: "mem \<Rightarrow> 's \<Rightarrow> 's" and view :: "'s \<Rightarrow> (u32 \<rightharpoonup> nat) \<Rightarrow> bool"
  assumes malloc_ok: "view s A \<Longrightarrow> \<exists>p s' A'. malloc s n = Some (p, s') \<and> view s' A' \<and>
      same_bytes A (mem_of s) (mem_of s') \<and>
      (if p = 0 then A' = A
       else 8 dvd unat p \<and> A (p - 8) = None \<and>
         (\<exists>k. A' = A(p - 8 \<mapsto> k) \<and> (unat n \<le> 0xFFFFFFF0 \<longrightarrow> unat n + 8 \<le> k)))"
    and view_bounds: "view s A \<Longrightarrow> A b = Some j \<Longrightarrow> 0x100000 \<le> unat b \<and> unat b + j \<le> 0x800000 \<and> 16 \<le> j"
    and view_disjoint: "view s A \<Longrightarrow> A b = Some j \<Longrightarrow> A c = Some k \<Longrightarrow> b \<noteq> c \<Longrightarrow>
      {unat b..<unat b + j} \<inter> {unat c..<unat c + k} = {}"
    and view_write: "view s A \<Longrightarrow> A b = Some j \<Longrightarrow>
      (\<And>x. \<not> (unat b + 8 \<le> unat x \<and> unat x < unat b + j) \<Longrightarrow> m' x = mem_of s x) \<Longrightarrow> view (set_mem m' s) A"
    and mem_of_set: "mem_of (set_mem m' s) = m'"
begin

text \<open>A successful call gives a block apart from every live one.\<close>

lemma malloc_fresh:
  assumes v: "view s A" and r: "malloc s n = Some (p, s')" and p: "p \<noteq> 0" and n: "unat n \<le> 0xFFFFFFF0"
  obtains k where "view s' (A(p - 8 \<mapsto> k))" "A (p - 8) = None" "unat n + 8 \<le> k"
    "unat (p - 8) = unat p - 8" "8 \<le> unat p"
    "\<And>c j. A c = Some j \<Longrightarrow> {unat p..<unat p + unat n} \<inter> {unat c..<unat c + j} = {}"
    "same_bytes A (mem_of s) (mem_of s')"
proof -
  from malloc_ok [OF v, of n] r p n obtain k where
    k: "view s' (A(p - 8 \<mapsto> k))" "A (p - 8) = None" "unat n + 8 \<le> k" "8 dvd unat p"
      "same_bytes A (mem_of s) (mem_of s')"
    by auto
  have p8: "8 \<le> unat p"
    using k(4) p by (auto simp: u32_eq_iff dvd_imp_le)
  then have m8: "unat (p - 8) = unat p - 8"
    by (simp add: unat_sub_no_wrap word_le_nat_alt)
  have "{unat p..<unat p + unat n} \<inter> {unat c..<unat c + j} = {}" if c: "A c = Some j" for c j
  proof -
    have "p - 8 \<noteq> c"
      using c k(2) by auto
    then have "{unat (p - 8)..<unat (p - 8) + k} \<inter> {unat c..<unat c + j} = {}"
      using c by (intro view_disjoint [OF k(1)]) auto
    moreover have "{unat p..<unat p + unat n} \<subseteq> {unat (p - 8)..<unat (p - 8) + k}"
      using p8 m8 k(3) by auto
    ultimately show ?thesis by blast
  qed
  then show ?thesis
    by (rule that [OF k(1-3) m8 p8 _ k(5)])
qed

text \<open>Two calls in a row: the blocks do not meet, and what the client wrote into the first block
  is still there after the second call.\<close>

lemma malloc_twice:
  assumes v: "view s A" and r: "malloc s n = Some (p, s1)" "p \<noteq> 0" "unat n \<le> 0xFFFFFFF0"
    and w: "\<And>x. \<not> (unat p \<le> unat x \<and> unat x < unat p + unat n) \<Longrightarrow> m' x = mem_of s1 x"
    and r2: "malloc (set_mem m' s1) k = Some (q, s2)" "q \<noteq> 0" "unat k \<le> 0xFFFFFFF0"
  shows "{unat p..<unat p + unat n} \<inter> {unat q..<unat q + unat k} = {}"
    "\<And>x. unat p \<le> unat x \<Longrightarrow> unat x < unat p + unat n \<Longrightarrow> mem_of s2 x = m' x"
proof -
  obtain j where j: "view s1 (A(p - 8 \<mapsto> j))" "unat n + 8 \<le> j" "unat (p - 8) = unat p - 8" "8 \<le> unat p"
    by (rule malloc_fresh [OF v r(1,2,3)])
  have v1: "view (set_mem m' s1) (A(p - 8 \<mapsto> j))"
  proof (rule view_write [OF j(1)])
    show "(A(p - 8 \<mapsto> j)) (p - 8) = Some j" by simp
    fix x :: u32 assume "\<not> (unat (p - 8) + 8 \<le> unat x \<and> unat x < unat (p - 8) + j)"
    then have "\<not> (unat p \<le> unat x \<and> unat x < unat p + unat n)"
      using j(2-4) by linarith
    then show "m' x = mem_of s1 x"
      by (rule w)
  qed
  obtain
    d: "\<And>c i. (A(p - 8 \<mapsto> j)) c = Some i \<Longrightarrow> {unat q..<unat q + unat k} \<inter> {unat c..<unat c + i} = {}"
    and sb: "same_bytes (A(p - 8 \<mapsto> j)) (mem_of (set_mem m' s1)) (mem_of s2)"
    by (rule malloc_fresh [OF v1 r2]) (rule that, assumption+)
  have "{unat q..<unat q + unat k} \<inter> {unat (p - 8)..<unat (p - 8) + j} = {}"
    by (rule d) simp
  moreover have "{unat p..<unat p + unat n} \<subseteq> {unat (p - 8)..<unat (p - 8) + j}"
    using j by auto
  ultimately show "{unat p..<unat p + unat n} \<inter> {unat q..<unat q + unat k} = {}"
    by blast
  show "mem_of s2 x = m' x" if "unat p \<le> unat x" "unat x < unat p + unat n" for x
  proof -
    have "unat (p - 8) \<le> unat x" "unat x < unat (p - 8) + j"
      using that j by linarith+
    then show ?thesis
      using sb unfolding same_bytes_def mem_of_set by (metis fun_upd_same)
  qed
qed

end

lemma alloc_map_Some: "alloc_map m B b = Some n \<longleftrightarrow> b \<in> B \<and> get m b Free = 0 \<and> n = unat (get m b Size)"
  by (auto simp: alloc_map_def)

lemma heap_view_malloc:
  assumes v: "heap_view s A"
  shows "\<exists>p s' A'. kmalloc s n = Some (p, s') \<and> heap_view s' A' \<and> same_bytes A (memory s) (memory s') \<and>
      (if p = 0 then A' = A
       else 8 dvd unat p \<and> A (p - 8) = None \<and>
         (\<exists>k. A' = A(p - 8 \<mapsto> k) \<and> (unat n \<le> 0xFFFFFFF0 \<longrightarrow> unat n + 8 \<le> k)))"
proof -
  obtain B fs where B: "heap_inv s B fs" "A = alloc_map (memory s) B"
    using v by (auto simp: heap_view_def)
  obtain p s' B' fs' where r: "kmalloc s n = Some (p, s')" "kmalloc_post s B n p s' B' fs'"
    using kmalloc_returns [OF B(1)] by blast
  have "unat n + 8 \<le> unat (block_need n)" if "unat n \<le> 0xFFFFFFF0"
  proof -
    have "unat n \<le> 8 * ((unat n + 7) div 8)" by linarith
    then show ?thesis
      using unat_block_need(2) [OF that] by simp
  qed
  then have "if p = 0 then alloc_map (memory s') B' = A
     else 8 dvd unat p \<and> A (p - 8) = None \<and>
         (\<exists>k. alloc_map (memory s') B' = A(p - 8 \<mapsto> k) \<and> (unat n \<le> 0xFFFFFFF0 \<longrightarrow> unat n + 8 \<le> k))"
    using r(2) unfolding kmalloc_post_def B(2) by (auto split: if_splits intro: order_trans)
  moreover have "heap_view s' (alloc_map (memory s') B')" "same_bytes A (memory s) (memory s')"
    using r(2) by (auto simp: kmalloc_post_def heap_view_def B(2) same_bytes_preserves)
  ultimately show ?thesis
    using r(1) by blast
qed

interpretation kheap: heap_allocator kmalloc memory "\<lambda>m s. s\<lparr>memory := m\<rparr>" heap_view
proof
  fix s :: "'a heap_state_scheme" and A :: "u32 \<rightharpoonup> nat" and b c n k m'
  assume v: "heap_view s A"
  then obtain B fs where B: "heap_inv s B fs" "A = alloc_map (memory s) B"
    by (auto simp: heap_view_def)
  then have core: "heap_core (memory s) B"
    by (simp add: heap_inv_def heap_wf_def)
  show "A b = Some n \<Longrightarrow> 0x100000 \<le> unat b \<and> unat b + n \<le> 0x800000 \<and> 16 \<le> n"
    using core by (auto simp: B(2) alloc_map_Some heap_core_def block_ok_def)
  show "A b = Some n \<Longrightarrow> A c = Some k \<Longrightarrow> b \<noteq> c \<Longrightarrow> {unat b..<unat b + n} \<inter> {unat c..<unat c + k} = {}"
    using core by (auto simp: B(2) alloc_map_Some heap_core_def extent_def simp del: Int_atLeastLessThan)
  show "A b = Some n \<Longrightarrow> (\<And>x. \<not> (unat b + 8 \<le> unat x \<and> unat x < unat b + n) \<Longrightarrow> m' x = memory s x) \<Longrightarrow>
      heap_view (s\<lparr>memory := m'\<rparr>) A"
    using heap_inv_write [OF B(1), of b n m'] unfolding B(2) heap_view_def by auto
qed (assumption | rule heap_view_malloc | simp)+

section \<open>Initialisation and the freeing hazards\<close>

lemma heap_inv_empty:
  assumes "pmm_wf (pmm s)" "free_head s = 0"
  shows "heap_inv s {} []"
  using assms by (auto simp: heap_inv_def heap_wf_def heap_core_def dll_def)

text \<open>A walk that meets a zero size word below its target never ends.\<close>

lemma walk_back_moves:
  assumes "walk_back m prev cur b = Some p"
  shows "get m cur Size \<noteq> 0 \<or> \<not> cur < b"
  using assms
proof (rule walk_back.raw_induct [where P = "\<lambda>m prev cur b p. get m cur Size \<noteq> 0 \<or> \<not> cur < b", rotated])
  fix f m prev cur b p
  assume "\<And>m prev cur b y. f m prev cur b = Some y \<Longrightarrow> get m cur Size \<noteq> 0 \<or> \<not> cur < b"
    and "(if cur < b then f m cur (cur + get m cur Size) b else Some prev) = Some p"
  then show "get m cur Size \<noteq> 0 \<or> \<not> cur < b"
    by (cases "cur < b") auto
qed

lemma walk_back_stuck: "get m cur Size = 0 \<Longrightarrow> cur < b \<Longrightarrow> walk_back m prev cur b = None"
  using walk_back_moves [of m prev cur b] by (cases "walk_back m prev cur b") auto

section \<open>Properties\<close>

text \<open>C4: from a well-formed heap, \<open>kmalloc\<close> returns for every size. It either hands out a
  fresh 8-aligned block that was not live before, of at least the rounded size plus header, or
  returns 0, and then no free block is large enough and the heap cannot grow. Live blocks keep
  their bytes, only kernel pages are taken, and the heap stays well formed.\<close>

theorem kmalloc_correct:
  assumes "heap_inv s B fs"
  shows "\<exists>p s' B' fs'. kmalloc s sz = Some (p, s') \<and> kmalloc_post s B sz p s' B' fs' \<and>
    (unat sz \<le> 0xFFFFFFF0 \<longrightarrow> unat (block_need sz) = max 16 (8 * ((unat sz + 7) div 8) + 8))"
  using kmalloc_returns [OF assms, of sz] unat_block_need(2) [of sz] by blast

text \<open>C5: \<open>kfree\<close> of a live block whose page starts with a block header returns, makes exactly
  that block free, keeps the invariant and the bytes of all other live blocks, and a second
  \<open>kfree\<close> of the same pointer is recognised and changes nothing.\<close>

theorem kfree_correct:
  assumes "heap_inv s B fs" and "alloc_map (memory s) B b = Some n" and "page_of b \<in> B"
  shows "\<exists>s' B' fs'. kfree s (b + 8) = Some s' \<and> heap_inv s' B' fs' \<and>
    alloc_map (memory s') B' = (alloc_map (memory s) B)(b := None) \<and> pmm s' = pmm s \<and>
    same_bytes ((alloc_map (memory s) B)(b := None)) (memory s) (memory s') \<and>
    kfree s' (b + 8) = Some s'"
proof -
  obtain s' B' fs' where r: "kfree s (b + 8) = Some s'" "heap_inv s' B' fs'"
    "alloc_map (memory s') B' = (alloc_map (memory s) B)(b := None)" "pmm s' = pmm s"
    "get (memory s') b Free \<noteq> 0"
    "same_bytes ((alloc_map (memory s) B)(b := None)) (memory s) (memory s')"
    using kfree_returns [OF assms] by blast
  have "kfree s' (b + 8) = Some s'"
    using r(5) by (simp add: kfree_def)
  then show ?thesis
    using r by blast
qed

text \<open>C6: two blocks handed out in a row never overlap, and what the client stores in the first
  survives the second call.\<close>

theorem kmalloc_blocks_disjoint:
  assumes "heap_view s A" and "kmalloc s n = Some (p, s1)" and "p \<noteq> 0" and "unat n \<le> 0xFFFFFFF0"
    and "\<And>x. \<not> (unat p \<le> unat x \<and> unat x < unat p + unat n) \<Longrightarrow> m' x = memory s1 x"
    and "kmalloc (s1\<lparr>memory := m'\<rparr>) k = Some (q, s2)" and "q \<noteq> 0" and "unat k \<le> 0xFFFFFFF0"
  shows "{unat p..<unat p + unat n} \<inter> {unat q..<unat q + unat k} = {} \<and>
    (\<forall>x. unat p \<le> unat x \<longrightarrow> unat x < unat p + unat n \<longrightarrow> memory s2 x = m' x)"
  using kheap.malloc_twice [OF assms] by blast

text \<open>\<open>kheap_init\<close> builds a well-formed heap without live blocks: one free block over 16
  fresh kernel pages, or an empty heap when no such run is free.\<close>

theorem kheap_init_correct:
  assumes "pmm_wf (pmm s)"
  shows "(\<exists>i. {i..<i + 16} \<subseteq> free_set (pmm s) \<inter> kernel_zone \<and>
      heap_inv (kheap_init s) {page_addr i} [page_addr i] \<and>
      alloc_map (memory (kheap_init s)) {page_addr i} = Map.empty \<and>
      extent (memory (kheap_init s)) (page_addr i) = page_bytes {i..<i + 16} \<and>
      free_set (pmm (kheap_init s)) = free_set (pmm s) - {i..<i + 16} \<and>
      length (heap_pages (kheap_init s)) = 16) \<or>
    ((\<forall>i. \<not> {i..<i + 16} \<subseteq> free_set (pmm s) \<inter> kernel_zone) \<and>
      heap_inv (kheap_init s) {} [] \<and> heap_pages (kheap_init s) = [])"
proof -
  obtain p t where r: "pmm_alloc_contiguous_pages (pmm s) 16 = (p, t)"
    by fastforce
  show ?thesis
  proof (cases "p = 0")
    case True
    then have "kheap_init s = s\<lparr>free_head := 0, heap_pages := [], pmm := t\<rparr>" "t = pmm s"
      "\<forall>i. \<not> {i..<i + 16} \<subseteq> free_set (pmm s) \<inter> kernel_zone"
      using r kernel_run.run_failed [OF assms, of 16 t] by (auto simp: kheap_init_def Let_def)
    then show ?thesis
      using assms heap_inv_empty [of "kheap_init s"] by simp
  next
    case False
    from kernel_run.run_found [OF assms r False] obtain i where i: "p = page_addr i"
      "{i..<i + 16} \<subseteq> free_set (pmm s) \<inter> kernel_zone" "pmm_wf t"
      "free_set t = free_set (pmm s) - {i..<i + 16}"
      by auto
    let ?s = "s\<lparr>free_head := 0, heap_pages := [], pmm := t\<rparr>"
    have k: "kheap_init s = add_pages ?s p 16"
      using r False by (simp add: kheap_init_def Let_def)
    have w: "heap_wf (memory ?s) (free_head ?s) {} []"
      by (simp add: heap_wf_def heap_core_def dll_def)
    have z: "{i..<i + unat (16 :: u32)} \<subseteq> kernel_zone" "(16 :: u32) \<noteq> 0"
      "\<Union>(extent (memory ?s) ` {}) \<inter> page_bytes {i..<i + unat (16 :: u32)} = {}"
      using i(2) by (auto simp del: mem_zone)
    note a = add_pages_ok [OF w z, folded i(1), folded k]
    have "page_bytes {i..<i + 16} \<inter> page_bytes (free_set t) = {}"
      using i(4) by (auto simp: mem_page_bytes)
    then have "heap_inv (kheap_init s) {p} [p]"
      using a(1,4,5) i(3) by (simp add: heap_inv_def)
    then show ?thesis
      using a(2,4,5,6) i by (intro disjI1 exI [of _ i]) (auto simp: alloc_map_def)
  qed
qed

text \<open>Freeing a block never returns when the first word of its page is 0, the block does
  not start the page, and the block behind it in the page is live. Blocks larger than a page
  and the 16-page block of \<open>kheap_init\<close> give such pages, since the first word is then client
  data, although the walk takes it for a block size.\<close>

theorem kfree_interior_hang:
  assumes "heap_inv s B fs" and "alloc_map (memory s) B b = Some n"
    and "page_of b \<noteq> b" and "load32 (memory s) (page_of b) = 0"
    and "page_of b + 4096 \<le> b + of_nat n \<or> alloc_map (memory s) B (b + of_nat n) \<noteq> None"
  shows "kfree s (b + 8) = None"
proof -
  let ?m = "memory s" let ?m1 = "put ?m b Free 1"
  have core: "heap_core ?m B"
    using assms(1) by (simp add: heap_inv_def heap_wf_def)
  have b: "b \<in> B" "get ?m b Free = 0" "n = unat (get ?m b Size)"
    using assms(2) by (auto simp: alloc_map_Some)
  have H: "headers B" and hb: "header_ok b" "b \<noteq> 0"
    using core_headers [OF core] b(1) by (auto simp: headers_def)
  have b8: "b + 8 \<noteq> 0"
    using block_size_bounds [OF core b(1)] trans [OF unat_add_no_wrap [of b 8]]
    by (auto simp: u32_eq_iff)
  have g: "c \<in> B \<Longrightarrow> get ?m1 c f = (if c = b \<and> f = Free then 1 else get ?m c f)" for c f
    using H b(1) by (simp add: get_put_headers)
  have n: "of_nat n = get ?m b Size"
    by (simp add: b(3))
  let ?s1 = "s\<lparr>memory := ?m1\<rparr>"
  have fwd: "coalesce_forward ?s1 b = ?s1"
    using assms(5) g b n block_size_bounds [OF core b(1)]
    by (auto simp: coalesce_forward_def Let_def alloc_map_Some split: if_splits)
  have lt: "page_of b < b"
    using page_of_le [of b] assms(3) by simp
  have "page_of b \<noteq> b + 4"
    using lt hb by (auto simp: word_less_nat_alt header_ok_def u32_eq_iff unat_field [of b Free, simplified])
  then have "get ?m1 (page_of b) Size = 0"
    using assms(4) aligned_field [OF hb(1), of Free]
    by (simp add: get_def put_def load32_store32_other aligned4_unat unat_page_of)
  then have "walk_back ?m1 0 (page_of b) b = None"
    using lt by (rule walk_back_stuck)
  then have "coalesce_backward ?s1 b = None"
    using assms(3) by (simp add: coalesce_backward_def Let_def)
  then show ?thesis
    using b8 b(2) fwd by (simp add: kfree_def Let_def)
qed

text \<open>the size computation of \<open>kmalloc\<close> wraps: a request of more than \<open>0xFFFFFFF0\<close>
  bytes is served with a block of fewer than 32 bytes.\<close>

theorem kmalloc_size_wraps:
  assumes "heap_inv s B fs" and "unat sz > 0xFFFFFFF0" and "kmalloc s sz = Some (p, s')" and "p \<noteq> 0"
  shows "\<exists>B' fs' n. heap_inv s' B' fs' \<and> alloc_map (memory s') B' (p - 8) = Some n \<and> n < 32"
proof -
  have need: "block_need sz = 16"
  proof -
    let ?a = "(sz + 7) AND NOT 7"
    have s7: "unat (sz + 7) = (unat sz + 7) mod 4294967296"
      by (simp add: unat_word_ariths)
    note a = unat_align8_down [of "sz + 7"]
    have d: "unat (sz + 7) div 8 = 0 \<or> unat (sz + 7) div 8 = 536870911"
    proof (cases "unat sz \<le> 0xFFFFFFF8")
      case True
      then have "unat (sz + 7) = unat sz + 7"
        unfolding s7 by (intro mod_less) simp
      then have "4294967288 \<le> unat (sz + 7)" "unat (sz + 7) < 4294967296"
        using assms(2) unat_u32_lt [of "sz + 7"] by linarith+
      then have "unat (sz + 7) div 8 = 536870911"
        by linarith
      then show ?thesis ..
    next
      case False
      then have "unat (sz + 7) = unat sz + 7 - 4294967296"
        unfolding s7 using unat_u32_lt [of sz] by (subst mod_if) (simp add: less_imp_diff_less)
      then have "unat (sz + 7) < 8"
        using unat_u32_lt [of sz] by linarith
      then show ?thesis by simp
    qed
    have "unat (?a + 8) = (unat ?a + 8) mod 4294967296"
      by (simp only: unat_word_ariths) simp
    then have "unat (?a + 8) < 16"
      unfolding a using d by (elim disjE) simp_all
    then show ?thesis
      unfolding block_need_def Let_def by (simp add: word_less_nat_alt)
  qed
  obtain B' fs' where "kmalloc_post s B sz p s' B' fs'"
    using kmalloc_returns [OF assms(1), of sz] assms(3) by auto
  then show ?thesis
    using assms(4) need unfolding kmalloc_post_def by auto
qed

section \<open>Examples\<close>

text \<open>An empty heap over \<open>pmm_example\<close>; and heaps with one or two live blocks in the
  zero-filled memory, at 0x200000.\<close>

definition heap_empty :: heap_state where
  "heap_empty = \<lparr>memory = (\<lambda>_. 0), pmm = pmm_example, free_head = 0, heap_pages = []\<rparr>"

definition heap_one :: heap_state where
  "heap_one = heap_empty\<lparr>memory := put (\<lambda>_. 0) 0x300000 Size 4096\<rparr>"

definition heap_two :: heap_state where
  "heap_two = heap_empty\<lparr>memory := put (put (\<lambda>_. 0) 0x300000 Size 0x1010) 0x301010 Size 0xFF0\<rparr>"

lemma heap_empty_inv: "heap_inv heap_empty {} []"
  by (rule heap_inv_empty) (simp_all add: heap_empty_def pmm_example_wf)

lemma get_zero [simp]: "get (\<lambda>_. 0) b f = 0"
  by (simp add: get_def load32_zero)

lemma heap_one_get:
  "get (memory heap_one) 0x300000 Size = 4096" "get (memory heap_one) 0x300000 Free = 0"
  by (simp_all add: heap_one_def get_put header_ok_def)

lemma heap_two_get:
  "get (memory heap_two) 0x300000 Size = 0x1010" "get (memory heap_two) 0x300000 Free = 0"
  "get (memory heap_two) 0x301010 Size = 0xFF0" "get (memory heap_two) 0x301010 Free = 0"
  by (simp_all add: heap_two_def get_put header_ok_def separate_def)

lemma heap_one_inv: "heap_inv heap_one {0x300000} []"
proof -
  have "heap_wf (memory heap_one) (free_head heap_one) {0x300000} []"
    by (auto simp: heap_wf_def heap_core_def block_ok_def heap_one_get dll_def)
      (simp_all add: heap_one_def heap_empty_def)
  then show ?thesis
    by (auto simp: heap_inv_def heap_one_def [unfolded heap_empty_def] pmm_example_wf extent_def
        heap_one_get [unfolded heap_one_def heap_empty_def, simplified] mem_page_bytes pmm_example_free)
qed

lemma heap_two_inv: "heap_inv heap_two {0x300000, 0x301010} []"
proof -
  have "heap_wf (memory heap_two) (free_head heap_two) {0x300000, 0x301010} []"
    by (auto simp: heap_wf_def heap_core_def block_ok_def heap_two_get dll_def extent_def)
      (simp_all add: heap_two_def heap_empty_def)
  then show ?thesis
    by (auto simp: heap_inv_def heap_two_def [unfolded heap_empty_def] pmm_example_wf extent_def
        heap_two_get [unfolded heap_two_def heap_empty_def, simplified] mem_page_bytes pmm_example_free)
qed

definition heap_free :: heap_state where
  "heap_free = heap_empty\<lparr>memory := put (put (\<lambda>_. 0) 0x300000 Size 4096) 0x300000 Free 1, free_head := 0x300000\<rparr>"

lemma heap_free_get:
  "get (memory heap_free) 0x300000 Size = 4096" "get (memory heap_free) 0x300000 Free = 1"
  "get (memory heap_free) 0x300000 Next = 0" "get (memory heap_free) 0x300000 Prev = 0"
  by (simp_all add: heap_free_def get_put header_ok_def)

lemma heap_free_inv: "heap_inv heap_free {0x300000} [0x300000]"
proof -
  have "heap_wf (memory heap_free) (free_head heap_free) {0x300000} [0x300000]"
    by (auto simp: heap_wf_def heap_core_def block_ok_def heap_free_get dll_def)
      (simp_all add: heap_free_def heap_empty_def)
  then show ?thesis
    by (auto simp: heap_inv_def heap_free_def [unfolded heap_empty_def] pmm_example_wf extent_def
        heap_free_get [unfolded heap_free_def heap_empty_def, simplified] mem_page_bytes pmm_example_free)
qed

definition heap_free1 :: heap_state where
  "heap_free1 = take_block heap_free 0x300000 24"

lemma heap_free_malloc:
  "kmalloc heap_free 16 = Some (0x300008, heap_free1)"
  "kmalloc heap_free1 16 = Some (0x300020, take_block heap_free1 0x300018 24)"
proof -
  have need: "block_need 16 = 24"
    by (simp add: block_need_def)
  have h: "free_head heap_free = 0x300000"
    by (simp add: heap_free_def)
  show "kmalloc heap_free 16 = Some (0x300008, heap_free1)"
    by (subst kmalloc.simps, subst first_fit.simps) (simp add: need h heap_free_get heap_free1_def)
  have "free_head heap_free1 = 0x300018" "get (memory heap_free1) 0x300018 Size = 4072"
    by (simp_all add: heap_free1_def take_block_def heap_free_get Let_def h
        heap_free_def get_put header_ok_def separate_def)
  then show "kmalloc heap_free1 16 = Some (0x300020, take_block heap_free1 0x300018 24)"
    by (subst kmalloc.simps, subst first_fit.simps) (simp add: need)
qed

text \<open>Witnesses.\<close>

theorem kmalloc_correct_witness:
  "\<exists>p s' B' fs'. kmalloc heap_empty 100 = Some (p, s') \<and> kmalloc_post heap_empty {} 100 p s' B' fs' \<and>
    (unat (100 :: u32) \<le> 0xFFFFFFF0 \<longrightarrow>
     unat (block_need 100) = max 16 (8 * ((unat (100 :: u32) + 7) div 8) + 8))"
  by (rule kmalloc_correct [OF heap_empty_inv])

theorem kfree_correct_witness:
  "\<exists>s' B' fs'. kfree heap_one 0x300008 = Some s' \<and> heap_inv s' B' fs' \<and>
    alloc_map (memory s') B' = Map.empty \<and> kfree s' 0x300008 = Some s'"
proof -
  have a: "alloc_map (memory heap_one) {0x300000} = [0x300000 \<mapsto> 4096]"
    by (auto simp: alloc_map_def heap_one_get fun_eq_iff)
  have p: "page_of 0x300000 \<in> {0x300000 :: u32}"
    by (simp add: page_of_def)
  show ?thesis
    using kfree_correct [OF heap_one_inv _ p, of 4096] by (auto simp: a)
qed

theorem kmalloc_blocks_disjoint_witness:
  "{0x300008..<0x300018} \<inter> {0x300020..<(0x300030 :: nat)} = {}"
proof -
  have v: "heap_view heap_free (alloc_map (memory heap_free) {0x300000})"
    using heap_free_inv by (auto simp: heap_view_def)
  have r2: "kmalloc (heap_free1\<lparr>memory := memory heap_free1\<rparr>) 16 =
      Some (0x300020, take_block heap_free1 0x300018 24)"
    using heap_free_malloc(2) by simp
  show ?thesis
    using kmalloc_blocks_disjoint [OF v heap_free_malloc(1) _ _ _ r2] by simp
qed

theorem kheap_init_correct_witness:
  "(\<exists>i. heap_inv (kheap_init heap_empty) {page_addr i} [page_addr i]) \<or>
    heap_inv (kheap_init heap_empty) {} []"
  using kheap_init_correct [of heap_empty] by (auto simp: heap_empty_def pmm_example_wf)

theorem kfree_interior_hang_witness: "kfree heap_two 0x301018 = None"
proof -
  have a: "alloc_map (memory heap_two) {0x300000, 0x301010} 0x301010 = Some 0xFF0"
    by (simp add: alloc_map_def heap_two_get)
  have p: "page_of 0x301010 = 0x301000"
    by (simp add: page_of_def)
  have "load32 (memory heap_two) 0x301000 = 0"
    by (simp add: heap_two_def put_def load32_store32_other aligned4_unat load32_zero)
  then show ?thesis
    using kfree_interior_hang [OF heap_two_inv a] by (simp add: p)
qed

theorem kmalloc_size_wraps_witness:
  "kmalloc heap_free 0xFFFFFFFF = Some (0x300008, take_block heap_free 0x300000 16) \<and>
   (\<exists>B' fs' n. heap_inv (take_block heap_free 0x300000 16) B' fs' \<and>
      alloc_map (memory (take_block heap_free 0x300000 16)) B' 0x300000 = Some n \<and> n < 32)"
proof -
  have need: "block_need 0xFFFFFFFF = 16"
    by (simp add: block_need_def)
  have h: "free_head heap_free = 0x300000"
    by (simp add: heap_free_def)
  have r: "kmalloc heap_free 0xFFFFFFFF = Some (0x300008, take_block heap_free 0x300000 16)"
    by (subst kmalloc.simps, subst first_fit.simps) (simp add: need h heap_free_get)
  show ?thesis
    using r kmalloc_size_wraps [OF heap_free_inv _ r] by simp
qed

end
