(* ===== verification/Multiboot.thy ===== *)
theory Multiboot
  imports Byte_Memory PMM
begin

text \<open>
  The boot information parser, \<open>mm/multiboot.c\<close>: a walk over the tags GRUB leaves in memory
  that fills the kernel-owned memory map and framebuffer description. The input is the
  physical memory and the address of the information structure; a loop that does not end,
  or the divide error of a memory-map tag with entry size 0, is \<^term>\<open>None\<close>.
  The memory map itself (\<open>memory_map_t\<close>) is declared in \<open>PMM\<close>, its only reader.
\<close>

section \<open>State\<close>

record framebuffer =
  fb_addr :: u32
  fb_pitch :: u32
  fb_width :: u32
  fb_height :: u32
  fb_bpp :: u8
  fb_type :: u8
  red_pos :: u8
  red_mask :: u8
  green_pos :: u8
  green_mask :: u8
  blue_pos :: u8
  blue_mask :: u8

text \<open>The globals \<open>g_memory_map\<close> and \<open>g_framebuffer\<close>.\<close>

record boot_info =
  mem_map :: memory_map
  framebuf :: framebuffer

abbreviation MULTIBOOT2_MAGIC :: u32 where "MULTIBOOT2_MAGIC \<equiv> 0x36D76289"
abbreviation TAG_END :: u32 where "TAG_END \<equiv> 0"
abbreviation TAG_MMAP :: u32 where "TAG_MMAP \<equiv> 6"
abbreviation TAG_FRAMEBUFFER :: u32 where "TAG_FRAMEBUFFER \<equiv> 8"
abbreviation MMAP_AVAILABLE :: u32 where "MMAP_AVAILABLE \<equiv> 1"
abbreviation MAX_USABLE_REGIONS :: nat where "MAX_USABLE_REGIONS \<equiv> 16"

section \<open>Tags\<close>

definition parse_framebuffer :: "mem \<Rightarrow> u32 \<Rightarrow> framebuffer \<Rightarrow> framebuffer" where
  "parse_framebuffer m p fb =
     (let fb = fb\<lparr>fb_addr := ucast (load64 m (p + 8)), fb_pitch := load32 m (p + 16),
        fb_width := load32 m (p + 20), fb_height := load32 m (p + 24), fb_bpp := m (p + 28), fb_type := m (p + 29)\<rparr>
      in if m (p + 29) = 1
         then fb\<lparr>red_pos := m (p + 32), red_mask := m (p + 33), green_pos := m (p + 34),
                green_mask := m (p + 35), blue_pos := m (p + 36), blue_mask := m (p + 37)\<rparr>
         else fb\<lparr>red_pos := 0, red_mask := 0, green_pos := 0, green_mask := 0, blue_pos := 0, blue_mask := 0\<rparr>)"

definition add_region :: "memory_map \<Rightarrow> u32 \<Rightarrow> u32 \<Rightarrow> memory_map" where
  "add_region mm base len =
     (if length (regions mm) < MAX_USABLE_REGIONS then
        (let mm = mm\<lparr>regions := regions mm @ [\<lparr>reg_base = base, reg_length = len\<rparr>]\<rparr>;
             region_top = base + len
         in if region_top > top_of_memory mm then mm\<lparr>top_of_memory := region_top\<rparr> else mm)
      else mm)"

definition parse_mmap_entry :: "mem \<Rightarrow> u32 \<Rightarrow> memory_map \<Rightarrow> memory_map" where
  "parse_mmap_entry m e mm =
     (let base_addr = load64 m e; entry_length = load64 m (e + 8)
      in if load32 m (e + 16) = MMAP_AVAILABLE \<and> base_addr < 0x100000000 then
           (let base = ucast base_addr;
                len = (if base_addr + entry_length > 0x100000000 then 0xFFFFFFFF - base + 1
                       else ucast entry_length)
            in add_region mm base len)
         else mm)"

definition parse_mmap :: "mem \<Rightarrow> u32 \<Rightarrow> memory_map \<Rightarrow> memory_map option" where
  "parse_mmap m p mm =
     (let entry_size = load32 m (p + 8);
          entries = p + 16
      in if entry_size = 0 then None
         else (let count = (load32 m (p + 4) - 16) div entry_size
               in Some (fold (\<lambda>i. parse_mmap_entry m (entries + of_nat i * entry_size)) [0..<unat count] mm)))"

definition parse_tag :: "mem \<Rightarrow> u32 \<Rightarrow> boot_info \<Rightarrow> boot_info option" where
  "parse_tag m p st =
     (let st = (if load32 m p = TAG_FRAMEBUFFER
                then st\<lparr>framebuf := parse_framebuffer m p (framebuf st)\<rparr> else st)
      in if load32 m p = TAG_MMAP
         then map_option (\<lambda>mm. st\<lparr>mem_map := mm\<rparr>) (parse_mmap m p (mem_map st))
         else Some st)"

partial_function (option) parse_tags :: "mem \<Rightarrow> u32 \<Rightarrow> u32 \<Rightarrow> boot_info \<Rightarrow> boot_info option" where
  "parse_tags m p e st =
     (if p < e then
        if load32 m p = TAG_END then Some st
        else do {
          st \<leftarrow> parse_tag m p st;
          let tag_size = load32 m (p + 4);
          if tag_size < 8 then Some st
          else parse_tags m (p + ((tag_size + 7) AND NOT 7)) e st }
      else Some st)"

definition multiboot_parse :: "mem \<Rightarrow> u32 \<Rightarrow> u32 \<Rightarrow> boot_info \<Rightarrow> boot_info option" where
  "multiboot_parse m magic info st =
     (if magic \<noteq> MULTIBOOT2_MAGIC then Some st
      else parse_tags m (info + 8) (info + load32 m info)
             (st\<lparr>mem_map := \<lparr>regions = [], top_of_memory = 0\<rparr>\<rparr>))"

section \<open>What the tags mean\<close>

text \<open>The tags of the Multiboot2 format, as data, and how they lie in memory.\<close>

record mmap_entry =
  e_base :: u64
  e_length :: u64
  e_type :: u32

datatype tag =
  Mmap_tag u32 "mmap_entry list"
| Framebuffer_tag framebuffer
| Other_tag u32 u32

fun tag_size :: "tag \<Rightarrow> nat" where
  "tag_size (Mmap_tag esize es) = 16 + unat esize * length es"
| "tag_size (Framebuffer_tag fb) = 38"
| "tag_size (Other_tag ty sz) = unat sz"

definition entry_at :: "mem \<Rightarrow> u32 \<Rightarrow> mmap_entry \<Rightarrow> bool" where
  "entry_at m p e \<longleftrightarrow> load64 m p = e_base e \<and> load64 m (p + 8) = e_length e \<and> load32 m (p + 16) = e_type e \<and>
     unat (e_base e) + unat (e_length e) < 2 ^ 64"

definition framebuffer_at :: "mem \<Rightarrow> u32 \<Rightarrow> framebuffer \<Rightarrow> bool" where
  "framebuffer_at m p fb \<longleftrightarrow>
     load64 m (p + 8) = ucast (fb_addr fb) \<and> load32 m (p + 16) = fb_pitch fb \<and> load32 m (p + 20) = fb_width fb \<and>
     load32 m (p + 24) = fb_height fb \<and> m (p + 28) = fb_bpp fb \<and> m (p + 29) = fb_type fb \<and>
     (if fb_type fb = 1
      then map m [p + 32, p + 33, p + 34, p + 35, p + 36, p + 37] =
           [red_pos fb, red_mask fb, green_pos fb, green_mask fb, blue_pos fb, blue_mask fb]
      else [red_pos fb, red_mask fb, green_pos fb, green_mask fb, blue_pos fb, blue_mask fb] = replicate 6 0)"

fun tag_at :: "mem \<Rightarrow> u32 \<Rightarrow> tag \<Rightarrow> bool" where
  "tag_at m p (Mmap_tag esize es) \<longleftrightarrow> load32 m p = TAG_MMAP \<and> load32 m (p + 8) = esize \<and> esize \<noteq> 0 \<and>
     (\<forall>i<length es. entry_at m (p + 16 + of_nat i * esize) (es ! i))"
| "tag_at m p (Framebuffer_tag fb) \<longleftrightarrow> load32 m p = TAG_FRAMEBUFFER \<and> framebuffer_at m p fb"
| "tag_at m p (Other_tag ty sz) \<longleftrightarrow> load32 m p = ty \<and> ty \<notin> {TAG_END, TAG_MMAP, TAG_FRAMEBUFFER}"

text \<open>Tags in a row, each padded to 8 bytes, up to the end tag.\<close>

fun tags_at :: "mem \<Rightarrow> nat \<Rightarrow> nat \<Rightarrow> tag list \<Rightarrow> bool" where
  "tags_at m p e [] \<longleftrightarrow> p + 8 \<le> e \<and> load32 m (of_nat p) = TAG_END"
| "tags_at m p e (t # ts) \<longleftrightarrow> tag_at m (of_nat p) t \<and> 8 \<le> tag_size t \<and>
     load32 m (of_nat p + 4) = of_nat (tag_size t) \<and>
     tags_at m (p + 8 * ((tag_size t + 7) div 8)) e ts"

text \<open>The mathematical content of a memory map: available memory below 4 GB.\<close>

definition usable :: "mmap_entry \<Rightarrow> bool" where
  "usable e \<longleftrightarrow> e_type e = MMAP_AVAILABLE \<and> unat (e_base e) < 2 ^ 32"

definition region_of :: "mmap_entry \<Rightarrow> usable_region" where
  "region_of e = \<lparr>reg_base = of_nat (unat (e_base e)),
     reg_length = of_nat (min (unat (e_length e)) (2 ^ 32 - unat (e_base e)))\<rparr>"

fun entries_of :: "tag list \<Rightarrow> mmap_entry list" where
  "entries_of [] = []"
| "entries_of (Mmap_tag _ es # ts) = es @ entries_of ts"
| "entries_of (_ # ts) = entries_of ts"

definition regions_of :: "tag list \<Rightarrow> usable_region list" where
  "regions_of ts = take 16 (map region_of (filter usable (entries_of ts)))"

definition top_of :: "usable_region list \<Rightarrow> u32" where
  "top_of rs = fold (\<lambda>r t. max t (reg_base r + reg_length r)) rs 0"

fun last_framebuffer :: "tag list \<Rightarrow> framebuffer \<Rightarrow> framebuffer" where
  "last_framebuffer [] fb = fb"
| "last_framebuffer (Framebuffer_tag f # ts) fb = last_framebuffer ts f"
| "last_framebuffer (_ # ts) fb = last_framebuffer ts fb"

section \<open>The parser computes it\<close>

lemma add_region_top:
  assumes "top_of_memory mm = top_of (regions mm)"
  shows "regions (add_region mm b l) = take 16 (regions mm @ [\<lparr>reg_base = b, reg_length = l\<rparr>]) \<or> 16 < length (regions mm)"
    "top_of_memory (add_region mm b l) = top_of (regions (add_region mm b l))"
  using assms by (auto simp: add_region_def Let_def top_of_def max_def)

lemma u64_below_4g: "(x :: u64) < 0x100000000 \<longleftrightarrow> unat x < 2 ^ 32"
  by (simp add: word_less_nat_alt)

lemma parse_mmap_entry_region:
  assumes "entry_at m p e"
  shows "parse_mmap_entry m p mm =
    (if usable e then add_region mm (reg_base (region_of e)) (reg_length (region_of e)) else mm)"
proof (cases "usable e")
  case True
  have e: "load64 m p = e_base e" "load64 m (p + 8) = e_length e" "load32 m (p + 16) = e_type e"
    "unat (e_base e) + unat (e_length e) < 2 ^ 64"
    using assms by (auto simp: entry_at_def)
  have b: "unat (e_base e) < 2 ^ 32" "e_type e = MMAP_AVAILABLE"
    using True by (auto simp: usable_def)
  have sum: "unat (e_base e + e_length e) = unat (e_base e) + unat (e_length e)"
    using e(4) by (simp add: unat_word_ariths)
  have base: "(ucast (e_base e) :: u32) = of_nat (unat (e_base e))"
    by simp
  have top: "0xFFFFFFFF - (ucast (e_base e) :: u32) + 1 = of_nat (2 ^ 32 - unat (e_base e))"
    unfolding base using b(1) by (simp add: of_nat_diff)
  have "(if e_base e + e_length e > 0x100000000 then 0xFFFFFFFF - (ucast (e_base e) :: u32) + 1
      else ucast (e_length e)) = of_nat (min (unat (e_length e)) (2 ^ 32 - unat (e_base e)))"
  proof (cases "e_base e + e_length e > 0x100000000")
    case True
    then have "2 ^ 32 < unat (e_base e) + unat (e_length e)"
      by (simp add: word_less_nat_alt sum)
    then have "2 ^ 32 - unat (e_base e) \<le> unat (e_length e)"
      by linarith
    then have "min (unat (e_length e)) (2 ^ 32 - unat (e_base e)) = 2 ^ 32 - unat (e_base e)"
      by (rule min_absorb2)
    then show ?thesis
      using True top by simp
  next
    case False
    then have "unat (e_base e) + unat (e_length e) \<le> 2 ^ 32"
      by (simp add: word_less_nat_alt sum not_less)
    then have "min (unat (e_length e)) (2 ^ 32 - unat (e_base e)) = unat (e_length e)"
      by (simp add: min_def)
    then show ?thesis
      using False by simp
  qed
  then show ?thesis
    using True b e(1-3) u64_below_4g [of "e_base e"]
    by (simp add: parse_mmap_entry_def Let_def region_of_def)
next
  case False
  have "load64 m p = e_base e" "load32 m (p + 16) = e_type e"
    using assms by (simp_all add: entry_at_def)
  then have "\<not> (load32 m (p + 16) = MMAP_AVAILABLE \<and> load64 m p < 0x100000000)"
    using False u64_below_4g [of "e_base e"] by (simp add: usable_def)
  then show ?thesis
    using False unfolding parse_mmap_entry_def Let_def by (simp only: if_False)
qed

text \<open>The state after the regions \<open>rs\<close> have been met.\<close>

definition map_after :: "usable_region list \<Rightarrow> memory_map" where
  "map_after rs = \<lparr>regions = take 16 rs, top_of_memory = top_of (take 16 rs)\<rparr>"

lemma add_region_after:
  "add_region (map_after rs) (reg_base r) (reg_length r) = map_after (rs @ [r])"
  by (auto simp: add_region_def map_after_def top_of_def max_def Let_def)

lemma parse_entries:
  assumes "\<And>i. i < length es \<Longrightarrow> entry_at m (p + of_nat i * sz) (es ! i)"
  shows "fold (\<lambda>i. parse_mmap_entry m (p + of_nat i * sz)) [0..<length es] (map_after rs) =
    map_after (rs @ map region_of (filter usable es))"
  using assms
proof (induction es rule: rev_induct)
  case (snoc e es)
  have "entry_at m (p + of_nat i * sz) (es ! i)" if "i < length es" for i
    using snoc.prems [of i] that by (simp add: nth_append)
  moreover have "entry_at m (p + of_nat (length es) * sz) e"
    using snoc.prems [of "length es"] by simp
  ultimately show ?case
    using snoc.IH by (simp add: parse_mmap_entry_region add_region_after append_assoc [symmetric] del: append_assoc)
qed simp

lemma parse_mmap_at:
  assumes t: "tag_at m p (Mmap_tag sz es)"
    and size: "load32 m (p + 4) = of_nat (tag_size (Mmap_tag sz es))" "tag_size (Mmap_tag sz es) < 2 ^ 32"
  shows "parse_mmap m p (map_after rs) = Some (map_after (rs @ map region_of (filter usable es)))"
proof -
  have sz: "sz \<noteq> 0" "load32 m (p + 8) = sz" "0 < unat sz"
    using t by (auto simp: unat_gt_0)
  have "load32 m (p + 4) - 16 = of_nat (unat sz * length es)"
    using size(1) by simp
  moreover have "unat sz * length es < 2 ^ 32"
    using size(2) by simp
  ultimately have "unat ((load32 m (p + 4) - 16) div sz) = length es"
    using sz(3) by (simp add: unat_div unat_of_nat_u32 del: of_nat_mult)
  then show ?thesis
    using parse_entries [of es m "p + 16" sz rs] t sz by (simp add: parse_mmap_def Let_def)
qed

lemma parse_framebuffer_at:
  assumes "framebuffer_at m p fb"
  shows "parse_framebuffer m p fb0 = fb"
proof -
  have "ucast (ucast (fb_addr fb) :: u64) = (fb_addr fb :: u32)"
    by (rule bit_word_eqI) (simp add: bit_simps)
  then show ?thesis
    using assms by (auto simp: framebuffer_at_def parse_framebuffer_def Let_def numeral_eq_Suc split: if_splits)
qed

text \<open>One step of the loop over a well-formed tag.\<close>

definition info_after :: "usable_region list \<Rightarrow> framebuffer \<Rightarrow> boot_info" where
  "info_after rs fb = \<lparr>mem_map = map_after rs, framebuf = fb\<rparr>"

lemma parse_tag_at:
  assumes "tag_at m p t" "load32 m (p + 4) = of_nat (tag_size t)" "tag_size t < 2 ^ 32"
  shows "parse_tag m p (info_after rs fb) =
    Some (info_after (rs @ map region_of (filter usable (entries_of [t]))) (last_framebuffer [t] fb))"
proof (cases t)
  case (Mmap_tag sz es)
  then show ?thesis
    using parse_mmap_at [of m p sz es rs] assms by (simp add: parse_tag_def info_after_def)
next
  case (Framebuffer_tag f)
  then show ?thesis
    using assms parse_framebuffer_at [of m p f] by (simp add: parse_tag_def info_after_def)
next
  case (Other_tag ty sz)
  then show ?thesis
    using assms by (simp add: parse_tag_def info_after_def)
qed

lemma entries_of_Cons: "entries_of (t # ts) = entries_of [t] @ entries_of ts"
  by (cases t) auto

lemma last_framebuffer_Cons: "last_framebuffer (t # ts) fb = last_framebuffer ts (last_framebuffer [t] fb)"
  by (cases t) auto

lemma tags_at_end: "tags_at m p e ts \<Longrightarrow> p + 8 \<le> e"
  by (induction ts arbitrary: p) force+

lemma align8: "unat ((x + 7) AND NOT 7) = 8 * ((unat (x :: u32) + 7) div 8)" if "unat x + 7 < 2 ^ 32"
proof -
  have "unat (x + 7) = unat x + 7"
    using that by (intro trans [OF unat_add_no_wrap]) simp_all
  then show ?thesis
    by (simp only: unat_align8_down)
qed

lemma parse_tags_at:
  "tags_at m p e ts \<Longrightarrow> e < 2 ^ 32 \<Longrightarrow>
   parse_tags m (of_nat p) (of_nat e) (info_after rs fb) =
     Some (info_after (rs @ map region_of (filter usable (entries_of ts))) (last_framebuffer ts fb))"
proof (induction ts arbitrary: p rs fb)
  case Nil
  then show ?case
    by (subst parse_tags.simps) simp
next
  case (Cons t ts)
  let ?n = "p + 8 * ((tag_size t + 7) div 8)"
  from Cons.prems have t: "tag_at m (of_nat p) t" "8 \<le> tag_size t"
    "load32 m (of_nat p + 4) = of_nat (tag_size t)" "tags_at m ?n e ts"
    by auto
  have n: "?n + 8 \<le> e"
    using tags_at_end [OF t(4)] .
  have ts7: "tag_size t \<le> 8 * ((tag_size t + 7) div 8)"
    by linarith
  then have sz: "p < e" "tag_size t + 7 < 2 ^ 32"
    using n Cons.prems(2) t(2) by linarith+
  have lt: "(of_nat p :: u32) < of_nat e"
    using sz(1) Cons.prems(2) by (simp add: word_less_nat_alt unat_of_nat_u32)
  have u: "unat (of_nat (tag_size t) :: u32) = tag_size t"
    using sz(2) by (simp add: unat_of_nat_u32)
  have al: "((of_nat (tag_size t) :: u32) + 7) AND NOT 7 = of_nat (8 * ((tag_size t + 7) div 8))"
  proof -
    have "8 * ((tag_size t + 7) div 8) < 4294967296"
      using n Cons.prems(2) by simp
    then show ?thesis
      unfolding u32_eq_iff using align8 [of "of_nat (tag_size t)"] u sz(2)
      by (simp only: unat_of_nat_u32 u)
  qed
  have big: "\<not> (of_nat (tag_size t) :: u32) < 8"
    using t(2) u by (simp add: word_less_nat_alt)
  have ne: "load32 m (of_nat p) \<noteq> TAG_END"
    using t(1) by (cases t) auto
  have "parse_tags m (of_nat p) (of_nat e) (info_after rs fb) =
    parse_tags m (of_nat ?n) (of_nat e)
      (info_after (rs @ map region_of (filter usable (entries_of [t]))) (last_framebuffer [t] fb))"
    using parse_tag_at [OF t(1,3)] sz(2) al
    by (subst parse_tags.simps) (simp add: lt ne t(3) big)
  also have "\<dots> = Some (info_after ((rs @ map region_of (filter usable (entries_of [t]))) @
      map region_of (filter usable (entries_of ts))) (last_framebuffer ts (last_framebuffer [t] fb)))"
    by (rule Cons.IH [OF t(4) Cons.prems(2)])
  finally show ?case
    by (simp only: entries_of_Cons [of t ts] last_framebuffer_Cons [of t ts] filter_append map_append append_assoc)
qed

section \<open>Arbitrary memory contents\<close>

definition map_bounded :: "memory_map \<Rightarrow> bool" where
  "map_bounded mm \<longleftrightarrow> length (regions mm) \<le> MAX_USABLE_REGIONS \<and> top_of_memory mm = top_of (regions mm)"

lemma add_region_bounded: "map_bounded mm \<Longrightarrow> map_bounded (add_region mm b l)"
  by (auto simp: map_bounded_def add_region_def top_of_def max_def Let_def)

lemma parse_mmap_entry_bounded: "map_bounded mm \<Longrightarrow> map_bounded (parse_mmap_entry m p mm)"
  by (simp add: parse_mmap_entry_def Let_def add_region_bounded)

lemma parse_mmap_bounded: "map_bounded mm \<Longrightarrow> parse_mmap m p mm = Some mm' \<Longrightarrow> map_bounded mm'"
proof -
  have "map_bounded (fold (\<lambda>i. parse_mmap_entry m (q + of_nat i * sz)) is mm)" if "map_bounded mm" for q sz "is" mm
    using that by (induction "is" arbitrary: mm) (simp_all add: parse_mmap_entry_bounded)
  then show "map_bounded mm \<Longrightarrow> parse_mmap m p mm = Some mm' \<Longrightarrow> map_bounded mm'"
    by (auto simp: parse_mmap_def Let_def split: if_splits)
qed

lemma parse_tag_bounded:
  "map_bounded (mem_map st) \<Longrightarrow> parse_tag m p st = Some st' \<Longrightarrow> map_bounded (mem_map st')"
  by (auto simp: parse_tag_def Let_def parse_mmap_bounded split: if_splits)

lemma parse_tags_bounded:
  assumes "parse_tags m p e st = Some st'"
  shows "map_bounded (mem_map st) \<longrightarrow> map_bounded (mem_map st')"
  using assms
proof (rule parse_tags.raw_induct
    [where P = "\<lambda>m p e st st'. map_bounded (mem_map st) \<longrightarrow> map_bounded (mem_map st')", rotated], intro impI)
  fix f m p e st st'
  assume IH: "\<And>m p e st st'. f m p e st = Some st' \<Longrightarrow> map_bounded (mem_map st) \<longrightarrow> map_bounded (mem_map st')"
    and r: "(if p < e then if load32 m p = TAG_END then Some st
        else parse_tag m p st \<bind> (\<lambda>st. let tag_size = load32 m (p + 4)
              in if tag_size < 8 then Some st else f m (p + ((tag_size + 7) AND NOT 7)) e st)
       else Some st) = Some st'"
    and w: "map_bounded (mem_map st)"
  show "map_bounded (mem_map st')"
  proof (cases "p < e \<and> load32 m p \<noteq> TAG_END")
    case True
    then obtain t where t: "parse_tag m p st = Some t"
      "(let tag_size = load32 m (p + 4)
              in if tag_size < 8 then Some t else f m (p + ((tag_size + 7) AND NOT 7)) e t) = Some st'"
      using r by (auto simp: bind_eq_Some_conv)
    have "map_bounded (mem_map t)"
      using parse_tag_bounded [OF w t(1)] .
    then show ?thesis
      using t(2) IH by (auto simp: Let_def split: if_splits)
  qed (use r w in \<open>auto split: if_splits\<close>)
qed

lemma multiboot_parse_at:
  assumes "tags_at m (unat info + 8) (unat info + unat (load32 m info)) ts"
    and "unat info + unat (load32 m info) < 2 ^ 32"
  shows "multiboot_parse m MULTIBOOT2_MAGIC info st =
    Some \<lparr>mem_map = \<lparr>regions = regions_of ts, top_of_memory = top_of (regions_of ts)\<rparr>,
          framebuf = last_framebuffer ts (framebuf st)\<rparr>"
proof -
  have "(of_nat (unat info + 8) :: u32) = info + 8"
    "(of_nat (unat info + unat (load32 m info)) :: u32) = info + load32 m info"
    by simp_all
  then have "parse_tags m (info + 8) (info + load32 m info) (info_after [] (framebuf st)) =
    Some (info_after (map region_of (filter usable (entries_of ts))) (last_framebuffer ts (framebuf st)))"
    using parse_tags_at [OF assms, of "[]" "framebuf st"] by simp
  moreover have "st\<lparr>mem_map := \<lparr>regions = [], top_of_memory = 0\<rparr>\<rparr> = info_after [] (framebuf st)"
    by (cases st) (simp add: info_after_def map_after_def top_of_def)
  ultimately show ?thesis
    by (simp add: multiboot_parse_def info_after_def map_after_def regions_of_def)
qed

section \<open>Properties\<close>

text \<open>C7: for memory that holds a well-formed Multiboot2 structure, \<open>multiboot_parse\<close> returns,
  the memory map has the first 16 available regions below 4 GB, in order and cut at 4 GB, with
  the largest region end as top of memory, and the framebuffer is the one of the last
  framebuffer tag.\<close>

theorem multiboot_parse_correct:
  assumes "tags_at m (unat info + 8) (unat info + unat (load32 m info)) ts"
    and "unat info + unat (load32 m info) < 2 ^ 32"
  shows "multiboot_parse m MULTIBOOT2_MAGIC info st =
    Some \<lparr>mem_map = \<lparr>regions = regions_of ts, top_of_memory = top_of (regions_of ts)\<rparr>,
          framebuf = last_framebuffer ts (framebuf st)\<rparr>"
  by (rule multiboot_parse_at [OF assms])

text \<open>Whatever the memory contains, a parse that returns leaves at most 16 regions, so the
  fixed array of the memory map is never overrun, and the top of memory is the largest region
  end.\<close>

theorem multiboot_regions_bounded:
  assumes "multiboot_parse m MULTIBOOT2_MAGIC info st = Some st'"
  shows "length (regions (mem_map st')) \<le> 16 \<and> top_of_memory (mem_map st') = top_of (regions (mem_map st'))"
proof -
  have "map_bounded (mem_map (st\<lparr>mem_map := \<lparr>regions = [], top_of_memory = 0\<rparr>\<rparr>))"
    by (simp add: map_bounded_def top_of_def)
  then have "map_bounded (mem_map st')"
    using parse_tags_bounded assms by (fastforce simp: multiboot_parse_def)
  then show ?thesis
    by (simp add: map_bounded_def)
qed

lemma parse_tags_moves:
  assumes "parse_tags m p e st = Some st'"
  shows "\<not> (p < e \<and> load32 m p \<notin> {TAG_END, TAG_MMAP, TAG_FRAMEBUFFER} \<and> load32 m (p + 4) > 0xFFFFFFF8)"
  using assms
proof (rule parse_tags.raw_induct [where P = "\<lambda>m p e st st'. \<not> (p < e \<and>
      load32 m p \<notin> {TAG_END, TAG_MMAP, TAG_FRAMEBUFFER} \<and> load32 m (p + 4) > 0xFFFFFFF8)", rotated], intro notI)
  fix f m p e st st'
  assume IH: "\<And>m p e st st'. f m p e st = Some st' \<Longrightarrow>
      \<not> (p < e \<and> load32 m p \<notin> {TAG_END, TAG_MMAP, TAG_FRAMEBUFFER} \<and> load32 m (p + 4) > 0xFFFFFFF8)"
    and r: "(if p < e then if load32 m p = TAG_END then Some st
        else parse_tag m p st \<bind> (\<lambda>st. let tag_size = load32 m (p + 4)
              in if tag_size < 8 then Some st else f m (p + ((tag_size + 7) AND NOT 7)) e st)
       else Some st) = Some st'"
    and bad: "p < e \<and> load32 m p \<notin> {TAG_END, TAG_MMAP, TAG_FRAMEBUFFER} \<and> load32 m (p + 4) > 0xFFFFFFF8"
  let ?sz = "load32 m (p + 4)"
  have sz: "unat ?sz > 4294967288"
    using bad by (simp add: word_less_nat_alt)
  have "unat (?sz + 7) = (unat ?sz + 7) mod 4294967296"
    by (simp only: unat_word_ariths) simp
  also have "\<dots> = unat ?sz + 7 - 4294967296"
    using sz unat_u32_lt [of ?sz] by (subst mod_if) (simp add: less_imp_diff_less)
  finally have "unat (?sz + 7) < 8"
    using unat_u32_lt [of ?sz] by linarith
  then have al: "(?sz + 7) AND NOT 7 = 0"
    unfolding u32_eq_iff unat_align8_down by simp
  have "\<not> ?sz < 8"
    using sz by (simp add: word_less_nat_alt)
  then have "f m p e st = Some st'"
    using r bad al by (simp add: parse_tag_def Let_def)
  then show False
    using IH bad by blast
qed

text \<open>A tag of an unknown type whose size is above \<open>0xFFFFFFF8\<close> makes the parser loop for
  ever, because rounding the size up to 8 wraps to 0; and a memory-map tag with entry size 0
  raises a divide error. In neither case does the call return.\<close>

theorem multiboot_parse_hangs:
  assumes "info + 8 < info + load32 m info"
    and "(load32 m (info + 8) \<notin> {TAG_END, TAG_MMAP, TAG_FRAMEBUFFER} \<and> load32 m (info + 12) > 0xFFFFFFF8) \<or>
      (load32 m (info + 8) = TAG_MMAP \<and> load32 m (info + 16) = 0)"
  shows "multiboot_parse m MULTIBOOT2_MAGIC info st = None"
  using assms(2)
proof
  assume bad: "load32 m (info + 8) \<notin> {TAG_END, TAG_MMAP, TAG_FRAMEBUFFER} \<and> load32 m (info + 12) > 0xFFFFFFF8"
  have e: "info + 8 + 4 = info + 12" by simp
  have "info + 8 < info + load32 m info \<and> load32 m (info + 8) \<notin> {TAG_END, TAG_MMAP, TAG_FRAMEBUFFER} \<and>
      load32 m (info + 8 + 4) > 0xFFFFFFF8"
    unfolding e using bad assms(1) by blast
  then have "parse_tags m (info + 8) (info + load32 m info) st' \<noteq> Some st''" for st' st''
    using parse_tags_moves by blast
  then have "parse_tags m (info + 8) (info + load32 m info) st' = None" for st'
    by (metis not_None_eq)
  then show ?thesis
    unfolding multiboot_parse_def by simp
next
  assume "load32 m (info + 8) = TAG_MMAP \<and> load32 m (info + 16) = 0"
  then have "load32 m (info + 8) = TAG_MMAP" "load32 m (16 + info) = 0"
    by (simp_all add: add.commute)
  then show ?thesis
    using assms(1)
    by (simp add: multiboot_parse_def parse_tags.simps [of m "info + 8"] parse_tag_def parse_mmap_def Let_def)
qed

text \<open>an available region that reaches the 4 GB boundary does not count for the top of
  memory: its end wraps to 0.\<close>

theorem multiboot_top_wraps:
  assumes "entry_at m p e" and "usable e" and "2 ^ 32 \<le> unat (e_base e) + unat (e_length e)"
  shows "top_of_memory (parse_mmap_entry m p mm) = top_of_memory mm"
proof -
  have "reg_base (region_of e) + reg_length (region_of e) = of_nat (2 ^ 32)"
  proof -
    have "unat (e_base e) + min (unat (e_length e)) (2 ^ 32 - unat (e_base e)) = 2 ^ 32"
      using assms(2,3) by (simp add: usable_def)
    then show ?thesis
      unfolding region_of_def by (metis of_nat_add usable_region.select_convs)
  qed
  then have "reg_base (region_of e) + reg_length (region_of e) = 0"
    by simp
  then show ?thesis
    using assms(2) by (simp add: parse_mmap_entry_region [OF assms(1)] add_region_def Let_def)
qed

section \<open>From the boot information to the page allocator\<close>

text \<open>Available entries as GRUB reports them: page aligned, below 4 GB, one after the other.\<close>

definition entries_ok :: "mmap_entry list \<Rightarrow> bool" where
  "entries_ok es \<longleftrightarrow>
     (\<forall>e\<in>set es. 4096 dvd unat (e_base e) \<and> 4096 dvd unat (e_length e) \<and> unat (e_base e) + unat (e_length e) < 2 ^ 32) \<and>
     sorted_wrt (\<lambda>e e'. unat (e_base e) + unat (e_length e) \<le> unat (e_base e')) es \<and>
     (\<exists>e\<in>set (take 16 es). 0x100000 \<le> unat (e_base e) + unat (e_length e))"

lemma region_of_unat:
  assumes "unat (e_base e) + unat (e_length e) < 2 ^ 32"
  shows "unat (reg_base (region_of e)) = unat (e_base e)" "unat (reg_length (region_of e)) = unat (e_length e)"
    "unat (reg_base (region_of e) + reg_length (region_of e)) = unat (e_base e) + unat (e_length e)"
proof -
  show a: "unat (reg_base (region_of e)) = unat (e_base e)" "unat (reg_length (region_of e)) = unat (e_length e)"
    unfolding region_of_def usable_region.select_convs using assms
    by (subst unat_of_nat_u32; simp)+
  then show "unat (reg_base (region_of e) + reg_length (region_of e)) = unat (e_base e) + unat (e_length e)"
    using assms by (subst unat_add_no_wrap) simp_all
qed

lemma top_of_snoc: "top_of (rs @ [r]) = max (top_of rs) (reg_base r + reg_length r)"
  by (simp add: top_of_def)

lemma top_of_max: "r \<in> set rs \<Longrightarrow> reg_base r + reg_length r \<le> top_of rs"
  by (induction rs rule: rev_induct) (auto simp: top_of_snoc le_max_iff_disj)

lemma top_of_in: "top_of rs = 0 \<or> (\<exists>r\<in>set rs. top_of rs = reg_base r + reg_length r)"
  by (induction rs rule: rev_induct) (auto simp: top_of_snoc max_def, simp add: top_of_def)

lemma regions_map_ok:
  assumes "entries_ok (filter usable (entries_of ts))"
  shows "map_ok \<lparr>regions = regions_of ts, top_of_memory = top_of (regions_of ts)\<rparr>"
proof -
  define es where "es = take 16 (filter usable (entries_of ts))"
  have rs: "regions_of ts = map region_of es"
    by (simp add: regions_of_def es_def take_map)
  have sub: "set es \<subseteq> set (filter usable (entries_of ts))"
    by (simp only: es_def set_take_subset)
  then have e: "4096 dvd unat (e_base e)" "4096 dvd unat (e_length e)"
    "unat (e_base e) + unat (e_length e) < 2 ^ 32" if "e \<in> set es" for e
    using assms that by (auto simp: entries_ok_def)
  have sorted: "sorted_wrt (\<lambda>e e'. unat (e_base e) + unat (e_length e) \<le> unat (e_base e')) es"
    using assms by (simp add: entries_ok_def es_def sorted_wrt_take)
  have ends: "region_end (region_of e) = unat (e_base e) + unat (e_length e)" if "e \<in> set es" for e
    using region_of_unat [OF e(3) [OF that]] by (simp add: region_end_def)
  have le_top: "region_end r \<le> unat (top_of (regions_of ts))" if r: "r \<in> set (regions_of ts)" for r
  proof -
    obtain e' where "e' \<in> set es" "r = region_of e'"
      using r unfolding rs by auto
    then show ?thesis
      using top_of_max [OF r] ends region_of_unat(3) [OF e(3)] by (simp add: word_le_nat_alt)
  qed
  obtain e0 where e0: "e0 \<in> set es" "0x100000 \<le> unat (e_base e0) + unat (e_length e0)"
    using assms by (auto simp: entries_ok_def es_def)
  then have top: "0x100000 \<le> unat (top_of (regions_of ts))"
    using le_top [of "region_of e0"] ends [of e0] rs by simp
  have "4096 dvd unat (top_of (regions_of ts))"
  proof -
    from top have "top_of (regions_of ts) \<noteq> 0" by auto
    then obtain r where "r \<in> set (regions_of ts)" "top_of (regions_of ts) = reg_base r + reg_length r"
      using top_of_in by blast
    then obtain e' where "e' \<in> set es" "top_of (regions_of ts) = reg_base (region_of e') + reg_length (region_of e')"
      using rs by auto
    then show ?thesis
      using region_of_unat(3) [OF e(3)] e(1,2) by simp
  qed
  moreover have "sorted_wrt (\<lambda>r r'. region_end r \<le> unat (reg_base r') \<or> region_end r' \<le> unat (reg_base r)) (regions_of ts)"
    unfolding rs sorted_wrt_map
    by (rule sorted_wrt_mono_rel [OF _ sorted]) (use ends e region_of_unat(1) in auto)
  moreover have "4096 dvd unat (reg_base r) \<and> 4096 dvd unat (reg_length r)" if "r \<in> set (regions_of ts)" for r
    using that e region_of_unat(1,2) [OF e(3)] unfolding rs by auto
  ultimately show ?thesis
    using top le_top by (simp add: map_ok_def)
qed

text \<open>When the available regions are page aligned, apart and below 4 GB, \<open>multiboot_parse\<close>
  followed by \<open>pmm_init\<close> returns a well-formed page allocator that owns exactly the pages of
  the parsed regions above its bitmap.\<close>

theorem boot_memory_ready:
  assumes "tags_at m (unat info + 8) (unat info + unat (load32 m info)) ts"
    and "unat info + unat (load32 m info) < 2 ^ 32"
    and "entries_ok (filter usable (entries_of ts))" and "unat kernel_end \<le> 0x800000"
  shows "\<exists>st' s. multiboot_parse m MULTIBOOT2_MAGIC info st = Some st' \<and>
    pmm_init kernel_end (mem_map st') = Some s \<and> pmm_wf s \<and>
    free_set s = (\<Union>r\<in>set (regions_of ts). region_pages s r)"
proof -
  let ?mm = "\<lparr>regions = regions_of ts, top_of_memory = top_of (regions_of ts)\<rparr>"
  have "\<exists>s. pmm_init kernel_end ?mm = Some s \<and> pmm_wf s \<and> free_set s = (\<Union>r\<in>set (regions_of ts). region_pages s r)"
    using pmm_init_ok [OF regions_map_ok [OF assms(3)] assms(4)] by auto
  then show ?thesis
    using multiboot_parse_at [OF assms(1,2), of st] by auto
qed

section \<open>Examples\<close>

text \<open>One available region of 7 MB at 1 MB; and two malformed structures.\<close>

definition words_at :: "u32 \<Rightarrow> u32 list \<Rightarrow> mem" where
  "words_at a ws = fold (\<lambda>(i, w) m. store32 m (a + 4 * i) w) (zip (map of_nat [0..<length ws]) ws) (\<lambda>_. 0)"

definition info_example :: mem where
  "info_example = words_at 0x10000 [56, 0, 6, 40, 24, 0, 0x100000, 0, 0x700000, 0, 1, 0, 0, 8]"

definition tags_example :: "tag list" where
  "tags_example = [Mmap_tag 24 [\<lparr>e_base = 0x100000, e_length = 0x700000, e_type = 1\<rparr>]]"

definition info_zero :: boot_info where
  "info_zero = \<lparr>mem_map = \<lparr>regions = [], top_of_memory = 0\<rparr>,
     framebuf = \<lparr>fb_addr = 0, fb_pitch = 0, fb_width = 0, fb_height = 0, fb_bpp = 0, fb_type = 0,
       red_pos = 0, red_mask = 0, green_pos = 0, green_mask = 0, blue_pos = 0, blue_mask = 0\<rparr>\<rparr>"

lemmas load_eval = words_at_def load64_def load32_store32_other aligned4_unat load32_zero upt_rec

lemma info_example_load:
  "load32 info_example 0x10000 = 56" "load32 info_example 0x10008 = 6" "load32 info_example 0x1000C = 40"
  "load32 info_example 0x10010 = 24" "load64 info_example 0x10018 = 0x100000"
  "load64 info_example 0x10020 = 0x700000" "load32 info_example 0x10028 = 1" "load32 info_example 0x10030 = 0"
  unfolding info_example_def by (simp_all add: load_eval)

lemma tags_example_at:
  "tags_at info_example (unat (0x10000 :: u32) + 8) (unat (0x10000 :: u32) + unat (load32 info_example 0x10000)) tags_example"
  by (simp add: tags_example_def info_example_load entry_at_def)

theorem multiboot_parse_correct_witness:
  "multiboot_parse info_example MULTIBOOT2_MAGIC 0x10000 info_zero =
    Some (info_zero\<lparr>mem_map := \<lparr>regions = [\<lparr>reg_base = 0x100000, reg_length = 0x700000\<rparr>], top_of_memory = 0x800000\<rparr>\<rparr>)"
  using multiboot_parse_correct [OF tags_example_at, of info_zero]
  by (simp add: info_example_load tags_example_def regions_of_def usable_def region_of_def top_of_def info_zero_def)

theorem multiboot_regions_bounded_witness:
  "\<exists>st'. multiboot_parse info_example MULTIBOOT2_MAGIC 0x10000 info_zero = Some st' \<and> length (regions (mem_map st')) \<le> 16"
proof -
  have "unat (0x10000 :: u32) + unat (load32 info_example 0x10000) < 2 ^ 32"
    by (simp add: info_example_load)
  note r = multiboot_parse_at [OF tags_example_at this, of info_zero]
  show ?thesis
    using r multiboot_regions_bounded [OF r] by auto
qed

definition info_endless :: mem where
  "info_endless = words_at 0x10000 [64, 0, 5, 0xFFFFFFFF]"

theorem multiboot_parse_hangs_witness:
  "multiboot_parse info_endless MULTIBOOT2_MAGIC 0x10000 info_zero = None"
proof -
  have "load32 info_endless 0x10000 = 64" "load32 info_endless 0x10008 = 5" "load32 info_endless 0x1000C = 0xFFFFFFFF"
    unfolding info_endless_def by (simp_all add: load_eval)
  then show ?thesis
    using multiboot_parse_hangs [of "0x10000" info_endless info_zero] by simp
qed

definition entry_4g :: mem where
  "entry_4g = words_at 0x10000 [0x80000000, 0, 0x80000000, 0, 1]"

theorem multiboot_top_wraps_witness:
  "top_of_memory (parse_mmap_entry entry_4g 0x10000 \<lparr>regions = [], top_of_memory = 0x800000\<rparr>) = 0x800000"
proof -
  have "entry_at entry_4g 0x10000 \<lparr>e_base = 0x80000000, e_length = 0x80000000, e_type = 1\<rparr>"
    unfolding entry_4g_def entry_at_def by (simp add: load_eval)
  from multiboot_top_wraps [OF this] show ?thesis
    by (simp add: usable_def)
qed

theorem boot_memory_ready_witness:
  "\<exists>st' s. multiboot_parse info_example MULTIBOOT2_MAGIC 0x10000 info_zero = Some st' \<and>
    pmm_init 0x200000 (mem_map st') = Some s \<and> pmm_wf s"
proof -
  have "entries_ok (filter usable (entries_of tags_example))"
    by (simp add: entries_ok_def tags_example_def usable_def)
  from boot_memory_ready [OF tags_example_at _ this, of "0x200000" info_zero] show ?thesis
    by (auto simp: info_example_load)
qed

end
