(* ===== verification/Paging.thy ===== *)
theory Paging
  imports KHeap
begin

text \<open>
  Page tables and the user-copy functions, \<open>arch/x86/paging.c\<close>. A page directory or page table
  is 1024 words of the byte-addressed memory; the kernel reaches it through the identity
  mapping. \<open>paging_state\<close> adds the static \<open>pd_phys\<close> and the CPU's \<open>cr3\<close> and paging-enable bit
  to the memory and page allocator. The TLB (\<open>invlpg\<close>) is not modelled: an entry takes effect
  when it is written.

  The functions that consult the current task take its \<open>cr3\<close> field as an argument,
  \<^term>\<open>None\<close> when there is no current task.
\<close>

section \<open>State and tables\<close>

record paging_state = heap_state +
  pd_phys :: u32
  cr3 :: u32
  paging_enabled :: bool

abbreviation PAGE_P :: u32 where "PAGE_P \<equiv> 1"
abbreviation PAGE_US :: u32 where "PAGE_US \<equiv> 4"
abbreviation PAGE_DEFAULT :: u32 where "PAGE_DEFAULT \<equiv> 3"
abbreviation PT_COVERAGE :: u32 where "PT_COVERAGE \<equiv> 0x400000"

definition entry :: "mem \<Rightarrow> u32 \<Rightarrow> u32 \<Rightarrow> u32" where
  "entry m t i = load32 m (t + 4 * i)"

definition set_entry :: "mem \<Rightarrow> u32 \<Rightarrow> u32 \<Rightarrow> u32 \<Rightarrow> mem" where
  "set_entry m t i v = store32 m (t + 4 * i) v"

definition pd_index :: "u32 \<Rightarrow> u32" where
  "pd_index va = drop_bit 22 va"

definition pt_index :: "u32 \<Rightarrow> u32" where
  "pt_index va = drop_bit 12 va AND 0x3FF"

text \<open>\<open>for (int i = 0; i < 1024; i++) t[i] = f i\<close>\<close>

definition fill_table :: "mem \<Rightarrow> u32 \<Rightarrow> (u32 \<Rightarrow> u32) \<Rightarrow> mem" where
  "fill_table m t f = fold (\<lambda>i m. set_entry m t (of_nat i) (f (of_nat i))) [0..<1024] m"

text \<open>\<open>for (int i = 0; i < 1024; i++) dst[i] = src[i]\<close>\<close>

definition copy_table :: "mem \<Rightarrow> u32 \<Rightarrow> u32 \<Rightarrow> mem" where
  "copy_table m dst src = fold (\<lambda>i m. set_entry m dst (of_nat i) (entry m src (of_nat i))) [0..<1024] m"

section \<open>Building the kernel mapping\<close>

definition init_page_table :: "u32 \<Rightarrow> u32 \<Rightarrow> nat \<Rightarrow> 'a paging_state_scheme \<Rightarrow> 'a paging_state_scheme" where
  "init_page_table top_mem pd k s =
     (let (pt, p) = pmm_alloc_page (pmm s);
          m = set_entry (memory s) pd (of_nat k) (pt OR PAGE_DEFAULT);
          m = fill_table m pt (\<lambda>j. let phys = of_nat k * PT_COVERAGE + j * PAGE_SIZE
                                   in if phys < top_mem then phys OR PAGE_DEFAULT else 0)
      in s\<lparr>pmm := p, memory := m\<rparr>)"

definition paging_init :: "'a paging_state_scheme \<Rightarrow> u32 \<Rightarrow> 'a paging_state_scheme" where
  "paging_init s top_mem =
     (let num_pt = (top_mem + PT_COVERAGE - 1) div PT_COVERAGE;
          (pd, p) = pmm_alloc_page (pmm s);
          s = s\<lparr>pmm := p, pd_phys := pd, memory := fill_table (memory s) pd (\<lambda>_. 0)\<rparr>;
          s = fold (init_page_table top_mem pd) [0..<unat num_pt] s
      in s\<lparr>cr3 := pd, paging_enabled := True\<rparr>)"

text \<open>The loop of \<open>paging_map_phys_range\<close> over page addresses.\<close>

definition map_page :: "'a paging_state_scheme \<Rightarrow> u32 \<Rightarrow> 'a paging_state_scheme" where
  "map_page s addr =
     (let pd = pd_phys s;
          s = (if entry (memory s) pd (pd_index addr) AND PAGE_P = 0 then
                 (let (pt, p) = pmm_alloc_page (pmm s);
                      m = fill_table (memory s) pt (\<lambda>_. 0);
                      m = set_entry m pd (pd_index addr) (pt OR PAGE_DEFAULT)
                  in s\<lparr>pmm := p, memory := m\<rparr>)
               else s);
          pt = entry (memory s) pd (pd_index addr) AND NOT 0xFFF
      in s\<lparr>memory := set_entry (memory s) pt (pt_index addr) (addr OR PAGE_DEFAULT)\<rparr>)"

partial_function (option) map_pages ::
    "'a paging_state_scheme \<Rightarrow> u32 \<Rightarrow> u32 \<Rightarrow> 'a paging_state_scheme option" where
  "map_pages s addr end_addr =
     (if addr < end_addr then map_pages (map_page s addr) (addr + PAGE_SIZE) end_addr else Some s)"

definition paging_map_phys_range ::
    "'a paging_state_scheme \<Rightarrow> u32 \<Rightarrow> u32 \<Rightarrow> 'a paging_state_scheme option" where
  "paging_map_phys_range s phys_addr len =
     (let start = phys_addr AND NOT 0xFFF;
          end_addr = (phys_addr + len + PAGE_SIZE - 1) AND NOT 0xFFF
      in map_pages s start end_addr)"

definition paging_unmap_null_page :: "'a paging_state_scheme \<Rightarrow> 'a paging_state_scheme" where
  "paging_unmap_null_page s =
     (if entry (memory s) (pd_phys s) 0 AND PAGE_P = 0 then s
      else let pt = entry (memory s) (pd_phys s) 0 AND NOT 0xFFF
           in s\<lparr>memory := set_entry (memory s) pt 0 (entry (memory s) pt 0 AND NOT PAGE_P)\<rparr>)"

definition paging_set_user_accessible :: "'a paging_state_scheme \<Rightarrow> u32 \<Rightarrow> 'a paging_state_scheme" where
  "paging_set_user_accessible s phys_addr =
     (let pd = pd_phys s; i = pd_index phys_addr; j = pt_index phys_addr
      in if entry (memory s) pd i AND PAGE_P = 0 then s
         else let m = set_entry (memory s) pd i (entry (memory s) pd i OR PAGE_US);
                  pt = entry m pd i AND NOT 0xFFF
              in s\<lparr>memory := set_entry m pt j (entry m pt j OR PAGE_US)\<rparr>)"

section \<open>Task page directories\<close>

definition paging_clone_kernel_pd :: "'a paging_state_scheme \<Rightarrow> u32 \<times> 'a paging_state_scheme" where
  "paging_clone_kernel_pd s =
     (let (new_pd, p) = pmm_alloc_page (pmm s);
          s = s\<lparr>pmm := p\<rparr>
      in if new_pd = 0 then (0, s)
         else (new_pd, s\<lparr>memory := copy_table (memory s) new_pd (pd_phys s)\<rparr>))"

definition paging_set_user_accessible_for_task ::
    "'a paging_state_scheme \<Rightarrow> u32 \<Rightarrow> u32 \<Rightarrow> 'a paging_state_scheme" where
  "paging_set_user_accessible_for_task s task_pd phys_addr =
     (let i = pd_index phys_addr; j = pt_index phys_addr;
          s = (if entry (memory s) task_pd i AND NOT 0xFFF = entry (memory s) (pd_phys s) i AND NOT 0xFFF then
                 (let (new_pt, p) = pmm_alloc_page (pmm s);
                      shared = entry (memory s) (pd_phys s) i AND NOT 0xFFF;
                      m = copy_table (memory s) new_pt shared;
                      m = set_entry m task_pd i (new_pt OR PAGE_DEFAULT)
                  in s\<lparr>pmm := p, memory := m\<rparr>)
               else s);
          pt = entry (memory s) task_pd i AND NOT 0xFFF;
          m = set_entry (memory s) pt j (phys_addr OR PAGE_DEFAULT OR PAGE_US);
          m = set_entry m task_pd i (entry m task_pd i OR PAGE_US)
      in s\<lparr>memory := m\<rparr>)"

section \<open>User pointers\<close>

text \<open>\<open>(cur && cur->cr3 != 0) ? cur->cr3 : pd_phys\<close>\<close>

definition pd_in_use :: "'a paging_state_scheme \<Rightarrow> u32 option \<Rightarrow> u32" where
  "pd_in_use s cur = (case cur of Some c \<Rightarrow> if c \<noteq> 0 then c else pd_phys s | None \<Rightarrow> pd_phys s)"

definition user_page :: "mem \<Rightarrow> u32 \<Rightarrow> u32 \<Rightarrow> bool" where
  "user_page m pd va =
     (let pde = entry m pd (pd_index va)
      in if pde AND PAGE_P = 0 then False
         else if pde AND PAGE_US = 0 then False
         else let pte = entry m (pde AND NOT 0xFFF) (pt_index va)
              in if pte AND PAGE_P = 0 then False
                 else if pte AND PAGE_US = 0 then False
                 else True)"

definition page_is_user_accessible :: "'a paging_state_scheme \<Rightarrow> u32 option \<Rightarrow> u32 \<Rightarrow> bool" where
  "page_is_user_accessible s cur va = user_page (memory s) (pd_in_use s cur) va"

partial_function (option) check_pages ::
    "'a paging_state_scheme \<Rightarrow> u32 option \<Rightarrow> u32 \<Rightarrow> u32 \<Rightarrow> bool option" where
  "check_pages s cur page end_addr =
     (if page < end_addr then
        if \<not> page_is_user_accessible s cur page then Some False
        else check_pages s cur (page + PAGE_SIZE) end_addr
      else Some True)"

definition is_user_accessible_range ::
    "'a paging_state_scheme \<Rightarrow> u32 option \<Rightarrow> u32 \<Rightarrow> u32 \<Rightarrow> bool option" where
  "is_user_accessible_range s cur vaddr len =
     (if len = 0 then Some True
      else let end_addr = vaddr + len
           in if end_addr < vaddr then Some False
              else check_pages s cur (vaddr AND NOT 0xFFF) end_addr)"

definition copy_from_user ::
    "'a paging_state_scheme \<Rightarrow> u32 option \<Rightarrow> u32 \<Rightarrow> u32 \<Rightarrow> u32 \<Rightarrow> (u32 \<times> 'a paging_state_scheme) option" where
  "copy_from_user s cur kernel_dst user_src len =
     (if len = 0 then Some (0, s)
      else do {
        ok \<leftarrow> is_user_accessible_range s cur user_src len;
        if \<not> ok then Some (0xFFFFFFFF, s)
        else Some (0, s\<lparr>memory := copy_bytes (memory s) kernel_dst user_src (unat len)\<rparr>) })"

definition copy_to_user ::
    "'a paging_state_scheme \<Rightarrow> u32 option \<Rightarrow> u32 \<Rightarrow> u32 \<Rightarrow> u32 \<Rightarrow> (u32 \<times> 'a paging_state_scheme) option" where
  "copy_to_user s cur user_dst kernel_src len =
     (if len = 0 then Some (0, s)
      else do {
        ok \<leftarrow> is_user_accessible_range s cur user_dst len;
        if \<not> ok then Some (0xFFFFFFFF, s)
        else Some (0, s\<lparr>memory := copy_bytes (memory s) user_dst kernel_src (unat len)\<rparr>) })"

text \<open>The loop of \<open>copy_from_user_string\<close>: the last argument is \<open>max_len - i\<close>.\<close>

fun copy_string ::
    "'a paging_state_scheme \<Rightarrow> u32 option \<Rightarrow> u32 \<Rightarrow> u32 \<Rightarrow> u32 \<Rightarrow> nat \<Rightarrow> u32 \<times> 'a paging_state_scheme" where
  "copy_string s cur kbuf uptr current_page 0 = (0xFFFFFFFF, s)"
| "copy_string s cur kbuf uptr current_page (Suc n) =
     (let page = uptr AND NOT 0xFFF
      in if page \<noteq> current_page \<and> \<not> page_is_user_accessible s cur page then (0xFFFFFFFF, s)
         else let c = memory s uptr; s = s\<lparr>memory := (memory s)(kbuf := c)\<rparr>
              in if c = 0 then (0, s) else copy_string s cur (kbuf + 1) (uptr + 1) page n)"

definition copy_from_user_string ::
    "'a paging_state_scheme \<Rightarrow> u32 option \<Rightarrow> u32 \<Rightarrow> u32 \<Rightarrow> u32 \<Rightarrow> u32 \<times> 'a paging_state_scheme" where
  "copy_from_user_string s cur kbuf user_ptr max_len =
     (if max_len = 0 then (0xFFFFFFFF, s)
      else copy_string s cur kbuf user_ptr 0xFFFFFFFF (unat max_len))"

section \<open>Table entries\<close>

definition table :: "u32 \<Rightarrow> bool" where
  "table t \<longleftrightarrow> 4096 dvd unat t"

lemma unat_entry_addr:
  assumes "table t" "i < 1024"
  shows "unat (t + 4 * i) = unat t + 4 * unat i" "unat t + 4 * unat i < 4294967296"
proof -
  have i: "unat i < 1024"
    using assms(2) by (simp add: word_less_nat_alt)
  obtain k where k: "unat t = 4096 * k"
    using assms(1) by (auto simp: table_def)
  then have "k < 1048576"
    using unat_u32_lt [of t] by simp
  then show b: "unat t + 4 * unat i < 4294967296"
    using k i by simp
  have "unat (4 * i) = 4 * unat i"
    using i by (subst unat_mult_no_wrap) simp_all
  then show "unat (t + 4 * i) = unat t + 4 * unat i"
    using b by (subst unat_add_no_wrap) simp_all
qed

lemma entry_aligned: "table t \<Longrightarrow> i < 1024 \<Longrightarrow> aligned4 (t + 4 * i)"
  unfolding aligned4_unat by (simp add: unat_entry_addr table_def dvd_trans [of 4 4096])

lemma entry_addr_inj:
  assumes "table t" "table u" "i < 1024" "j < 1024"
  shows "t + 4 * i = u + 4 * j \<longleftrightarrow> t = u \<and> i = j"
proof
  assume "t + 4 * i = u + 4 * j"
  then have e: "unat t + 4 * unat i = unat u + 4 * unat j"
    using unat_entry_addr(1) [OF assms(1,3)] unat_entry_addr(1) [OF assms(2,4)] by simp
  obtain k where k: "unat t = 4096 * k"
    using assms(1) by (auto simp: table_def)
  obtain l where l: "unat u = 4096 * l"
    using assms(2) by (auto simp: table_def)
  have "unat i < 1024" "unat j < 1024"
    using assms(3,4) by (simp_all add: word_less_nat_alt)
  then have "(4096 * k + 4 * unat i) div 4096 = k" "(4096 * l + 4 * unat j) div 4096 = l"
    by simp_all
  then have "k = l" "unat i = unat j"
    using e unfolding k l by simp_all
  then show "t = u \<and> i = j"
    using k l by (simp add: u32_eq_iff)
qed simp

lemma entry_set_entry:
  assumes "table t" "table u" "i < 1024" "j < 1024"
  shows "entry (set_entry m t i v) u j = (if t = u \<and> i = j then v else entry m u j)"
  unfolding entry_def set_entry_def
  using load32_store32 [OF entry_aligned [OF assms(1,3)] entry_aligned [OF assms(2,4)]]
    entry_addr_inj [OF assms] by auto

lemma index_bound [simp]: "pd_index va < 1024" "pt_index va < 1024"
proof -
  have "unat (pd_index va) = unat va div 2 ^ 22"
    unfolding pd_index_def unat_drop_bit_eq by (rule drop_bit_eq_div)
  moreover have "unat va div 2 ^ 22 < 1024"
    using unat_u32_lt [of va] by (simp add: less_mult_imp_div_less)
  ultimately show "pd_index va < 1024"
    by (simp add: word_less_nat_alt)
  have "pt_index va \<le> 0x3FF"
    unfolding pt_index_def by (rule word_and_le1)
  then show "pt_index va < 1024"
    by (simp add: word_le_nat_alt word_less_nat_alt)
qed

lemma of_nat_index: "i < 1024 \<Longrightarrow> (of_nat i :: u32) < 1024"
  by (simp add: word_less_nat_alt unat_of_nat_u32)

lemma fill_prefix:
  assumes "table t" "table u" "j < 1024" "n \<le> 1024"
  shows "entry (fold (\<lambda>i m. set_entry m t (of_nat i) (f (of_nat i))) [0..<n] m) u j =
    (if t = u \<and> unat j < n then f j else entry m u j)"
  using assms(4)
proof (induction n)
  case (Suc n)
  have "(of_nat n = j) = (unat j = n)"
    using Suc.prems by (auto simp: u32_eq_iff unat_of_nat_u32)
  then show ?case
    using Suc assms(1-3) by (auto simp: entry_set_entry of_nat_index)
qed simp

lemma entry_fill_table:
  assumes "table t" "table u" "j < 1024"
  shows "entry (fill_table m t f) u j = (if t = u then f j else entry m u j)"
  unfolding fill_table_def using fill_prefix [OF assms order_refl] assms(3)
  by (simp add: word_less_nat_alt)

lemma copy_prefix:
  assumes "table dst" "table src" "table u" "j < 1024" "n \<le> 1024"
  shows "entry (fold (\<lambda>i m. set_entry m dst (of_nat i) (entry m src (of_nat i))) [0..<n] m) u j =
    (if dst = u \<and> unat j < n then entry m src j else entry m u j)"
  using assms(3-5)
proof (induction n arbitrary: u j)
  case (Suc n)
  have "(of_nat n = j) = (unat j = n)"
    using Suc.prems by (auto simp: u32_eq_iff unat_of_nat_u32)
  then show ?case
    using Suc.prems Suc.IH [of u j] Suc.IH [of src "of_nat n"] assms(1,2)
    by (auto simp: entry_set_entry of_nat_index unat_of_nat_u32)
qed simp

lemma entry_copy_table:
  assumes "table dst" "table src" "table u" "j < 1024"
  shows "entry (copy_table m dst src) u j = (if dst = u then entry m src j else entry m u j)"
  unfolding copy_table_def using copy_prefix [OF assms order_refl] assms(4)
  by (simp add: word_less_nat_alt)

text \<open>A table write changes only the bytes of its page.\<close>

definition page_at :: "u32 \<Rightarrow> u32 set" where
  "page_at t = {x. unat t \<le> unat x \<and> unat x < unat t + 4096}"

lemma set_entry_outside:
  assumes "table t" "i < 1024" "x \<notin> page_at t"
  shows "set_entry m t i v x = m x"
proof -
  have "x \<notin> word_at (t + 4 * i)"
  proof
    assume "x \<in> word_at (t + 4 * i)"
    from word_at_unat [OF entry_aligned [OF assms(1,2)] this]
    have "unat t + 4 * unat i \<le> unat x" "unat x < unat t + 4 * unat i + 4"
      using unat_entry_addr [OF assms(1,2)] by simp_all
    moreover have "unat i < 1024"
      using assms(2) by (simp add: word_less_nat_alt)
    ultimately show False
      using assms(3) by (simp add: page_at_def)
  qed
  then show ?thesis
    by (simp add: set_entry_def store32_outside)
qed

lemma fold_set_entry_outside:
  assumes "table t" "x \<notin> page_at t" "n \<le> 1024"
  shows "fold (\<lambda>i m. set_entry m t (of_nat i) (f m i)) [0..<n] m x = m x"
  using assms(3) by (induction n) (simp_all add: set_entry_outside assms of_nat_index)

lemma fill_table_outside: "table t \<Longrightarrow> x \<notin> page_at t \<Longrightarrow> fill_table m t f x = m x"
  unfolding fill_table_def by (rule fold_set_entry_outside) simp_all

lemma copy_table_outside: "table t \<Longrightarrow> x \<notin> page_at t \<Longrightarrow> copy_table m t src x = m x"
  unfolding copy_table_def by (rule fold_set_entry_outside) simp_all

text \<open>Addresses inside a table entry.\<close>

lemma table_and_not_fff: "table (x AND NOT 0xFFF)"
  by (simp only: table_def unat_align4096_down dvd_triv_left)

lemma table_or_flags:
  assumes "table t" "f < 4096"
  shows "(t OR f) AND NOT 0xFFF = t" "(t OR f) AND 0xFFF = f"
proof -
  obtain k where k: "unat t = 4096 * k"
    using assms(1) by (auto simp: table_def)
  then have "take_bit 12 t = 0"
    unfolding u32_eq_iff unsigned_take_bit_eq by (simp add: take_bit_eq_mod)
  then have t: "12 \<le> n" if "bit t n" for n
    using that by (metis bit_0_eq bit_take_bit_iff bot_apply bot_bool_def not_less)
  have "take_bit 12 f = f"
    using assms(2) unfolding u32_eq_iff unsigned_take_bit_eq by (simp add: take_bit_eq_mod word_less_nat_alt)
  then have f: "n < 12" if "bit f n" for n
    using that by (metis bit_take_bit_iff)
  have m: "(0xFFF :: u32) = mask 12"
    by (simp add: mask_eq_exp_minus_1)
  show "(t OR f) AND NOT 0xFFF = t"
    unfolding m by (rule bit_word_eqI) (use t f in \<open>auto simp: bit_simps not_less dest: leD\<close>)
  show "(t OR f) AND 0xFFF = f"
    unfolding m by (rule bit_word_eqI) (use t f in \<open>auto simp: bit_simps not_less dest: leD\<close>)
qed

section \<open>Address translation\<close>

definition present :: "mem \<Rightarrow> u32 \<Rightarrow> u32 \<Rightarrow> bool" where
  "present m d i \<longleftrightarrow> entry m d i AND PAGE_P \<noteq> 0"

definition ptab :: "mem \<Rightarrow> u32 \<Rightarrow> u32 \<Rightarrow> u32" where
  "ptab m d i = entry m d i AND NOT 0xFFF"

definition pte :: "mem \<Rightarrow> u32 \<Rightarrow> u32 \<Rightarrow> u32" where
  "pte m d va = entry m (ptab m d (pd_index va)) (pt_index va)"

text \<open>The address translation of the MMU for page directory \<open>d\<close>.\<close>

definition translate :: "mem \<Rightarrow> u32 \<Rightarrow> u32 \<Rightarrow> u32 option" where
  "translate m d va =
     (if present m d (pd_index va) \<and> pte m d va AND PAGE_P \<noteq> 0
      then Some ((pte m d va AND NOT 0xFFF) OR (va AND 0xFFF)) else None)"

lemma user_page_alt:
  "user_page m d va \<longleftrightarrow> present m d (pd_index va) \<and> entry m d (pd_index va) AND PAGE_US \<noteq> 0 \<and>
     pte m d va AND PAGE_P \<noteq> 0 \<and> pte m d va AND PAGE_US \<noteq> 0"
  by (simp add: user_page_def present_def pte_def ptab_def Let_def)

lemma unat_indices:
  "unat (pd_index va) = unat va div 4194304" "unat (pt_index va) = unat va div 4096 mod 1024"
proof -
  show "unat (pd_index va) = unat va div 4194304"
    unfolding pd_index_def unat_drop_bit_eq by (simp add: drop_bit_eq_div)
  have "(0x3FF :: u32) = mask 10"
    by (simp add: mask_eq_exp_minus_1)
  then have "pt_index va = take_bit 10 (drop_bit 12 va)"
    by (simp only: pt_index_def take_bit_eq_mask)
  then show "unat (pt_index va) = unat va div 4096 mod 1024"
    by (simp only: unsigned_take_bit_eq unat_drop_bit_eq) (simp add: take_bit_eq_mod drop_bit_eq_div)
qed

lemma page_base_split:
  "pd_index va * PT_COVERAGE + pt_index va * PAGE_SIZE = va AND NOT 0xFFF"
proof -
  let ?v = "unat va"
  have v: "?v div 4096 = 1024 * (?v div 4194304) + ?v div 4096 mod 1024"
    using div_mult2_eq [of ?v 4096 1024] mult_div_mod_eq [of 1024 "?v div 4096"] by simp
  have b: "?v div 4194304 < 1024"
    using unat_u32_lt [of va] by (simp add: less_mult_imp_div_less)
  have 1: "unat (pd_index va * PT_COVERAGE) = (?v div 4194304) * 4194304"
    using b by (subst unat_mult_no_wrap) (simp_all add: unat_indices)
  have 2: "unat (pt_index va * PAGE_SIZE) = (?v div 4096 mod 1024) * 4096"
    by (subst unat_mult_no_wrap) (simp_all add: unat_indices less_imp_le_nat)
  have "4096 * (?v div 4096) < 4294967296"
    using page_bounds(1) [of ?v] unat_u32_lt [of va] by linarith
  then have "unat (pd_index va * PT_COVERAGE + pt_index va * PAGE_SIZE) = 4096 * (?v div 4096)"
    using v by (subst unat_add_no_wrap) (simp_all add: 1 2)
  then show ?thesis
    by (simp only: u32_eq_iff unat_align4096_down)
qed

section \<open>Pages as tables\<close>

lemma kernel_page_addr:
  assumes "i < 1792"
  shows "unat (page_addr i) = 0x100000 + 4096 * i" "table (page_addr i)" "page_addr i \<noteq> 0"
proof -
  show u: "unat (page_addr i) = 0x100000 + 4096 * i"
    using assms by (intro unat_page_addr) simp
  show "table (page_addr i)"
    unfolding table_def u by (intro dvd_add) simp_all
  show "page_addr i \<noteq> 0"
    using u by auto
qed

lemma kernel_page_inj: "i < 1792 \<Longrightarrow> j < 1792 \<Longrightarrow> page_addr i = page_addr j \<longleftrightarrow> i = j"
  by (auto simp: u32_eq_iff kernel_page_addr(1))

lemma page_at_disjoint: "table t \<Longrightarrow> table u \<Longrightarrow> t \<noteq> u \<Longrightarrow> page_at t \<inter> page_at u = {}"
proof -
  assume a: "table t" "table u" "t \<noteq> u"
  obtain k where k: "unat t = 4096 * k"
    using a(1) by (auto simp: table_def)
  obtain l where l: "unat u = 4096 * l"
    using a(2) by (auto simp: table_def)
  have "k + 1 \<le> l \<or> l + 1 \<le> k"
    using a(3) k l by (auto simp: u32_eq_iff)
  then show ?thesis
    using k l by (auto simp: page_at_def)
qed

section \<open>The identity mapping\<close>

text \<open>The value \<open>paging_init\<close> writes to entry \<open>j\<close> of page table \<open>k\<close>.\<close>

definition identity_pte :: "u32 \<Rightarrow> u32 \<Rightarrow> u32 \<Rightarrow> u32" where
  "identity_pte top_mem k j =
     (let phys = k * PT_COVERAGE + j * PAGE_SIZE in if phys < top_mem then phys OR PAGE_DEFAULT else 0)"

text \<open>The state of \<open>paging_init\<close> after \<open>n\<close> page tables, of which the \<open>k\<close>th is page \<open>P k\<close>.\<close>

definition tables_built :: "u32 \<Rightarrow> nat \<Rightarrow> 'a paging_state_scheme \<Rightarrow> nat \<Rightarrow> (nat \<Rightarrow> nat) \<Rightarrow>
    'a paging_state_scheme \<Rightarrow> bool" where
  "tables_built top_mem q s0 n P s \<longleftrightarrow>
     pmm_wf (pmm s) \<and> pd_phys s = pd_phys s0 \<and> inj_on P {..<n} \<and>
     P ` {..<n} \<subseteq> free_set (pmm s0) \<inter> kernel_zone \<and>
     free_set (pmm s) = free_set (pmm s0) - P ` {..<n} \<and>
     (\<forall>k<1024. entry (memory s) (page_addr q) (of_nat k) = (if k < n then page_addr (P k) OR PAGE_DEFAULT else 0)) \<and>
     (\<forall>k<n. \<forall>j<1024. entry (memory s) (page_addr (P k)) j = identity_pte top_mem (of_nat k) j) \<and>
     (\<forall>x. x \<notin> page_at (page_addr q) \<longrightarrow> (\<forall>k<n. x \<notin> page_at (page_addr (P k))) \<longrightarrow> memory s x = memory s0 x)"

lemma init_page_table_step:
  assumes b: "tables_built top_mem q s0 n P s" and n: "n < 1024"
    and q: "q < 1792" "q \<notin> free_set (pmm s0)"
    and room: "n < card (free_set (pmm s0) \<inter> kernel_zone)"
  shows "\<exists>P. tables_built top_mem q s0 (Suc n) P (init_page_table top_mem (page_addr q) n s)"
proof -
  have wf: "pmm_wf (pmm s)" and P: "inj_on P {..<n}" "P ` {..<n} \<subseteq> free_set (pmm s0) \<inter> kernel_zone"
    and free: "free_set (pmm s) = free_set (pmm s0) - P ` {..<n}"
    and pd: "\<And>k. k < 1024 \<Longrightarrow> entry (memory s) (page_addr q) (of_nat k) =
        (if k < n then page_addr (P k) OR PAGE_DEFAULT else 0)"
    and pt: "\<And>k j. k < n \<Longrightarrow> j < 1024 \<Longrightarrow> entry (memory s) (page_addr (P k)) j = identity_pte top_mem (of_nat k) j"
    and out: "\<And>x. x \<notin> page_at (page_addr q) \<Longrightarrow> (\<forall>k<n. x \<notin> page_at (page_addr (P k))) \<Longrightarrow> memory s x = memory s0 x"
    using b by (auto simp: tables_built_def)
  have "card (P ` {..<n}) = n"
    using P(1) by (simp add: card_image)
  then have "\<not> free_set (pmm s0) \<inter> kernel_zone \<subseteq> P ` {..<n}"
    using room card_mono [of "P ` {..<n}" "free_set (pmm s0) \<inter> kernel_zone"] by auto
  then have ne: "free_set (pmm s) \<inter> kernel_zone \<noteq> {}"
    using free by blast
  from kernel_page.alloc_page [OF wf ne] obtain i p where
    i: "pmm_alloc_page (pmm s) = (page_addr i, p)" "i \<in> free_set (pmm s) \<inter> kernel_zone" "pmm_wf p"
      "free_set p = free_set (pmm s) - {i}"
    by blast
  let ?P = "P(n := i)" let ?s = "init_page_table top_mem (page_addr q) n s" let ?t = "page_addr i"
  have i': "i < 1792" "i \<noteq> q" "\<And>k. k < n \<Longrightarrow> P k \<noteq> i" "\<And>k. k < n \<Longrightarrow> P k < 1792" "\<And>k. k < n \<Longrightarrow> P k \<noteq> q"
    using i(2) free q(2) P(2) by auto
  have s: "memory ?s = fill_table (set_entry (memory s) (page_addr q) (of_nat n) (?t OR PAGE_DEFAULT)) ?t
      (identity_pte top_mem (of_nat n))" "pmm ?s = p" "pd_phys ?s = pd_phys s"
    by (simp_all add: init_page_table_def i(1) identity_pte_def [abs_def] Let_def)
  have tq: "table (page_addr q)" "table ?t" "page_addr q \<noteq> ?t"
    using q(1) i' kernel_page_inj by (auto simp: kernel_page_addr)
  have tk: "table (page_addr (P k))" "page_addr (P k) \<noteq> ?t" "page_addr (P k) \<noteq> page_addr q" if "k < n" for k
    using i' that q(1) kernel_page_inj by (auto simp: kernel_page_addr)
  have idx: "(of_nat n = (of_nat k :: u32)) = (n = k)" if "k < 1024" for k
    using that n by (auto simp: u32_eq_iff unat_of_nat_u32)
  have nn: "(of_nat n :: u32) < 1024"
    using n by (rule of_nat_index)
  have pd': "entry (memory ?s) (page_addr q) (of_nat k) =
      (if k < Suc n then page_addr (?P k) OR PAGE_DEFAULT else 0)" if "k < 1024" for k
    using pd [OF that] tq that of_nat_index [OF that] idx [OF that] nn
    by (auto simp: s entry_fill_table entry_set_entry less_Suc_eq)
  have pt': "entry (memory ?s) (page_addr (?P k)) j = identity_pte top_mem (of_nat k) j" if "k < Suc n" "j < 1024" for k j
  proof (cases "k = n")
    case True
    then show ?thesis
      using tq that by (simp add: s entry_fill_table)
  next
    case False
    then have "k < n" using that by simp
    then show ?thesis
      using pt [of k j] tk [of k] tq that nn False by (auto simp: s entry_fill_table entry_set_entry)
  qed
  have out': "memory ?s x = memory s0 x"
    if "x \<notin> page_at (page_addr q)" "\<forall>k<Suc n. x \<notin> page_at (page_addr (?P k))" for x
  proof -
    have "x \<notin> page_at ?t" "\<forall>k<n. x \<notin> page_at (page_addr (P k))"
      using that(2) by (auto simp: less_Suc_eq split: if_splits)
    then show ?thesis
      using out [OF that(1)] that(1) tq nn by (simp add: s fill_table_outside set_entry_outside)
  qed
  have "inj_on ?P {..<Suc n}"
    using P(1) i'(3) by (fastforce simp: inj_on_def less_Suc_eq)
  moreover have "?P ` {..<Suc n} = insert i (P ` {..<n})"
    by (auto simp: less_Suc_eq image_iff)
  ultimately have "tables_built top_mem q s0 (Suc n) ?P ?s"
    unfolding tables_built_def using i P free b pd' pt' out' s(2,3)
    by (simp add: tables_built_def) blast
  then show ?thesis by blast
qed

lemma init_page_tables:
  assumes "tables_built top_mem q s0 0 P0 s0" "q < 1792" "q \<notin> free_set (pmm s0)"
    and "n \<le> 1024" "n \<le> card (free_set (pmm s0) \<inter> kernel_zone)"
  shows "\<exists>P. tables_built top_mem q s0 n P (fold (init_page_table top_mem (page_addr q)) [0..<n] s0)"
  using assms(4,5)
proof (induction n)
  case 0
  then show ?case
    using assms(1) by auto
next
  case (Suc n)
  then obtain P where "tables_built top_mem q s0 n P (fold (init_page_table top_mem (page_addr q)) [0..<n] s0)"
    by auto
  from init_page_table_step [OF this _ assms(2,3)] Suc.prems show ?case
    by simp
qed

text \<open>What the mapping means for translation: identity below the top of memory, nothing above.\<close>

definition identity_mapped :: "mem \<Rightarrow> u32 \<Rightarrow> u32 \<Rightarrow> bool" where
  "identity_mapped m d top_mem \<longleftrightarrow>
     (\<forall>va. translate m d va = (if va AND NOT 0xFFF < top_mem then Some va else None) \<and> \<not> user_page m d va)"

lemma and_or_split: "(va AND NOT 0xFFF) OR (va AND 0xFFF) = (va :: u32)"
  by (rule bit_word_eqI) (auto simp: bit_simps)

lemma flags_absent:
  assumes "table t"
  shows "(t OR PAGE_DEFAULT) AND PAGE_P \<noteq> 0" "(t OR PAGE_DEFAULT) AND PAGE_US = 0"
    "(t OR PAGE_DEFAULT) AND NOT 0xFFF = t"
proof -
  show a: "(t OR PAGE_DEFAULT) AND NOT 0xFFF = t"
    by (rule table_or_flags(1) [OF assms]) simp
  have b: "(t OR PAGE_DEFAULT) AND 0xFFF = PAGE_DEFAULT"
    by (rule table_or_flags(2) [OF assms]) simp
  have "(t OR PAGE_DEFAULT) AND f = ((t OR PAGE_DEFAULT) AND 0xFFF) AND f" if "0xFFF AND f = f" for f
    using that by (simp only: and.assoc)
  from this [of PAGE_P] this [of PAGE_US] show "(t OR PAGE_DEFAULT) AND PAGE_P \<noteq> 0" "(t OR PAGE_DEFAULT) AND PAGE_US = 0"
    unfolding b by simp_all
qed

lemma tables_identity:
  assumes b: "tables_built top_mem q s0 n P s" and q: "q < 1792" and n: "n \<le> 1024"
    and cover: "unat top_mem \<le> n * 4194304"
  shows "identity_mapped (memory s) (page_addr q) top_mem"
  unfolding identity_mapped_def
proof (rule allI)
  fix va
  let ?m = "memory s" let ?d = "page_addr q" let ?i = "pd_index va" let ?base = "va AND NOT 0xFFF"
  let ?k = "unat ?i"
  have k: "?k < 1024" "of_nat ?k = ?i"
    using index_bound(1) [of va] by (simp_all add: word_less_nat_alt)
  have pd: "entry ?m ?d ?i = (if ?k < n then page_addr (P ?k) OR PAGE_DEFAULT else 0)"
    using b k by (metis tables_built_def)
  show "translate ?m ?d va = (if ?base < top_mem then Some va else None) \<and> \<not> user_page ?m ?d va"
  proof (cases "?k < n")
    case True
    then have pk: "P ?k < 1792"
      using b by (auto simp: tables_built_def)
    note t = kernel_page_addr(2) [OF pk]
    have pres: "present ?m ?d ?i" "ptab ?m ?d ?i = page_addr (P ?k)" "entry ?m ?d ?i AND PAGE_US = 0"
      using True pd flags_absent [OF t] by (simp_all add: present_def ptab_def)
    have "pte ?m ?d va = identity_pte top_mem ?i (pt_index va)"
      using b True k(2) index_bound(2) [of va] by (simp add: pte_def pres(2) tables_built_def)
    then have e: "pte ?m ?d va = (if ?base < top_mem then ?base OR PAGE_DEFAULT else 0)"
      by (simp only: identity_pte_def Let_def page_base_split)
    have "table ?base"
      by (rule table_and_not_fff)
    from flags_absent [OF this] show ?thesis
      unfolding translate_def user_page_alt using pres e and_or_split [of va] by auto
  next
    case False
    then have "entry ?m ?d ?i = 0"
      using pd by simp
    then have "\<not> present ?m ?d ?i"
      by (simp add: present_def)
    moreover have "\<not> ?base < top_mem"
    proof -
      have "n * 4194304 \<le> ?k * 4194304"
        using False by simp
      also have "?k * 4194304 = unat (pd_index va * PT_COVERAGE)"
        using k(1) by (subst unat_mult_no_wrap) simp_all
      also have "\<dots> \<le> unat ?base"
      proof -
        have "4194304 * (unat va div 4194304) \<le> 4096 * (unat va div 4096)"
          using div_mult2_eq [of "unat va" 4096 1024] by simp
        then show ?thesis
          using k(1) unat_align4096_down [of va]
          by (subst unat_mult_no_wrap) (simp_all add: unat_indices)
      qed
      finally show ?thesis
        using cover by (simp add: word_less_nat_alt)
    qed
    ultimately show ?thesis
      by (simp add: translate_def user_page_alt)
  qed
qed

section \<open>Unmapping the null page\<close>

lemma entry_zero_index: "va AND NOT 0xFFF = 0 \<longleftrightarrow> pd_index va = 0 \<and> pt_index va = 0"
proof -
  define w where "w = unat va div 4096"
  have "w = 1024 * (w div 1024) + w mod 1024"
    by simp
  then have w: "w = 0 \<longleftrightarrow> w div 1024 = 0 \<and> w mod 1024 = 0"
    by (metis add.right_neutral div_0 mod_0 mult_0_right)
  have "unat va div 4194304 = w div 1024"
    unfolding w_def using div_mult2_eq [of "unat va" 4096 1024] by simp
  then have "unat va div 4096 = 0 \<longleftrightarrow> unat va div 4194304 = 0 \<and> unat va div 4096 mod 1024 = 0"
    using w unfolding w_def by (simp only:)
  moreover have "unat (va AND NOT 0xFFF) = 0 \<longleftrightarrow> unat va div 4096 = 0"
    by (simp only: unat_align4096_down) simp
  ultimately show ?thesis
    by (simp only: u32_eq_iff unat_indices unsigned_0)
qed

text \<open>The page tables of a directory are apart from it and from each other.\<close>

definition tree :: "mem \<Rightarrow> u32 \<Rightarrow> bool" where
  "tree m d \<longleftrightarrow> table d \<and> (\<forall>i<1024. present m d i \<longrightarrow> ptab m d i \<noteq> d) \<and>
     (\<forall>i<1024. \<forall>j<1024. present m d i \<longrightarrow> present m d j \<longrightarrow> ptab m d i = ptab m d j \<longrightarrow> i = j)"

lemma table_ptab [simp]: "table (ptab m d i)"
  unfolding ptab_def by (rule table_and_not_fff)

lemma tables_tree:
  assumes b: "tables_built top_mem q s0 n P s" and q: "q < 1792" "q \<notin> free_set (pmm s0)"
  shows "tree (memory s) (page_addr q)"
proof -
  let ?m = "memory s" let ?d = "page_addr q"
  have pk: "P k < 1792" "P k \<noteq> q" if "k < n" for k
    using b q(2) that by (auto simp: tables_built_def)
  have pt: "unat i < n \<and> ptab ?m ?d i = page_addr (P (unat i))" if "i < 1024" "present ?m ?d i" for i
  proof -
    have k: "unat i < 1024" "of_nat (unat i) = i"
      using that(1) by (simp_all add: word_less_nat_alt)
    have "entry ?m ?d i = (if unat i < n then page_addr (P (unat i)) OR PAGE_DEFAULT else 0)"
      using b k by (metis tables_built_def)
    then show ?thesis
      using that(2) pk [of "unat i"] flags_absent(3) [OF kernel_page_addr(2)]
      by (auto simp: present_def ptab_def split: if_splits)
  qed
  have inj: "i = j" if "i < 1024" "j < 1024" "present ?m ?d i" "present ?m ?d j" "ptab ?m ?d i = ptab ?m ?d j" for i j
  proof -
    have "P (unat i) = P (unat j)"
      using pt [OF that(1,3)] pt [OF that(2,4)] that(5) kernel_page_inj pk by auto
    then have "unat i = unat j"
      using b pt [OF that(1,3)] pt [OF that(2,4)] by (auto simp: tables_built_def inj_on_def)
    then show ?thesis
      by (simp add: u32_eq_iff)
  qed
  have "ptab ?m ?d i \<noteq> ?d" if "i < 1024" "present ?m ?d i" for i
    using pt [OF that] pk kernel_page_inj q(1) by auto
  then show ?thesis
    using inj kernel_page_addr(2) [OF q(1)] unfolding tree_def by blast
qed

lemma unmap_null_translate:
  assumes t: "tree (memory s) (pd_phys s)"
  defines "m' \<equiv> memory (paging_unmap_null_page s)"
  shows "translate m' (pd_phys s) va =
      (if va AND NOT 0xFFF = 0 then None else translate (memory s) (pd_phys s) va)"
    "user_page m' (pd_phys s) va \<longleftrightarrow> va AND NOT 0xFFF \<noteq> 0 \<and> user_page (memory s) (pd_phys s) va"
proof -
  let ?m = "memory s" let ?d = "pd_phys s" let ?t = "ptab ?m ?d 0"
  show "translate m' ?d va = (if va AND NOT 0xFFF = 0 then None else translate ?m ?d va)"
    "user_page m' ?d va \<longleftrightarrow> va AND NOT 0xFFF \<noteq> 0 \<and> user_page ?m ?d va"
  proof (atomize (full), cases "present ?m ?d 0")
    case False
    then have "m' = ?m"
      by (simp add: m'_def paging_unmap_null_page_def present_def)
    then show "translate m' ?d va = (if va AND NOT 0xFFF = 0 then None else translate ?m ?d va) \<and>
        (user_page m' ?d va \<longleftrightarrow> va AND NOT 0xFFF \<noteq> 0 \<and> user_page ?m ?d va)"
      using False entry_zero_index [of va] by (auto simp: translate_def user_page_alt)
  next
    case True
    then have m': "m' = set_entry ?m ?t 0 (entry ?m ?t 0 AND NOT PAGE_P)"
      by (simp add: m'_def paging_unmap_null_page_def present_def ptab_def Let_def)
    have d: "table ?d" "?t \<noteq> ?d"
      and inj: "\<And>i. i < 1024 \<Longrightarrow> present ?m ?d i \<Longrightarrow> ptab ?m ?d i = ?t \<Longrightarrow> i = 0"
      using t True unfolding tree_def by auto
    have e: "entry m' ?d i = entry ?m ?d i" if "i < 1024" for i
      using d that by (simp add: m' entry_set_entry)
    then have p: "present m' ?d (pd_index va) = present ?m ?d (pd_index va)"
      "ptab m' ?d (pd_index va) = ptab ?m ?d (pd_index va)"
      by (simp_all add: present_def ptab_def)
    have z: "(x AND NOT PAGE_P) AND PAGE_P = 0" for x :: u32
      by (rule bit_word_eqI) (auto simp: bit_simps)
    have "pte m' ?d va = entry m' (ptab ?m ?d (pd_index va)) (pt_index va)"
      by (simp only: pte_def p(2))
    also have "\<dots> = (if ?t = ptab ?m ?d (pd_index va) \<and> 0 = pt_index va then entry ?m ?t 0 AND NOT PAGE_P
        else entry ?m (ptab ?m ?d (pd_index va)) (pt_index va))"
      unfolding m' by (rule entry_set_entry) simp_all
    finally have "pte m' ?d va = (if ptab ?m ?d (pd_index va) = ?t \<and> pt_index va = 0
        then pte ?m ?d va AND NOT PAGE_P else pte ?m ?d va)"
      by (auto simp: pte_def)
    then have pte: "pte m' ?d va = (if va AND NOT 0xFFF = 0 then pte ?m ?d va AND NOT PAGE_P else pte ?m ?d va)"
      if "present ?m ?d (pd_index va)"
      unfolding entry_zero_index using inj [OF index_bound(1) that] by auto
    have np: "present ?m ?d (pd_index va)" if "va AND NOT 0xFFF = 0"
      using that True unfolding entry_zero_index by simp
    show "translate m' ?d va = (if va AND NOT 0xFFF = 0 then None else translate ?m ?d va) \<and>
        (user_page m' ?d va \<longleftrightarrow> va AND NOT 0xFFF \<noteq> 0 \<and> user_page ?m ?d va)"
    proof (cases "present ?m ?d (pd_index va)")
      case False
      then show ?thesis
        using np by (simp only: translate_def user_page_alt p) auto
    next
      case True
      then show ?thesis
        using z [of "pte ?m ?d va"] by (simp only: translate_def user_page_alt p pte e [OF index_bound(1)]) simp
    qed
  qed
qed


section \<open>User ranges\<close>

lemma unat_base_indices: "pd_index (va AND NOT 0xFFF) = pd_index va" "pt_index (va AND NOT 0xFFF) = pt_index va"
proof -
  have "4096 * (v div 4096) div 4096 = v div 4096" for v :: nat
    by simp
  moreover have "4096 * (v div 4096) div 4194304 = v div 4194304" for v :: nat
    using div_mult2_eq [of "4096 * (v div 4096)" 4096 1024] div_mult2_eq [of v 4096 1024] by simp
  ultimately show "pd_index (va AND NOT 0xFFF) = pd_index va" "pt_index (va AND NOT 0xFFF) = pt_index va"
    unfolding u32_eq_iff unat_indices unat_align4096_down by simp_all
qed

lemma accessible_base:
  "page_is_user_accessible s cur (va AND NOT 0xFFF) = page_is_user_accessible s cur va"
  by (simp only: page_is_user_accessible_def user_page_def unat_base_indices)

lemma accessible_same_page:
  assumes "table p" "unat p \<le> unat x" "unat x < unat p + 4096"
  shows "page_is_user_accessible s cur x = page_is_user_accessible s cur p"
proof -
  obtain k where k: "unat p = 4096 * k"
    using assms(1) by (auto simp: table_def)
  have "unat x div 4096 = k"
    using assms(2,3) k by (intro div_nat_eqI) simp_all
  then have "x AND NOT 0xFFF = p"
    unfolding u32_eq_iff unat_align4096_down using k by simp
  then show ?thesis
    using accessible_base [of s cur x] by simp
qed

lemma table_next:
  assumes "table p" "unat p < 0xFFFFF000"
  shows "unat (p + PAGE_SIZE) = unat p + 4096" "table (p + PAGE_SIZE)"
proof -
  show u: "unat (p + PAGE_SIZE) = unat p + 4096"
    using assms(2) by (subst unat_add_no_wrap) simp_all
  then show "table (p + PAGE_SIZE)"
    using assms(1) by (simp add: table_def u)
qed

lemma check_pages_ok:
  assumes "table p" "unat e \<le> 0xFFFFF000"
  shows "check_pages s cur p e =
    Some (\<forall>x. unat p \<le> unat x \<longrightarrow> unat x < unat e \<longrightarrow> page_is_user_accessible s cur x)"
  using assms(1)
proof (induction "unat e - unat p" arbitrary: p rule: less_induct)
  case less
  show ?case
  proof (cases "p < e")
    case False
    then show ?thesis
      by (subst check_pages.simps) (auto simp: word_less_nat_alt)
  next
    case lt: True
    show ?thesis
    proof (cases "page_is_user_accessible s cur p")
      case False
      then have "\<not> (\<forall>x. unat p \<le> unat x \<longrightarrow> unat x < unat e \<longrightarrow> page_is_user_accessible s cur x)"
        using lt by (auto simp: word_less_nat_alt)
      then show ?thesis
        using False lt by (subst check_pages.simps) simp
    next
      case True
      have p: "unat p < 0xFFFFF000" "unat p < unat e"
        using lt assms(2) by (simp_all add: word_less_nat_alt)
      note n = table_next [OF less.prems p(1)]
      have "check_pages s cur p e = check_pages s cur (p + PAGE_SIZE) e"
        using True lt by (subst check_pages.simps) simp
      also have "\<dots> = Some (\<forall>x. unat p + 4096 \<le> unat x \<longrightarrow> unat x < unat e \<longrightarrow> page_is_user_accessible s cur x)"
        using less.hyps [of "p + PAGE_SIZE"] n p by simp
      also have "(\<forall>x. unat p + 4096 \<le> unat x \<longrightarrow> unat x < unat e \<longrightarrow> page_is_user_accessible s cur x) \<longleftrightarrow>
          (\<forall>x. unat p \<le> unat x \<longrightarrow> unat x < unat e \<longrightarrow> page_is_user_accessible s cur x)"
        using accessible_same_page [OF less.prems, of _ s cur] True by (meson add_leD1 not_le)
      finally show ?thesis .
    qed
  qed
qed

text \<open>A range that ends in the last page wraps around to page 0, which is never accessible.\<close>

lemma check_pages_wrap:
  assumes "table p" "0xFFFFF000 < unat e" "\<not> page_is_user_accessible s cur 0"
  shows "check_pages s cur p e = Some False"
  using assms(1)
proof (induction "4294967296 - unat p" arbitrary: p rule: less_induct)
  case less
  obtain k where k: "unat p = 4096 * k"
    using less.prems by (auto simp: table_def)
  have p: "unat p \<le> 0xFFFFF000"
    using k unat_u32_lt [of p] by simp
  then have lt: "p < e"
    using assms(2) by (simp add: word_less_nat_alt)
  show ?case
  proof (cases "page_is_user_accessible s cur p")
    case True
    then have step: "check_pages s cur p e = check_pages s cur (p + PAGE_SIZE) e"
      using lt by (subst check_pages.simps) simp
    show ?thesis
    proof (cases "unat p = 0xFFFFF000")
      case True
      then have "p = 0xFFFFF000"
        by (simp add: u32_eq_iff)
      then have "p + PAGE_SIZE = 0"
        by simp
      moreover have "check_pages s cur 0 e = Some False"
        using assms(2,3) by (subst check_pages.simps) (simp add: word_less_nat_alt)
      ultimately show ?thesis
        using step by simp
    next
      case False
      then have "unat p < 0xFFFFF000"
        using p by simp
      from table_next [OF less.prems this] show ?thesis
        using step less.hyps [of "p + PAGE_SIZE"] p by simp
    qed
  qed (use lt in \<open>subst check_pages.simps, simp\<close>)
qed

text \<open>The bytes a user range stands for; a range is good when it ends below the last page and all
  its bytes are user accessible.\<close>

definition user_range :: "'a paging_state_scheme \<Rightarrow> u32 option \<Rightarrow> u32 \<Rightarrow> u32 \<Rightarrow> bool" where
  "user_range s cur va len \<longleftrightarrow> len = 0 \<or> unat va + unat len \<le> 0xFFFFF000 \<and>
     (\<forall>x. unat va \<le> unat x \<longrightarrow> unat x < unat va + unat len \<longrightarrow> page_is_user_accessible s cur x)"

lemma is_user_accessible_range_ok:
  assumes null: "\<not> page_is_user_accessible s cur 0"
  shows "is_user_accessible_range s cur va len = Some (user_range s cur va len)"
proof (cases "len = 0")
  case False
  let ?e = "va + len" let ?p = "va AND NOT 0xFFF"
  have p: "table ?p" "unat ?p \<le> unat va" "unat va < unat ?p + 4096"
    using page_bounds [of "unat va"] by (simp_all only: table_and_not_fff unat_align4096_down)
  have len: "0 < unat len"
    using False by (simp add: unat_gt_0)
  show ?thesis
  proof (cases "unat va + unat len < 4294967296")
    case True
    then have e: "unat ?e = unat va + unat len"
      by (rule unat_add_no_wrap)
    then have r: "is_user_accessible_range s cur va len = check_pages s cur ?p ?e"
      using False len by (simp only: is_user_accessible_range_def Let_def) (simp add: word_less_nat_alt)
    show ?thesis
    proof (cases "unat ?e \<le> 0xFFFFF000")
      case True
      have "(\<forall>x. unat ?p \<le> unat x \<longrightarrow> unat x < unat ?e \<longrightarrow> page_is_user_accessible s cur x) \<longleftrightarrow>
        (\<forall>x. unat va \<le> unat x \<longrightarrow> unat x < unat ?e \<longrightarrow> page_is_user_accessible s cur x)" (is "?L \<longleftrightarrow> ?R")
      proof
        assume R: ?R
        have "page_is_user_accessible s cur va"
          using R e len by simp
        then have "page_is_user_accessible s cur ?p"
          by (simp only: accessible_base)
        then have "page_is_user_accessible s cur x" if "unat ?p \<le> unat x" "unat x < unat ?e" for x
          using R accessible_same_page [OF p(1) that(1), of s cur] p(3) that
          by (cases "unat va \<le> unat x") auto
        then show ?L by blast
      qed (use p(2) in auto)
      then show ?thesis
        unfolding r check_pages_ok [OF p(1) True] using True False e by (simp add: user_range_def)
    next
      case big: False
      then show ?thesis
        unfolding r using check_pages_wrap [OF p(1) _ null, of ?e] e False by (simp add: user_range_def)
    qed
  next
    case wrap: False
    then have "unat ?e = unat va + unat len - 4294967296"
      by (intro unat_add_wrap) simp
    then have "?e < va"
      using wrap unat_u32_lt [of len] unfolding word_less_nat_alt by linarith
    then show ?thesis
      using False wrap by (simp add: is_user_accessible_range_def user_range_def Let_def)
  qed
qed (simp add: is_user_accessible_range_def user_range_def)

text \<open>Access rights depend only on the page directory and its tables.\<close>

lemma entry_cong:
  assumes "table t" "j < 1024" "\<And>x. x \<in> page_at t \<Longrightarrow> m' x = m x"
  shows "entry m' t j = entry m t j"
  unfolding entry_def
proof (rule load32_cong)
  fix x assume "x \<in> word_at (t + 4 * j)"
  from word_at_unat [OF entry_aligned [OF assms(1,2)] this] have "x \<in> page_at t"
    using unat_entry_addr [OF assms(1,2)] assms(2) by (auto simp: page_at_def word_less_nat_alt)
  then show "m' x = m x" by (rule assms(3))
qed

lemma user_page_cong:
  assumes "table d" "\<And>x. x \<in> page_at d \<Longrightarrow> m' x = m x"
    "\<And>i x. i < 1024 \<Longrightarrow> present m d i \<Longrightarrow> x \<in> page_at (ptab m d i) \<Longrightarrow> m' x = m x"
  shows "user_page m' d va = user_page m d va"
proof -
  have e: "entry m' d (pd_index va) = entry m d (pd_index va)"
    using assms(1,2) by (intro entry_cong) simp_all
  show ?thesis
  proof (cases "present m d (pd_index va)")
    case True
    have "entry m' (ptab m d (pd_index va)) (pt_index va) = entry m (ptab m d (pd_index va)) (pt_index va)"
      using assms(3) [OF index_bound(1) True] by (intro entry_cong) simp_all
    then show ?thesis
      using e by (simp add: user_page_alt present_def pte_def ptab_def)
  next
    case False
    then show ?thesis
      using e by (simp add: user_page_alt present_def)
  qed
qed

section \<open>Copying strings\<close>

text \<open>The string at \<open>p\<close> has length \<open>n\<close>; the first \<open>n\<close> bytes at \<open>p\<close> are user accessible.\<close>

definition string_at :: "mem \<Rightarrow> u32 \<Rightarrow> nat \<Rightarrow> bool" where
  "string_at m p n \<longleftrightarrow> m (p + of_nat n) = 0 \<and> (\<forall>i<n. m (p + of_nat i) \<noteq> 0)"

definition readable :: "'a paging_state_scheme \<Rightarrow> u32 option \<Rightarrow> u32 \<Rightarrow> nat \<Rightarrow> bool" where
  "readable s cur p n \<longleftrightarrow> (\<forall>i<n. page_is_user_accessible s cur (p + of_nat i))"

lemma string_at_simps:
  "string_at m p 0 \<longleftrightarrow> m p = 0" "string_at m p (Suc n) \<longleftrightarrow> m p \<noteq> 0 \<and> string_at m (p + 1) n"
  unfolding string_at_def All_less_Suc2 by (auto simp: add.assoc)

lemma readable_simps:
  "readable s cur p 0" "readable s cur p (Suc n) \<longleftrightarrow> page_is_user_accessible s cur p \<and> readable s cur (p + 1) n"
  unfolding readable_def All_less_Suc2 by (auto simp: add.assoc)

lemma string_at_cong:
  "(\<And>x. x \<in> range_at p (Suc n) \<Longrightarrow> m x = m' x) \<Longrightarrow> string_at m p n = string_at m' p n"
  unfolding string_at_def range_at_def by auto

text \<open>Writing the bytes of \<open>R\<close> does not change what the current task may access.\<close>

definition access_stable :: "'a paging_state_scheme \<Rightarrow> u32 option \<Rightarrow> u32 set \<Rightarrow> bool" where
  "access_stable s cur R \<longleftrightarrow> (\<forall>m' va. (\<forall>x. x \<notin> R \<longrightarrow> m' x = memory s x) \<longrightarrow>
     page_is_user_accessible (s\<lparr>memory := m'\<rparr>) cur va = page_is_user_accessible s cur va)"

lemma access_stable_update:
  assumes "access_stable s cur R" "x \<in> R"
  shows "access_stable (s\<lparr>memory := (memory s)(x := c)\<rparr>) cur R"
    "page_is_user_accessible (s\<lparr>memory := (memory s)(x := c)\<rparr>) cur va = page_is_user_accessible s cur va"
proof -
  show a: "page_is_user_accessible (s\<lparr>memory := (memory s)(x := c)\<rparr>) cur va = page_is_user_accessible s cur va" for va
    using assms unfolding access_stable_def by auto
  show "access_stable (s\<lparr>memory := (memory s)(x := c)\<rparr>) cur R"
    unfolding access_stable_def
  proof (intro allI impI)
    fix m' va assume "\<forall>y. y \<notin> R \<longrightarrow> m' y = memory (s\<lparr>memory := (memory s)(x := c)\<rparr>) y"
    then have "\<forall>y. y \<notin> R \<longrightarrow> m' y = memory s y"
      using assms(2) by auto
    then show "page_is_user_accessible (s\<lparr>memory := (memory s)(x := c)\<rparr>\<lparr>memory := m'\<rparr>) cur va =
      page_is_user_accessible (s\<lparr>memory := (memory s)(x := c)\<rparr>) cur va"
      using assms(1) a unfolding access_stable_def by simp
  qed
qed

lemma access_stable_mono: "access_stable s cur R \<Longrightarrow> R' \<subseteq> R \<Longrightarrow> access_stable s cur R'"
  unfolding access_stable_def by blast

lemma access_stable_page:
  assumes "\<And>p. p \<in> P \<Longrightarrow> table p" "table (pd_in_use s cur)" "pd_in_use s cur \<notin> P"
    "\<And>i. i < 1024 \<Longrightarrow> present (memory s) (pd_in_use s cur) i \<Longrightarrow> ptab (memory s) (pd_in_use s cur) i \<notin> P"
    "R \<subseteq> \<Union> (page_at ` P)"
  shows "access_stable s cur R"
  unfolding access_stable_def
proof (intro allI impI)
  fix m' va assume same: "\<forall>x. x \<notin> R \<longrightarrow> m' x = memory s x"
  have out: "m' x = memory s x" if x: "x \<in> page_at t" "table t" "t \<notin> P" for x t
  proof -
    have "x \<notin> page_at p" if "p \<in> P" for p
      using page_at_disjoint [OF x(2) assms(1) [OF that]] x(1,3) that by blast
    then show ?thesis
      using assms(5) same by blast
  qed
  have "user_page m' (pd_in_use s cur) va = user_page (memory s) (pd_in_use s cur) va"
  proof (rule user_page_cong [OF assms(2)])
    show "x \<in> page_at (pd_in_use s cur) \<Longrightarrow> m' x = memory s x" for x
      using out assms(2,3) by blast
    show "i < 1024 \<Longrightarrow> present (memory s) (pd_in_use s cur) i \<Longrightarrow> x \<in> page_at (ptab (memory s) (pd_in_use s cur) i) \<Longrightarrow>
        m' x = memory s x" for i x
      using out [OF _ table_ptab] assms(4) by blast
  qed
  moreover have "pd_in_use (s\<lparr>memory := m'\<rparr>) cur = pd_in_use s cur"
    unfolding pd_in_use_def by (cases s) (simp split: option.split)
  ultimately show "page_is_user_accessible (s\<lparr>memory := m'\<rparr>) cur va = page_is_user_accessible s cur va"
    by (simp add: page_is_user_accessible_def)
qed

text \<open>The page check only skips pages that were checked before.\<close>

definition page_checked :: "'a paging_state_scheme \<Rightarrow> u32 option \<Rightarrow> u32 \<Rightarrow> u32 \<Rightarrow> bool" where
  "page_checked s cur page uptr \<longleftrightarrow> (page = uptr AND NOT 0xFFF \<longrightarrow> page_is_user_accessible s cur uptr)"

lemma copy_string_step:
  "page_checked s cur page uptr \<Longrightarrow> copy_string s cur kbuf uptr page (Suc n) =
     (if \<not> page_is_user_accessible s cur uptr then (0xFFFFFFFF, s)
      else let s' = s\<lparr>memory := (memory s)(kbuf := memory s uptr)\<rparr>
           in if memory s uptr = 0 then (0, s') else copy_string s' cur (kbuf + 1) (uptr + 1) (uptr AND NOT 0xFFF) n)"
  using accessible_base [of s cur uptr] by (auto simp: page_checked_def Let_def)

lemma page_checked_next:
  assumes "page_is_user_accessible s cur uptr"
  shows "page_checked s cur (uptr AND NOT 0xFFF) (uptr + 1)"
  unfolding page_checked_def
proof
  assume "uptr AND NOT 0xFFF = uptr + 1 AND NOT 0xFFF"
  then show "page_is_user_accessible s cur (uptr + 1)"
    using assms accessible_base [of s cur uptr] accessible_base [of s cur "uptr + 1"] by (simp only:)
qed

lemma access_stable_readable:
  "access_stable s cur R \<Longrightarrow> x \<in> R \<Longrightarrow>
   readable (s\<lparr>memory := (memory s)(x := c)\<rparr>) cur p n = readable s cur p n"
  by (simp add: readable_def access_stable_update)

lemma page_checked_update:
  "access_stable s cur R \<Longrightarrow> x \<in> R \<Longrightarrow>
   page_checked (s\<lparr>memory := (memory s)(x := c)\<rparr>) cur page p = page_checked s cur page p"
  by (simp add: page_checked_def access_stable_update)

lemma copy_string_found:
  assumes "access_stable s cur R" "range_at kbuf n \<subseteq> R" "range_at uptr n \<inter> range_at kbuf n = {}"
    and "page_checked s cur page uptr" "k < n" "string_at (memory s) uptr k" "readable s cur uptr (Suc k)"
  shows "copy_string s cur kbuf uptr page n =
    (0, s\<lparr>memory := store_bytes (memory s) kbuf (load_bytes (memory s) uptr (Suc k))\<rparr>)"
  using assms
proof (induction n arbitrary: s kbuf uptr page k)
  case (Suc n)
  let ?m = "memory s" let ?s = "s\<lparr>memory := ?m(kbuf := ?m uptr)\<rparr>"
  have acc: "page_is_user_accessible s cur uptr"
    using Suc.prems(7) by (simp add: readable_simps)
  have kb: "kbuf \<in> R" "range_at (kbuf + 1) n \<subseteq> R"
    and disj: "range_at (uptr + 1) n \<inter> range_at (kbuf + 1) n = {}" "kbuf \<notin> range_at (uptr + 1) n"
    using Suc.prems(2,3) by (auto simp: range_at_Suc)
  note step = copy_string_step [OF Suc.prems(4), of kbuf n]
  show ?case
  proof (cases k)
    case 0
    then show ?thesis
      using Suc.prems(6) acc step by (simp add: string_at_simps Let_def fun_upd_def)
  next
    case (Suc j)
    have c: "?m uptr \<noteq> 0" "string_at ?m (uptr + 1) j" "j < n" "readable s cur (uptr + 1) (Suc j)"
      using Suc.prems(5-7) Suc by (simp_all add: string_at_simps readable_simps)
    have sub: "range_at (uptr + 1) (Suc j) \<subseteq> range_at (uptr + 1) n"
      using c(3) by (auto simp: range_at_def)
    have "string_at (memory ?s) (uptr + 1) j"
      by (subst string_at_cong [of "uptr + 1" j "memory ?s" ?m]) (use c(2) disj(2) sub in auto)
    then have "copy_string ?s cur (kbuf + 1) (uptr + 1) (uptr AND NOT 0xFFF) n =
      (0, ?s\<lparr>memory := store_bytes (memory ?s) (kbuf + 1) (load_bytes (memory ?s) (uptr + 1) (Suc j))\<rparr>)"
      using Suc.prems(1) kb disj(1) c(3,4) page_checked_next [OF acc]
      by (intro Suc.IH access_stable_update(1) [OF Suc.prems(1) kb(1)])
        (simp_all only: access_stable_readable [OF Suc.prems(1) kb(1)] page_checked_update [OF Suc.prems(1) kb(1)])
    moreover have "load_bytes (memory ?s) (uptr + 1) (Suc j) = load_bytes ?m (uptr + 1) (Suc j)"
      using disj(2) sub by (intro load_bytes_cong) auto
    ultimately have "copy_string s cur kbuf uptr page (Suc n) =
      (0, ?s\<lparr>memory := store_bytes (memory ?s) (kbuf + 1) (load_bytes ?m (uptr + 1) (Suc j))\<rparr>)"
      using step acc c(1) by (simp only: Let_def if_False not_True_eq_False)
    then show ?thesis
      using Suc by simp
  qed
qed simp

lemma copy_string_result:
  assumes "access_stable s cur R" "range_at kbuf n \<subseteq> R" "range_at uptr n \<inter> range_at kbuf n = {}"
    and "page_checked s cur page uptr"
  defines "r \<equiv> copy_string s cur kbuf uptr page n"
  shows "fst r = 0 \<and> (\<exists>k<n. string_at (memory s) uptr k \<and> readable s cur uptr (Suc k)) \<or>
    fst r = 0xFFFFFFFF \<and> (\<exists>m'. snd r = s\<lparr>memory := m'\<rparr> \<and> (\<forall>x. x \<notin> range_at kbuf n \<longrightarrow> m' x = memory s x))"
  using assms(1-4) unfolding r_def
proof (induction n arbitrary: s kbuf uptr page)
  case 0
  then show ?case
    by (auto intro: exI [of _ "memory s"])
next
  case (Suc n)
  let ?m = "memory s" let ?s = "s\<lparr>memory := ?m(kbuf := ?m uptr)\<rparr>"
  have kb: "kbuf \<in> R" "range_at (kbuf + 1) n \<subseteq> R"
    and disj: "range_at (uptr + 1) n \<inter> range_at (kbuf + 1) n = {}" "kbuf \<notin> range_at (uptr + 1) n"
    using Suc.prems(2,3) by (auto simp: range_at_Suc)
  note step = copy_string_step [OF Suc.prems(4), of kbuf n]
  show ?case
  proof (cases "page_is_user_accessible s cur uptr \<and> ?m uptr \<noteq> 0")
    case False
    then show ?thesis
      using step by (auto simp: Let_def string_at_simps readable_simps intro: exI [of _ 0] exI [of _ "memory s"])
  next
    case True
    then have eq: "copy_string s cur kbuf uptr page (Suc n) =
        copy_string ?s cur (kbuf + 1) (uptr + 1) (uptr AND NOT 0xFFF) n" (is "_ = ?r")
      using step by (simp add: Let_def)
    have "fst ?r = 0 \<and> (\<exists>k<n. string_at (memory ?s) (uptr + 1) k \<and> readable ?s cur (uptr + 1) (Suc k)) \<or>
      fst ?r = 0xFFFFFFFF \<and> (\<exists>m'. snd ?r = ?s\<lparr>memory := m'\<rparr> \<and>
        (\<forall>x. x \<notin> range_at (kbuf + 1) n \<longrightarrow> m' x = memory ?s x))"
      using kb(2) disj(1) page_checked_next [of s cur uptr] True
      by (intro Suc.IH access_stable_update(1) [OF Suc.prems(1) kb(1)])
        (simp_all add: page_checked_update [OF Suc.prems(1) kb(1)])
    then show ?thesis
      unfolding eq
    proof (elim disjE conjE exE)
      fix k assume "fst ?r = 0" and k: "k < n" "string_at (memory ?s) (uptr + 1) k" "readable ?s cur (uptr + 1) (Suc k)"
      have "range_at (uptr + 1) (Suc k) \<subseteq> range_at (uptr + 1) n"
        using k(1) by (auto simp: range_at_def)
      then have "string_at ?m (uptr + 1) k"
        by (subst string_at_cong [of "uptr + 1" k ?m "memory ?s"]) (use k(2) disj(2) in auto)
      moreover have "readable s cur (uptr + 1) (Suc k)"
        using k(3) by (simp only: access_stable_readable [OF Suc.prems(1) kb(1)])
      ultimately show "fst ?r = 0 \<and> (\<exists>k<Suc n. string_at ?m uptr k \<and> readable s cur uptr (Suc k)) \<or>
          fst ?r = 0xFFFFFFFF \<and> (\<exists>m'. snd ?r = s\<lparr>memory := m'\<rparr> \<and>
            (\<forall>x. x \<notin> range_at kbuf (Suc n) \<longrightarrow> m' x = ?m x))"
        using True k(1) \<open>fst ?r = 0\<close> by (intro disjI1 conjI exI [of _ "Suc k"]) (simp_all add: string_at_simps readable_simps)
    next
      fix m' assume "fst ?r = 0xFFFFFFFF" "snd ?r = ?s\<lparr>memory := m'\<rparr>"
        "\<forall>x. x \<notin> range_at (kbuf + 1) n \<longrightarrow> m' x = memory ?s x"
      then show "fst ?r = 0 \<and> (\<exists>k<Suc n. string_at ?m uptr k \<and> readable s cur uptr (Suc k)) \<or>
          fst ?r = 0xFFFFFFFF \<and> (\<exists>m'. snd ?r = s\<lparr>memory := m'\<rparr> \<and>
            (\<forall>x. x \<notin> range_at kbuf (Suc n) \<longrightarrow> m' x = ?m x))"
        by (intro disjI2 conjI exI [of _ m']) (auto simp: range_at_Suc)
    qed
  qed
qed

section \<open>Task isolation\<close>

text \<open>\<open>isolated s T\<close>: \<open>T\<close> is the set of task page directories. Every directory and table is a page the
  page allocator no longer owns; tables are shared only with the kernel directory, at the same
  index; private tables belong to user-accessible directory entries; and the kernel directory
  has no user-accessible entry.\<close>

definition used_page :: "'a paging_state_scheme \<Rightarrow> u32 \<Rightarrow> bool" where
  "used_page s t \<longleftrightarrow> table t \<and> t \<noteq> 0 \<and> (\<forall>i\<in>free_set (pmm s). t \<noteq> page_addr i)"

definition isolated :: "'a paging_state_scheme \<Rightarrow> u32 set \<Rightarrow> bool" where
  "isolated s T \<longleftrightarrow> (let m = memory s; k = pd_phys s; D = insert k T in
     pmm_wf (pmm s) \<and> k \<notin> T \<and> (\<forall>d\<in>D. used_page s d) \<and>
     (\<forall>d\<in>D. \<forall>i<1024. present m d i \<longrightarrow> used_page s (ptab m d i) \<and> ptab m d i \<notin> D) \<and>
     (\<forall>d\<in>D. \<forall>e\<in>D. \<forall>i<1024. \<forall>j<1024. present m d i \<longrightarrow> present m e j \<longrightarrow> ptab m d i = ptab m e j \<longrightarrow>
        i = j \<and> (d = e \<or> ptab m d i = ptab m k i)) \<and>
     (\<forall>d\<in>T. \<forall>i<1024. present m d i = present m k i) \<and>
     (\<forall>d\<in>T. \<forall>i<1024. present m d i \<longrightarrow> ptab m d i \<noteq> ptab m k i \<longrightarrow> entry m d i AND PAGE_US \<noteq> 0) \<and>
     (\<forall>i<1024. present m k i \<longrightarrow> entry m k i AND PAGE_US = 0 \<and>
        (\<forall>j<1024. entry m (ptab m k i) j AND PAGE_US = 0)))"

lemma isolatedD:
  assumes "isolated s T"
  shows "pmm_wf (pmm s)" "pd_phys s \<notin> T"
    "\<And>d. d \<in> insert (pd_phys s) T \<Longrightarrow> used_page s d"
    "\<And>d i. d \<in> insert (pd_phys s) T \<Longrightarrow> i < 1024 \<Longrightarrow> present (memory s) d i \<Longrightarrow>
       used_page s (ptab (memory s) d i) \<and> ptab (memory s) d i \<notin> insert (pd_phys s) T"
    "\<And>d e i j. d \<in> insert (pd_phys s) T \<Longrightarrow> e \<in> insert (pd_phys s) T \<Longrightarrow> i < 1024 \<Longrightarrow> j < 1024 \<Longrightarrow>
       present (memory s) d i \<Longrightarrow> present (memory s) e j \<Longrightarrow> ptab (memory s) d i = ptab (memory s) e j \<Longrightarrow>
       i = j \<and> (d = e \<or> ptab (memory s) d i = ptab (memory s) (pd_phys s) i)"
    "\<And>d i. d \<in> T \<Longrightarrow> i < 1024 \<Longrightarrow> present (memory s) d i = present (memory s) (pd_phys s) i"
    "\<And>d i. d \<in> T \<Longrightarrow> i < 1024 \<Longrightarrow> present (memory s) d i \<Longrightarrow>
       ptab (memory s) d i \<noteq> ptab (memory s) (pd_phys s) i \<Longrightarrow> entry (memory s) d i AND PAGE_US \<noteq> 0"
    "\<And>i. i < 1024 \<Longrightarrow> present (memory s) (pd_phys s) i \<Longrightarrow> entry (memory s) (pd_phys s) i AND PAGE_US = 0"
    "\<And>i j. i < 1024 \<Longrightarrow> j < 1024 \<Longrightarrow> present (memory s) (pd_phys s) i \<Longrightarrow>
       entry (memory s) (ptab (memory s) (pd_phys s) i) j AND PAGE_US = 0"
proof -
  note c = assms [unfolded isolated_def Let_def]
  note c1 = c [THEN conjunct2] note c2 = c1 [THEN conjunct2] note c3 = c2 [THEN conjunct2]
  note c4 = c3 [THEN conjunct2] note c5 = c4 [THEN conjunct2] note c6 = c5 [THEN conjunct2]
  note c7 = c6 [THEN conjunct2]
  show "pmm_wf (pmm s)" by (rule c [THEN conjunct1])
  show "pd_phys s \<notin> T" by (rule c1 [THEN conjunct1])
  show "\<And>d. d \<in> insert (pd_phys s) T \<Longrightarrow> used_page s d"
    by (rule c2 [THEN conjunct1, rule_format])
  show "\<And>d i. d \<in> insert (pd_phys s) T \<Longrightarrow> i < 1024 \<Longrightarrow> present (memory s) d i \<Longrightarrow>
       used_page s (ptab (memory s) d i) \<and> ptab (memory s) d i \<notin> insert (pd_phys s) T"
    by (rule c3 [THEN conjunct1, rule_format])
  show "\<And>d e i j. d \<in> insert (pd_phys s) T \<Longrightarrow> e \<in> insert (pd_phys s) T \<Longrightarrow> i < 1024 \<Longrightarrow> j < 1024 \<Longrightarrow>
       present (memory s) d i \<Longrightarrow> present (memory s) e j \<Longrightarrow> ptab (memory s) d i = ptab (memory s) e j \<Longrightarrow>
       i = j \<and> (d = e \<or> ptab (memory s) d i = ptab (memory s) (pd_phys s) i)"
    by (rule c4 [THEN conjunct1, rule_format])
  show "\<And>d i. d \<in> T \<Longrightarrow> i < 1024 \<Longrightarrow> present (memory s) d i = present (memory s) (pd_phys s) i"
    by (rule c5 [THEN conjunct1, rule_format])
  show "\<And>d i. d \<in> T \<Longrightarrow> i < 1024 \<Longrightarrow> present (memory s) d i \<Longrightarrow>
       ptab (memory s) d i \<noteq> ptab (memory s) (pd_phys s) i \<Longrightarrow> entry (memory s) d i AND PAGE_US \<noteq> 0"
    by (rule c6 [THEN conjunct1, rule_format])
  show "\<And>i. i < 1024 \<Longrightarrow> present (memory s) (pd_phys s) i \<Longrightarrow> entry (memory s) (pd_phys s) i AND PAGE_US = 0"
    by (rule c7 [rule_format, THEN conjunct1])
  show "\<And>i j. i < 1024 \<Longrightarrow> j < 1024 \<Longrightarrow> present (memory s) (pd_phys s) i \<Longrightarrow>
       entry (memory s) (ptab (memory s) (pd_phys s) i) j AND PAGE_US = 0"
    by (rule c7 [rule_format, THEN conjunct2, rule_format])
qed

lemma or_user_flag:
  "((x :: u32) OR PAGE_US) AND NOT 0xFFF = x AND NOT 0xFFF" "(x OR PAGE_US) AND PAGE_P = x AND PAGE_P"
  "(x OR PAGE_US) AND PAGE_US = PAGE_US"
  unfolding bit.conj_disj_distrib2 by simp_all

lemma user_pte_flags:
  assumes "table t"
  shows "(t OR PAGE_DEFAULT OR PAGE_US) AND NOT 0xFFF = t" "(t OR PAGE_DEFAULT OR PAGE_US) AND PAGE_P \<noteq> 0"
    "(t OR PAGE_DEFAULT OR PAGE_US) AND PAGE_US \<noteq> 0"
proof -
  have e: "t OR PAGE_DEFAULT OR PAGE_US = (t OR PAGE_DEFAULT) OR PAGE_US"
    by (simp only: or.assoc)
  show "(t OR PAGE_DEFAULT OR PAGE_US) AND NOT 0xFFF = t" "(t OR PAGE_DEFAULT OR PAGE_US) AND PAGE_P \<noteq> 0"
    "(t OR PAGE_DEFAULT OR PAGE_US) AND PAGE_US \<noteq> 0"
    unfolding e or_user_flag using flags_absent(1) [OF assms] flags_absent(3) [OF assms] by simp_all
qed

lemma used_page_other: "used_page s t \<Longrightarrow> i \<in> free_set (pmm s) \<Longrightarrow> t \<noteq> page_addr i"
  by (simp add: used_page_def)

lemma used_table: "used_page s t \<Longrightarrow> table t"
  by (simp add: used_page_def)

text \<open>A freshly allocated kernel page as a table.\<close>

lemma alloc_table:
  assumes "pmm_wf (pmm s)" "pmm_alloc_page (pmm s) = (t, p)" "t \<noteq> 0"
  shows "table t" "pmm_wf p" "free_set p \<subseteq> free_set (pmm s)" "\<And>u. used_page s u \<Longrightarrow> u \<noteq> t"
    "\<And>i. i \<in> free_set p \<Longrightarrow> t \<noteq> page_addr i"
proof -
  from kernel_page.alloc_free [OF assms] obtain i where
    i: "t = page_addr i" "i \<in> free_set (pmm s) \<inter> kernel_zone" "pmm_wf p" "free_set p = free_set (pmm s) - {i}"
    by blast
  then show "table t" "pmm_wf p" "free_set p \<subseteq> free_set (pmm s)"
    using kernel_page_addr(2) by auto
  show "\<And>u. used_page s u \<Longrightarrow> u \<noteq> t"
    using used_page_other i by blast
  show "\<And>j. j \<in> free_set p \<Longrightarrow> t \<noteq> page_addr j"
  proof -
    fix j assume j: "j \<in> free_set p"
    then have "j \<noteq> i" "j \<in> free_set (pmm s)"
      using i(4) by auto
    then show "t \<noteq> page_addr j"
      using i(1,2) free_set_addr [OF assms(1), of i] free_set_addr [OF assms(1), of j]
      by (auto simp: u32_eq_iff)
  qed
qed

lemma clone_kernel_pd_ok:
  assumes iso: "isolated s T" and c: "paging_clone_kernel_pd s = (d, s')" and nz: "d \<noteq> 0"
  shows "isolated s' (insert d T)" "d \<notin> insert (pd_phys s) T" "pd_phys s' = pd_phys s"
    "\<And>va. translate (memory s') d va = translate (memory s) (pd_phys s) va \<and> \<not> user_page (memory s') d va"
    "\<And>e va. e \<in> insert (pd_phys s) T \<Longrightarrow> translate (memory s') e va = translate (memory s) e va \<and>
       user_page (memory s') e va = user_page (memory s) e va"
proof -
  let ?m = "memory s" let ?m' = "memory s'" let ?k = "pd_phys s" let ?D = "insert (pd_phys s) T"
  note I = isolatedD [OF iso]
  obtain p where p: "pmm_alloc_page (pmm s) = (d, p)" "s' = s\<lparr>pmm := p, memory := copy_table ?m d ?k\<rparr>"
    using c nz by (auto simp: paging_clone_kernel_pd_def Let_def split: prod.splits if_splits)
  note a = alloc_table [OF I(1) p(1) nz]
  have s': "pd_phys s' = ?k" "pmm s' = p" "?m' = copy_table ?m d ?k"
    by (simp_all add: p(2))
  show "pd_phys s' = ?k" by (rule s')
  have k: "used_page s ?k" "table ?k"
    using I(3) [of ?k] used_table by auto
  note k = k(2,1)
  show dD: "d \<notin> ?D"
    using I(3) a(4) by blast
  have ent: "entry ?m' u j = entry ?m (if u = d then ?k else u) j" if "table u" "j < 1024" for u j
    using that a(1) k by (simp add: s'(3) entry_copy_table)
  have up: "used_page s' u" if "used_page s u \<or> u = d" for u
    using that a nz by (auto simp: used_page_def s'(2))
  have pr: "present ?m' u i = present ?m (if u = d then ?k else u) i" "ptab ?m' u i = ptab ?m (if u = d then ?k else u) i"
    if "table u" "i < 1024" for u i
    using ent [OF that] by (simp_all add: present_def ptab_def)
  have tD: "table e" if "e \<in> insert d ?D" for e
    using that I(3) [of e] used_table [of s e] a(1) by auto
  have old: "(if e = d then ?k else e) \<in> ?D" if "e \<in> insert d ?D" for e
    using that by auto
  have pt: "pte ?m' u va = pte ?m (if u = d then ?k else u) va"
    if "u \<in> insert d ?D" "present ?m (if u = d then ?k else u) (pd_index va)" for u va
  proof -
    let ?u = "if u = d then ?k else u"
    have "used_page s (ptab ?m ?u (pd_index va))"
      using I(4) [OF old [OF that(1)] index_bound(1) that(2)] by blast
    then have "ptab ?m ?u (pd_index va) \<noteq> d"
      using a(4) by blast
    then show ?thesis
      using pr(2) [OF tD [OF that(1)] index_bound(1)] by (simp add: pte_def ent)
  qed
  have tr: "translate ?m' u va = translate ?m (if u = d then ?k else u) va"
    "user_page ?m' u va = user_page ?m (if u = d then ?k else u) va" if u: "u \<in> insert d ?D" for u va
    unfolding translate_def user_page_alt
    using pr(1) [OF tD [OF u] index_bound(1), of va] pt [OF u, of va] ent [OF tD [OF u] index_bound(1), of va] by auto
  have "\<not> user_page ?m ?k va" for va
    using I(8) [of "pd_index va"] by (auto simp: user_page_alt)
  then show "translate ?m' d va = translate ?m ?k va \<and> \<not> user_page ?m' d va" for va
    using tr [of d va] by simp
  show "translate ?m' e va = translate ?m e va \<and> user_page ?m' e va = user_page ?m e va" if "e \<in> ?D" for e va
    using tr [of e va] that dD by auto
  have notd: "ptab ?m e i \<noteq> d" if "e \<in> ?D" "i < 1024" "present ?m e i" for e i
    using I(4) [OF that] a(4) by blast
  have kd: "?k \<noteq> d"
    using dD by auto
  show "isolated s' (insert d T)"
    unfolding isolated_def Let_def s'(1)
  proof (intro conjI ballI allI impI)
    show "pmm_wf (pmm s')"
      using a(2) s'(2) by simp
    show "?k \<notin> insert d T"
      using I(2) dD by auto
    fix e assume e: "e \<in> insert ?k (insert d T)"
    then have e': "e \<in> insert d ?D" by auto
    show "used_page s' e"
      using e I(3) by (intro up) auto
    fix i assume i: "i < (1024 :: u32)"
    {
      assume p: "present ?m' e i"
      then have "present ?m (if e = d then ?k else e) i"
        using pr(1) [OF tD [OF e'] i] by simp
      from I(4) [OF old [OF e'] i this] notd [OF old [OF e'] i this]
      show "used_page s' (ptab ?m' e i)" "ptab ?m' e i \<notin> insert ?k (insert d T)"
        using pr(2) [OF tD [OF e'] i] up by auto
    }
    fix f j assume f: "f \<in> insert ?k (insert d T)" and j: "j < (1024 :: u32)"
      and pe: "present ?m' e i" and pf: "present ?m' f j" and eq: "ptab ?m' e i = ptab ?m' f j"
    have f': "f \<in> insert d ?D"
      using f by auto
    have "i = j \<and> ((if e = d then ?k else e) = (if f = d then ?k else f) \<or>
        ptab ?m (if e = d then ?k else e) i = ptab ?m ?k i)"
      by (rule I(5) [OF old [OF e'] old [OF f'] i j pe [unfolded pr(1) [OF tD [OF e'] i]]
            pf [unfolded pr(1) [OF tD [OF f'] j]] eq [unfolded pr(2) [OF tD [OF e'] i] pr(2) [OF tD [OF f'] j]]])
    note ij = this
    show "i = j"
      using ij by simp
    show "e = f \<or> ptab ?m' e i = ptab ?m' ?k i"
      unfolding pr(2) [OF tD [OF e'] i] pr(2) [OF k(1) i] using kd ij
      by (cases "e = d"; cases "f = d") auto
  next
    fix e i assume e: "e \<in> insert d T" and i: "i < (1024 :: u32)"
    then have e': "e \<in> insert d ?D" by auto
    show "present ?m' e i = present ?m' ?k i"
      using pr(1) [OF tD [OF e'] i] pr(1) [OF k(1) i] I(6) [OF _ i] e kd by auto
    assume "present ?m' e i" "ptab ?m' e i \<noteq> ptab ?m' ?k i"
    then show "entry ?m' e i AND PAGE_US \<noteq> 0"
      using pr [OF tD [OF e'] i] pr [OF k(1) i] I(7) [OF _ i] e kd ent [OF tD [OF e'] i] by (auto split: if_splits)
  next
    fix i assume i: "i < (1024 :: u32)" and p: "present ?m' ?k i"
    then have p': "present ?m ?k i"
      using pr(1) [OF k(1) i] kd by simp
    show "entry ?m' ?k i AND PAGE_US = 0"
      using I(8) [OF i p'] ent [OF k(1) i] kd by simp
    fix j assume j: "j < (1024 :: u32)"
    show "entry ?m' (ptab ?m' ?k i) j AND PAGE_US = 0"
      using I(9) [OF i j p'] pr(2) [OF k(1) i] kd notd [OF _ i p'] ent [OF table_ptab j] by simp
  qed
qed

text \<open>The effect of marking a page: the task has a private table \<open>t\<close>, either its old one or a fresh
  copy of the shared one, in which the page's entry is set.\<close>

definition marked :: "'a paging_state_scheme \<Rightarrow> 'a paging_state_scheme \<Rightarrow> u32 set \<Rightarrow> u32 \<Rightarrow> u32 \<Rightarrow> u32 \<Rightarrow> bool" where
  "marked s s' T d pa t \<longleftrightarrow> (let m = memory s; m' = memory s'; i = pd_index pa; D = insert (pd_phys s) T in
     pd_phys s' = pd_phys s \<and> pmm_wf (pmm s') \<and> (\<forall>u. used_page s u \<longrightarrow> used_page s' u) \<and> used_page s' t \<and>
     t \<notin> D \<and> ptab m' d i = t \<and> present m' d i \<and> entry m' d i AND PAGE_US \<noteq> 0 \<and>
     (\<forall>u l. used_page s u \<longrightarrow> u \<noteq> t \<longrightarrow> l < 1024 \<longrightarrow> \<not> (u = d \<and> l = i) \<longrightarrow> entry m' u l = entry m u l) \<and>
     (\<forall>l<1024. entry m' t l = (if l = pt_index pa then pa OR PAGE_DEFAULT OR PAGE_US else entry m (ptab m d i) l)) \<and>
     t \<noteq> ptab m (pd_phys s) i \<and>
     (\<forall>e\<in>D. \<forall>l<1024. present m e l \<longrightarrow> ptab m e l = t \<longrightarrow> e = d \<and> l = i))"

lemma markedI:
  assumes "pd_phys s' = pd_phys s" "pmm_wf (pmm s')" "\<And>u. used_page s u \<Longrightarrow> used_page s' u" "used_page s' t"
    "t \<notin> insert (pd_phys s) T" "ptab (memory s') d (pd_index pa) = t" "present (memory s') d (pd_index pa)"
    "entry (memory s') d (pd_index pa) AND PAGE_US \<noteq> 0"
    "\<And>u l. used_page s u \<Longrightarrow> u \<noteq> t \<Longrightarrow> l < 1024 \<Longrightarrow> \<not> (u = d \<and> l = pd_index pa) \<Longrightarrow>
       entry (memory s') u l = entry (memory s) u l"
    "\<And>l. l < 1024 \<Longrightarrow> entry (memory s') t l =
       (if l = pt_index pa then pa OR PAGE_DEFAULT OR PAGE_US else entry (memory s) (ptab (memory s) d (pd_index pa)) l)"
    "t \<noteq> ptab (memory s) (pd_phys s) (pd_index pa)"
    "\<And>e l. e \<in> insert (pd_phys s) T \<Longrightarrow> l < 1024 \<Longrightarrow> present (memory s) e l \<Longrightarrow>
       ptab (memory s) e l = t \<Longrightarrow> e = d \<and> l = pd_index pa"
  shows "marked s s' T d pa t"
proof -
  have a: "\<forall>u. used_page s u \<longrightarrow> used_page s' u"
    "\<forall>u l. used_page s u \<longrightarrow> u \<noteq> t \<longrightarrow> l < 1024 \<longrightarrow> \<not> (u = d \<and> l = pd_index pa) \<longrightarrow>
       entry (memory s') u l = entry (memory s) u l"
    "\<forall>l<1024. entry (memory s') t l =
       (if l = pt_index pa then pa OR PAGE_DEFAULT OR PAGE_US else entry (memory s) (ptab (memory s) d (pd_index pa)) l)"
    "\<forall>e\<in>insert (pd_phys s) T. \<forall>l<1024. present (memory s) e l \<longrightarrow> ptab (memory s) e l = t \<longrightarrow> e = d \<and> l = pd_index pa"
    using assms(3,9,10,12) by blast+
  show ?thesis
    unfolding marked_def Let_def by (intro conjI a assms(1,2,4-8,11))
qed

lemma markedD:
  assumes "marked s s' T d pa t"
  shows "pd_phys s' = pd_phys s" "pmm_wf (pmm s')" "\<And>u. used_page s u \<Longrightarrow> used_page s' u" "used_page s' t"
    "t \<notin> insert (pd_phys s) T" "ptab (memory s') d (pd_index pa) = t" "present (memory s') d (pd_index pa)"
    "entry (memory s') d (pd_index pa) AND PAGE_US \<noteq> 0"
    "\<And>u l. used_page s u \<Longrightarrow> u \<noteq> t \<Longrightarrow> l < 1024 \<Longrightarrow> \<not> (u = d \<and> l = pd_index pa) \<Longrightarrow>
       entry (memory s') u l = entry (memory s) u l"
    "\<And>l. l < 1024 \<Longrightarrow> entry (memory s') t l =
       (if l = pt_index pa then pa OR PAGE_DEFAULT OR PAGE_US else entry (memory s) (ptab (memory s) d (pd_index pa)) l)"
    "t \<noteq> ptab (memory s) (pd_phys s) (pd_index pa)"
    "\<And>e l. e \<in> insert (pd_phys s) T \<Longrightarrow> l < 1024 \<Longrightarrow> present (memory s) e l \<Longrightarrow>
       ptab (memory s) e l = t \<Longrightarrow> e = d \<and> l = pd_index pa"
proof -
  note c = assms [unfolded marked_def Let_def]
  note c1 = c [THEN conjunct2] note c2 = c1 [THEN conjunct2] note c3 = c2 [THEN conjunct2]
  note c4 = c3 [THEN conjunct2] note c5 = c4 [THEN conjunct2] note c6 = c5 [THEN conjunct2]
  note c7 = c6 [THEN conjunct2] note c8 = c7 [THEN conjunct2] note c9 = c8 [THEN conjunct2]
  note c10 = c9 [THEN conjunct2]
  show "pd_phys s' = pd_phys s" "pmm_wf (pmm s')" "used_page s' t" "t \<notin> insert (pd_phys s) T"
    "ptab (memory s') d (pd_index pa) = t" "present (memory s') d (pd_index pa)"
    "entry (memory s') d (pd_index pa) AND PAGE_US \<noteq> 0" "t \<noteq> ptab (memory s) (pd_phys s) (pd_index pa)"
    by (rule c [THEN conjunct1] c1 [THEN conjunct1] c3 [THEN conjunct1] c4 [THEN conjunct1] c5 [THEN conjunct1]
        c6 [THEN conjunct1] c7 [THEN conjunct1] c10 [THEN conjunct1])+
  show "\<And>u. used_page s u \<Longrightarrow> used_page s' u"
    by (rule c2 [THEN conjunct1, rule_format])
  show "\<And>u l. used_page s u \<Longrightarrow> u \<noteq> t \<Longrightarrow> l < 1024 \<Longrightarrow> \<not> (u = d \<and> l = pd_index pa) \<Longrightarrow>
       entry (memory s') u l = entry (memory s) u l"
    by (rule c8 [THEN conjunct1, rule_format])
  show "\<And>l. l < 1024 \<Longrightarrow> entry (memory s') t l =
       (if l = pt_index pa then pa OR PAGE_DEFAULT OR PAGE_US else entry (memory s) (ptab (memory s) d (pd_index pa)) l)"
    by (rule c9 [THEN conjunct1, rule_format])
  show "\<And>e l. e \<in> insert (pd_phys s) T \<Longrightarrow> l < 1024 \<Longrightarrow> present (memory s) e l \<Longrightarrow>
       ptab (memory s) e l = t \<Longrightarrow> e = d \<and> l = pd_index pa"
    by (rule c10 [THEN conjunct2, rule_format])
qed

lemma mark_effect:
  assumes iso: "isolated s T" and d: "d \<in> T" and pk: "present (memory s) (pd_phys s) (pd_index pa)"
    and room: "free_set (pmm s) \<inter> kernel_zone \<noteq> {}"
  shows "\<exists>t. marked s (paging_set_user_accessible_for_task s d pa) T d pa t"
proof -
  let ?m = "memory s" let ?k = "pd_phys s" let ?i = "pd_index pa" let ?j = "pt_index pa" let ?D = "insert (pd_phys s) T"
  let ?s' = "paging_set_user_accessible_for_task s d pa"
  note I = isolatedD [OF iso]
  have pd: "present ?m d ?i"
    using I(6) [OF d index_bound(1)] pk by simp
  have td: "table d" "table ?k" and ud: "used_page s d"
    using I(3) [of d] I(3) [of ?k] used_table [of s] d by auto
  have dk: "d \<noteq> ?k"
    using d I(2) by auto
  show ?thesis
  proof (cases "ptab ?m d ?i = ptab ?m ?k ?i")
    case True
    obtain t p where tp: "pmm_alloc_page (pmm s) = (t, p)" by fastforce
    have nz: "t \<noteq> 0"
      using kernel_page.alloc_zero_iff [OF I(1)] room tp by (metis fst_conv)
    note a = alloc_table [OF I(1) tp nz]
    have tu: "u \<noteq> t" if "used_page s u" for u
      using a(4) that by blast
    have sh: "used_page s (ptab ?m ?k ?i)"
      using I(4) [OF insertI1 index_bound(1) pk] by blast
    define m1 where "m1 = copy_table ?m t (ptab ?m ?k ?i)"
    define m2 where "m2 = set_entry m1 d ?i (t OR PAGE_DEFAULT)"
    define m3 where "m3 = set_entry m2 t ?j (pa OR PAGE_DEFAULT OR PAGE_US)"
    define m4 where "m4 = set_entry m3 d ?i (entry m3 d ?i OR PAGE_US)"
    have e1: "entry m1 u l = (if t = u then entry ?m (ptab ?m ?k ?i) l else entry ?m u l)" if "table u" "l < 1024" for u l
      unfolding m1_def by (rule entry_copy_table [OF a(1) table_ptab that])
    have e2: "entry m2 u l = (if d = u \<and> ?i = l then t OR PAGE_DEFAULT else entry m1 u l)" if "table u" "l < 1024" for u l
      unfolding m2_def by (rule entry_set_entry [OF td(1) that(1) index_bound(1) that(2)])
    have e3: "entry m3 u l = (if t = u \<and> ?j = l then pa OR PAGE_DEFAULT OR PAGE_US else entry m2 u l)"
      if "table u" "l < 1024" for u l
      unfolding m3_def by (rule entry_set_entry [OF a(1) that(1) index_bound(2) that(2)])
    have e4: "entry m4 u l = (if d = u \<and> ?i = l then entry m3 d ?i OR PAGE_US else entry m3 u l)" if "table u" "l < 1024" for u l
      unfolding m4_def by (rule entry_set_entry [OF td(1) that(1) index_bound(1) that(2)])
    have pt2: "entry m2 d ?i AND NOT 0xFFF = t"
      unfolding e2 [OF td(1) index_bound(1)] using flags_absent(3) [OF a(1)] by simp
    have s': "?s' = s\<lparr>pmm := p, memory := m4\<rparr>"
      using True pt2 unfolding paging_set_user_accessible_for_task_def Let_def tp prod.case ptab_def
      by (simp add: m4_def m3_def m2_def m1_def ptab_def)
    have dt: "d \<noteq> t"
      by (rule tu [OF ud])
    have md: "entry m4 d ?i = (t OR PAGE_DEFAULT) OR PAGE_US"
      using dt by (simp add: e4 e3 e2 td)
    have M: "memory ?s' = m4" "pmm ?s' = p" "pd_phys ?s' = ?k"
      by (simp_all add: s')
    have up: "used_page ?s' u" if "used_page s u" for u
      using that a(3) by (auto simp: used_page_def M)
    have "marked s ?s' T d pa t"
    proof (rule markedI, unfold M)
      show "pmm_wf p" by (rule a(2))
      show "used_page ?s' t"
        using a(1,5) nz by (simp add: used_page_def M)
      show "t \<notin> insert (pd_phys s) T"
        using I(3) tu by blast
      show "ptab m4 d ?i = t"
        unfolding ptab_def md or_user_flag by (rule flags_absent(3) [OF a(1)])
      show "present m4 d ?i"
        unfolding present_def md or_user_flag by (rule flags_absent(1) [OF a(1)])
      show "entry m4 d ?i AND PAGE_US \<noteq> 0"
        unfolding md or_user_flag by simp
      show "entry m4 u l = entry ?m u l" if "used_page s u" "u \<noteq> t" "l < 1024" "\<not> (u = d \<and> l = ?i)" for u l
        using that used_table [OF that(1)] by (auto simp: e4 e3 e2 e1)
      show "entry m4 t l = (if l = ?j then pa OR PAGE_DEFAULT OR PAGE_US else entry ?m (ptab ?m d ?i) l)" if "l < 1024" for l
        using that dt True by (simp add: e4 e3 e2 e1 a(1))
      show "t \<noteq> ptab ?m ?k ?i"
        using tu [OF sh] by simp
      show "e = d \<and> l = ?i" if "e \<in> ?D" "l < 1024" "present ?m e l" "ptab ?m e l = t" for e l
        using I(4) [OF that(1-3)] tu that(4) by blast
    qed (use up in simp_all)
    then show ?thesis by blast
  next
    case False
    let ?t = "ptab ?m d ?i"
    have t: "used_page s ?t" "?t \<notin> ?D"
      using I(4) [OF _ index_bound(1) pd] d by auto
    define m1 where "m1 = set_entry ?m ?t ?j (pa OR PAGE_DEFAULT OR PAGE_US)"
    define m2 where "m2 = set_entry m1 d ?i (entry m1 d ?i OR PAGE_US)"
    have e1: "entry m1 u l = (if ?t = u \<and> ?j = l then pa OR PAGE_DEFAULT OR PAGE_US else entry ?m u l)"
      if "table u" "l < 1024" for u l
      unfolding m1_def by (rule entry_set_entry [OF table_ptab that(1) index_bound(2) that(2)])
    have e2: "entry m2 u l = (if d = u \<and> ?i = l then entry m1 d ?i OR PAGE_US else entry m1 u l)" if "table u" "l < 1024" for u l
      unfolding m2_def by (rule entry_set_entry [OF td(1) that(1) index_bound(1) that(2)])
    have s': "?s' = s\<lparr>memory := m2\<rparr>"
      using False unfolding paging_set_user_accessible_for_task_def Let_def ptab_def
      by (simp add: m2_def m1_def ptab_def)
    have M: "memory ?s' = m2" "pmm ?s' = pmm s" "pd_phys ?s' = ?k"
      by (simp_all add: s')
    have dt: "?t \<noteq> d"
      using t(2) d by auto
    have md: "entry m2 d ?i = entry ?m d ?i OR PAGE_US"
      using dt by (simp add: e2 e1 td)
    have "marked s ?s' T d pa ?t"
    proof (rule markedI, unfold M)
      show "pmm_wf (pmm s)" by (rule I(1))
      show "used_page ?s' u" if "used_page s u" for u
        using that by (simp add: used_page_def M)
      then show "used_page ?s' ?t"
        using t(1) by blast
      show "?t \<notin> insert (pd_phys s) T" by (rule t(2))
      show "ptab m2 d ?i = ?t"
        unfolding ptab_def md or_user_flag ..
      show "present m2 d ?i"
        using pd unfolding present_def md or_user_flag .
      show "entry m2 d ?i AND PAGE_US \<noteq> 0"
        unfolding md or_user_flag by simp
      show "entry m2 u l = entry ?m u l" if "used_page s u" "u \<noteq> ?t" "l < 1024" "\<not> (u = d \<and> l = ?i)" for u l
        using that used_table [OF that(1)] by (auto simp: e2 e1)
      show "entry m2 ?t l = (if l = ?j then pa OR PAGE_DEFAULT OR PAGE_US else entry ?m ?t l)" if "l < 1024" for l
        using that dt by (auto simp: e2 e1)
      show "?t \<noteq> ptab ?m ?k ?i" by (rule False)
      show "e = d \<and> l = ?i" if "e \<in> ?D" "l < 1024" "present ?m e l" "ptab ?m e l = ?t" for e l
        using I(5) [OF that(1) _ that(2) index_bound(1) that(3) pd that(4)] d that(4) False by auto
    qed simp_all
    then show ?thesis by blast
  qed
qed

lemma page_iff_indices:
  assumes "table pa"
  shows "va AND NOT 0xFFF = pa \<longleftrightarrow> pd_index va = pd_index pa \<and> pt_index va = pt_index pa"
proof
  assume "pd_index va = pd_index pa \<and> pt_index va = pt_index pa"
  then have "va AND NOT 0xFFF = pa AND NOT 0xFFF"
    using page_base_split [of va] page_base_split [of pa] by metis
  moreover have "pa AND NOT 0xFFF = pa"
    unfolding u32_eq_iff unat_align4096_down using assms by (simp add: table_def)
  ultimately show "va AND NOT 0xFFF = pa" by simp
qed (metis unat_base_indices)

lemma mark_ok:
  assumes iso: "isolated s T" and d: "d \<in> T" and mk: "marked s s' T d pa t" and pa: "table pa"
    and pk: "present (memory s) (pd_phys s) (pd_index pa)"
  shows "isolated s' T" "pd_phys s' = pd_phys s"
    "user_page (memory s') d va \<longleftrightarrow> va AND NOT 0xFFF = pa \<or> user_page (memory s) d va"
    "translate (memory s') d va = (if va AND NOT 0xFFF = pa then Some va else translate (memory s) d va)"
    "\<And>e. e \<in> insert (pd_phys s) T \<Longrightarrow> e \<noteq> d \<Longrightarrow> user_page (memory s') e va = user_page (memory s) e va \<and>
       translate (memory s') e va = translate (memory s) e va"
proof -
  let ?m = "memory s" let ?m' = "memory s'" let ?k = "pd_phys s" let ?D = "insert (pd_phys s) T"
  let ?i = "pd_index pa" let ?j = "pt_index pa"
  note I = isolatedD [OF iso]
  note M = markedD [OF mk]
  note M1 = M(1) and M2 = M(2) and M3 = M(3) and M4 = M(4) and M5 = M(5) and M6 = M(6) and M7 = M(7)
    and M8 = M(8) and M9 = M(9) and M10 = M(10) and M11 = M(11) and M12 = M(12)
  show "pd_phys s' = ?k" by (rule M1)
  have dk: "?k \<noteq> d"
    using I(2) d by auto
  have ent: "entry ?m' e l = entry ?m e l" if "e \<in> ?D" "l < 1024" "\<not> (e = d \<and> l = ?i)" for e l
    using M9 [OF I(3) [OF that(1)] _ that(2,3)] M5 that(1) by blast
  have pdi: "present ?m d ?i"
    using I(6) [OF d index_bound(1)] pk by simp
  have pr: "present ?m' e l = present ?m e l" if "e \<in> ?D" "l < 1024" for e l
    using ent [OF that] M7 pdi by (cases "e = d \<and> l = ?i") (auto simp: present_def)
  have pt: "ptab ?m' e l = ptab ?m e l" if "e \<in> ?D" "l < 1024" "\<not> (e = d \<and> l = ?i)" for e l
    using ent [OF that] by (simp add: ptab_def)
  have tab: "entry ?m' (ptab ?m e l) q = entry ?m (ptab ?m e l) q"
    if "e \<in> ?D" "l < 1024" "present ?m e l" "\<not> (e = d \<and> l = ?i)" "q < 1024" for e l q
    using M9 [OF _ _ that(5)] I(4) [OF that(1-3)] M12 [OF that(1-3)] that(4) d by blast
  have same: "user_page ?m' e v = user_page ?m e v \<and> translate ?m' e v = translate ?m e v"
    if e: "e \<in> ?D" "\<not> (e = d \<and> pd_index v = ?i)" for e v
  proof (cases "present ?m e (pd_index v)")
    case True
    have "pte ?m' e v = pte ?m e v"
      using tab [OF e(1) index_bound(1) True e(2) index_bound(2)] pt [OF e(1) index_bound(1) e(2)] by (simp add: pte_def)
    then show ?thesis
      using pr [OF e(1) index_bound(1)] ent [OF e(1) index_bound(1) e(2)] by (simp add: user_page_alt translate_def)
  next
    case False
    then show ?thesis
      using pr [OF e(1) index_bound(1)] by (simp add: user_page_alt translate_def)
  qed
  show "user_page ?m' e va = user_page ?m e va \<and> translate ?m' e va = translate ?m e va" if "e \<in> ?D" "e \<noteq> d" for e
    using same that by blast
  have flags: "(pa OR PAGE_DEFAULT OR PAGE_US) AND NOT 0xFFF = pa" "(pa OR PAGE_DEFAULT OR PAGE_US) AND PAGE_P \<noteq> 0"
    "(pa OR PAGE_DEFAULT OR PAGE_US) AND PAGE_US \<noteq> 0"
    by (rule user_pte_flags [OF pa])+
  have hit: "pte ?m' d va = (if va AND NOT 0xFFF = pa then pa OR PAGE_DEFAULT OR PAGE_US else pte ?m d va)"
    if "pd_index va = ?i"
    using that page_iff_indices [OF pa, of va] M10 [OF index_bound(2), of va] M6 by (simp add: pte_def)
  have kern: "user_page ?m d va \<longleftrightarrow> pte ?m d va AND PAGE_P \<noteq> 0 \<and> pte ?m d va AND PAGE_US \<noteq> 0" if "pd_index va = ?i"
  proof (cases "ptab ?m d ?i = ptab ?m ?k ?i")
    case True
    then have "pte ?m d va AND PAGE_US = 0"
      using I(9) [OF index_bound(1) index_bound(2) pk] that by (simp add: pte_def)
    then show ?thesis by (simp add: user_page_alt)
  next
    case False
    then show ?thesis
      using I(7) [OF d index_bound(1) pdi] pdi that by (simp add: user_page_alt)
  qed
  show "user_page ?m' d va \<longleftrightarrow> va AND NOT 0xFFF = pa \<or> user_page ?m d va"
  proof (cases "pd_index va = ?i")
    case True
    have "user_page ?m' d va \<longleftrightarrow> pte ?m' d va AND PAGE_P \<noteq> 0 \<and> pte ?m' d va AND PAGE_US \<noteq> 0"
      using M7 M8 True by (simp add: user_page_alt)
    then show ?thesis
      unfolding hit [OF True] kern [OF True] using flags(2,3) by (cases "va AND NOT 0xFFF = pa") (simp_all only: refl if_True if_False simp_thms)
  qed (use same [of d va] d page_iff_indices [OF pa, of va] in blast)
  show "translate ?m' d va = (if va AND NOT 0xFFF = pa then Some va else translate ?m d va)"
  proof (cases "pd_index va = ?i")
    case True
    have "translate ?m' d va = (if pte ?m' d va AND PAGE_P \<noteq> 0 then Some ((pte ?m' d va AND NOT 0xFFF) OR (va AND 0xFFF)) else None)"
      using M7 True by (simp add: translate_def)
    moreover have "translate ?m d va = (if pte ?m d va AND PAGE_P \<noteq> 0 then Some ((pte ?m d va AND NOT 0xFFF) OR (va AND 0xFFF)) else None)"
      using pdi True by (simp add: translate_def)
    ultimately show ?thesis
      unfolding hit [OF True] using flags(1,2) and_or_split [of va]
      by (cases "va AND NOT 0xFFF = pa") (simp_all only: refl if_True if_False simp_thms)
  qed (use same [of d va] d page_iff_indices [OF pa, of va] in auto)
  have sharing: "l = q \<and> (e = f \<or> ptab ?m' e l = ptab ?m' ?k l)"
    if ef: "e \<in> ?D" "f \<in> ?D" and lq: "l < 1024" "q < 1024" and pe: "present ?m' e l" and pf: "present ?m' f q"
      and eq: "ptab ?m' e l = ptab ?m' f q" for e f l q
  proof -
    have p: "present ?m e l" "present ?m f q"
      using pr [OF ef(1) lq(1)] pr [OF ef(2) lq(2)] pe pf by simp_all
    consider "e = d \<and> l = ?i" | "f = d \<and> q = ?i" | "\<not> (e = d \<and> l = ?i)" "\<not> (f = d \<and> q = ?i)"
      by blast
    then show ?thesis
    proof cases
      case 1
      then have "ptab ?m' f q = t"
        using eq M6 by simp
      then have "f = d \<and> q = ?i"
        using M12 [OF ef(2) lq(2) p(2)] pt [OF ef(2) lq(2)] by metis
      with 1 show ?thesis by simp
    next
      case 2
      then have "ptab ?m' e l = t"
        using eq M6 by simp
      then have "e = d \<and> l = ?i"
        using M12 [OF ef(1) lq(1) p(1)] pt [OF ef(1) lq(1)] by metis
      with 2 show ?thesis by simp
    next
      case 3
      have "ptab ?m' ?k l = ptab ?m ?k l"
        using pt [OF insertI1 lq(1)] dk by blast
      then show ?thesis
        using I(5) [OF ef lq p] eq pt [OF ef(1) lq(1) 3(1)] pt [OF ef(2) lq(2) 3(2)] by metis
    qed
  qed
  have kpt: "ptab ?m' ?k l = ptab ?m ?k l" "entry ?m' ?k l = entry ?m ?k l" if "l < 1024" for l
    using pt [OF insertI1 that] ent [OF insertI1 that] dk by blast+
  have tables: "used_page s' (ptab ?m' e l) \<and> ptab ?m' e l \<notin> ?D" if "e \<in> ?D" "l < 1024" "present ?m' e l" for e l
    using I(4) [OF that(1,2)] pr [OF that(1,2)] that(3) pt [OF that(1,2)] M3 M4 M5 M6 by metis
  have priv: "entry ?m' e l AND PAGE_US \<noteq> 0"
    if "e \<in> T" "l < 1024" "present ?m' e l" "ptab ?m' e l \<noteq> ptab ?m' ?k l" for e l
    using I(7) [OF that(1,2)] pr [OF insertI2 [OF that(1)] that(2)] that(3,4) pt [OF insertI2 [OF that(1)] that(2)]
      ent [OF insertI2 [OF that(1)] that(2)] kpt(1) [OF that(2)] M8 by metis
  have kern0: "entry ?m' ?k l AND PAGE_US = 0 \<and> (\<forall>q<1024. entry ?m' (ptab ?m' ?k l) q AND PAGE_US = 0)"
    if "l < 1024" "present ?m' ?k l" for l
    using I(8) [OF that(1)] I(9) [OF that(1)] pr [OF insertI1 that(1)] that(2) kpt [OF that(1)]
      tab [OF insertI1 that(1)] dk by simp
  show "isolated s' T"
    unfolding isolated_def Let_def M1
  proof (intro conjI)
    show "\<forall>d\<in>?D. used_page s' d"
      using I(3) M3 by blast
    show "\<forall>d\<in>?D. \<forall>i<1024. present ?m' d i \<longrightarrow> used_page s' (ptab ?m' d i) \<and> ptab ?m' d i \<notin> ?D"
      using tables by blast
    show "\<forall>d\<in>?D. \<forall>e\<in>?D. \<forall>i<1024. \<forall>j<1024. present ?m' d i \<longrightarrow> present ?m' e j \<longrightarrow> ptab ?m' d i = ptab ?m' e j \<longrightarrow>
        i = j \<and> (d = e \<or> ptab ?m' d i = ptab ?m' ?k i)"
      using sharing by blast
    show "\<forall>d\<in>T. \<forall>i<1024. present ?m' d i = present ?m' ?k i"
      using I(6) pr by blast
    show "\<forall>d\<in>T. \<forall>i<1024. present ?m' d i \<longrightarrow> ptab ?m' d i \<noteq> ptab ?m' ?k i \<longrightarrow> entry ?m' d i AND PAGE_US \<noteq> 0"
      using priv by blast
    show "\<forall>i<1024. present ?m' ?k i \<longrightarrow> entry ?m' ?k i AND PAGE_US = 0 \<and>
        (\<forall>j<1024. entry ?m' (ptab ?m' ?k i) j AND PAGE_US = 0)"
      using kern0 by blast
  qed (use M2 I(2) in simp_all)
qed

section \<open>Isolation from boot on\<close>

lemma tables_isolated:
  assumes b: "tables_built top_mem q s0 n P s" and q: "q < 1792" "q \<notin> free_set (pmm s0)" "pd_phys s0 = page_addr q"
    and wf: "pmm_wf (pmm s0)" and id: "identity_mapped (memory s) (page_addr q) top_mem"
  shows "isolated s {}"
proof -
  let ?m = "memory s" let ?d = "page_addr q"
  have pd: "pd_phys s = ?d" "pmm_wf (pmm s)" and sub: "free_set (pmm s) \<subseteq> free_set (pmm s0)"
    using b q(3) by (auto simp: tables_built_def)
  have pk: "P k < 1792" "P k \<in> free_set (pmm s0)" "P k \<notin> free_set (pmm s)" if "k < n" for k
    using b that by (auto simp: tables_built_def)
  have not_free: "page_addr k \<noteq> page_addr i" if "k < 1792" "k \<notin> free_set (pmm s)" "i \<in> free_set (pmm s)" for k i
  proof -
    have "unat (page_addr i) = 0x100000 + 4096 * i"
      using free_set_addr [OF pd(2) that(3)] .
    then show ?thesis
      using kernel_page_addr(1) [OF that(1)] that(2,3) by auto
  qed
  have up: "used_page s (page_addr k)" if "k < 1792" "k \<notin> free_set (pmm s)" for k
    using that kernel_page_addr(2,3) [OF that(1)] not_free [OF that] by (simp add: used_page_def)
  have ud: "used_page s ?d"
    using up [OF q(1)] q(2) sub by blast
  have idx: "unat i < 1024" "of_nat (unat i) = i" if "i < 1024" for i :: u32
    using that by (simp_all add: word_less_nat_alt)
  have ent: "entry ?m ?d i = (if unat i < n then page_addr (P (unat i)) OR PAGE_DEFAULT else 0)" if "i < 1024" for i
    using b idx [OF that] by (metis tables_built_def)
  have pt: "unat i < n \<and> ptab ?m ?d i = page_addr (P (unat i)) \<and> entry ?m ?d i AND PAGE_US = 0"
    if "i < 1024" "present ?m ?d i" for i
    using ent [OF that(1)] that(2) pk [of "unat i"] flags_absent(2,3) [OF kernel_page_addr(2)]
    by (auto simp: present_def ptab_def split: if_splits)
  have tr: "tree ?m ?d"
    by (rule tables_tree [OF b q(1,2)])
  have pte0: "entry ?m (ptab ?m ?d i) j AND PAGE_US = 0" if "i < 1024" "j < 1024" "present ?m ?d i" for i j
  proof -
    have "entry ?m (ptab ?m ?d i) j = identity_pte top_mem i j"
      using b pt [OF that(1,3)] that(2) idx [OF that(1)] by (metis tables_built_def)
    then have "entry ?m (ptab ?m ?d i) j = 0 \<or> (\<exists>x. entry ?m (ptab ?m ?d i) j = x * PAGE_SIZE OR PAGE_DEFAULT)"
      unfolding identity_pte_def Let_def by (auto intro!: exI [of _ "i * 1024 + j"] simp: algebra_simps)
    then show ?thesis
    proof
      assume "\<exists>x. entry ?m (ptab ?m ?d i) j = x * PAGE_SIZE OR PAGE_DEFAULT"
      moreover have "table (x * PAGE_SIZE)" for x
        by (simp add: table_def unat_word_ariths dvd_mod)
      ultimately show ?thesis
        using flags_absent(2) by metis
    qed simp
  qed
  show ?thesis
    unfolding isolated_def Let_def pd(1)
  proof (intro conjI ballI allI impI)
    fix d i assume "d \<in> {?d}" "i < (1024 :: u32)" "present ?m d i"
    then show "used_page s (ptab ?m d i)" "ptab ?m d i \<notin> {?d}"
      using pt pk up tr by (auto simp: tree_def)
  next
    fix d e i j assume "d \<in> {?d}" "e \<in> {?d}" "i < (1024 :: u32)" "j < (1024 :: u32)"
      "present ?m d i" "present ?m e j" "ptab ?m d i = ptab ?m e j"
    then show "i = j" "d = e \<or> ptab ?m d i = ptab ?m ?d i"
      using tr by (auto simp: tree_def)
  qed (use pd ud pt pte0 in auto)
qed

lemma paging_init_ok:
  assumes wf: "pmm_wf (pmm s)" and top: "unat top_mem \<le> 0xFFC00000"
    and room: "(unat top_mem + 4194303) div 4194304 < card (free_set (pmm s) \<inter> kernel_zone)"
  shows "identity_mapped (memory (paging_init s top_mem)) (pd_phys (paging_init s top_mem)) top_mem \<and>
    cr3 (paging_init s top_mem) = pd_phys (paging_init s top_mem) \<and>
    paging_enabled (paging_init s top_mem) \<and> pmm_wf (pmm (paging_init s top_mem)) \<and>
    free_set (pmm (paging_init s top_mem)) \<subseteq> free_set (pmm s) \<and>
    free_set (pmm s) - free_set (pmm (paging_init s top_mem)) \<subseteq> kernel_zone \<and>
    (\<forall>x. unat x \<notin> page_bytes (free_set (pmm s)) \<longrightarrow> memory (paging_init s top_mem) x = memory s x) \<and>
    isolated (paging_init s top_mem) {} \<and> tree (memory (paging_init s top_mem)) (pd_phys (paging_init s top_mem)) \<and>
    card (free_set (pmm (paging_init s top_mem)) \<inter> kernel_zone) + (unat top_mem + 4194303) div 4194304 + 1 =
      card (free_set (pmm s) \<inter> kernel_zone) \<and>
    (\<forall>i<1024. present (memory (paging_init s top_mem)) (pd_phys (paging_init s top_mem)) i \<longrightarrow>
      ptab (memory (paging_init s top_mem)) (pd_phys (paging_init s top_mem)) i \<in>
        page_addr ` (free_set (pmm s) \<inter> kernel_zone))"
proof -
  let ?n = "(unat top_mem + 4194303) div 4194304"
  have "unat (top_mem + 4194303) = unat top_mem + 4194303"
    using top by (intro trans [OF unat_add_no_wrap]) simp_all
  moreover have "top_mem + PT_COVERAGE - 1 = top_mem + 4194303"
    by simp
  ultimately have n: "unat ((top_mem + PT_COVERAGE - 1) div PT_COVERAGE) = ?n"
    by (simp only: unat_div) simp
  have n1024: "?n \<le> 1024" and cover: "unat top_mem \<le> ?n * 4194304"
    using top by linarith+
  have "free_set (pmm s) \<inter> kernel_zone \<noteq> {}"
    using room by auto
  from kernel_page.alloc_page [OF wf this] obtain q p where
    q: "pmm_alloc_page (pmm s) = (page_addr q, p)" "q \<in> free_set (pmm s) \<inter> kernel_zone" "pmm_wf p"
      "free_set p = free_set (pmm s) - {q}"
    by blast
  define s0 where "s0 = s\<lparr>pmm := p, pd_phys := page_addr q, memory := fill_table (memory s) (page_addr q) (\<lambda>_. 0)\<rparr>"
  have q': "q < 1792" "q \<notin> free_set (pmm s0)"
    using q(2,4) by (simp_all add: s0_def)
  note tq = kernel_page_addr(2) [OF q'(1)]
  have s0: "tables_built top_mem q s0 0 (\<lambda>_. 0) s0"
    using q(3) tq by (simp add: tables_built_def s0_def entry_fill_table of_nat_index)
  have "free_set (pmm s0) \<inter> kernel_zone = (free_set (pmm s) \<inter> kernel_zone) - {q}"
    using q(4) by (auto simp: s0_def)
  then have c0: "card (free_set (pmm s0) \<inter> kernel_zone) + 1 = card (free_set (pmm s) \<inter> kernel_zone)"
    using room q(2) by (simp add: card_Diff_singleton)
  then have "?n \<le> card (free_set (pmm s0) \<inter> kernel_zone)"
    using room by simp
  from init_page_tables [OF s0 q' n1024 this] obtain P where
    b: "tables_built top_mem q s0 ?n P (fold (init_page_table top_mem (page_addr q)) [0..<?n] s0)"
    (is "tables_built _ _ _ _ _ ?f")
    by blast
  have s': "paging_init s top_mem = ?f\<lparr>cr3 := page_addr q, paging_enabled := True\<rparr>"
    using n by (simp add: paging_init_def q(1) s0_def Let_def)
  have pd: "pd_phys ?f = page_addr q" "pmm_wf (pmm ?f)" "free_set (pmm ?f) = free_set p - P ` {..<?n}"
    "P ` {..<?n} \<subseteq> free_set p \<inter> kernel_zone"
    using b by (simp_all add: tables_built_def s0_def)
  have frees: "free_set (pmm ?f) \<subseteq> free_set (pmm s)" "free_set (pmm s) - free_set (pmm ?f) \<subseteq> kernel_zone"
    using pd(3,4) q(2,4) by auto
  have own: "x \<notin> page_at (page_addr k)" if "unat x \<notin> page_bytes (free_set (pmm s))" "k \<in> free_set (pmm s) \<inter> kernel_zone" for x k
    using that kernel_page_addr(1) [of k] by (auto simp: page_at_def page_bytes_def)
  have "memory ?f x = memory s x" if x: "unat x \<notin> page_bytes (free_set (pmm s))" for x
  proof -
    have "k < ?n \<Longrightarrow> P k \<in> free_set (pmm s) \<inter> kernel_zone" for k
      using pd(4) q(4) by auto
    then have "memory ?f x = memory s0 x"
      using b own [OF x q(2)] own [OF x] unfolding tables_built_def by blast
    then show ?thesis
      using own [OF x q(2)] tq by (simp add: s0_def fill_table_outside)
  qed
  moreover have "isolated (paging_init s top_mem) {}"
  proof -
    have "pd_phys s0 = page_addr q" "pmm_wf (pmm s0)"
      using q(3) by (simp_all add: s0_def)
    from tables_isolated [OF b q' this tables_identity [OF b q'(1) n1024 cover]]
    show ?thesis
      by (simp add: isolated_def used_page_def s')
  qed
  moreover have "card (free_set (pmm ?f) \<inter> kernel_zone) + ?n = card (free_set (pmm s0) \<inter> kernel_zone)"
  proof -
    have P: "inj_on P {..<?n}" "P ` {..<?n} \<subseteq> free_set (pmm s0) \<inter> kernel_zone"
      "free_set (pmm ?f) \<inter> kernel_zone = (free_set (pmm s0) \<inter> kernel_zone) - P ` {..<?n}"
      using b by (auto simp: tables_built_def)
    have "card (P ` {..<?n}) = ?n"
      using P(1) by (simp add: card_image)
    moreover have "card (P ` {..<?n}) \<le> card (free_set (pmm s0) \<inter> kernel_zone)"
      using P(2) by (intro card_mono) auto
    ultimately show ?thesis
      using P(2,3) by (simp add: card_Diff_subset finite_subset)
  qed
  moreover have "ptab (memory ?f) (page_addr q) i \<in> page_addr ` (free_set (pmm s) \<inter> kernel_zone)"
    if i: "i < 1024" "present (memory ?f) (page_addr q) i" for i
  proof -
    have n: "unat i < 1024" "of_nat (unat i) = i"
      using i(1) by (simp_all add: word_less_nat_alt)
    have "\<forall>k<1024. entry (memory ?f) (page_addr q) (of_nat k) = (if k < ?n then page_addr (P k) OR PAGE_DEFAULT else 0)"
      using b by (simp add: tables_built_def)
    from this [rule_format, OF n(1)] have e: "entry (memory ?f) (page_addr q) i = (if unat i < ?n then page_addr (P (unat i)) OR PAGE_DEFAULT else 0)"
      unfolding n(2) .
    then have "unat i < ?n"
      using i(2) by (simp add: present_def split: if_splits)
    moreover from this have "P (unat i) \<in> free_set (pmm s) \<inter> kernel_zone"
      using pd(4) q(4) by auto
    moreover from this have "table (page_addr (P (unat i)))"
      using kernel_page_addr(2) by simp
    ultimately show ?thesis
      using e flags_absent(3) by (simp add: ptab_def)
  qed
  ultimately show ?thesis
    using c0 tables_identity [OF b q'(1) n1024 cover] tables_tree [OF b q'] pd(1,2) frees by (simp add: s')
qed

text \<open>The state after the first steps of \<open>kmain\<close> that concern paging.\<close>

definition paging_boot :: "'a paging_state_scheme \<Rightarrow> u32 \<Rightarrow> 'a paging_state_scheme" where
  "paging_boot s top_mem = paging_unmap_null_page (paging_init s top_mem)"

lemma isolated_unmap:
  assumes iso: "isolated s {}"
  shows "isolated (paging_unmap_null_page s) {}"
proof (cases "present (memory s) (pd_phys s) 0")
  case False
  then show ?thesis
    using iso by (simp add: paging_unmap_null_page_def present_def)
next
  case True
  let ?m = "memory s" let ?d = "pd_phys s" let ?t = "ptab ?m ?d 0"
  let ?s' = "paging_unmap_null_page s"
  note I = isolatedD [OF iso]
  have s': "?s' = s\<lparr>memory := set_entry ?m ?t 0 (entry ?m ?t 0 AND NOT PAGE_P)\<rparr>"
    using True by (simp add: paging_unmap_null_page_def present_def ptab_def Let_def)
  have d: "table ?d" "?t \<noteq> ?d"
    using I(3) [of ?d] used_table [of s ?d] I(4) [OF insertI1 _ True] by auto
  have e: "entry (memory ?s') ?d i = entry ?m ?d i" if "i < 1024" for i
    using d that by (simp add: s' entry_set_entry)
  then have p: "present (memory ?s') ?d i = present ?m ?d i" "ptab (memory ?s') ?d i = ptab ?m ?d i" if "i < 1024" for i
    using that by (simp_all add: present_def ptab_def)
  have "NOT PAGE_P AND PAGE_US = PAGE_US"
    by simp
  then have us: "(x AND NOT PAGE_P) AND PAGE_US = x AND PAGE_US" for x
    by (simp only: and.assoc)
  have tab: "entry (memory ?s') (ptab ?m ?d i) j AND PAGE_US = entry ?m (ptab ?m ?d i) j AND PAGE_US"
    if "i < 1024" "j < 1024" for i j
  proof -
    have "entry (memory ?s') (ptab ?m ?d i) j =
        (if ?t = ptab ?m ?d i \<and> 0 = j then entry ?m ?t 0 AND NOT PAGE_P else entry ?m (ptab ?m ?d i) j)"
      unfolding s' using that by (simp add: entry_set_entry)
    then show ?thesis
      using us by metis
  qed
  have M: "pmm ?s' = pmm s" "pd_phys ?s' = ?d"
    by (simp_all add: s')
  have up: "used_page ?s' u = used_page s u" for u
    by (simp add: used_page_def M)
  show ?thesis
    unfolding isolated_def Let_def M up
  proof (intro conjI ballI allI impI)
    show "pmm_wf (pmm s)" by (rule I(1))
    fix d i assume d: "d \<in> {?d}" and i: "i < (1024 :: u32)"
    {
      assume "present (memory ?s') d i"
      then show "used_page s (ptab (memory ?s') d i)" "ptab (memory ?s') d i \<notin> {?d}"
        using I(4) [OF insertI1 i] p [OF i] d by auto
    }
    fix e j assume "e \<in> {?d}" "j < (1024 :: u32)" "present (memory ?s') d i" "present (memory ?s') e j"
      "ptab (memory ?s') d i = ptab (memory ?s') e j"
    then show "i = j" "d = e \<or> ptab (memory ?s') d i = ptab (memory ?s') ?d i"
      using I(5) [OF insertI1 insertI1 i, of j] p [OF i] p [of j] d by auto
  next
    fix i assume i: "i < (1024 :: u32)" and "present (memory ?s') ?d i"
    then have q: "present ?m ?d i"
      using p by simp
    show "entry (memory ?s') ?d i AND PAGE_US = 0"
      using I(8) [OF i q] e [OF i] by simp
    fix j assume "j < (1024 :: u32)"
    then show "entry (memory ?s') (ptab (memory ?s') ?d i) j AND PAGE_US = 0"
      using I(9) [OF i _ q] tab [OF i] p [OF i] by simp
  qed (use I(3) in auto)
qed

section \<open>Mapping a physical range\<close>

lemma map_pages_returns:
  assumes "table a" "unat e \<le> 0xFFFFF000"
  shows "\<exists>s'. map_pages s a e = Some s'"
  using assms(1)
proof (induction "unat e - unat a" arbitrary: s a rule: less_induct)
  case less
  show ?case
  proof (cases "a < e")
    case True
    then have "unat a < 0xFFFFF000" "unat a < unat e"
      using assms(2) by (simp_all add: word_less_nat_alt)
    with table_next [OF less.prems] have "\<exists>s'. map_pages (map_page s a) (a + PAGE_SIZE) e = Some s'"
      by (intro less.hyps) simp_all
    then show ?thesis
      using True by (subst map_pages.simps) simp
  qed (subst map_pages.simps, simp)
qed

lemma paging_map_phys_range_returns: "\<exists>s'. paging_map_phys_range s pa len = Some s'"
proof -
  let ?e = "(pa + len + PAGE_SIZE - 1) AND NOT 0xFFF"
  have "unat ?e \<le> 0xFFFFF000"
  proof -
    have le: "4096 * (v div 4096) \<le> 0xFFFFF000" if "v < 4294967296" for v :: nat
    proof -
      have "v div 4096 < 1048576"
        using that by (simp add: less_mult_imp_div_less)
      then show ?thesis by simp
    qed
    show ?thesis
      unfolding unat_align4096_down by (rule le) simp
  qed
  then show ?thesis
    unfolding paging_map_phys_range_def Let_def by (rule map_pages_returns [OF table_and_not_fff])
qed

section \<open>Properties\<close>

text \<open>With enough free kernel pages, \<open>paging_init\<close> followed by \<open>paging_unmap_null_page\<close> leaves
  a page directory that maps every page of \<open>[4096, top)\<close> to itself and nothing else, so page 0
  faults; nothing is user accessible; and only pages that were free are written before the
  unmapping.\<close>

theorem paging_boot_identity:
  assumes "pmm_wf (pmm s)" and "unat top_mem \<le> 0xFFC00000"
    and "(unat top_mem + 4194303) div 4194304 < card (free_set (pmm s) \<inter> kernel_zone)"
  shows "translate (memory (paging_boot s top_mem)) (pd_phys (paging_boot s top_mem)) va =
      (if va AND NOT 0xFFF \<noteq> 0 \<and> va AND NOT 0xFFF < top_mem then Some va else None) \<and>
    isolated (paging_boot s top_mem) {} \<and> \<not> user_page (memory (paging_boot s top_mem)) (pd_phys (paging_boot s top_mem)) va \<and>
    cr3 (paging_boot s top_mem) = pd_phys (paging_boot s top_mem) \<and> paging_enabled (paging_boot s top_mem) \<and>
    (\<forall>x. unat x \<notin> page_bytes (free_set (pmm s)) \<longrightarrow> memory (paging_init s top_mem) x = memory s x)"
proof -
  let ?i = "paging_init s top_mem" let ?b = "paging_boot s top_mem"
  note ok = paging_init_ok [OF assms]
  have f: "pd_phys ?b = pd_phys ?i" "cr3 ?b = cr3 ?i" "paging_enabled ?b = paging_enabled ?i"
    by (simp_all add: paging_boot_def paging_unmap_null_page_def Let_def)
  have tr: "translate (memory ?i) (pd_phys ?i) va = (if va AND NOT 0xFFF < top_mem then Some va else None)"
    "\<not> user_page (memory ?i) (pd_phys ?i) va" and t: "tree (memory ?i) (pd_phys ?i)"
    using ok unfolding identity_mapped_def by blast+
  have "isolated ?b {}"
    unfolding paging_boot_def using ok isolated_unmap by blast
  then show ?thesis
    using ok unmap_null_translate [OF t, of va, folded paging_boot_def] tr f by auto
qed


lemma range_at_no_wrap:
  assumes "unat a + n \<le> 4294967296"
  shows "range_at a n = {x. unat a \<le> unat x \<and> unat x < unat a + n}"
proof (rule set_eqI)
  fix x
  show "x \<in> range_at a n \<longleftrightarrow> x \<in> {x. unat a \<le> unat x \<and> unat x < unat a + n}"
  proof
    assume "x \<in> range_at a n"
    then obtain i where i: "i < n" "x = a + of_nat i"
      by (auto simp: range_at_def)
    then have "unat x = unat a + i"
      using assms by (simp add: unat_add_no_wrap unat_of_nat_u32)
    then show "x \<in> {x. unat a \<le> unat x \<and> unat x < unat a + n}"
      using i by simp
  next
    assume "x \<in> {x. unat a \<le> unat x \<and> unat x < unat a + n}"
    then have x: "unat a \<le> unat x" "unat x < unat a + n" by auto
    then have "unat (x - a) < n"
      by (simp add: unat_sub_no_wrap word_le_nat_alt)
    then show "x \<in> range_at a n"
      using assms by (simp add: range_at_iff)
  qed
qed

text \<open>C10: \<open>copy_to_user\<close> returns; when the destination is a good user range it stores the source
  there, otherwise it fails and writes nothing. In either case only bytes the task may access
  change: a user pointer can not make the kernel write kernel memory.\<close>

theorem copy_to_user_safe:
  assumes "\<not> page_is_user_accessible s cur 0"
    and "range_at dst (unat len) \<inter> range_at src (unat len) = {}"
  shows "\<exists>r s'. copy_to_user s cur dst src len = Some (r, s') \<and>
    (if user_range s cur dst len
     then r = 0 \<and> s' = s\<lparr>memory := store_bytes (memory s) dst (load_bytes (memory s) src (unat len))\<rparr>
     else r = 0xFFFFFFFF \<and> s' = s) \<and>
    (\<forall>x. memory s' x \<noteq> memory s x \<longrightarrow> page_is_user_accessible s cur x)"
proof (cases "user_range s cur dst len \<and> len \<noteq> 0")
  case True
  then have r: "range_at dst (unat len) = {x. unat dst \<le> unat x \<and> unat x < unat dst + unat len}"
    by (intro range_at_no_wrap) (auto simp: user_range_def)
  have "copy_to_user s cur dst src len =
      Some (0, s\<lparr>memory := store_bytes (memory s) dst (load_bytes (memory s) src (unat len))\<rparr>)"
    using True is_user_accessible_range_ok [OF assms(1)] copy_bytes_store [OF assms(2)]
    by (simp add: copy_to_user_def)
  moreover have "page_is_user_accessible s cur x"
    if "store_bytes (memory s) dst (load_bytes (memory s) src (unat len)) x \<noteq> memory s x" for x
  proof -
    have "x \<in> range_at dst (unat len)"
      using that store_bytes_outside [of x dst "load_bytes (memory s) src (unat len)"] by auto
    then show ?thesis
      using True unfolding r user_range_def by auto
  qed
  ultimately show ?thesis
    using True by simp
next
  case False
  then show ?thesis
    using is_user_accessible_range_ok [OF assms(1)] by (cases "len = 0") (auto simp: copy_to_user_def user_range_def)
qed

text \<open>\<open>copy_from_user\<close> returns; when the source is a good user range the destination holds its
  bytes, otherwise it fails and memory is unchanged.\<close>

theorem copy_from_user_correct:
  assumes "\<not> page_is_user_accessible s cur 0"
    and "range_at dst (unat len) \<inter> range_at src (unat len) = {}"
  shows "copy_from_user s cur dst src len = Some
    (if user_range s cur src len
     then (0, s\<lparr>memory := store_bytes (memory s) dst (load_bytes (memory s) src (unat len))\<rparr>)
     else (0xFFFFFFFF, s))"
proof (cases "len = 0")
  case False
  then show ?thesis
    using is_user_accessible_range_ok [OF assms(1)] copy_bytes_store [OF assms(2)] by (simp add: copy_from_user_def)
qed (simp add: copy_from_user_def user_range_def)

lemma copy_from_user_string_ok:
  assumes "access_stable s cur (range_at kbuf (unat max_len))"
    and "range_at uptr (unat max_len) \<inter> range_at kbuf (unat max_len) = {}"
  shows "case copy_from_user_string s cur kbuf uptr max_len of (r, s') \<Rightarrow>
    (if \<exists>n<unat max_len. string_at (memory s) uptr n \<and> readable s cur uptr (Suc n)
     then r = 0 \<and> (\<exists>n<unat max_len. string_at (memory s) uptr n \<and>
       s' = s\<lparr>memory := store_bytes (memory s) kbuf (load_bytes (memory s) uptr (Suc n))\<rparr>)
     else r = 0xFFFFFFFF \<and> (\<exists>m'. s' = s\<lparr>memory := m'\<rparr> \<and>
       (\<forall>x. x \<notin> range_at kbuf (unat max_len) \<longrightarrow> m' x = memory s x)))"
proof (cases "max_len = 0")
  case True
  then show ?thesis
    by (auto simp: copy_from_user_string_def intro: exI [of _ "memory s"])
next
  case False
  have "4096 * k \<noteq> (0xFFFFFFFF :: nat)" for k :: nat
  proof
    assume "4096 * k = (0xFFFFFFFF :: nat)"
    then have "(4096 * k) mod 2 = (0xFFFFFFFF :: nat) mod 2"
      by (rule arg_cong)
    then show False by simp
  qed
  then have "unat (uptr AND NOT 0xFFF) \<noteq> 0xFFFFFFFF"
    unfolding unat_align4096_down .
  then have pc: "page_checked s cur 0xFFFFFFFF uptr"
    unfolding page_checked_def by auto
  have c: "copy_from_user_string s cur kbuf uptr max_len = copy_string s cur kbuf uptr 0xFFFFFFFF (unat max_len)"
    using False by (simp add: copy_from_user_string_def)
  note found = copy_string_found [OF assms(1) order_refl assms(2) pc]
  note result = copy_string_result [OF assms(1) order_refl assms(2) pc]
  show ?thesis
  proof (cases "\<exists>n<unat max_len. string_at (memory s) uptr n \<and> readable s cur uptr (Suc n)")
    case True
    then obtain n where n: "n < unat max_len" "string_at (memory s) uptr n" "readable s cur uptr (Suc n)"
      by blast
    then show ?thesis
      unfolding c found [OF n] by auto
  next
    case False
    then show ?thesis
      unfolding c using result by (auto split: prod.split)
  qed
qed

text \<open>C11: \<open>copy_from_user_string\<close> into a kernel buffer apart from the string and from the page
  tables succeeds exactly when a NUL byte is found within \<open>max_len\<close> bytes, all of them user
  accessible; then the buffer holds the string with its NUL. Nothing outside the buffer is
  written.\<close>

theorem copy_from_user_string_correct:
  assumes "access_stable s cur (range_at kbuf (unat max_len))"
    and "range_at uptr (unat max_len) \<inter> range_at kbuf (unat max_len) = {}"
  shows "case copy_from_user_string s cur kbuf uptr max_len of (r, s') \<Rightarrow>
    (if \<exists>n<unat max_len. string_at (memory s) uptr n \<and> readable s cur uptr (Suc n)
     then r = 0 \<and> (\<exists>n<unat max_len. string_at (memory s) uptr n \<and>
       s' = s\<lparr>memory := store_bytes (memory s) kbuf (load_bytes (memory s) uptr (Suc n))\<rparr>)
     else r = 0xFFFFFFFF \<and> (\<exists>m'. s' = s\<lparr>memory := m'\<rparr> \<and>
       (\<forall>x. x \<notin> range_at kbuf (unat max_len) \<longrightarrow> m' x = memory s x)))"
  by (rule copy_from_user_string_ok [OF assms])

text \<open>C12: cloning the kernel directory for a task fails only when no kernel page is free; otherwise
  the new directory translates as the kernel's, grants user mode nothing, changes no other
  directory, and isolation holds for the larger set of tasks.\<close>

theorem paging_clone_isolated:
  assumes "isolated s T" and "paging_clone_kernel_pd s = (d, s')"
  shows "if free_set (pmm s) \<inter> kernel_zone = {} then d = 0 \<and> memory s' = memory s
    else d \<noteq> 0 \<and> d \<notin> insert (pd_phys s) T \<and> isolated s' (insert d T) \<and>
      (\<forall>va. translate (memory s') d va = translate (memory s) (pd_phys s) va \<and> \<not> user_page (memory s') d va) \<and>
      (\<forall>e\<in>insert (pd_phys s) T. \<forall>va. translate (memory s') e va = translate (memory s) e va \<and>
         user_page (memory s') e va = user_page (memory s) e va)"
proof -
  obtain q p where p: "pmm_alloc_page (pmm s) = (q, p)" by fastforce
  have z: "q = 0 \<longleftrightarrow> free_set (pmm s) \<inter> kernel_zone = {}"
    using kernel_page.alloc_zero_iff [OF isolatedD(1) [OF assms(1)]] p by (metis fst_conv)
  have d: "d = q" "q = 0 \<Longrightarrow> memory s' = memory s"
    using assms(2) p by (auto simp: paging_clone_kernel_pd_def Let_def split: if_splits)
  show ?thesis
  proof (cases "d = 0")
    case True
    then show ?thesis
      using z d by simp
  next
    case False
    note ok = clone_kernel_pd_ok [OF assms False]
    have "free_set (pmm s) \<inter> kernel_zone \<noteq> {}"
      using z d(1) False by simp
    then show ?thesis
      using ok False by (simp only: if_False) blast
  qed
qed

text \<open>C13: marking a page for one task makes exactly that page user accessible, for that task
  alone: the task's other pages and every other directory, the kernel's included, translate
  and protect as before, and isolation still holds.\<close>

theorem paging_mark_isolated:
  assumes "isolated s T" and "d \<in> T" and "4096 dvd unat pa"
    and "present (memory s) (pd_phys s) (pd_index pa)" and "free_set (pmm s) \<inter> kernel_zone \<noteq> {}"
  defines "s' \<equiv> paging_set_user_accessible_for_task s d pa"
  shows "isolated s' T \<and>
    (\<forall>va. (user_page (memory s') d va \<longleftrightarrow> va AND NOT 0xFFF = pa \<or> user_page (memory s) d va) \<and>
       translate (memory s') d va = (if va AND NOT 0xFFF = pa then Some va else translate (memory s) d va)) \<and>
    (\<forall>e\<in>insert (pd_phys s) T - {d}. \<forall>va. user_page (memory s') e va = user_page (memory s) e va \<and>
       translate (memory s') e va = translate (memory s) e va)"
proof -
  obtain t where t: "marked s s' T d pa t"
    using mark_effect [OF assms(1,2,4,5)] unfolding s'_def by blast
  have pa: "table pa"
    using assms(3) by (simp add: table_def)
  note ok = mark_ok [OF assms(1,2) t pa assms(4)]
  show ?thesis
    unfolding s'_def [symmetric]
    by (intro conjI allI ballI ok(1,3,4) ok(5) [THEN conjunct1] ok(5) [THEN conjunct2]) auto
qed


section \<open>Examples\<close>

text \<open>The boot sequence on \<open>pmm_example\<close> with 9 MB of memory, then one task with one page.\<close>

definition paging_example :: paging_state where
  "paging_example = \<lparr>memory = (\<lambda>_. 0), pmm = pmm_example, free_head = 0, heap_pages = [],
     pd_phys = 0, cr3 = 0, paging_enabled = False\<rparr>"

lemma paging_example_room:
  "pmm_wf (pmm paging_example)" "unat (0x900000 :: u32) \<le> 0xFFC00000"
  "(unat (0x900000 :: u32) + 4194303) div 4194304 < card (free_set (pmm paging_example) \<inter> kernel_zone)"
proof -
  have "free_set pmm_example \<inter> kernel_zone = {256..<264}"
    unfolding pmm_example_free kernel_zone_def by auto
  then show "pmm_wf (pmm paging_example)" "unat (0x900000 :: u32) \<le> 0xFFC00000"
    "(unat (0x900000 :: u32) + 4194303) div 4194304 < card (free_set (pmm paging_example) \<inter> kernel_zone)"
    by (simp_all add: paging_example_def pmm_example_wf)
qed

theorem paging_boot_identity_witness:
  "translate (memory (paging_boot paging_example 0x900000)) (pd_phys (paging_boot paging_example 0x900000)) 0x234567 = Some 0x234567 \<and>
   translate (memory (paging_boot paging_example 0x900000)) (pd_phys (paging_boot paging_example 0x900000)) 0x10 = None"
  using paging_boot_identity [OF paging_example_room, of "0x234567"] paging_boot_identity [OF paging_example_room, of "0x10"]
  by simp

lemma boot_not_accessible: "\<not> page_is_user_accessible (paging_boot paging_example 0x900000) None va"
proof -
  let ?i = "paging_init paging_example 0x900000"
  have ok: "identity_mapped (memory ?i) (pd_phys ?i) 0x900000" "tree (memory ?i) (pd_phys ?i)"
    using paging_init_ok [OF paging_example_room] by blast+
  have "pd_phys (paging_boot paging_example 0x900000) = pd_phys ?i"
    by (simp add: paging_boot_def paging_unmap_null_page_def Let_def)
  then show ?thesis
    using ok(1) unmap_null_translate(2) [OF ok(2), of va]
    by (simp add: page_is_user_accessible_def pd_in_use_def paging_boot_def identity_mapped_def)
qed


definition task_example :: "u32 \<times> paging_state" where
  "task_example = paging_clone_kernel_pd (paging_boot paging_example 0x900000)"

definition user_example :: paging_state where
  "user_example = paging_set_user_accessible_for_task (snd task_example) (fst task_example) 0x800000"

lemma boot_example:
  "isolated (paging_boot paging_example 0x900000) {}"
  "card (free_set (pmm (paging_boot paging_example 0x900000)) \<inter> kernel_zone) = 4"
  "{1792, 1793} \<subseteq> free_set (pmm (paging_boot paging_example 0x900000))"
  "present (memory (paging_boot paging_example 0x900000)) (pd_phys (paging_boot paging_example 0x900000)) 2"
proof -
  let ?i = "paging_init paging_example 0x900000" let ?b = "paging_boot paging_example 0x900000"
  note ok = paging_init_ok [OF paging_example_room]
  have pm: "pmm ?b = pmm ?i" "pd_phys ?b = pd_phys ?i"
    by (simp_all add: paging_boot_def paging_unmap_null_page_def Let_def)
  show "isolated ?b {}"
    unfolding paging_boot_def by (rule isolated_unmap) (use ok in blast)
  have free: "free_set (pmm paging_example) = {256..<264} \<union> {1792..<1800}"
    by (simp add: paging_example_def pmm_example_free)
  then have "free_set (pmm paging_example) \<inter> kernel_zone = {256..<264}"
    unfolding kernel_zone_def by auto
  then have "card (free_set (pmm paging_example) \<inter> kernel_zone) = 8"
    by simp
  then show "card (free_set (pmm ?b) \<inter> kernel_zone) = 4"
    using ok pm by simp
  have "free_set (pmm paging_example) - free_set (pmm ?i) \<subseteq> kernel_zone"
    using ok by blast
  moreover have "{1792, 1793} \<subseteq> free_set (pmm paging_example)" "1792 \<notin> kernel_zone" "1793 \<notin> kernel_zone"
    by (simp_all add: free kernel_zone_def)
  ultimately show "{1792, 1793} \<subseteq> free_set (pmm ?b)"
    unfolding pm by blast
  have "identity_mapped (memory ?i) (pd_phys ?i) 0x900000" and t: "tree (memory ?i) (pd_phys ?i)"
    using ok by blast+
  then have "translate (memory ?i) (pd_phys ?i) 0x800000 = Some 0x800000"
    by (simp add: identity_mapped_def)
  then have "translate (memory ?b) (pd_phys ?b) 0x800000 = Some 0x800000"
    unfolding pm(2) unfolding paging_boot_def using unmap_null_translate(1) [OF t, of "0x800000"] by simp
  moreover have "pd_index 0x800000 = 2"
    by (simp add: pd_index_def)
  ultimately show "present (memory ?b) (pd_phys ?b) 2"
    by (auto simp: translate_def split: if_splits)
qed

lemma task_example_ok:
  "fst task_example \<noteq> 0" "isolated (snd task_example) {fst task_example}"
  "free_set (pmm (snd task_example)) \<inter> kernel_zone \<noteq> {}" "{1792, 1793} \<subseteq> free_set (pmm (snd task_example))"
  "present (memory (snd task_example)) (pd_phys (snd task_example)) 2"
  "\<not> user_page (memory (snd task_example)) (fst task_example) va"
  "fst task_example \<noteq> pd_phys (snd task_example)"
proof -
  let ?b = "paging_boot paging_example 0x900000" let ?d = "fst task_example" let ?s = "snd task_example"
  have c: "paging_clone_kernel_pd ?b = (?d, ?s)"
    by (simp add: task_example_def)
  have ne: "free_set (pmm ?b) \<inter> kernel_zone \<noteq> {}"
    using boot_example(2) by auto
  obtain i p where i: "pmm_alloc_page (pmm ?b) = (page_addr i, p)" "i \<in> free_set (pmm ?b) \<inter> kernel_zone"
    "free_set p = free_set (pmm ?b) - {i}"
    using kernel_page.alloc_page [OF isolatedD(1) [OF boot_example(1)] ne] by blast
  have i0: "page_addr i \<noteq> 0"
    using kernel_page_addr(3) i(2) by auto
  have te: "task_example = (page_addr i, ?b\<lparr>pmm := p, memory := copy_table (memory ?b) (page_addr i) (pd_phys ?b)\<rparr>)"
    unfolding task_example_def paging_clone_kernel_pd_def using i(1) i0 by (simp add: Let_def)
  have d: "?d = page_addr i" "pmm ?s = p"
    unfolding te by simp_all
  then show nz: "?d \<noteq> 0"
    using i0 by simp
  note ok = clone_kernel_pd_ok [OF boot_example(1) c nz]
  show "isolated ?s {?d}"
    using ok(1) by simp
  have "card (free_set p \<inter> kernel_zone) = 3"
  proof -
    have "free_set p \<inter> kernel_zone = (free_set (pmm ?b) \<inter> kernel_zone) - {i}"
      using i(3) by auto
    then show ?thesis
      using boot_example(2) i(2) by (simp add: card_Diff_singleton)
  qed
  then show "free_set (pmm ?s) \<inter> kernel_zone \<noteq> {}"
    unfolding d(2) by auto
  show "{1792, 1793} \<subseteq> free_set (pmm ?s)"
    unfolding d(2) i(3) using boot_example(3) i(2) by (auto simp: kernel_zone_def)
  show "\<not> user_page (memory ?s) ?d va"
    using ok(4) by blast
  show "?d \<noteq> pd_phys ?s"
    using ok(2,3) by auto
  have "pd_phys ?s = pd_phys ?b" by (rule ok(3))
  moreover have "present (memory ?s) (pd_phys ?b) 2"
  proof -
    have "table (pd_phys ?b)" "table ?d" "?d \<noteq> pd_phys ?b"
      using isolatedD(3) [OF boot_example(1), of "pd_phys ?b"] used_table kernel_page_addr(2) i(2) d(1) ok(2) by auto
    then have "entry (memory ?s) (pd_phys ?b) 2 = entry (memory ?b) (pd_phys ?b) 2"
      unfolding d(1) te by (simp add: entry_copy_table)
    then show ?thesis
      using boot_example(4) by (simp add: present_def)
  qed
  ultimately show "present (memory ?s) (pd_phys ?s) 2"
    by simp
qed

theorem paging_clone_isolated_witness:
  "\<exists>d s'. paging_clone_kernel_pd (paging_boot paging_example 0x900000) = (d, s') \<and> d \<noteq> 0 \<and> isolated s' {d}"
proof -
  have "free_set (pmm (paging_boot paging_example 0x900000)) \<inter> kernel_zone \<noteq> {}"
    using boot_example(2) by auto
  then show ?thesis
    using paging_clone_isolated [OF boot_example(1) prod.collapse [symmetric]]
    by (intro exI [of _ "fst task_example"] exI [of _ "snd task_example"]) (simp add: task_example_def)
qed

lemma user_example_ok:
  "isolated user_example {fst task_example}"
  "user_page (memory user_example) (fst task_example) va \<longleftrightarrow> va AND NOT 0xFFF = 0x800000"
proof -
  have pa: "table 0x800000" "pd_index 0x800000 = 2"
    by (simp_all add: table_def pd_index_def)
  obtain t where t: "marked (snd task_example) user_example {fst task_example} (fst task_example) 0x800000 t"
    using mark_effect [OF task_example_ok(2) _ _ task_example_ok(3), of "fst task_example" "0x800000"] task_example_ok(5) pa
    unfolding user_example_def by auto
  note ok = mark_ok [OF task_example_ok(2) _ t pa(1)]
  show "isolated user_example {fst task_example}"
    "user_page (memory user_example) (fst task_example) va \<longleftrightarrow> va AND NOT 0xFFF = 0x800000"
    using ok(1,3) task_example_ok(5,6) pa(2) by simp_all
qed

theorem paging_mark_isolated_witness:
  "user_page (memory user_example) (fst task_example) 0x800010 \<and>
   \<not> user_page (memory user_example) (pd_phys (snd task_example)) 0x800010"
proof -
  have a: "4096 dvd unat (0x800000 :: u32)" "pd_index 0x800000 = 2"
    by (simp_all add: pd_index_def)
  have k: "\<not> user_page (memory (snd task_example)) (pd_phys (snd task_example)) 0x800010"
    using isolatedD(8) [OF task_example_ok(2), of "pd_index 0x800010"] by (auto simp: user_page_alt)
  show ?thesis
    using paging_mark_isolated [OF task_example_ok(2) insertI1 a(1) _ task_example_ok(3)] task_example_ok(5,7) a(2) k
    unfolding user_example_def by auto
qed

text \<open>The user page of the example task, with a one-character string in it.\<close>

definition string_example :: paging_state where
  "string_example = user_example\<lparr>memory := (memory user_example)(0x800010 := 65, 0x800011 := 0)\<rparr>"

lemma mark_free_set:
  assumes "pmm_wf (pmm s)" "i \<in> free_set (pmm s)" "i \<notin> kernel_zone"
  shows "i \<in> free_set (pmm (paging_set_user_accessible_for_task s d pa))"
proof -
  obtain t p where a: "pmm_alloc_page (pmm s) = (t, p)"
    by fastforce
  have "i \<in> free_set p"
  proof (cases "free_set (pmm s) \<inter> kernel_zone = {}")
    case True
    then show ?thesis
      using kernel_page.alloc_none [OF assms(1)] a assms(2) by simp
  next
    case False
    then show ?thesis
      using kernel_page.alloc_page [OF assms(1)] a assms(2,3) by fastforce
  qed
  moreover have "pmm (paging_set_user_accessible_for_task s d pa) \<in> {pmm s, p}"
    by (simp add: paging_set_user_accessible_for_task_def a Let_def)
  ultimately show ?thesis
    using assms(2) by auto
qed

lemma user_example_stable: "access_stable user_example (Some (fst task_example)) (page_at 0x800000 \<union> page_at 0x801000)"
proof -
  let ?d = "fst task_example"
  have pa: "page_addr 1792 = 0x800000" "page_addr 1793 = 0x801000"
    by (simp_all add: page_addr_def)
  have "1792 \<in> free_set (pmm user_example)" "1793 \<in> free_set (pmm user_example)"
    unfolding user_example_def
    using mark_free_set [OF isolatedD(1) [OF task_example_ok(2)]] task_example_ok(4)
    by (simp_all add: kernel_zone_def)
  then have free: "\<not> used_page user_example 0x800000" "\<not> used_page user_example 0x801000"
    unfolding used_page_def pa [symmetric] by blast+
  have pd: "pd_in_use user_example (Some ?d) = ?d"
    using task_example_ok(1) by (simp add: pd_in_use_def)
  note I = isolatedD [OF user_example_ok(1)]
  show ?thesis
  proof (rule access_stable_page [where P = "{0x800000, 0x801000}"])
    show "table (pd_in_use user_example (Some ?d))" "pd_in_use user_example (Some ?d) \<notin> {0x800000, 0x801000}"
      unfolding pd using I(3) [of ?d] free used_table by auto
    show "ptab (memory user_example) (pd_in_use user_example (Some ?d)) i \<notin> {0x800000, 0x801000}"
      if "i < 1024" "present (memory user_example) (pd_in_use user_example (Some ?d)) i" for i
      using I(4) [of ?d i] that free unfolding pd by auto
  qed (auto simp: table_def)
qed

lemma user_example_pages:
  "page_is_user_accessible user_example (Some (fst task_example)) va \<longleftrightarrow> va AND NOT 0xFFF = 0x800000"
  using task_example_ok(1) user_example_ok(2) by (simp add: page_is_user_accessible_def pd_in_use_def)

lemma string_example_ok:
  "access_stable string_example (Some (fst task_example)) (page_at 0x800000 \<union> page_at 0x801000)"
  "page_is_user_accessible string_example (Some (fst task_example)) va \<longleftrightarrow> va AND NOT 0xFFF = 0x800000"
proof -
  let ?u = "user_example\<lparr>memory := (memory user_example)(0x800010 := 65)\<rparr>"
  have x: "0x800010 \<in> page_at 0x800000 \<union> page_at 0x801000" "0x800011 \<in> page_at 0x800000 \<union> page_at 0x801000"
    by (simp_all add: page_at_def)
  note u = access_stable_update [OF user_example_stable x(1), of 65]
  note v = access_stable_update [OF u(1) x(2), of 0]
  have e: "string_example = ?u\<lparr>memory := (memory ?u)(0x800011 := 0)\<rparr>"
    by (simp add: string_example_def)
  show "access_stable string_example (Some (fst task_example)) (page_at 0x800000 \<union> page_at 0x801000)"
    "page_is_user_accessible string_example (Some (fst task_example)) va \<longleftrightarrow> va AND NOT 0xFFF = 0x800000"
    unfolding e using u v user_example_pages by simp_all
qed

lemma example_ranges_disjoint:
  "range_at 0x800010 16 \<inter> range_at 0x801000 16 = {}" "range_at 0x801000 16 \<subseteq> page_at 0x801000"
proof -
  have r: "x \<in> range_at 0x800010 16 \<longleftrightarrow> 0x800010 \<le> unat x \<and> unat x < 0x800020"
    "x \<in> range_at 0x801000 16 \<longleftrightarrow> 0x801000 \<le> unat x \<and> unat x < 0x801010" for x :: u32
    using range_at_no_wrap [of "0x800010" 16] range_at_no_wrap [of "0x801000" 16] by auto
  show "range_at 0x800010 16 \<inter> range_at 0x801000 16 = {}" "range_at 0x801000 16 \<subseteq> page_at 0x801000"
    unfolding page_at_def using r by auto
qed

theorem copy_to_user_safe_witness:
  "\<exists>s'. copy_to_user user_example (Some (fst task_example)) 0x800010 0x801000 16 = Some (0, s')"
proof -
  let ?cur = "Some (fst task_example)"
  have "range_at 0x800010 (unat (16 :: u32)) \<inter> range_at 0x801000 (unat (16 :: u32)) = {}"
    using example_ranges_disjoint(1) by simp
  moreover have "\<not> page_is_user_accessible user_example ?cur 0"
    by (simp add: user_example_pages)
  moreover have "x AND NOT 0xFFF = 0x800000" if "0x800010 \<le> unat x" "unat x < 0x800020" for x :: u32
  proof -
    have "unat x div 4096 = 2048"
      using that by (intro div_nat_eqI) simp_all
    then show ?thesis
      unfolding u32_eq_iff unat_align4096_down by simp
  qed
  then have "user_range user_example ?cur 0x800010 16"
    unfolding user_range_def user_example_pages by simp
  ultimately show ?thesis
    using copy_to_user_safe [of user_example ?cur "0x800010" 16 "0x801000"] by auto
qed

theorem copy_from_user_correct_witness:
  "\<exists>s'. copy_from_user user_example (Some (fst task_example)) 0x800010 0x801000 16 = Some (0xFFFFFFFF, s')"
proof -
  let ?cur = "Some (fst task_example)"
  have "range_at 0x800010 (unat (16 :: u32)) \<inter> range_at 0x801000 (unat (16 :: u32)) = {}"
    using example_ranges_disjoint(1) by simp
  moreover have n: "\<not> page_is_user_accessible user_example ?cur 0" "\<not> page_is_user_accessible user_example ?cur 0x801000"
    by (simp_all add: user_example_pages)
  moreover have "\<not> user_range user_example ?cur 0x801000 16"
    unfolding user_range_def using n(2) by (auto intro!: exI [of _ "0x801000"])
  ultimately show ?thesis
    using copy_from_user_correct [of user_example ?cur "0x800010" 16 "0x801000"] by simp
qed

theorem copy_from_user_string_correct_witness:
  "fst (copy_from_user_string string_example (Some (fst task_example)) 0x801000 0x800010 16) = 0"
proof -
  let ?cur = "Some (fst task_example)"
  have "access_stable string_example ?cur (range_at 0x801000 (unat (16 :: u32)))"
    using access_stable_mono [OF string_example_ok(1)] example_ranges_disjoint(2) by auto
  moreover have "range_at 0x800010 (unat (16 :: u32)) \<inter> range_at 0x801000 (unat (16 :: u32)) = {}"
    using example_ranges_disjoint(1) by simp
  moreover have "string_at (memory string_example) 0x800010 1"
    by (simp add: string_at_def string_example_def)
  moreover have "readable string_example ?cur 0x800010 (Suc 1)"
    unfolding readable_def string_example_ok(2) by (auto simp: less_Suc_eq)
  moreover have "1 < unat (16 :: u32)"
    by simp
  ultimately show ?thesis
    using copy_from_user_string_correct [of string_example ?cur "0x801000" 16 "0x800010"]
    by (auto split: prod.splits if_splits)
qed

end
