(* ===== verification/Ports.thy ===== *)
theory Ports
  imports Kumo_Prelude
begin

text \<open>
  Port I/O and the two drivers that are nothing but port I/O: the COM1 driver
  (\<open>drivers/serial.c\<close>) and the interrupt controllers (\<open>arch/x86/pic.c\<close>). A device is what its
  ports answer: \<open>answer n p\<close> is the byte the \<open>n\<close>-th read gives when it reads port \<open>p\<close>, and every
  write is recorded in order. A polling loop that never sees its bit does not return
  (\<^term>\<open>None\<close>).
\<close>

section \<open>Port I/O\<close>

record io_state =
  answer :: "nat \<Rightarrow> u16 \<Rightarrow> u8"
  reads :: nat
  outs :: "(u16 \<times> u8) list"

definition inb :: "io_state \<Rightarrow> u16 \<Rightarrow> u8 \<times> io_state" where
  "inb s port = (answer s (reads s) port, s\<lparr>reads := Suc (reads s)\<rparr>)"

definition outb :: "io_state \<Rightarrow> u16 \<Rightarrow> u8 \<Rightarrow> io_state" where
  "outb s port v = s\<lparr>outs := outs s @ [(port, v)]\<rparr>"

lemma inb_simps [simp]:
  "fst (inb s port) = answer s (reads s) port" "snd (inb s port) = s\<lparr>reads := Suc (reads s)\<rparr>"
  by (simp_all add: inb_def)

lemma outb_simps [simp]:
  "answer (outb s port v) = answer s" "reads (outb s port v) = reads s"
  "outs (outb s port v) = outs s @ [(port, v)]"
  by (simp_all add: outb_def)

section \<open>The serial port\<close>

abbreviation COM1_PORT :: u16 where "COM1_PORT \<equiv> 0x3F8"

definition serial_init :: "io_state \<Rightarrow> io_state" where
  "serial_init s =
     (let s = outb s (COM1_PORT + 1) 0x00;
          s = outb s (COM1_PORT + 3) 0x80;
          s = outb s (COM1_PORT + 0) 0x03;
          s = outb s (COM1_PORT + 1) 0x00;
          s = outb s (COM1_PORT + 3) 0x03;
          s = outb s (COM1_PORT + 2) 0xC7
      in outb s (COM1_PORT + 4) 0x0B)"

definition serial_is_tx_empty :: "io_state \<Rightarrow> bool \<times> io_state" where
  "serial_is_tx_empty s = (let (v, s) = inb s (COM1_PORT + 5) in (v AND 0x20 \<noteq> 0, s))"

text \<open>\<open>while (!serial_is_tx_empty());\<close>\<close>

partial_function (option) wait_tx :: "io_state \<Rightarrow> io_state option" where
  "wait_tx s = (let (ready, s) = serial_is_tx_empty s in if ready then Some s else wait_tx s)"

definition serial_putchar :: "io_state \<Rightarrow> u8 \<Rightarrow> io_state option" where
  "serial_putchar s c = do { s \<leftarrow> wait_tx s; Some (outb s COM1_PORT c) }"

definition serial_write_char :: "io_state \<Rightarrow> u8 \<Rightarrow> io_state option" where
  "serial_write_char s c =
     do {
       s \<leftarrow> (if c = 10 then do { s \<leftarrow> wait_tx s; Some (outb s COM1_PORT 13) } else Some s);
       s \<leftarrow> wait_tx s;
       Some (outb s COM1_PORT c) }"

text \<open>A C string is the list of its bytes; the walk stops at a NUL or at the end of the list.\<close>

fun serial_write_string :: "io_state \<Rightarrow> u8 list \<Rightarrow> io_state option" where
  "serial_write_string s [] = Some s"
| "serial_write_string s (c # cs) =
     (if c = 0 then Some s else do { s \<leftarrow> serial_write_char s c; serial_write_string s cs })"

definition bytes_of :: "string \<Rightarrow> u8 list" where
  "bytes_of cs = map of_char cs"

definition hex_digits :: "u8 list" where
  "hex_digits = bytes_of ''0123456789ABCDEF''"

text \<open>The digit loop of \<open>serial_write_hex\<close> for \<open>i - 1, \<dots>, 0\<close>.\<close>

fun write_digits :: "io_state \<Rightarrow> u32 \<Rightarrow> nat \<Rightarrow> io_state option" where
  "write_digits s n 0 = Some s"
| "write_digits s n (Suc i) =
     do { s \<leftarrow> serial_write_char s (hex_digits ! unat (drop_bit (i * 4) n AND 0xF)); write_digits s n i }"

definition serial_write_hex :: "io_state \<Rightarrow> u32 \<Rightarrow> io_state option" where
  "serial_write_hex s n = do { s \<leftarrow> serial_write_string s (bytes_of ''0x''); write_digits s n 8 }"

definition serial_poll_char :: "io_state \<Rightarrow> u32 \<times> io_state" where
  "serial_poll_char s =
     (let (status, s) = inb s (COM1_PORT + 5)
      in if status AND 0x01 \<noteq> 0 then (let (v, s) = inb s COM1_PORT in (ucast v, s)) else (0xFFFFFFFF, s))"

subsection \<open>What the serial driver sends\<close>

text \<open>The transmitter reports empty again and again; the bytes a caller's characters become.\<close>

definition tx_live :: "io_state \<Rightarrow> bool" where
  "tx_live s \<longleftrightarrow> (\<forall>n. \<exists>k\<ge>n. answer s k (COM1_PORT + 5) AND 0x20 \<noteq> 0)"

definition crlf :: "u8 list \<Rightarrow> u8 list" where
  "crlf cs = concat (map (\<lambda>c. if c = 10 then [13, c] else [c]) cs)"

definition sends :: "io_state \<Rightarrow> u8 list \<Rightarrow> io_state \<Rightarrow> bool" where
  "sends s bs s' \<longleftrightarrow> outs s' = outs s @ map (Pair COM1_PORT) bs \<and> answer s' = answer s \<and> reads s \<le> reads s'"

lemma sends_live: "tx_live s \<Longrightarrow> sends s bs s' \<Longrightarrow> tx_live s'"
  by (simp add: tx_live_def sends_def)

lemma sends_trans: "sends s bs t \<Longrightarrow> sends t cs u \<Longrightarrow> sends s (bs @ cs) u"
  by (auto simp: sends_def)

lemma sends_outb: "sends s bs t \<Longrightarrow> sends s (bs @ [c]) (outb t COM1_PORT c)"
  by (auto simp: sends_def)

lemma wait_tx_step:
  "wait_tx s = (if answer s (reads s) (COM1_PORT + 5) AND 0x20 \<noteq> 0 then Some (s\<lparr>reads := Suc (reads s)\<rparr>)
     else wait_tx (s\<lparr>reads := Suc (reads s)\<rparr>))"
  by (subst wait_tx.simps) (simp add: serial_is_tx_empty_def inb_def)

text \<open>The wait ends exactly when some later status read shows the empty bit.\<close>

lemma wait_tx_returns:
  assumes "answer s k (COM1_PORT + 5) AND 0x20 \<noteq> 0" "reads s \<le> k"
  shows "\<exists>s'. wait_tx s = Some s' \<and> sends s [] s'"
  using assms
proof (induction "k - reads s" arbitrary: s)
  case 0
  then have "reads s = k" by simp
  then show ?case
    using 0 by (subst wait_tx_step) (auto simp: sends_def)
next
  case (Suc d)
  let ?t = "s\<lparr>reads := Suc (reads s)\<rparr>"
  from Suc have "\<exists>s'. wait_tx ?t = Some s' \<and> sends ?t [] s'"
    by (intro Suc.hyps(1)) auto
  then have "\<exists>s'. wait_tx ?t = Some s' \<and> sends s [] s'"
    by (auto simp: sends_def)
  then show ?case
    by (subst wait_tx_step) (auto simp: sends_def)
qed

lemma wait_tx_hangs:
  assumes "\<And>k. reads s \<le> k \<Longrightarrow> answer s k (COM1_PORT + 5) AND 0x20 = 0"
  shows "wait_tx s = None"
proof (rule ccontr)
  assume "wait_tx s \<noteq> None"
  then obtain s' where "wait_tx s = Some s'" by auto
  then have "\<exists>k\<ge>reads s. answer s k (COM1_PORT + 5) AND 0x20 \<noteq> 0"
  proof (rule wait_tx.raw_induct [of "\<lambda>s _. \<exists>k\<ge>reads s. answer s k (COM1_PORT + 5) AND 0x20 \<noteq> 0", rotated])
    fix f and s s' :: io_state
    assume ih: "\<And>s s'. f s = Some s' \<Longrightarrow> \<exists>k\<ge>reads s. answer s k (COM1_PORT + 5) AND 0x20 \<noteq> 0"
      and step: "(let (ready, s) = serial_is_tx_empty s in if ready then Some s else f s) = Some s'"
    show "\<exists>k\<ge>reads s. answer s k (COM1_PORT + 5) AND 0x20 \<noteq> 0"
    proof (cases "answer s (reads s) (COM1_PORT + 5) AND 0x20 = 0")
      case True
      then have "f (s\<lparr>reads := Suc (reads s)\<rparr>) = Some s'"
        using step by (simp add: serial_is_tx_empty_def inb_def)
      from ih [OF this] show ?thesis
        by (auto intro: Suc_leD)
    qed auto
  qed
  then show False
    using assms by auto
qed

lemma wait_tx_live: "tx_live s \<Longrightarrow> \<exists>s'. wait_tx s = Some s' \<and> sends s [] s'"
  unfolding tx_live_def using wait_tx_returns by blast

lemma serial_putchar_sends:
  assumes "tx_live s"
  shows "\<exists>s'. serial_putchar s c = Some s' \<and> sends s [c] s'"
  using wait_tx_live [OF assms] sends_outb [of s "[]"] by (auto simp: serial_putchar_def)

lemma serial_write_char_sends:
  assumes "tx_live s"
  shows "\<exists>s'. serial_write_char s c = Some s' \<and> sends s (crlf [c]) s'"
proof -
  obtain s1 where s1: "wait_tx s = Some s1" "sends s [] s1"
    using wait_tx_live [OF assms] by blast
  show ?thesis
  proof (cases "c = 10")
    case True
    let ?t = "outb s1 COM1_PORT 13"
    have t: "sends s [13] ?t"
      using sends_outb [OF s1(2)] by simp
    obtain s2 where s2: "wait_tx ?t = Some s2" "sends ?t [] s2"
      using wait_tx_live [OF sends_live [OF assms t]] by blast
    have "sends s [13] s2"
      using sends_trans [OF t s2(2)] by simp
    from sends_outb [OF this] show ?thesis
      using True s1(1) s2(1) by (simp add: serial_write_char_def crlf_def)
  next
    case False
    then show ?thesis
      using s1(1) sends_outb [OF s1(2)] by (simp add: serial_write_char_def crlf_def)
  qed
qed

lemma serial_write_string_sends:
  assumes "tx_live s" "0 \<notin> set cs"
  shows "\<exists>s'. serial_write_string s cs = Some s' \<and> sends s (crlf cs) s'"
  using assms
proof (induction cs arbitrary: s)
  case Nil
  then show ?case by (simp add: sends_def crlf_def)
next
  case (Cons c cs)
  obtain t where t: "serial_write_char s c = Some t" "sends s (crlf [c]) t"
    using serial_write_char_sends [OF Cons.prems(1)] by blast
  obtain u where u: "serial_write_string t cs = Some u" "sends t (crlf cs) u"
    using Cons.IH [OF sends_live [OF Cons.prems(1) t(2)]] Cons.prems(2) by auto
  have "sends s (crlf [c] @ crlf cs) u"
    by (rule sends_trans [OF t(2) u(2)])
  then show ?case
    using t(1) u(1) Cons.prems(2) by (auto simp: crlf_def)
qed

text \<open>Reading a number back from its upper-case hexadecimal digits.\<close>

definition digit_value :: "u8 \<Rightarrow> nat" where
  "digit_value c = (if c < 58 then unat c - 48 else unat c - 55)"

definition hex_value :: "u8 list \<Rightarrow> nat" where
  "hex_value cs = foldl (\<lambda>a c. a * 16 + digit_value c) 0 cs"

lemma hex_digits_eval:
  "hex_digits = [48, 49, 50, 51, 52, 53, 54, 55, 56, 57, 65, 66, 67, 68, 69, 70]"
  by (simp add: hex_digits_def bytes_of_def)

lemma hex_digit_ok:
  assumes "d < 16"
  shows "digit_value (hex_digits ! d) = d \<and> crlf [hex_digits ! d] = [hex_digits ! d]"
proof -
  have "\<forall>d\<in>{..<16}. digit_value (hex_digits ! d) = d \<and> hex_digits ! d \<noteq> 10"
    unfolding hex_digits_eval by (simp add: lessThan_nat_numeral lessThan_Suc digit_value_def)
  then show ?thesis
    using assms by (simp add: crlf_def)
qed

lemma hex_nibble: "unat (drop_bit (i * 4) (n :: u32) AND 0xF) = unat n div 16 ^ i mod 16"
proof -
  have "x AND 0xF = take_bit 4 x" for x :: u32
    by (simp add: take_bit_eq_mask mask_eq_exp_minus_1)
  then have "unat (x AND 0xF) = unat x mod 16" for x :: u32
    by (simp only: unsigned_take_bit_eq) (simp add: take_bit_eq_mod)
  moreover have "unat (drop_bit (i * 4) n) = unat n div 16 ^ i"
    by (simp only: unsigned_drop_bit_eq) (simp add: drop_bit_eq_div take_bit_eq_mod mult.commute [of i] power_mult)
  ultimately show ?thesis by simp
qed

lemma write_digits_sends:
  assumes "tx_live s"
  shows "\<exists>s' ds. write_digits s n k = Some s' \<and> sends s ds s' \<and> length ds = k \<and>
    (\<forall>a. foldl (\<lambda>a c. a * 16 + digit_value c) a ds = a * 16 ^ k + unat n mod 16 ^ k)"
  using assms
proof (induction k arbitrary: s)
  case 0
  then show ?case by (simp add: sends_def)
next
  case (Suc k)
  let ?d = "unat n div 16 ^ k mod 16"
  have ok: "digit_value (hex_digits ! ?d) = ?d" "crlf [hex_digits ! ?d] = [hex_digits ! ?d]"
    using hex_digit_ok [of ?d] by simp_all
  obtain t where t: "serial_write_char s (hex_digits ! ?d) = Some t" "sends s [hex_digits ! ?d] t"
    using serial_write_char_sends [OF Suc.prems, of "hex_digits ! ?d"] unfolding ok(2) by blast
  obtain u ds where u: "write_digits t n k = Some u" "sends t ds u" "length ds = k"
    "\<And>a. foldl (\<lambda>a c. a * 16 + digit_value c) a ds = a * 16 ^ k + unat n mod 16 ^ k"
    using Suc.IH [OF sends_live [OF Suc.prems t(2)]] by blast
  have "unat n mod 16 ^ Suc k = ?d * 16 ^ k + unat n mod 16 ^ k"
    using mod_mult2_eq [of "unat n" "16 ^ k" 16] by (simp add: mult.commute)
  then have "foldl (\<lambda>a c. a * 16 + digit_value c) a (hex_digits ! ?d # ds) =
      a * 16 ^ Suc k + unat n mod 16 ^ Suc k" for a
    unfolding foldl_Cons u(4) ok(1) by (simp only: power_Suc) (simp add: algebra_simps)
  moreover have "sends s (hex_digits ! ?d # ds) u"
    using sends_trans [OF t(2) u(2)] by simp
  moreover have "write_digits s n (Suc k) = Some u"
    using t(1) u(1) by (simp add: hex_nibble)
  ultimately show ?case
    using u(3) by (intro exI [of _ u] exI [of _ "hex_digits ! ?d # ds"]) simp
qed

lemma serial_write_hex_sends:
  assumes "tx_live s"
  shows "\<exists>s' ds. serial_write_hex s n = Some s' \<and> sends s ([48, 120] @ ds) s' \<and>
    length ds = 8 \<and> hex_value ds = unat n"
proof -
  have "bytes_of ''0x'' = [48, 120]" "crlf [48, 120] = [48, 120]"
    by (simp_all add: bytes_of_def crlf_def)
  then obtain t where t: "serial_write_string s (bytes_of ''0x'') = Some t" "sends s [48, 120] t"
    using serial_write_string_sends [OF assms, of "[48, 120]"] by auto
  obtain u ds where u: "write_digits t n 8 = Some u" "sends t ds u" "length ds = 8"
    "foldl (\<lambda>a c. a * 16 + digit_value c) 0 ds = 0 * 16 ^ 8 + unat n mod 16 ^ 8"
    using write_digits_sends [OF sends_live [OF assms t(2)], of n 8] by metis
  have "hex_value ds = unat n"
    unfolding hex_value_def u(4) by simp
  then show ?thesis
    using t(1) u sends_trans [OF t(2) u(2)] by (auto simp: serial_write_hex_def)
qed

text \<open>With a transmitter that becomes ready again and again, \<open>serial_write_hex\<close> returns and
  sends \<open>0x\<close> and eight digits from which the number can be read back.\<close>

theorem serial_hex_roundtrip:
  assumes "tx_live s"
  shows "\<exists>s' ds. serial_write_hex s n = Some s' \<and> sends s ([48, 120] @ ds) s' \<and>
    length ds = 8 \<and> hex_value ds = unat n"
  by (rule serial_write_hex_sends [OF assms])

section \<open>The interrupt controllers\<close>

abbreviation PIC1_CMD :: u16 where "PIC1_CMD \<equiv> 0x20"
abbreviation PIC1_DATA :: u16 where "PIC1_DATA \<equiv> 0x21"
abbreviation PIC2_CMD :: u16 where "PIC2_CMD \<equiv> 0xA0"
abbreviation PIC2_DATA :: u16 where "PIC2_DATA \<equiv> 0xA1"

definition io_wait :: "io_state \<Rightarrow> io_state" where
  "io_wait s = outb s 0x80 0"

definition pic_remap :: "io_state \<Rightarrow> io_state" where
  "pic_remap s =
     (let (mask1, s) = inb s PIC1_DATA;
          (mask2, s) = inb s PIC2_DATA;
          s = io_wait (outb s PIC1_CMD 0x11);
          s = io_wait (outb s PIC2_CMD 0x11);
          s = io_wait (outb s PIC1_DATA 0x20);
          s = io_wait (outb s PIC2_DATA 0x28);
          s = io_wait (outb s PIC1_DATA 0x04);
          s = io_wait (outb s PIC2_DATA 0x02);
          s = io_wait (outb s PIC1_DATA 0x01);
          s = io_wait (outb s PIC2_DATA 0x01);
          s = outb s PIC1_DATA mask1
      in outb s PIC2_DATA mask2)"

definition pic_send_eoi :: "io_state \<Rightarrow> u8 \<Rightarrow> io_state" where
  "pic_send_eoi s irq =
     (let s = (if 8 \<le> irq then outb s PIC2_CMD 0x20 else s)
      in outb s PIC1_CMD 0x20)"

subsection \<open>The 8259A as the driver relies on it\<close>

text \<open>The documented registers of an 8259A: the next initialisation word it expects (0 when it
  operates), the vector base, the cascade word, the mode word, the interrupt mask and the
  requests in service. A command with bit 4 set is ICW1 and starts an initialisation, in which
  the next three data writes are ICW2 to ICW4; otherwise a data write sets the mask, and command
  \<open>0x20\<close> retires the request of highest priority, the one with the lowest number.\<close>

record pic8259 =
  expects :: nat
  vector_base :: u8
  cascade :: u8
  mode :: u8
  imr :: u8
  in_service :: "nat set"

definition pic_command :: "u8 \<Rightarrow> pic8259 \<Rightarrow> pic8259" where
  "pic_command v p =
     (if v AND 0x10 \<noteq> 0 then p\<lparr>expects := 2, imr := 0, in_service := {}\<rparr>
      else if v = 0x20 then p\<lparr>in_service := in_service p - {LEAST i. i \<in> in_service p}\<rparr>
      else p)"

definition pic_data :: "u8 \<Rightarrow> pic8259 \<Rightarrow> pic8259" where
  "pic_data v p =
     (if expects p = 2 then p\<lparr>vector_base := v AND 0xF8, expects := 3\<rparr>
      else if expects p = 3 then p\<lparr>cascade := v, expects := 4\<rparr>
      else if expects p = 4 then p\<lparr>mode := v, expects := 0\<rparr>
      else p\<lparr>imr := v\<rparr>)"

text \<open>What a sequence of port writes does to the chip at a pair of ports.\<close>

definition pic_write :: "u16 \<Rightarrow> u16 \<Rightarrow> u16 \<times> u8 \<Rightarrow> pic8259 \<Rightarrow> pic8259" where
  "pic_write cmd data w p =
     (if fst w = cmd then pic_command (snd w) p else if fst w = data then pic_data (snd w) p else p)"

definition pic_after :: "u16 \<Rightarrow> u16 \<Rightarrow> (u16 \<times> u8) list \<Rightarrow> pic8259 \<Rightarrow> pic8259" where
  "pic_after cmd data ws = fold (pic_write cmd data) ws"

lemmas pic_simps = pic_after_def pic_write_def pic_command_def pic_data_def

lemma pic_remap_writes:
  "\<exists>ws. outs (pic_remap s) = outs s @ ws \<and>
     pic_after PIC1_CMD PIC1_DATA ws p =
       p\<lparr>expects := 0, vector_base := 0x20, cascade := 4, mode := 1, in_service := {},
         imr := answer s (reads s) PIC1_DATA\<rparr> \<and>
     pic_after PIC2_CMD PIC2_DATA ws q =
       q\<lparr>expects := 0, vector_base := 0x28, cascade := 2, mode := 1, in_service := {},
         imr := answer s (Suc (reads s)) PIC2_DATA\<rparr>"
  by (simp add: pic_remap_def io_wait_def inb_def Let_def pic_simps)

lemma eoi_writes:
  "outs (pic_send_eoi s irq) = outs s @ (if 8 \<le> irq then [(PIC2_CMD, 0x20), (PIC1_CMD, 0x20)] else [(PIC1_CMD, 0x20)])"
  by (simp add: pic_send_eoi_def Let_def)

text \<open>The vector of an interrupt request line, through the cascade on line 2.\<close>

definition irq_vector :: "pic8259 \<Rightarrow> pic8259 \<Rightarrow> nat \<Rightarrow> nat" where
  "irq_vector p q irq = (if irq < 8 then unat (vector_base p) + irq else unat (vector_base q) + (irq - 8))"

text \<open>C22: \<open>pic_remap\<close> programs both controllers completely: request \<open>n\<close> raises vector \<open>32 + n\<close>, the
  cascade is on line 2, the masks are the ones read before, and an end-of-interrupt for \<open>n\<close>
  retires it, on both chips when it came through the slave.\<close>

theorem pic_remap_correct:
  fixes p q :: pic8259
  assumes "answer s (reads s) PIC1_DATA = imr p" "answer s (Suc (reads s)) PIC2_DATA = imr q" "n < 16"
  shows "\<exists>ws. outs (pic_remap s) = outs s @ ws \<and>
    (let p' = pic_after PIC1_CMD PIC1_DATA ws p; q' = pic_after PIC2_CMD PIC2_DATA ws q in
      irq_vector p' q' n = 32 + n \<and> imr p' = imr p \<and> imr q' = imr q \<and>
      expects p' = 0 \<and> expects q' = 0 \<and> cascade p' = 2 ^ 2 \<and> cascade q' = 2 \<and>
      (\<forall>t. \<exists>es. outs (pic_send_eoi t (of_nat n)) = outs t @ es \<and>
        in_service (pic_after PIC1_CMD PIC1_DATA es (p'\<lparr>in_service := {if n < 8 then n else 2}\<rparr>)) = {} \<and>
        in_service (pic_after PIC2_CMD PIC2_DATA es (q'\<lparr>in_service := (if n < 8 then {} else {n - 8})\<rparr>)) = {}))"
proof -
  obtain ws where ws: "outs (pic_remap s) = outs s @ ws"
    "pic_after PIC1_CMD PIC1_DATA ws p =
       p\<lparr>expects := 0, vector_base := 0x20, cascade := 4, mode := 1, in_service := {}, imr := imr p\<rparr>"
    "pic_after PIC2_CMD PIC2_DATA ws q =
       q\<lparr>expects := 0, vector_base := 0x28, cascade := 2, mode := 1, in_service := {}, imr := imr q\<rparr>"
    using pic_remap_writes [of s p q] assms(1,2) by auto
  have irq: "8 \<le> (of_nat n :: u8) \<longleftrightarrow> 8 \<le> n"
    using assms(3) by (simp add: word_le_nat_alt unat_of_nat)
  have least: "(LEAST i. i = k) = k" for k :: nat
    by (rule Least_equality) simp_all
  show ?thesis
    unfolding Let_def
    by (intro exI [of _ ws] conjI ws(1); unfold ws(2,3))
      (use assms(3) in \<open>auto simp: irq_vector_def eoi_writes irq pic_simps least\<close>)
qed

section \<open>Examples\<close>

definition io_example :: io_state where
  "io_example = \<lparr>answer = (\<lambda>n p. if p = COM1_PORT + 5 \<and> even n then 0x60 else 0xFB), reads = 0, outs = []\<rparr>"

lemma io_example_live: "tx_live io_example"
  unfolding tx_live_def
proof
  fix n
  show "\<exists>k\<ge>n. answer io_example k (COM1_PORT + 5) AND 0x20 \<noteq> 0"
    by (rule exI [of _ "2 * n"]) (simp add: io_example_def)
qed

theorem serial_hex_roundtrip_witness:
  "\<exists>s' ds. serial_write_hex io_example 0xC0FFEE = Some s' \<and> sends io_example ([48, 120] @ ds) s' \<and>
    length ds = 8 \<and> hex_value ds = 0xC0FFEE"
  using serial_hex_roundtrip [OF io_example_live, of "0xC0FFEE"] by simp

theorem pic_remap_correct_witness:
  "\<exists>ws. outs (pic_remap io_example) = outs io_example @ ws \<and>
    imr (pic_after PIC1_CMD PIC1_DATA ws \<lparr>expects = 0, vector_base = 8, cascade = 0, mode = 0, imr = 0xFB, in_service = {}\<rparr>) = 0xFB"
proof -
  let ?p = "\<lparr>expects = 0, vector_base = 8, cascade = 0, mode = 0, imr = 0xFB, in_service = {}\<rparr> :: pic8259"
  show ?thesis
    using pic_remap_correct [of io_example ?p ?p 12] unfolding Let_def by (auto simp: io_example_def)
qed

end
