(* ===== verification/Descriptors.thy ===== *)
theory Descriptors
  imports Kumo_Prelude
begin

text \<open>
  The tables the CPU consults for privilege and interrupts: \<open>arch/x86/gdt.c\<close>, \<open>arch/x86/idt.c\<close> and
  \<open>arch/x86/tss.c\<close>. Descriptors are records with the fields of the packed C structs. Addresses the
  linker chooses (tables and assembly entry points) are the fields of a \<open>link_map\<close>. The decoding
  functions say how the CPU reads a descriptor, after the Intel manual the headers cite.
\<close>

section \<open>Types\<close>

record gdt_entry =
  limit_low :: u16
  base_low :: u16
  base_mid :: u8
  access :: u8
  granularity :: u8
  base_high :: u8

record idt_entry =
  offset_low :: u16
  selector :: u16
  reserved :: u8
  type_attr :: u8
  offset_high :: u16

record table_ptr =
  tp_limit :: u16
  tp_base :: u32

record tss =
  prev_tss :: u32
  tss_esp0 :: u32
  tss_ss0 :: u32
  tss_esp1 :: u32
  tss_ss1 :: u32
  tss_esp2 :: u32
  tss_ss2 :: u32
  tss_cr3 :: u32
  tss_eip :: u32
  tss_eflags :: u32
  tss_eax :: u32
  tss_ecx :: u32
  tss_edx :: u32
  tss_ebx :: u32
  tss_esp :: u32
  tss_ebp :: u32
  tss_esi :: u32
  tss_edi :: u32
  tss_es :: u32
  tss_cs :: u32
  tss_ss :: u32
  tss_ds :: u32
  tss_fs :: u32
  tss_gs :: u32
  tss_ldt :: u32
  tss_trap :: u16
  tss_iomap_base :: u16

text \<open>Addresses of the linked image.\<close>

record link_map =
  gdt_addr :: u32
  idt_addr :: u32
  tss_addr :: u32
  isr_entry :: "nat \<Rightarrow> u32"
  isr_stub :: u32
  irq0_entry :: u32
  irq12_entry :: u32
  syscall_handler :: u32
  return_to_ring3 :: u32

text \<open>The tables, and the registers loaded from them: GDTR, IDTR, TR, CS and the data segment
  registers, which are always loaded together.\<close>

record cpu_tables =
  gdt :: "gdt_entry list"
  gdtr :: table_ptr
  reg_cs :: u16
  reg_ds :: u16
  idt :: "idt_entry list"
  idtr :: table_ptr
  g_tss :: tss
  reg_tr :: u16

abbreviation KERNEL_CS :: u16 where "KERNEL_CS \<equiv> 0x08"
abbreviation KERNEL_DS :: u16 where "KERNEL_DS \<equiv> 0x10"
abbreviation USER_CS :: u16 where "USER_CS \<equiv> 0x1B"
abbreviation USER_DS :: u16 where "USER_DS \<equiv> 0x23"

section \<open>The global descriptor table\<close>

definition gdt_set_entry :: "nat \<Rightarrow> u32 \<Rightarrow> u32 \<Rightarrow> u8 \<Rightarrow> u8 \<Rightarrow> cpu_tables \<Rightarrow> cpu_tables" where
  "gdt_set_entry i base limit acc gran c =
     c\<lparr>gdt := (gdt c)[i :=
        \<lparr>limit_low = ucast (limit AND 0xFFFF),
         base_low = ucast (base AND 0xFFFF),
         base_mid = ucast (drop_bit 16 base AND 0xFF),
         access = acc,
         granularity = (ucast (drop_bit 16 limit) AND 0x0F) OR (gran AND 0xF0),
         base_high = ucast (drop_bit 24 base AND 0xFF)\<rparr>]\<rparr>"

definition load_gdtr :: "link_map \<Rightarrow> cpu_tables \<Rightarrow> cpu_tables" where
  "load_gdtr lm c = c\<lparr>gdtr := \<lparr>tp_limit = 6 * 8 - 1, tp_base = gdt_addr lm\<rparr>, reg_ds := 0x10, reg_cs := 0x08\<rparr>"

definition gdt_init :: "link_map \<Rightarrow> cpu_tables \<Rightarrow> cpu_tables" where
  "gdt_init lm c =
     (let c = gdt_set_entry 0 0 0 0 0 c;
          c = gdt_set_entry 1 0 0xFFFFF 0x9A 0xCF c;
          c = gdt_set_entry 2 0 0xFFFFF 0x92 0xCF c;
          c = gdt_set_entry 3 0 0xFFFFF 0xFA 0xCF c;
          c = gdt_set_entry 4 0 0xFFFFF 0xF2 0xCF c;
          c = gdt_set_entry 5 0 0 0 0 c
      in load_gdtr lm c)"

definition gdt_set_tss :: "link_map \<Rightarrow> u32 \<Rightarrow> u32 \<Rightarrow> cpu_tables \<Rightarrow> cpu_tables" where
  "gdt_set_tss lm base limit c =
     load_gdtr lm (c\<lparr>gdt := (gdt c)[5 :=
        \<lparr>limit_low = ucast (limit AND 0xFFFF),
         base_low = ucast (base AND 0xFFFF),
         base_mid = ucast (drop_bit 16 base AND 0xFF),
         access = 0x89,
         granularity = 0x00,
         base_high = ucast (drop_bit 24 base AND 0xFF)\<rparr>]\<rparr>)"

section \<open>The task state segment\<close>

definition tss_zero :: tss where
  "tss_zero = \<lparr>prev_tss = 0, tss_esp0 = 0, tss_ss0 = 0, tss_esp1 = 0, tss_ss1 = 0, tss_esp2 = 0,
     tss_ss2 = 0, tss_cr3 = 0, tss_eip = 0, tss_eflags = 0, tss_eax = 0, tss_ecx = 0, tss_edx = 0,
     tss_ebx = 0, tss_esp = 0, tss_ebp = 0, tss_esi = 0, tss_edi = 0, tss_es = 0, tss_cs = 0,
     tss_ss = 0, tss_ds = 0, tss_fs = 0, tss_gs = 0, tss_ldt = 0, tss_trap = 0, tss_iomap_base = 0\<rparr>"

definition sizeof_tss :: u32 where
  "sizeof_tss = 25 * 4 + 2 * 2"

definition tss_init :: "link_map \<Rightarrow> cpu_tables \<Rightarrow> cpu_tables" where
  "tss_init lm c =
     (let c = c\<lparr>g_tss := tss_zero\<lparr>tss_ss0 := ucast KERNEL_DS, tss_esp0 := 0,
                                 tss_iomap_base := ucast sizeof_tss\<rparr>\<rparr>;
          c = gdt_set_tss lm (tss_addr lm) (sizeof_tss - 1) c
      in c\<lparr>reg_tr := 0x28\<rparr>)"

definition tss_set_esp0 :: "u32 \<Rightarrow> cpu_tables \<Rightarrow> cpu_tables" where
  "tss_set_esp0 v c = c\<lparr>g_tss := (g_tss c)\<lparr>tss_esp0 := v\<rparr>\<rparr>"

section \<open>The interrupt descriptor table\<close>

definition idt_set_gate :: "nat \<Rightarrow> u32 \<Rightarrow> u16 \<Rightarrow> u8 \<Rightarrow> cpu_tables \<Rightarrow> cpu_tables" where
  "idt_set_gate v handler sel attr c =
     c\<lparr>idt := (idt c)[v :=
        \<lparr>offset_low = ucast (handler AND 0xFFFF),
         selector = sel,
         reserved = 0,
         type_attr = attr,
         offset_high = ucast (drop_bit 16 handler AND 0xFFFF)\<rparr>]\<rparr>"

definition idt_init :: "link_map \<Rightarrow> cpu_tables \<Rightarrow> cpu_tables" where
  "idt_init lm c =
     (let c = fold (\<lambda>i. idt_set_gate i (if i < 32 then isr_entry lm i else isr_stub lm) KERNEL_CS 0x8E) [0..<256] c
      in c\<lparr>idtr := \<lparr>tp_limit = 256 * 8 - 1, tp_base = idt_addr lm\<rparr>\<rparr>)"

section \<open>How the CPU reads a descriptor\<close>

definition seg_base :: "gdt_entry \<Rightarrow> u32" where
  "seg_base e = ucast (base_low e) OR push_bit 16 (ucast (base_mid e)) OR push_bit 24 (ucast (base_high e))"

text \<open>The 20-bit limit, and the last valid offset: with the G bit the limit counts 4 KB units.\<close>

definition seg_limit20 :: "gdt_entry \<Rightarrow> u32" where
  "seg_limit20 e = ucast (limit_low e) OR push_bit 16 (ucast (granularity e AND 0x0F))"

definition seg_limit :: "gdt_entry \<Rightarrow> u32" where
  "seg_limit e = (if bit (granularity e) 7 then push_bit 12 (seg_limit20 e) OR 0xFFF else seg_limit20 e)"

definition seg_present :: "gdt_entry \<Rightarrow> bool" where
  "seg_present e \<longleftrightarrow> bit (access e) 7"

definition dpl_of :: "u8 \<Rightarrow> u8" where
  "dpl_of b = drop_bit 5 b AND 3"

definition seg_code :: "gdt_entry \<Rightarrow> bool" where
  "seg_code e \<longleftrightarrow> bit (access e) 4 \<and> bit (access e) 3"

definition seg_data :: "gdt_entry \<Rightarrow> bool" where
  "seg_data e \<longleftrightarrow> bit (access e) 4 \<and> \<not> bit (access e) 3 \<and> bit (access e) 1"

definition gate_handler :: "idt_entry \<Rightarrow> u32" where
  "gate_handler g = ucast (offset_low g) OR push_bit 16 (ucast (offset_high g))"

text \<open>The descriptor a selector names, and the privilege level it requests.\<close>

definition descriptor :: "cpu_tables \<Rightarrow> u16 \<Rightarrow> gdt_entry" where
  "descriptor c sel = gdt c ! unat (drop_bit 3 sel)"

definition rpl :: "u16 \<Rightarrow> u8" where
  "rpl sel = ucast (sel AND 3)"

text \<open>A software interrupt from privilege level 3 is let through only by a present gate of DPL 3.\<close>

definition user_may_raise :: "cpu_tables \<Rightarrow> nat \<Rightarrow> bool" where
  "user_may_raise c v \<longleftrightarrow> v < length (idt c) \<and> bit (type_attr (idt c ! v)) 7 \<and> dpl_of (type_attr (idt c ! v)) = 3"

section \<open>Round trips\<close>

lemma low_masks:
  "(x :: u32) AND 0xFFFF = take_bit 16 x" "(x :: u32) AND 0xFF = take_bit 8 x"
  "(x :: u32) AND 0xFFFFF = take_bit 20 x" "(b :: u8) AND 0x0F = take_bit 4 b"
  by (simp_all add: take_bit_eq_mask mask_eq_exp_minus_1)

lemma bit_0xF0: "bit (0xF0 :: int) n \<longleftrightarrow> 4 \<le> n \<and> n < 8"
proof -
  have "(0xF0 :: int) = push_bit 4 (mask 4)"
    by (simp add: mask_eq_exp_minus_1)
  then show ?thesis
    by (simp only: bit_simps) auto
qed

lemma split_word32:
  "(x :: u32) = ucast (ucast (x AND 0xFFFF) :: u16) OR push_bit 16 (ucast (ucast (drop_bit 16 x AND 0xFFFF) :: u16))"
  "(x :: u32) = ucast (ucast (x AND 0xFFFF) :: u16) OR push_bit 16 (ucast (ucast (drop_bit 16 x AND 0xFF) :: u8))
     OR push_bit 24 (ucast (ucast (drop_bit 24 x AND 0xFF) :: u8))"
proof -
  show "x = ucast (ucast (x AND 0xFFFF) :: u16) OR push_bit 16 (ucast (ucast (drop_bit 16 x AND 0xFFFF) :: u16))"
    unfolding low_masks by (rule bit_word_eqI) (auto simp: bit_simps)
  show "x = ucast (ucast (x AND 0xFFFF) :: u16) OR push_bit 16 (ucast (ucast (drop_bit 16 x AND 0xFF) :: u8))
      OR push_bit 24 (ucast (ucast (drop_bit 24 x AND 0xFF) :: u8))"
    unfolding low_masks
  proof (rule bit_word_eqI)
    fix n :: nat assume "n < LENGTH(32)"
    then consider "n < 16" | "16 \<le> n" "n < 24" | "24 \<le> n" "n < 32" by fastforce
    then show "bit x n = bit (ucast (ucast (take_bit 16 x) :: u16) OR
        push_bit 16 (ucast (ucast (take_bit 8 (drop_bit 16 x)) :: u8)) OR
        push_bit 24 (ucast (ucast (take_bit 8 (drop_bit 24 x)) :: u8)) :: u32) n"
      by cases (auto simp: bit_simps)
  qed
qed

text \<open>the CPU reads back from a segment descriptor the base, the 20-bit limit, the flags and the
  access byte given to \<open>gdt_set_entry\<close>, from the TSS descriptor its base and 16-bit limit, and from
  a gate its handler; no other entry changes.\<close>

theorem descriptor_roundtrip:
  "(\<forall>i<length (gdt c). \<forall>j<length (gdt c). let e = gdt (gdt_set_entry i base limit acc gran c) ! j in
      if j = i then seg_base e = base \<and> seg_limit20 e = limit AND 0xFFFFF \<and>
        granularity e AND 0xF0 = gran AND 0xF0 \<and> access e = acc
      else e = gdt c ! j) \<and>
   (5 < length (gdt c) \<longrightarrow> (let e = gdt (gdt_set_tss lm base limit c) ! 5 in
      seg_base e = base \<and> seg_limit e = limit AND 0xFFFF \<and> dpl_of (access e) = 0)) \<and>
   (\<forall>v<length (idt c). \<forall>w<length (idt c). let g = idt (idt_set_gate v handler sel attr c) ! w in
      if w = v then gate_handler g = handler \<and> selector g = sel \<and> type_attr g = attr else g = idt c ! w)"
proof -
  have limit20: "ucast (ucast (limit AND 0xFFFF) :: u16) OR
      push_bit 16 (ucast ((ucast (drop_bit 16 limit) AND 0x0F OR gran AND 0xF0) AND (0x0F :: u8))) = limit AND 0xFFFFF"
    unfolding low_masks by (rule bit_word_eqI) (auto simp: bit_simps bit_0xF0)
  have flags: "((ucast (drop_bit 16 limit) AND 0x0F) OR (gran AND 0xF0)) AND 0xF0 = gran AND (0xF0 :: u8)"
    unfolding low_masks by (rule bit_word_eqI) (auto simp: bit_simps bit_0xF0)
  have limit16: "ucast (ucast (limit AND 0xFFFF) :: u16) = limit AND 0xFFFF"
    unfolding low_masks by (rule bit_word_eqI) (auto simp: bit_simps)
  show ?thesis
    by (auto simp: gdt_set_entry_def gdt_set_tss_def load_gdtr_def idt_set_gate_def Let_def seg_base_def seg_limit20_def
        seg_limit_def dpl_of_def gate_handler_def nth_list_update limit20 [unfolded limit16] flags limit16 split_word32 [symmetric])
qed

section \<open>The tables at run time\<close>

text \<open>The calls of \<open>kmain\<close> that fill the tables: \<open>gdt_init\<close>, \<open>idt_init\<close>, the gates of the timer
  (\<open>irq_init\<close>) and, with a framebuffer, of the mouse (\<open>mouse_init\<close>), \<open>tss_init\<close>, and the system call
  gate.\<close>

definition boot_tables :: "link_map \<Rightarrow> bool \<Rightarrow> cpu_tables \<Rightarrow> cpu_tables" where
  "boot_tables lm has_fb c =
     (let c = gdt_init lm c;
          c = idt_init lm c;
          c = idt_set_gate 32 (irq0_entry lm) 0x08 0x8E c;
          c = (if has_fb then idt_set_gate 44 (irq12_entry lm) 0x08 0x8E c else c);
          c = tss_init lm c
      in idt_set_gate 0x80 (syscall_handler lm) KERNEL_CS 0xEE c)"

text \<open>The entry point each vector must reach.\<close>

definition expected_handler :: "link_map \<Rightarrow> bool \<Rightarrow> nat \<Rightarrow> u32" where
  "expected_handler lm has_fb v =
     (if v = 0x80 then syscall_handler lm
      else if v < 32 then isr_entry lm v
      else if v = 32 then irq0_entry lm
      else if v = 44 \<and> has_fb then irq12_entry lm
      else isr_stub lm)"

text \<open>A gate holds a handler with the kernel code selector and the given attributes.\<close>

definition gate_is :: "cpu_tables \<Rightarrow> nat \<Rightarrow> u32 \<Rightarrow> u8 \<Rightarrow> bool" where
  "gate_is c v handler attr \<longleftrightarrow>
     gate_handler (idt c ! v) = handler \<and> selector (idt c ! v) = KERNEL_CS \<and> type_attr (idt c ! v) = attr"

lemma idt_set_gate_simps [simp]:
  "gdt (idt_set_gate v h sel a c) = gdt c" "length (idt (idt_set_gate v h sel a c)) = length (idt c)"
  "gdtr (idt_set_gate v h sel a c) = gdtr c" "reg_tr (idt_set_gate v h sel a c) = reg_tr c"
  "g_tss (idt_set_gate v h sel a c) = g_tss c" "reg_cs (idt_set_gate v h sel a c) = reg_cs c"
  "reg_ds (idt_set_gate v h sel a c) = reg_ds c" "idtr (idt_set_gate v h sel a c) = idtr c"
  by (simp_all add: idt_set_gate_def)

lemma gate_is_set:
  "v < length (idt c) \<Longrightarrow> gate_is (idt_set_gate v h KERNEL_CS a c) w h' a' \<longleftrightarrow>
     (if w = v then h' = h \<and> a' = a else gate_is c w h' a')"
  by (auto simp: gate_is_def idt_set_gate_def gate_handler_def split_word32(1) [symmetric])

lemma idt_fill:
  assumes "n \<le> length (idt c)"
  shows "length (idt (fold (\<lambda>i. idt_set_gate i (f i) KERNEL_CS a) [0..<n] c)) = length (idt c) \<and>
    gdt (fold (\<lambda>i. idt_set_gate i (f i) KERNEL_CS a) [0..<n] c) = gdt c \<and>
    (\<forall>v<n. gate_is (fold (\<lambda>i. idt_set_gate i (f i) KERNEL_CS a) [0..<n] c) v (f v) a)"
  using assms
proof (induction n)
  case (Suc n)
  then show ?case by (auto simp: gate_is_set less_Suc_eq)
qed simp

lemma gdt_tss_idt [simp]: "idt (gdt_init lm c) = idt c" "idt (tss_init lm c) = idt c"
  by (simp_all add: gdt_init_def tss_init_def gdt_set_tss_def load_gdtr_def gdt_set_entry_def Let_def)

lemma gate_is_gdt [simp]:
  "gate_is (gdt_init lm c) v h a = gate_is c v h a" "gate_is (tss_init lm c) v h a = gate_is c v h a"
  "gate_is (c\<lparr>idtr := x\<rparr>) v h a = gate_is c v h a"
  by (simp_all add: gate_is_def)

lemma boot_gates:
  assumes "length (idt c) = 256" "v < 256"
  shows "gate_is (boot_tables lm has_fb c) v (expected_handler lm has_fb v) (if v = 0x80 then 0xEE else 0x8E)"
    "length (idt (boot_tables lm has_fb c)) = 256"
proof -
  let ?f = "\<lambda>i. if i < 32 then isr_entry lm i else isr_stub lm"
  define d where "d = idt_init lm (gdt_init lm c)"
  have d: "length (idt d) = 256" "gate_is d v (?f v) 0x8E" if "v < 256" for v
    using idt_fill [of 256 "gdt_init lm c" ?f "0x8E"] assms(1) that by (simp_all add: d_def idt_init_def)
  then show "length (idt (boot_tables lm has_fb c)) = 256"
    using assms(2) by (simp add: boot_tables_def d_def [symmetric] Let_def)
  show "gate_is (boot_tables lm has_fb c) v (expected_handler lm has_fb v) (if v = 0x80 then 0xEE else 0x8E)"
    using d [OF assms(2)] assms(2)
    by (auto simp: boot_tables_def d_def [symmetric] Let_def gate_is_set expected_handler_def)
qed

text \<open>A flat segment: base 0, limit 4 GB.\<close>

definition flat_segment :: "gdt_entry \<Rightarrow> u8 \<Rightarrow> bool" where
  "flat_segment e privilege \<longleftrightarrow>
     seg_present e \<and> seg_base e = 0 \<and> seg_limit e = 0xFFFFFFFF \<and> dpl_of (access e) = privilege"

lemma boot_gdt:
  assumes "length (gdt c) = 6"
  shows "gdt (boot_tables lm has_fb c) =
     [\<lparr>limit_low = 0, base_low = 0, base_mid = 0, access = 0, granularity = 0, base_high = 0\<rparr>,
      \<lparr>limit_low = 0xFFFF, base_low = 0, base_mid = 0, access = 0x9A, granularity = 0xCF, base_high = 0\<rparr>,
      \<lparr>limit_low = 0xFFFF, base_low = 0, base_mid = 0, access = 0x92, granularity = 0xCF, base_high = 0\<rparr>,
      \<lparr>limit_low = 0xFFFF, base_low = 0, base_mid = 0, access = 0xFA, granularity = 0xCF, base_high = 0\<rparr>,
      \<lparr>limit_low = 0xFFFF, base_low = 0, base_mid = 0, access = 0xF2, granularity = 0xCF, base_high = 0\<rparr>,
      \<lparr>limit_low = 103, base_low = ucast (tss_addr lm AND 0xFFFF), base_mid = ucast (drop_bit 16 (tss_addr lm) AND 0xFF),
       access = 0x89, granularity = 0, base_high = ucast (drop_bit 24 (tss_addr lm) AND 0xFF)\<rparr>]"
proof -
  obtain a0 a1 a2 a3 a4 a5 where g: "gdt c = [a0, a1, a2, a3, a4, a5]"
    using assms by (auto simp: numeral_eq_Suc length_Suc_conv)
  have idt: "gdt (idt_init lm x) = gdt x" for x
    by (simp add: idt_init_def fold_invariant [where P = "\<lambda>y. gdt y = gdt x" and Q = "\<lambda>_. True"])
  show ?thesis
    by (simp add: boot_tables_def Let_def tss_init_def gdt_set_tss_def load_gdtr_def idt gdt_init_def
        gdt_set_entry_def g sizeof_tss_def)
qed

text \<open>C21: after the boot sequence every vector reaches its handler through a kernel-code gate, only
  vector \<open>0x80\<close> can be raised from user mode, the four selectors name flat segments whose privilege
  is the one the selector requests, and the TSS descriptor covers \<open>g_tss\<close>, whose stack segment is
  the kernel's and whose I/O bitmap lies outside the limit, so that user mode has no ports.\<close>

theorem boot_tables_correct:
  assumes "length (gdt c) = 6" "length (idt c) = 256"
  shows "let c' = boot_tables lm has_fb c in
    (\<forall>v<256. gate_handler (idt c' ! v) = expected_handler lm has_fb v \<and> selector (idt c' ! v) = KERNEL_CS \<and>
       (user_may_raise c' v \<longleftrightarrow> v = 0x80)) \<and>
    (\<forall>sel\<in>{KERNEL_CS, USER_CS}. flat_segment (descriptor c' sel) (rpl sel) \<and> seg_code (descriptor c' sel)) \<and>
    (\<forall>sel\<in>{KERNEL_DS, USER_DS}. flat_segment (descriptor c' sel) (rpl sel) \<and> seg_data (descriptor c' sel)) \<and>
    (let t = descriptor c' (reg_tr c') in seg_present t \<and> seg_base t = tss_addr lm \<and> seg_limit t = sizeof_tss - 1 \<and>
       seg_limit t < ucast (tss_iomap_base (g_tss c'))) \<and>
    tss_ss0 (g_tss c') = ucast KERNEL_DS"
proof -
  let ?c = "boot_tables lm has_fb c"
  have gates: "gate_handler (idt ?c ! v) = expected_handler lm has_fb v \<and> selector (idt ?c ! v) = KERNEL_CS \<and>
      (user_may_raise ?c v \<longleftrightarrow> v = 0x80)" if "v < 256" for v
    using boot_gates [OF assms(2) that, of lm has_fb] that by (auto simp: gate_is_def user_may_raise_def dpl_of_def)
  have regs: "reg_tr ?c = 0x28" "tss_iomap_base (g_tss ?c) = 104" "tss_ss0 (g_tss ?c) = 16"
    by (simp_all add: boot_tables_def Let_def tss_init_def gdt_set_tss_def load_gdtr_def sizeof_tss_def)
  have tss: "seg_base (gdt ?c ! 5) = tss_addr lm"
    by (simp add: boot_gdt [OF assms(1)] seg_base_def split_word32(2) [symmetric])
  have segs: "flat_segment (descriptor ?c sel) (rpl sel) \<and> seg_code (descriptor ?c sel)" if "sel \<in> {KERNEL_CS, USER_CS}" for sel
    using that by (auto simp: descriptor_def boot_gdt [OF assms(1)] flat_segment_def seg_present_def seg_base_def
        seg_limit_def seg_limit20_def dpl_of_def rpl_def seg_code_def)
  have data: "flat_segment (descriptor ?c sel) (rpl sel) \<and> seg_data (descriptor ?c sel)" if "sel \<in> {KERNEL_DS, USER_DS}" for sel
    using that by (auto simp: descriptor_def boot_gdt [OF assms(1)] flat_segment_def seg_present_def seg_base_def
        seg_limit_def seg_limit20_def dpl_of_def rpl_def seg_data_def)
  have t: "seg_present (gdt ?c ! 5)" "seg_limit (gdt ?c ! 5) = 103"
    by (simp_all add: boot_gdt [OF assms(1)] seg_present_def seg_limit_def seg_limit20_def)
  show ?thesis
    unfolding Let_def using gates segs data tss t by (simp add: descriptor_def regs sizeof_tss_def)
qed

section \<open>Examples\<close>

definition tables_example :: cpu_tables where
  "tables_example = \<lparr>gdt = replicate 6 \<lparr>limit_low = 0, base_low = 0, base_mid = 0, access = 0, granularity = 0, base_high = 0\<rparr>,
     gdtr = \<lparr>tp_limit = 0, tp_base = 0\<rparr>, reg_cs = 8, reg_ds = 16,
     idt = replicate 256 \<lparr>offset_low = 0, selector = 0, reserved = 0, type_attr = 0, offset_high = 0\<rparr>,
     idtr = \<lparr>tp_limit = 0, tp_base = 0\<rparr>, g_tss = tss_zero, reg_tr = 0\<rparr>"

definition link_example :: link_map where
  "link_example = \<lparr>gdt_addr = 0x110000, idt_addr = 0x110100, tss_addr = 0x110900,
     isr_entry = (\<lambda>i. 0x101000 + 16 * of_nat i), isr_stub = 0x102000, irq0_entry = 0x102010,
     irq12_entry = 0x102020, syscall_handler = 0x102030, return_to_ring3 = 0x102040\<rparr>"

theorem descriptor_roundtrip_witness:
  "seg_base (gdt (gdt_set_entry 1 0xDEADBEEF 0xFFFFF 0x9A 0xCF tables_example) ! 1) = 0xDEADBEEF"
  using descriptor_roundtrip [of tables_example "0xDEADBEEF" "0xFFFFF" "0x9A" "0xCF"] by (simp add: tables_example_def Let_def)

theorem boot_tables_correct_witness:
  "gate_handler (idt (boot_tables link_example True tables_example) ! 44) = 0x102020 \<and>
   \<not> user_may_raise (boot_tables link_example True tables_example) 44"
  using boot_tables_correct [of tables_example link_example True] unfolding Let_def
  by (auto simp: tables_example_def expected_handler_def link_example_def)

end
