(* ===== verification/Heap_Frame.thy ===== *)
theory Heap_Frame
  imports Paging
begin

text \<open>
  What the heap, the page allocator and the page-table functions leave alone: \<open>kmalloc\<close> writes only
  bytes of the heap and of free kernel pages, and keeps every field of an extended state; a write
  to pages the heap does not own keeps the heap; marking a page in a task's directory writes only
  pages the allocator handed out. These are the facts that let the clients of several allocators
  be verified one by one.
\<close>

section \<open>kmalloc\<close>

text \<open>Only the bytes in \<open>X\<close> may change.\<close>

definition changes_only :: "nat set \<Rightarrow> mem \<Rightarrow> mem \<Rightarrow> bool" where
  "changes_only X m m' \<longleftrightarrow> (\<forall>x. unat x \<notin> X \<longrightarrow> m' x = m x)"

lemma changes_only_refl [simp]: "changes_only X m m"
  by (simp add: changes_only_def)

lemma changes_only_trans: "changes_only X m m1 \<Longrightarrow> changes_only Y m1 m2 \<Longrightarrow> X \<subseteq> Z \<Longrightarrow> Y \<subseteq> Z \<Longrightarrow> changes_only Z m m2"
  unfolding changes_only_def by (metis subsetD)

lemma changes_only_mono: "changes_only X m m' \<Longrightarrow> X \<subseteq> Y \<Longrightarrow> changes_only Y m m'"
  by (auto simp: changes_only_def)

lemma only_headers_changes:
  assumes "only_headers m m' F" "\<And>f. f \<in> F \<Longrightarrow> {unat f..<unat f + 16} \<subseteq> X"
  shows "changes_only X m m'"
  unfolding changes_only_def
proof (intro allI impI)
  fix x :: u32 assume x: "unat x \<notin> X"
  have "unat x < unat f \<or> unat f + 16 \<le> unat x" if "f \<in> F" for f
    using assms(2) [OF that] x by (meson atLeastLessThan_iff not_le subsetD)
  then show "m' x = m x"
    using assms(1) by (simp add: only_headers_def)
qed

lemma header_in_extent: "heap_core m B \<Longrightarrow> b \<in> B \<Longrightarrow> {unat b..<unat b + 16} \<subseteq> extent m b"
  by (auto simp: heap_core_def block_ok_def extent_def)

lemma take_block_changes:
  assumes wf: "heap_wf (memory s) (free_head s) B fs" and b: "b \<in> set fs"
    and need: "16 \<le> unat needed" "8 dvd unat needed" "needed \<le> get (memory s) b Size"
  shows "changes_only (\<Union>(extent (memory s) ` B)) (memory s) (memory (take_block s b needed))"
proof -
  obtain xs ys where fsd: "fs = xs @ b # ys"
    using b by (auto simp: in_set_conv_decomp)
  let ?m = "memory s" let ?m' = "memory (take_block s b needed)"
  have core: "heap_core ?m B" and l: "dll ?m (free_head s) (xs @ b # ys)"
    and d: "distinct (xs @ b # ys)" and fs: "set (xs @ b # ys) = {b \<in> B. get ?m b Free \<noteq> 0}"
    using wf fsd by (auto simp: heap_wf_def)
  have H: "headers B" "set (xs @ b # ys) \<subseteq> B" "b \<in> B"
    using core_headers [OF core] fs by auto
  have inB: "{unat f..<unat f + 16} \<subseteq> \<Union>(extent ?m ` B)" if "f \<in> B" for f
    using header_in_extent [OF core that] that by blast
  show ?thesis
  proof (cases "get ?m b Size - needed \<ge> 16")
    case False
    note e = fl_remove_effect [OF H(1,2) d l]
    have t: "?m' = put (memory (fl_remove s b)) b Free 0"
      using False by (simp add: take_block_def Let_def)
    have "only_headers ?m ?m' (set (xs @ b # ys))"
      unfolding t using H by (auto intro!: only_headers_put_trans only_headers_trans [OF e(4) only_headers_refl] simp: headers_def)
    then show ?thesis
      by (rule only_headers_changes) (use H inB in blast)
  next
    case True
    let ?r = "b + needed"
    have n16: "unat needed + 16 \<le> unat (get ?m b Size)"
      using need(3) True unat_sub_no_wrap [OF need(3)] by (simp add: word_le_nat_alt)
    note r = remainder_header [OF core H(3) need(1,2) n16]
    have sub': "set (xs @ b # ys) \<subseteq> insert ?r B" "?r \<notin> set (xs @ b # ys)"
      using H(2) r(1) by blast+
    note e = split_effect(4) [OF r(2) sub'(1) insertI1 d sub'(2) l refl True]
    have bok: "block_ok ?m b"
      using core H(3) by (auto simp: heap_core_def)
    have "unat ?r = unat b + unat needed"
      using bok n16 by (intro unat_add_no_wrap) (simp add: block_ok_def)
    then have "{unat ?r..<unat ?r + 16} \<subseteq> extent ?m b"
      using n16 by (auto simp: extent_def)
    then have rx: "{unat ?r..<unat ?r + 16} \<subseteq> \<Union>(extent ?m ` B)"
      using H(3) by blast
    have "{unat f..<unat f + 16} \<subseteq> \<Union>(extent ?m ` B)" if "f \<in> set (xs @ b # ?r # ys)" for f
    proof (cases "f = ?r")
      case False
      then have "f \<in> B"
        using that H(2) by auto
      then show ?thesis
        by (rule inB)
    qed (simp only: rx)
    then show ?thesis
      by (rule only_headers_changes [OF e])
  qed
qed

lemma add_pages_changes:
  assumes wf: "heap_wf (memory s) (free_head s) B fs"
    and i: "{i..<i + unat n} \<subseteq> kernel_zone" "n \<noteq> 0"
    and clear: "\<Union>(extent (memory s) ` B) \<inter> page_bytes {i..<i + unat n} = {}"
  shows "changes_only (\<Union>(extent (memory s) ` B) \<union> page_bytes {i..<i + unat n})
     (memory s) (memory (add_pages s (page_addr i) n))"
proof -
  let ?b = "page_addr i" let ?m = "memory s"
  have n0: "0 < unat n"
    using i(2) by (simp add: unat_gt_0)
  then have "i + unat n - 1 \<in> kernel_zone"
    using i(1) by (intro subsetD [OF i(1)]) simp
  then have n: "i + unat n \<le> 1792"
    using n0 by simp
  have b: "unat ?b = 0x100000 + 4096 * i"
    using n n0 by (intro unat_page_addr) simp
  have core: "heap_core ?m B" and l: "dll ?m (free_head s) fs" and d: "distinct fs"
    and fs: "set fs = {c \<in> B. get ?m c Free \<noteq> 0}"
    using wf by (auto simp: heap_wf_def)
  have hdr: "header_ok ?b" "?b \<noteq> 0"
    using b n n0 by (auto simp: header_ok_def u32_eq_iff intro!: dvd_add)
  have hb: "{unat ?b..<unat ?b + 16} \<subseteq> page_bytes {i..<i + unat n}"
    unfolding b page_bytes_ivl using n0 by auto
  then have H: "headers (insert ?b B)" "?b \<notin> B"
    using headers_insert [OF core hdr] clear by blast+
  let ?s1 = "s\<lparr>memory := put ?m ?b Size (n * 4096)\<rparr>"
  have g1: "c \<in> insert ?b B \<Longrightarrow> get (memory ?s1) c f = (if c = ?b \<and> f = Size then n * 4096 else get ?m c f)" for c f
    using H(1) by (simp add: get_put_headers)
  have fsB: "set fs \<subseteq> insert ?b B" "?b \<notin> set fs"
    using fs H(2) by auto
  have "get ?m x Next = get (memory ?s1) x Next \<and> get ?m x Prev = get (memory ?s1) x Prev" if "x \<in> set fs" for x
    using g1 [of x] that fsB by auto
  then have l1: "dll (memory ?s1) (free_head ?s1) fs"
    using l dll_cong [of fs ?m "memory ?s1"] by simp
  note e = fl_insert_effect(4) [OF H(1) insertI1 fsB(1) l1 d fsB(2)]
  have "memory (add_pages s ?b n) = memory (fl_insert ?s1 ?b)"
    by (simp add: add_pages_def Let_def)
  then have "only_headers ?m (memory (add_pages s ?b n)) (insert ?b (set fs))"
    using hdr(1) e by (auto intro!: only_headers_trans [OF only_headers_put [of ?b "insert ?b (set fs)" ?m Size "n * 4096"]])
  then show ?thesis
  proof (rule only_headers_changes)
    fix f assume "f \<in> insert ?b (set fs)"
    then show "{unat f..<unat f + 16} \<subseteq> \<Union>(extent ?m ` B) \<union> page_bytes {i..<i + unat n}"
      using hb fs header_in_extent [OF core, of f] by blast
  qed
qed

text \<open>The bytes of the pages the heap records in \<open>heap_pages\<close>.\<close>

definition heap_page_bytes :: "'a heap_state_scheme \<Rightarrow> nat set" where
  "heap_page_bytes s = (\<Union>p\<in>set (heap_pages s). {unat p..<unat p + 4096})"

lemma add_pages_recorded:
  assumes "{i..<i + unat n} \<subseteq> kernel_zone"
  shows "heap_page_bytes s \<union> page_bytes {i..<i + unat n} \<subseteq> heap_page_bytes (add_pages s (page_addr i) n)"
proof -
  have hp: "heap_pages (add_pages s (page_addr i) n) =
      heap_pages s @ map (\<lambda>k. page_addr i + of_nat k * PAGE_SIZE) [0..<unat n]"
    by (simp add: add_pages_def Let_def)
  have "page_bytes {i..<i + unat n} \<subseteq> heap_page_bytes (add_pages s (page_addr i) n)"
  proof
    fix x assume "x \<in> page_bytes {i..<i + unat n}"
    then obtain j where j: "i \<le> j" "j < i + unat n" "0x100000 + 4096 * j \<le> x" "x < 0x100000 + 4096 * j + 4096"
      by (auto simp: page_bytes_def)
    then have "j < 1792"
      using subsetD [OF assms, of j] by simp
    have "page_addr i + of_nat (j - i) * PAGE_SIZE = page_addr j"
      using j(1) by (simp add: page_addr_def of_nat_diff algebra_simps)
    moreover have "unat (page_addr j) = 0x100000 + 4096 * j"
      using \<open>j < 1792\<close> by (rule kernel_page_addr(1))
    ultimately have "x \<in> {unat (page_addr i + of_nat (j - i) * PAGE_SIZE)..<unat (page_addr i + of_nat (j - i) * PAGE_SIZE) + 4096}"
      using j by simp
    moreover have "j - i \<in> set [0..<unat n]"
      using j by auto
    ultimately show "x \<in> heap_page_bytes (add_pages s (page_addr i) n)"
      unfolding heap_page_bytes_def hp by auto
  qed
  moreover have "heap_page_bytes s \<subseteq> heap_page_bytes (add_pages s (page_addr i) n)"
    unfolding heap_page_bytes_def hp by auto
  ultimately show ?thesis by blast
qed

lemma heap_expand_changes:
  assumes inv: "heap_inv s B fs" and ok: "heap_expand s = (True, s')"
  obtains b where "heap_inv s' (insert b B) (b # fs)" "length (heap_pages s) + 4 = length (heap_pages s')"
    "length (heap_pages s') \<le> 256" "free_set (pmm s') \<subseteq> free_set (pmm s)"
    "changes_only (\<Union>(extent (memory s) ` B) \<union> page_bytes (free_set (pmm s) \<inter> kernel_zone)) (memory s) (memory s')"
    "\<Union>(extent (memory s') ` insert b B) \<subseteq> \<Union>(extent (memory s) ` B) \<union> page_bytes (free_set (pmm s) \<inter> kernel_zone)"
    "\<Union>(extent (memory s) ` B) \<subseteq> heap_page_bytes s \<longrightarrow> \<Union>(extent (memory s') ` insert b B) \<subseteq> heap_page_bytes s'"
proof -
  obtain p t where r: "pmm_alloc_contiguous_pages (pmm s) 4 = (p, t)"
    by fastforce
  have p: "p \<noteq> 0" and s': "s' = add_pages (s\<lparr>pmm := t\<rparr>) p 4" and len: "length (heap_pages s) + 4 \<le> 256"
    using ok r by (auto simp: heap_expand_def Let_def split: if_splits)
  have wf: "heap_wf (memory s) (free_head s) B fs" "pmm_wf (pmm s)"
    and clear: "\<Union>(extent (memory s) ` B) \<inter> page_bytes (free_set (pmm s)) = {}"
    using inv by (auto simp: heap_inv_def)
  from kernel_run.run_found [OF wf(2) r p] obtain i where i: "p = page_addr i"
    "{i..<i + 4} \<subseteq> free_set (pmm s) \<inter> kernel_zone" "pmm_wf t"
    "free_set t = free_set (pmm s) - {i..<i + 4}"
    by auto
  have pages: "page_bytes {i..<i + 4} \<subseteq> page_bytes (free_set (pmm s) \<inter> kernel_zone)"
    "page_bytes (free_set (pmm s) \<inter> kernel_zone) \<subseteq> page_bytes (free_set (pmm s))"
    "page_bytes (free_set t) \<subseteq> page_bytes (free_set (pmm s))"
    using i by (auto intro!: page_bytes_mono simp del: mem_zone)
  have apart: "page_bytes {i..<i + 4} \<inter> page_bytes (free_set t) = {}"
    using i(4) by (auto simp: mem_page_bytes)
  have h: "heap_wf (memory (s\<lparr>pmm := t\<rparr>)) (free_head (s\<lparr>pmm := t\<rparr>)) B fs"
    "{i..<i + unat (4 :: u32)} \<subseteq> kernel_zone" "(4 :: u32) \<noteq> 0"
    "\<Union>(extent (memory (s\<lparr>pmm := t\<rparr>)) ` B) \<inter> page_bytes {i..<i + unat (4 :: u32)} = {}"
  proof -
    show "\<Union>(extent (memory (s\<lparr>pmm := t\<rparr>)) ` B) \<inter> page_bytes {i..<i + unat (4 :: u32)} = {}"
      using clear order_trans [OF pages(1,2)] by simp blast
  qed (use wf i(2) in \<open>auto simp del: mem_zone\<close>)
  note a = add_pages_ok [OF h, folded i(1), folded s']
  have ch: "changes_only (\<Union>(extent (memory s) ` B) \<union> page_bytes (free_set (pmm s) \<inter> kernel_zone)) (memory s) (memory s')"
    using add_pages_changes [OF h, folded i(1), folded s'] pages(1) by (auto elim!: changes_only_mono)
  have "heap_page_bytes (s\<lparr>pmm := t\<rparr>) \<union> page_bytes {i..<i + unat (4 :: u32)} \<subseteq> heap_page_bytes s'"
    unfolding s' i(1) by (rule add_pages_recorded [OF h(2)])
  then have rec: "heap_page_bytes s \<union> page_bytes {i..<i + 4} \<subseteq> heap_page_bytes s'"
    by (simp add: heap_page_bytes_def)
  have "heap_inv s' (insert p B) (p # fs)"
    unfolding heap_inv_def using a(1,4,5) i(3) apart pages clear by auto
  then show ?thesis
    using a(4,5,6) len i(4) pages(1) ch rec by (intro that [of p]) auto
qed

lemma kmalloc_changes:
  assumes "heap_inv s B fs" "kmalloc s sz = Some (p, s')"
  shows "changes_only (\<Union>(extent (memory s) ` B) \<union> page_bytes (free_set (pmm s) \<inter> kernel_zone)) (memory s) (memory s')"
  using assms
proof (induction "256 - length (heap_pages s)" arbitrary: s B fs rule: less_induct)
  case less
  have wf: "heap_wf (memory s) (free_head s) B fs"
    using less.prems(1) by (simp add: heap_inv_def)
  show ?case
  proof (cases "find (\<lambda>b. block_need sz \<le> get (memory s) b Size) fs")
    case (Some b)
    then have b: "b \<in> set fs" "block_need sz \<le> get (memory s) b Size"
      by (auto simp: find_Some_iff)
    then have "b \<noteq> 0"
      using wf block_header by (auto simp: heap_wf_def heap_core_def)
    then have "kmalloc s sz = Some (b + 8, take_block s b (block_need sz))"
      by (subst kmalloc.simps) (simp add: first_fit_wf [OF wf] Some)
    then show ?thesis
      using take_block_changes [OF wf b(1) _ _ b(2)] unat_block_need(1) [of sz] less.prems(2)
      by (auto elim!: changes_only_mono)
  next
    case None
    obtain ok s1 where e: "heap_expand s = (ok, s1)" by fastforce
    have k: "kmalloc s sz = (if ok then kmalloc s1 sz else Some (0, s1))"
      by (subst kmalloc.simps) (simp add: first_fit_wf [OF wf] None e)
    show ?thesis
    proof (cases ok)
      case False
      then show ?thesis
        using k less.prems heap_expand_fail(1) [OF less.prems(1), of s1] e by auto
    next
      case True
      then obtain b where h: "heap_inv s1 (insert b B) (b # fs)" "length (heap_pages s) + 4 = length (heap_pages s1)"
        "length (heap_pages s1) \<le> 256" "free_set (pmm s1) \<subseteq> free_set (pmm s)"
        "changes_only (\<Union>(extent (memory s) ` B) \<union> page_bytes (free_set (pmm s) \<inter> kernel_zone)) (memory s) (memory s1)"
        "\<Union>(extent (memory s1) ` insert b B) \<subseteq> \<Union>(extent (memory s) ` B) \<union> page_bytes (free_set (pmm s) \<inter> kernel_zone)"
        using heap_expand_changes [OF less.prems(1), of s1] e by metis
      have "256 - length (heap_pages s1) < 256 - length (heap_pages s)"
        using h(2,3) by linarith
      from less.hyps [OF this h(1)] have c: "changes_only (\<Union>(extent (memory s1) ` insert b B) \<union>
          page_bytes (free_set (pmm s1) \<inter> kernel_zone)) (memory s1) (memory s')"
        using less.prems(2) k True by simp
      have "page_bytes (free_set (pmm s1) \<inter> kernel_zone) \<subseteq> page_bytes (free_set (pmm s) \<inter> kernel_zone)"
        using h(4) by (intro page_bytes_mono) blast
      then show ?thesis
        by (intro changes_only_trans [OF h(5) c]) (use h(6) in blast)+
    qed
  qed
qed

text \<open>The heap functions keep the fields an extended state adds.\<close>

lemma heap_more [simp]:
  "heap_state.more (fl_insert s b) = heap_state.more s" "heap_state.more (fl_remove s b) = heap_state.more s"
  "heap_state.more (take_block s b n) = heap_state.more s" "heap_state.more (add_pages s b n) = heap_state.more s"
  "heap_state.more (coalesce_forward s b) = heap_state.more s"
  by (simp_all add: fl_insert_def fl_remove_def take_block_def add_pages_def coalesce_forward_def Let_def)

lemma heap_expand_more [simp]: "heap_state.more (snd (heap_expand s)) = heap_state.more s"
  by (simp add: heap_expand_def Let_def split: prod.split)

lemma kmalloc_more:
  assumes "kmalloc s sz = Some (p, s')"
  shows "heap_state.more s' = heap_state.more s"
proof -
  have "heap_state.more (snd r) = heap_state.more s" if "kmalloc s sz = Some r" for r
    using that
  proof (rule kmalloc.raw_induct [where P = "\<lambda>s sz r. heap_state.more (snd r) = heap_state.more s", rotated])
    fix f and s :: "'a heap_state_scheme" and sz r
    assume ih: "\<And>(s :: 'a heap_state_scheme) sz r. f s sz = Some r \<Longrightarrow> heap_state.more (snd r) = heap_state.more s"
      and step: "first_fit (memory s) (free_head s) (block_need sz) \<bind> (\<lambda>b. if b \<noteq> 0
          then Some (b + HEADER_SIZE, take_block s b (block_need sz))
          else (case heap_expand s of (ok, s) \<Rightarrow> if ok then f s sz else Some (0, s))) = Some r"
    obtain ok s1 where e: "heap_expand s = (ok, s1)" by fastforce
    then have "heap_state.more s1 = heap_state.more s"
      using heap_expand_more [of s] by simp
    then show "heap_state.more (snd r) = heap_state.more s"
      using step ih [of s1 sz r] e by (auto simp: bind_eq_Some_conv split: if_splits)
  qed
  from this [OF assms] show ?thesis by simp
qed

lemma kmalloc_free_sets:
  assumes "heap_inv s B fs" "kmalloc s sz = Some (p, s')"
  obtains B' fs' where "kmalloc_post s B sz p s' B' fs'"
  using kmalloc_returns [OF assms(1), of sz] assms(2) by auto

section \<open>The bytes the heap owns\<close>

text \<open>\<open>heap_owns s A Z\<close>: the heap is well formed, \<open>A\<close> are its live blocks and \<open>Z\<close> its bytes, those of
  free blocks and of headers included.\<close>

definition heap_owns :: "'a heap_state_scheme \<Rightarrow> (u32 \<rightharpoonup> nat) \<Rightarrow> nat set \<Rightarrow> bool" where
  "heap_owns s A Z \<longleftrightarrow> (\<exists>B fs. heap_inv s B fs \<and> A = alloc_map (memory s) B \<and> Z = \<Union>(extent (memory s) ` B))"

lemma heap_owns_view: "heap_owns s A Z \<Longrightarrow> heap_view s A"
  by (auto simp: heap_owns_def heap_view_def)

lemma heap_owns_wf:
  assumes "heap_owns s A Z"
  shows "pmm_wf (pmm s)" "Z \<inter> page_bytes (free_set (pmm s)) = {}" "Z \<subseteq> {0x100000..<0x800000}"
proof -
  obtain B fs where B: "heap_inv s B fs" "Z = \<Union>(extent (memory s) ` B)"
    using assms by (auto simp: heap_owns_def)
  show "pmm_wf (pmm s)" "Z \<inter> page_bytes (free_set (pmm s)) = {}"
    using B by (auto simp: heap_inv_def)
  have "\<forall>b\<in>B. block_ok (memory s) b"
    using B(1) by (simp add: heap_inv_def heap_wf_def heap_core_def)
  then show "Z \<subseteq> {0x100000..<0x800000}"
    unfolding B(2) by (fastforce simp: extent_def block_ok_def)
qed

text \<open>A write elsewhere, and taking pages from the allocator, keep the heap.\<close>

lemma heap_owns_elsewhere:
  assumes own: "heap_owns s A Z" and ch: "changes_only X (memory s) (memory s')" "X \<inter> Z = {}"
    and p: "pmm_wf (pmm s')" "free_set (pmm s') \<subseteq> free_set (pmm s)" and h: "free_head s' = free_head s"
  shows "heap_owns s' A Z"
proof -
  let ?m = "memory s" let ?m' = "memory s'"
  obtain B fs where B: "heap_inv s B fs" "A = alloc_map ?m B" "Z = \<Union>(extent ?m ` B)"
    using own by (auto simp: heap_owns_def)
  have wf: "heap_wf ?m (free_head s) B fs" and core: "heap_core ?m B"
    using B(1) by (auto simp: heap_inv_def heap_wf_def)
  have same: "get ?m' c f = get ?m c f" if c: "c \<in> B" for c f
  proof (rule get_cong)
    show "header_ok c"
      using core_headers [OF core] c by (auto simp: headers_def)
    fix x :: u32
    assume "unat c + unat (field_offset f) \<le> unat x" "unat x < unat c + unat (field_offset f) + 4"
    then have "unat x \<in> {unat c..<unat c + 16}"
      using unat_field_offset(1) [of f] by auto
    then have "unat x \<in> Z"
      using header_in_extent [OF core c] c unfolding B(3) by blast
    then show "?m' x = ?m x"
      using ch by (auto simp: changes_only_def)
  qed
  have fs: "set fs \<subseteq> B" "dll ?m (free_head s) fs"
    using wf by (auto simp: heap_wf_def)
  have "get ?m x Next = get ?m' x Next \<and> get ?m x Prev = get ?m' x Prev" if "x \<in> set fs" for x
    using same subsetD [OF fs(1) that] by simp
  then have "dll ?m' (free_head s) fs"
    using fs(2) dll_cong [of fs ?m ?m' "free_head s"] by simp
  moreover have "heap_core ?m' B"
    using core heap_core_cong [of B ?m' ?m] same by simp
  moreover have "{c \<in> B. get ?m' c Free \<noteq> 0} = {c \<in> B. get ?m c Free \<noteq> 0}"
    using same by auto
  ultimately have "heap_wf ?m' (free_head s') B fs"
    using wf h by (simp add: heap_wf_def)
  moreover have ext: "\<Union>(extent ?m' ` B) = \<Union>(extent ?m ` B)"
    using same by (auto simp: extent_def)
  moreover have "\<Union>(extent ?m ` B) \<inter> page_bytes (free_set (pmm s')) = {}"
    using B(1) page_bytes_mono [OF p(2)] by (auto simp: heap_inv_def)
  ultimately have "heap_inv s' B fs"
    using p(1) by (simp add: heap_inv_def)
  moreover have "alloc_map ?m' B = alloc_map ?m B"
    using same by (intro alloc_map_cong) auto
  ultimately show ?thesis
    unfolding heap_owns_def using B(2,3) ext by (intro exI [of _ B] exI [of _ fs]) simp
qed

text \<open>\<open>kmalloc\<close> returns; a non-null result is a new live block.\<close>

text \<open>A client may write the data of a block it owns.\<close>

lemma heap_owns_write:
  assumes own: "heap_owns s A Z" and b: "A b = Some n"
    and only: "\<And>x. \<not> (unat b + 8 \<le> unat x \<and> unat x < unat b + n) \<Longrightarrow> m' x = memory s x"
  shows "heap_owns (s\<lparr>memory := m'\<rparr>) A Z"
proof -
  obtain B fs where B: "heap_inv s B fs" "A = alloc_map (memory s) B" "Z = \<Union>(extent (memory s) ` B)"
    using own by (auto simp: heap_owns_def)
  have "heap_inv (s\<lparr>memory := m'\<rparr>) B fs \<and> alloc_map m' B = alloc_map (memory s) B \<and>
      \<Union>(extent m' ` B) = \<Union>(extent (memory s) ` B)"
    by (rule heap_inv_write [OF B(1) b [unfolded B(2)] only])
  then show ?thesis
    unfolding heap_owns_def B(2,3) by (intro exI [of _ B] exI [of _ fs]) simp
qed

lemma heap_owns_block:
  assumes "heap_owns s A Z" "A b = Some n"
  shows "{unat b..<unat b + n} \<subseteq> Z"
proof -
  obtain B fs where B: "heap_inv s B fs" "A = alloc_map (memory s) B" "Z = \<Union>(extent (memory s) ` B)"
    using assms(1) by (auto simp: heap_owns_def)
  then have "b \<in> B" "n = unat (get (memory s) b Size)"
    using assms(2) by (auto simp: alloc_map_Some)
  then show ?thesis
    using B(3) by (auto simp: extent_def)
qed

definition malloc_step :: "'a heap_state_scheme \<Rightarrow> (u32 \<rightharpoonup> nat) \<Rightarrow> nat set \<Rightarrow> u32 \<Rightarrow> u32 \<Rightarrow> 'a heap_state_scheme \<Rightarrow>
    (u32 \<rightharpoonup> nat) \<Rightarrow> nat set \<Rightarrow> bool" where
  "malloc_step s A Z n p s' A' Z' \<longleftrightarrow> heap_owns s' A' Z' \<and> heap_state.more s' = heap_state.more s \<and>
     free_set (pmm s') \<subseteq> free_set (pmm s) \<and> free_set (pmm s) - free_set (pmm s') \<subseteq> kernel_zone \<and>
     Z' \<subseteq> Z \<union> page_bytes (free_set (pmm s) \<inter> kernel_zone) \<and>
     (Z \<subseteq> heap_page_bytes s \<longrightarrow> Z' \<subseteq> heap_page_bytes s') \<and>
     changes_only (Z \<union> page_bytes (free_set (pmm s) \<inter> kernel_zone)) (memory s) (memory s') \<and>
     same_bytes A (memory s) (memory s') \<and>
     (if p = 0 then A' = A
      else 8 dvd unat p \<and> A (p - 8) = None \<and>
        (\<exists>k. A' = A(p - 8 \<mapsto> k) \<and> (unat n \<le> 0xFFFFFFF0 \<longrightarrow> unat n + 8 \<le> k)))"

text \<open>The bytes of the heap after the call: those before, and pages that were free.\<close>

lemma kmalloc_extents:
  assumes "heap_inv s B fs" "kmalloc s sz = Some (p, s')"
  shows "\<exists>B' fs'. heap_inv s' B' fs' \<and> kmalloc_post s B sz p s' B' fs' \<and>
    \<Union>(extent (memory s') ` B') \<subseteq> \<Union>(extent (memory s) ` B) \<union> page_bytes (free_set (pmm s) \<inter> kernel_zone) \<and>
    (\<Union>(extent (memory s) ` B) \<subseteq> heap_page_bytes s \<longrightarrow> \<Union>(extent (memory s') ` B') \<subseteq> heap_page_bytes s')"
  using assms
proof (induction "256 - length (heap_pages s)" arbitrary: s B fs rule: less_induct)
  case less
  have wf: "heap_wf (memory s) (free_head s) B fs"
    using less.prems(1) by (simp add: heap_inv_def)
  show ?case
  proof (cases "find (\<lambda>b. block_need sz \<le> get (memory s) b Size) fs")
    case (Some b)
    then have b: "b \<in> set fs" "block_need sz \<le> get (memory s) b Size"
      by (auto simp: find_Some_iff)
    then have "b \<noteq> 0"
      using wf block_header by (auto simp: heap_wf_def heap_core_def)
    then have k: "kmalloc s sz = Some (b + 8, take_block s b (block_need sz))"
      by (subst kmalloc.simps) (simp add: first_fit_wf [OF wf] Some)
    obtain B' fs' where t: "heap_wf (memory (take_block s b (block_need sz)))
        (free_head (take_block s b (block_need sz))) B' fs'"
      "granted (memory s) B (memory (take_block s b (block_need sz))) B' b (block_need sz)"
      using take_block_ok [OF wf b(1) _ _ b(2)] unat_block_need(1) by blast
    have "heap_inv (take_block s b (block_need sz)) B' fs'"
      using less.prems(1) t by (simp add: heap_inv_def granted_def)
    moreover have "kmalloc_post s B sz (b + 8) (take_block s b (block_need sz)) B' fs'"
    proof -
      have "block_ok (memory s) b"
        using wf b by (auto simp: heap_wf_def heap_core_def)
      then have "b + 8 \<noteq> 0" "b + 8 - 8 = b" "8 dvd unat (b + 8)"
        by (auto simp: u32_eq_iff block_ok_def unat_add_no_wrap)
      then show ?thesis
        using calculation t(2) by (auto simp: kmalloc_post_def granted_def)
    qed
    moreover have "\<Union>(extent (memory (take_block s b (block_need sz))) ` B') = \<Union>(extent (memory s) ` B)"
      using t(2) by (simp add: granted_def)
    moreover have "p = b + 8" "s' = take_block s b (block_need sz)"
      using k less.prems(2) by simp_all
    ultimately show ?thesis
      by (intro exI [of _ B'] exI [of _ fs']) (simp add: heap_page_bytes_def)
  next
    case None
    obtain ok s1 where e: "heap_expand s = (ok, s1)" by fastforce
    have k: "kmalloc s sz = (if ok then kmalloc s1 sz else Some (0, s1))"
      by (subst kmalloc.simps) (simp add: first_fit_wf [OF wf] None e)
    show ?thesis
    proof (cases ok)
      case False
      then have s1: "s1 = s" "p = 0" "s' = s"
        using k less.prems heap_expand_fail(1) [OF less.prems(1), of s1] e by auto
      obtain B' fs' where "kmalloc_post s B sz p s' B' fs'"
        by (rule kmalloc_free_sets [OF less.prems])
      have "\<forall>b\<in>set fs. get (memory s) b Size < block_need sz"
        using None by (auto simp: find_None_iff not_le)
      then have "kmalloc_post s B sz 0 s B fs"
        using less.prems(1) heap_expand_fail [OF less.prems(1), of s1] e False
        by (auto simp: kmalloc_post_def preserves_def)
      then show ?thesis
        using s1 less.prems(1) by blast
    next
      case True
      then have e': "heap_expand s = (True, s1)"
        using e by simp
      obtain b0 where g: "heap_inv s1 (insert b0 B) (b0 # fs)" "alloc_map (memory s1) (insert b0 B) = alloc_map (memory s) B"
          "preserves (memory s) B (memory s1)" "length (heap_pages s1) = length (heap_pages s) + 4"
          "length (heap_pages s1) \<le> 256" "free_set (pmm s1) \<subseteq> free_set (pmm s)"
          "free_set (pmm s) - free_set (pmm s1) \<subseteq> kernel_zone"
        by (rule heap_expand_ok [OF less.prems(1) e'])
      obtain b where h: "heap_inv s1 (insert b B) (b # fs)"
        "\<Union>(extent (memory s1) ` insert b B) \<subseteq> \<Union>(extent (memory s) ` B) \<union> page_bytes (free_set (pmm s) \<inter> kernel_zone)"
        "\<Union>(extent (memory s) ` B) \<subseteq> heap_page_bytes s \<longrightarrow> \<Union>(extent (memory s1) ` insert b B) \<subseteq> heap_page_bytes s1"
        by (rule heap_expand_changes [OF less.prems(1) e'])
      have "free_head s1 = b0" "free_head s1 = b"
        using g(1) h(1) by (auto simp: heap_inv_def heap_wf_def dll_def)
      then have b0: "b0 = b" by simp
      have "256 - length (heap_pages s1) < 256 - length (heap_pages s)"
        using g(4,5) by linarith
      moreover have "kmalloc s1 sz = Some (p, s')"
        using less.prems(2) k True by simp
      ultimately have "\<exists>B' fs'. heap_inv s' B' fs' \<and> kmalloc_post s1 (insert b B) sz p s' B' fs' \<and>
        \<Union>(extent (memory s') ` B') \<subseteq> \<Union>(extent (memory s1) ` insert b B) \<union> page_bytes (free_set (pmm s1) \<inter> kernel_zone) \<and>
        (\<Union>(extent (memory s1) ` insert b B) \<subseteq> heap_page_bytes s1 \<longrightarrow> \<Union>(extent (memory s') ` B') \<subseteq> heap_page_bytes s')"
        by (rule less.hyps [OF _ h(1)])
      then obtain B' fs' where r: "heap_inv s' B' fs'"
        "kmalloc_post s1 (insert b B) sz p s' B' fs'"
        "\<Union>(extent (memory s') ` B') \<subseteq> \<Union>(extent (memory s1) ` insert b B) \<union> page_bytes (free_set (pmm s1) \<inter> kernel_zone)"
        "\<Union>(extent (memory s1) ` insert b B) \<subseteq> heap_page_bytes s1 \<longrightarrow> \<Union>(extent (memory s') ` B') \<subseteq> heap_page_bytes s'"
        by (elim exE conjE) (rule that)
      have "kmalloc_post s B sz p s' B' fs'"
        by (rule kmalloc_post_grown [OF g(1-3) g(6,7) r(2) [folded b0]])
      moreover have "page_bytes (free_set (pmm s1) \<inter> kernel_zone) \<subseteq> page_bytes (free_set (pmm s) \<inter> kernel_zone)"
        using g(6) by (intro page_bytes_mono) blast
      then have "\<Union>(extent (memory s') ` B') \<subseteq> \<Union>(extent (memory s) ` B) \<union> page_bytes (free_set (pmm s) \<inter> kernel_zone)"
        using r(3) h(2) by blast
      ultimately show ?thesis
        using r(1,4) h(3) by blast
    qed
  qed
qed

lemma kmalloc_step:
  assumes "heap_owns s A Z"
  shows "\<exists>p s' A' Z'. kmalloc s n = Some (p, s') \<and> malloc_step s A Z n p s' A' Z'"
proof -
  obtain B fs where B: "heap_inv s B fs" "A = alloc_map (memory s) B" "Z = \<Union>(extent (memory s) ` B)"
    using assms by (auto simp: heap_owns_def)
  obtain p s' where k: "kmalloc s n = Some (p, s')"
    using kmalloc_returns [OF B(1)] by blast
  obtain B' fs' where B': "heap_inv s' B' fs'" "kmalloc_post s B n p s' B' fs'"
    "\<Union>(extent (memory s') ` B') \<subseteq> Z \<union> page_bytes (free_set (pmm s) \<inter> kernel_zone)"
    "Z \<subseteq> heap_page_bytes s \<longrightarrow> \<Union>(extent (memory s') ` B') \<subseteq> heap_page_bytes s'"
    using kmalloc_extents [OF B(1) k] B(3) by blast
  have size: "unat n + 8 \<le> k" if "unat (block_need n) \<le> k" "unat n \<le> 0xFFFFFFF0" for k
  proof -
    have "unat n \<le> 8 * ((unat n + 7) div 8)" by presburger
    then show ?thesis
      using unat_block_need(2) [OF that(2)] that(1) by simp
  qed
  have "malloc_step s A Z n p s' (alloc_map (memory s') B') (\<Union>(extent (memory s') ` B'))"
    unfolding malloc_step_def
  proof (intro conjI)
    show "heap_owns s' (alloc_map (memory s') B') (\<Union>(extent (memory s') ` B'))"
      using B'(1) by (auto simp: heap_owns_def)
    show "changes_only (Z \<union> page_bytes (free_set (pmm s) \<inter> kernel_zone)) (memory s) (memory s')"
      using kmalloc_changes [OF B(1) k] B(3) by simp
    show "same_bytes A (memory s) (memory s')"
      using B'(2) B(2) by (simp add: kmalloc_post_def same_bytes_preserves)
    show "if p = 0 then alloc_map (memory s') B' = A
      else 8 dvd unat p \<and> A (p - 8) = None \<and>
        (\<exists>k. alloc_map (memory s') B' = A(p - 8 \<mapsto> k) \<and> (unat n \<le> 0xFFFFFFF0 \<longrightarrow> unat n + 8 \<le> k))"
    proof (cases "p = 0")
      case False
      then obtain k where "alloc_map (memory s') B' = A(p - 8 \<mapsto> k)" "unat (block_need n) \<le> k"
        "8 dvd unat p" "A (p - 8) = None"
        using B'(2) unfolding kmalloc_post_def B(2) by auto
      then show ?thesis
        using size [of k] False by (simp only: if_False) blast
    qed (use B'(2) in \<open>simp add: kmalloc_post_def B(2)\<close>)
  qed (use kmalloc_more [OF k] B' in \<open>auto simp: kmalloc_post_def simp del: mem_zone\<close>)
  then show ?thesis
    using k by blast
qed

section \<open>Marking pages in a task's directory\<close>

text \<open>The tables a task directory \<open>d\<close> does not share with the kernel are in \<open>F\<close>, a set of pages that
  contains \<open>d\<close> itself and whatever the allocator may still hand out.\<close>

definition private_tables :: "'a paging_state_scheme \<Rightarrow> u32 \<Rightarrow> u32 set \<Rightarrow> bool" where
  "private_tables s d F \<longleftrightarrow> (\<forall>i<1024. ptab (memory s) d i = ptab (memory s) (pd_phys s) i \<or> ptab (memory s) d i \<in> F - {d}) \<and>
     d \<in> F \<and> used_page s d \<and> used_page s (pd_phys s) \<and> pd_phys s \<notin> F \<and> (\<forall>f\<in>F. table f) \<and>
     0 \<in> F \<and> page_addr ` (free_set (pmm s) \<inter> kernel_zone) \<subseteq> F \<and> pmm_wf (pmm s)"

definition table_bytes :: "u32 set \<Rightarrow> nat set" where
  "table_bytes F = unat ` (\<Union>(page_at ` F))"

lemma changes_table_bytes:
  "(\<And>x. \<forall>f\<in>F. x \<notin> page_at f \<Longrightarrow> m' x = m x) \<Longrightarrow> changes_only (table_bytes F) m m'"
  unfolding changes_only_def table_bytes_def by (auto simp: image_iff)

lemma alloc_kernel_page:
  assumes "pmm_wf p" "pmm_alloc_page p = (t, q)"
  shows "pmm_wf q" "free_set q \<subseteq> free_set p" "t = 0 \<or> (\<exists>i\<in>free_set p \<inter> kernel_zone. t = page_addr i \<and> i \<notin> free_set q)"
proof -
  have "pmm_wf q \<and> free_set q \<subseteq> free_set p \<and>
      (t = 0 \<or> (\<exists>i\<in>free_set p \<inter> kernel_zone. t = page_addr i \<and> i \<notin> free_set q))"
  proof (cases "free_set p \<inter> kernel_zone = {}")
    case True
    then show ?thesis
      using kernel_page.alloc_none [OF assms(1)] assms by simp
  next
    case False
    then show ?thesis
      using kernel_page.alloc_page [OF assms(1)] assms(2) by fastforce
  qed
  then show "pmm_wf q" "free_set q \<subseteq> free_set p"
    "t = 0 \<or> (\<exists>i\<in>free_set p \<inter> kernel_zone. t = page_addr i \<and> i \<notin> free_set q)"
    by blast+
qed

lemma mark_changes:
  fixes pa :: u32
  assumes pt: "private_tables s d F"
  defines "s' \<equiv> paging_set_user_accessible_for_task s d pa"
  shows "private_tables s' d F" "changes_only (table_bytes F) (memory s) (memory s')"
    "free_set (pmm s') \<subseteq> free_set (pmm s)" "pd_phys s' = pd_phys s" "free_head s' = free_head s"
    "heap_pages s' = heap_pages s" "paging_state.more s' = paging_state.more s"
proof -
  let ?i = "pd_index pa" let ?j = "pt_index pa" let ?k = "pd_phys s" let ?m = "memory s"
  have P: "i < 1024 \<Longrightarrow> ptab ?m d i = ptab ?m ?k i \<or> ptab ?m d i \<in> F - {d}" "d \<in> F" "used_page s d"
    "used_page s ?k" "?k \<notin> F" "f \<in> F \<Longrightarrow> table f" "0 \<in> F"
    "page_addr ` (free_set (pmm s) \<inter> kernel_zone) \<subseteq> F" "pmm_wf (pmm s)" for i f
    using pt by (auto simp: private_tables_def)
  have td: "table d" "table ?k" "d \<noteq> ?k"
    using P(2,5) used_table [OF P(3)] used_table [OF P(4)] by auto
  obtain t q where a: "pmm_alloc_page (pmm s) = (t, q)" by fastforce
  note al = alloc_kernel_page [OF P(9) a]
  have tF: "t \<in> F - {d}"
    using al(3) P(3,7,8) by (auto simp: used_page_def simp del: mem_zone)
  define fresh where "fresh \<longleftrightarrow> ptab ?m d ?i = ptab ?m ?k ?i"
  define m1 where "m1 = (if fresh then set_entry (copy_table ?m t (ptab ?m ?k ?i)) d ?i (t OR PAGE_DEFAULT) else ?m)"
  define pt' where "pt' = ptab m1 d ?i"
  define m2 where "m2 = set_entry m1 pt' ?j (pa OR PAGE_DEFAULT OR PAGE_US)"
  define m3 where "m3 = set_entry m2 d ?i (entry m2 d ?i OR PAGE_US)"
  have s': "s' = s\<lparr>pmm := (if fresh then q else pmm s), memory := m3\<rparr>"
    unfolding s'_def paging_set_user_accessible_for_task_def Let_def a m3_def m2_def pt'_def m1_def fresh_def ptab_def
    by simp
  have flag: "(t OR PAGE_DEFAULT) AND NOT 0xFFF = t"
    using table_or_flags(1) [of t 3] P(6) tF by simp
  have e1: "entry m1 u l = (if fresh then (if u = d \<and> l = ?i then t OR PAGE_DEFAULT
      else if u = t then entry ?m (ptab ?m ?k ?i) l else entry ?m u l) else entry ?m u l)"
    if "table u" "l < 1024" for u l
    using that td(1) P(6) tF by (auto simp: m1_def entry_set_entry entry_copy_table)
  have p1: "ptab m1 d l = (if fresh \<and> l = ?i then t else ptab ?m d l)" if "l < 1024" for l
    unfolding ptab_def e1 [OF td(1) that] using tF flag by auto
  have pt'F: "pt' \<in> F - {d}"
    using P(1) [OF index_bound(1), of pa] tF unfolding pt'_def p1 [OF index_bound(1)] fresh_def by auto
  have e2: "entry m2 u l = entry m1 u l" if "table u" "l < 1024" "u \<noteq> pt'" for u l
    using that P(6) pt'F by (auto simp: m2_def entry_set_entry)
  have e3: "entry m3 u l = (if u = d \<and> l = ?i then entry m2 d ?i OR PAGE_US else entry m2 u l)"
    if "table u" "l < 1024" for u l
    using that td(1) by (auto simp: m3_def entry_set_entry)
  have pd3: "ptab m3 d l = ptab m1 d l" if "l < 1024" for l
    unfolding ptab_def e3 [OF td(1) that] using pt'F e2 [OF td(1) that] or_user_flag(1) [of "entry m2 d l"] by auto
  have pk3: "ptab m3 ?k l = ptab ?m ?k l" if "l < 1024" for l
  proof -
    have neq: "?k \<noteq> pt'" "?k \<noteq> t"
      using P(5) pt'F tF by auto
    then show ?thesis
      using td(3) e2 [OF td(2) that neq(1)] unfolding ptab_def e3 [OF td(2) that] by (simp add: e1 [OF td(2) that])
  qed
  show "pd_phys s' = pd_phys s" "free_head s' = free_head s" "heap_pages s' = heap_pages s"
    "paging_state.more s' = paging_state.more s"
    by (simp_all add: s')
  show fr: "free_set (pmm s') \<subseteq> free_set (pmm s)"
    using al(2) by (simp add: s')
  have used: "used_page s' u" if "used_page s u" for u
    using that fr by (auto simp: used_page_def)
  show "private_tables s' d F"
    unfolding private_tables_def
  proof (intro conjI allI impI)
    fix l :: u32 assume l: "l < 1024"
    show "ptab (memory s') d l = ptab (memory s') (pd_phys s') l \<or> ptab (memory s') d l \<in> F - {d}"
      using P(1) [OF l] tF by (simp add: s' pd3 [OF l] pk3 [OF l] p1 [OF l])
  next
    show "page_addr ` (free_set (pmm s') \<inter> kernel_zone) \<subseteq> F"
      using P(8) fr by blast
    show "pmm_wf (pmm s')"
      using al(1) P(9) by (simp add: s')
    show "pd_phys s' \<notin> F"
      using P(5) by (simp add: s')
    show "used_page s' (pd_phys s')"
      using used [OF P(4)] by (simp add: s')
  qed (use P used in auto)
  show "changes_only (table_bytes F) ?m (memory s')"
  proof (rule changes_table_bytes)
    fix x assume x: "\<forall>f\<in>F. x \<notin> page_at f"
    have "m1 x = ?m x"
      using x tF P(2,6) by (auto simp: m1_def set_entry_outside copy_table_outside)
    moreover have "m2 x = m1 x"
      using x pt'F P(6) by (auto simp: m2_def set_entry_outside)
    moreover have "m3 x = m2 x"
      using x P(2) td(1) by (auto simp: m3_def set_entry_outside)
    ultimately show "memory s' x = ?m x"
      by (simp add: s')
  qed
qed

text \<open>\<open>for (i = 0; i < page_count; i++) paging_set_user_accessible_for_task(task_pd, user_pages[i])\<close>\<close>

lemma mark_all_changes:
  fixes pages :: "u32 list"
  assumes "private_tables s d F"
  defines "s' \<equiv> fold (\<lambda>pa s. paging_set_user_accessible_for_task s d pa) pages s"
  shows "private_tables s' d F \<and> changes_only (table_bytes F) (memory s) (memory s') \<and>
    free_set (pmm s') \<subseteq> free_set (pmm s) \<and> pd_phys s' = pd_phys s \<and> free_head s' = free_head s \<and>
    heap_pages s' = heap_pages s \<and> paging_state.more s' = paging_state.more s"
  using assms(1) unfolding s'_def
proof (induction pages arbitrary: s)
  case (Cons pa pages)
  note m = mark_changes [OF Cons.prems, of pa]
  show ?case
    using Cons.IH [OF m(1)] m changes_only_trans [OF m(2), of "table_bytes F"] by auto
qed simp

end
