(* ===== verification/Task.thy ===== *)
theory Task
  imports Heap_Frame Descriptors
begin

text \<open>
  Tasks and the scheduler: \<open>sched/task.c\<close> and the context switch \<open>sched/switch.asm\<close>. Task control
  blocks live at addresses \<open>kmalloc\<close> returns; \<open>tasks\<close> maps such an address to the block's fields
  and a dereference of any other pointer (of NULL in particular: page 0 is unmapped) is a CPU
  exception, \<^term>\<open>None\<close>. Kernel stacks, and the register frames on them, are in the byte-addressed
  memory. Diagnostic output is left out.
\<close>

section \<open>State\<close>

record task =
  t_esp :: u32
  t_id :: u32
  t_state :: u32
  t_next :: u32
  t_kernel_stack_top :: u32
  t_cr3 :: u32
  t_fds :: "u32 list"

abbreviation TASK_READY :: u32 where "TASK_READY \<equiv> 0"
abbreviation TASK_RUNNING :: u32 where "TASK_RUNNING \<equiv> 1"
abbreviation MAX_FD_PER_TASK :: nat where "MAX_FD_PER_TASK \<equiv> 16"

definition sizeof_task :: u32 where
  "sizeof_task = 6 * 4 + of_nat MAX_FD_PER_TASK * 4"

text \<open>The static \<open>g_current\<close> and \<open>g_next_id\<close>, the tables of the CPU (for \<open>TSS.esp0\<close>) and its
  interrupt flag.\<close>

record task_state = paging_state +
  tasks :: "u32 \<rightharpoonup> task"
  g_current :: u32
  g_next_id :: u32
  tabs :: cpu_tables
  interrupts :: bool

text \<open>The registers a context switch saves, and the stack and instruction pointers.\<close>

record cpu =
  r_ebx :: u32
  r_esi :: u32
  r_edi :: u32
  r_ebp :: u32
  r_esp :: u32
  r_eip :: u32

definition set_task :: "u32 \<Rightarrow> task \<Rightarrow> 'a task_state_scheme \<Rightarrow> 'a task_state_scheme" where
  "set_task t x s = s\<lparr>tasks := (tasks s)(t \<mapsto> x)\<rparr>"

section \<open>Creating tasks\<close>

definition task_init :: "'a task_state_scheme \<Rightarrow> 'a task_state_scheme option" where
  "task_init s =
     do { (idle, s) \<leftarrow> kmalloc s sizeof_task;
          if idle = 0 then None
          else Some ((set_task idle \<lparr>t_esp = 0, t_id = 0, t_state = TASK_RUNNING, t_next = idle,
                        t_kernel_stack_top = 0, t_cr3 = 0, t_fds = replicate MAX_FD_PER_TASK 0\<rparr> s)
                     \<lparr>g_current := idle\<rparr>) }"

text \<open>\<open>sp[i] = w\<close> for consecutive words.\<close>

primrec store_words :: "mem \<Rightarrow> u32 \<Rightarrow> u32 list \<Rightarrow> mem" where
  "store_words m a [] = m"
| "store_words m a (w # ws) = store_words (store32 m a w) (a + 4) ws"

text \<open>\<open>t->next = g_current->next; g_current->next = t;\<close>\<close>

definition link_task :: "u32 \<Rightarrow> task \<Rightarrow> 'a task_state_scheme \<Rightarrow> 'a task_state_scheme option" where
  "link_task t x s =
     do { cur \<leftarrow> tasks s (g_current s);
          let s = set_task t (x\<lparr>t_next := t_next cur\<rparr>) s;
          cur \<leftarrow> tasks s (g_current s);
          Some (set_task (g_current s) (cur\<lparr>t_next := t\<rparr>) s) }"

text \<open>The TCB part the three creation functions share. The stack top is an argument: \<open>None\<close> for
  \<open>task_create\<close>, which leaves the field as \<open>kmalloc\<close> returned it.\<close>

definition new_tcb :: "u32 \<Rightarrow> u32 option \<Rightarrow> u32 \<Rightarrow> 'a task_state_scheme \<Rightarrow> (u32 \<times> 'a task_state_scheme) option" where
  "new_tcb sp ktop cr s =
     do { (t, s) \<leftarrow> kmalloc s sizeof_task;
          if t = 0 then None
          else do {
            let x = \<lparr>t_esp = sp, t_id = g_next_id s, t_state = TASK_READY, t_next = 0,
                     t_kernel_stack_top = (case ktop of Some v \<Rightarrow> v | None \<Rightarrow> load32 (memory s) (t + 0x10)),
                     t_cr3 = cr, t_fds = replicate MAX_FD_PER_TASK 0\<rparr>;
            s \<leftarrow> link_task t x (s\<lparr>g_next_id := g_next_id s + 1\<rparr>);
            Some (t, s) } }"

definition task_create :: "'a task_state_scheme \<Rightarrow> u32 \<Rightarrow> (u32 \<times> 'a task_state_scheme) option" where
  "task_create s ent =
     (let (stack_base, p) = pmm_alloc_contiguous_pages (pmm s) 2;
          s = s\<lparr>pmm := p\<rparr>
      in if stack_base = 0 then Some (0, s)
         else let stack_top = stack_base + 2 * PAGE_SIZE;
                  sp = stack_top - 20;
                  s = s\<lparr>memory := store_words (memory s) sp [0, 0, 0, 0, ent]\<rparr>
              in new_tcb sp None 0 s)"

text \<open>The ten words of the frame that enters user mode.\<close>

definition user_frame :: "link_map \<Rightarrow> u32 \<Rightarrow> u32 \<Rightarrow> u32 list" where
  "user_frame lm ent ustack_top =
     [0, 0, 0, 0, return_to_ring3 lm, ent, 0x1B, 0x202, ustack_top, 0x23]"

definition task_create_user ::
    "link_map \<Rightarrow> 'a task_state_scheme \<Rightarrow> u32 \<Rightarrow> u32 \<Rightarrow> (u32 \<times> 'a task_state_scheme) option" where
  "task_create_user lm s ent user_esp =
     (let (kstack_base, p) = pmm_alloc_contiguous_pages (pmm s) 2;
          s = s\<lparr>pmm := p\<rparr>
      in if kstack_base = 0 then Some (0, s)
         else let kstack_top = kstack_base + 2 * PAGE_SIZE;
                  (ok, ustack_top, s) =
                    (if user_esp = 0 then
                       (let (ustack_base, p) = pmm_alloc_page (pmm s);
                            s = s\<lparr>pmm := p\<rparr>
                        in if ustack_base = 0 then (False, 0, s)
                           else (True, ustack_base + PAGE_SIZE, paging_set_user_accessible s ustack_base))
                     else (True, user_esp, s))
              in if \<not> ok then Some (0, s)
                 else let sp = kstack_top - 40;
                          s = s\<lparr>memory := store_words (memory s) sp (user_frame lm ent ustack_top)\<rparr>
                      in new_tcb sp (Some kstack_top) 0 s)"

definition task_create_user_with_pages ::
    "link_map \<Rightarrow> 'a task_state_scheme \<Rightarrow> u32 \<Rightarrow> u32 \<Rightarrow> u32 list \<Rightarrow> (u32 \<times> 'a task_state_scheme) option" where
  "task_create_user_with_pages lm s ent user_esp user_pages =
     (let (kstack_base, p) = pmm_alloc_contiguous_pages (pmm s) 2;
          s = s\<lparr>pmm := p\<rparr>
      in if kstack_base = 0 then Some (0, s)
         else let kstack_top = kstack_base + 2 * PAGE_SIZE;
                  (task_pd, s) = paging_clone_kernel_pd s
              in if task_pd = 0 then Some (0, s)
                 else let (ustack_page, p) = (if user_esp = 0 then pmm_alloc_user_page (pmm s) else (0, pmm s));
                          s = s\<lparr>pmm := p\<rparr>
                      in if user_esp = 0 \<and> ustack_page = 0 then Some (0, s)
                         else let ustack_top = (if user_esp = 0 then ustack_page + PAGE_SIZE else user_esp);
                                  s = fold (\<lambda>pa s. paging_set_user_accessible_for_task s task_pd pa) user_pages s;
                                  s = (if ustack_page \<noteq> 0
                                       then paging_set_user_accessible_for_task s task_pd ustack_page else s);
                                  sp = kstack_top - 40;
                                  s = s\<lparr>memory := store_words (memory s) sp (user_frame lm ent ustack_top)\<rparr>
                              in new_tcb sp (Some kstack_top) task_pd s)"

section \<open>Switching\<close>

text \<open>\<open>switch_to\<close>, from its entry, where the return address is on top of the stack: push the
  callee-saved registers, exchange the stack pointers, load the new task's page directory unless it
  is 0, pop the registers and return.\<close>

definition switch_to :: "u32 \<Rightarrow> u32 \<Rightarrow> 'a task_state_scheme \<Rightarrow> cpu \<Rightarrow> ('a task_state_scheme \<times> cpu) option" where
  "switch_to cur nxt s c =
     do { let m = store32 (memory s) (r_esp c - 4) (r_ebp c);
          let m = store32 m (r_esp c - 8) (r_edi c);
          let m = store32 m (r_esp c - 12) (r_esi c);
          let m = store32 m (r_esp c - 16) (r_ebx c);
          let s = s\<lparr>memory := m\<rparr>;
          x \<leftarrow> tasks s cur;
          let s = set_task cur (x\<lparr>t_esp := r_esp c - 16\<rparr>) s;
          y \<leftarrow> tasks s nxt;
          let sp = t_esp y;
          let s = (if t_cr3 y \<noteq> 0 then s\<lparr>cr3 := t_cr3 y\<rparr> else s);
          Some (s, \<lparr>r_ebx = load32 m sp, r_esi = load32 m (sp + 4), r_edi = load32 m (sp + 8),
                    r_ebp = load32 m (sp + 12), r_esp = sp + 20, r_eip = load32 m (sp + 16)\<rparr>) }"

text \<open>The CPU state is the one at the call of \<open>switch_to\<close>; with a single task the function returns
  to its caller instead.\<close>

definition task_yield :: "'a task_state_scheme \<Rightarrow> cpu \<Rightarrow> ('a task_state_scheme \<times> cpu) option" where
  "task_yield s c =
     do { let s = s\<lparr>interrupts := False\<rparr>;
          let old = g_current s;
          x \<leftarrow> tasks s old;
          let new = t_next x;
          if old = new then Some (s, c)
          else do {
            let s = set_task old (x\<lparr>t_state := TASK_READY\<rparr>) s;
            y \<leftarrow> tasks s new;
            let s = set_task new (y\<lparr>t_state := TASK_RUNNING\<rparr>) s;
            let s = s\<lparr>g_current := new\<rparr>;
            let s = (if t_kernel_stack_top y \<noteq> 0
                     then s\<lparr>tabs := tss_set_esp0 (t_kernel_stack_top y) (tabs s)\<rparr> else s);
            switch_to old new s c } }"

definition task_current :: "'a task_state_scheme \<Rightarrow> u32" where
  "task_current s = g_current s"

text \<open>\<open>return_to_ring3\<close> and its \<open>iret\<close>: what user mode starts with.\<close>

record user_context =
  u_eip :: u32
  u_cs :: u32
  u_eflags :: u32
  u_esp :: u32
  u_ss :: u32

definition iret_to_user :: "mem \<Rightarrow> u32 \<Rightarrow> user_context" where
  "iret_to_user m sp = \<lparr>u_eip = load32 m sp, u_cs = load32 m (sp + 4), u_eflags = load32 m (sp + 8),
     u_esp = load32 m (sp + 12), u_ss = load32 m (sp + 16)\<rparr>"

section \<open>Words on a stack\<close>

lemma store_words_changes:
  assumes "unat a + 4 * length ws \<le> 4294967296"
  shows "changes_only {unat a..<unat a + 4 * length ws} m (store_words m a ws)"
  using assms
proof (induction ws arbitrary: m a)
  case (Cons w ws)
  have one: "changes_only {unat a..<unat a + 4} m (store32 m a w)"
    unfolding changes_only_def
  proof (intro allI impI)
    fix x :: u32 assume x: "unat x \<notin> {unat a..<unat a + 4}"
    have "unat (a + k) = unat a + unat k" if "unat k < 4" for k :: u32
      using Cons.prems that by (intro unat_add_no_wrap) simp
    then have "x \<notin> word_at a"
      using x unfolding word_at_def by (auto simp: u32_eq_iff)
    then show "store32 m a w x = m x"
      by (rule store32_outside)
  qed
  show ?case
  proof (cases "ws = []")
    case False
    then have a4: "unat (a + 4) = unat a + 4"
      using Cons.prems by (cases ws) (auto intro!: trans [OF unat_add_no_wrap])
    have "changes_only {unat (a + 4)..<unat (a + 4) + 4 * length ws} (store32 m a w) (store_words (store32 m a w) (a + 4) ws)"
      using Cons.prems a4 by (intro Cons.IH) simp
    then show ?thesis
      using changes_only_trans [OF one, of _ _ "{unat a..<unat a + 4 * length (w # ws)}"] a4 by auto
  qed (use one in simp)
qed simp

lemma load_store_words:
  assumes "aligned4 a" "unat a + 4 * length ws \<le> 4294967296" "i < length ws"
  shows "load32 (store_words m a ws) (a + 4 * of_nat i) = ws ! i"
  using assms
proof (induction ws arbitrary: m a i)
  case (Cons w ws)
  show ?case
  proof (cases "ws = []")
    case False
    then have a4: "unat (a + 4) = unat a + 4"
      using Cons.prems by (cases ws) (auto intro!: trans [OF unat_add_no_wrap])
    then have al: "aligned4 (a + 4)"
      using Cons.prems(1) unfolding aligned4_unat by (simp add: dvd_add)
    show ?thesis
    proof (cases i)
      case 0
      have "changes_only {unat (a + 4)..<unat (a + 4) + 4 * length ws} (store32 m a w) (store_words (store32 m a w) (a + 4) ws)"
        using Cons.prems a4 by (intro store_words_changes) simp
      then have "load32 (store_words (store32 m a w) (a + 4) ws) a = load32 (store32 m a w) a"
        using word_at_unat [OF Cons.prems(1)] a4 by (intro load32_cong) (force simp: changes_only_def)
      then show ?thesis
        using 0 by simp
    next
      case (Suc j)
      have "load32 (store_words (store32 m a w) (a + 4) ws) ((a + 4) + 4 * of_nat j) = ws ! j"
        using Cons.prems a4 al Suc by (intro Cons.IH) auto
      then show ?thesis
        using Suc by (simp add: algebra_simps)
    qed
  qed (use Cons.prems in simp)
qed simp

section \<open>The task ring\<close>

text \<open>\<open>chain T ts e\<close>: the \<open>next\<close> fields run through \<open>ts\<close> and on to \<open>e\<close>.\<close>

fun chain :: "(u32 \<rightharpoonup> task) \<Rightarrow> u32 list \<Rightarrow> u32 \<Rightarrow> bool" where
  "chain T [] e \<longleftrightarrow> True"
| "chain T (t # ts) e \<longleftrightarrow> (\<exists>x. T t = Some x \<and> t_next x = hd (ts @ [e])) \<and> chain T ts e"

lemma chain_append: "chain T (xs @ y # ys) e \<longleftrightarrow> chain T xs y \<and> chain T (y # ys) e"
  by (induction xs) (auto simp: hd_append)

lemma chain_cong:
  "(\<And>t. t \<in> set ts \<Longrightarrow> map_option t_next (T t) = map_option t_next (T' t)) \<Longrightarrow> chain T ts e \<longleftrightarrow> chain T' ts e"
proof (induction ts)
  case (Cons t ts)
  have "map_option t_next (T t) = map_option t_next (T' t)"
    using Cons.prems by simp
  then have "(\<exists>x. T t = Some x \<and> t_next x = n) \<longleftrightarrow> (\<exists>x. T' t = Some x \<and> t_next x = n)" for n
    by (cases "T t"; cases "T' t") auto
  then show ?case
    using Cons.IH Cons.prems by auto
qed simp

text \<open>The tasks form one ring that starts at the current task, which alone is running.\<close>

definition ring :: "'a task_state_scheme \<Rightarrow> u32 list \<Rightarrow> bool" where
  "ring s ts \<longleftrightarrow> ts \<noteq> [] \<and> hd ts = g_current s \<and> distinct ts \<and> set ts = dom (tasks s) \<and>
     chain (tasks s) ts (hd ts) \<and>
     (\<forall>t x. tasks s t = Some x \<longrightarrow> t_state x = (if t = g_current s then TASK_RUNNING else TASK_READY))"

lemma ring_cong: "tasks s' = tasks s \<Longrightarrow> g_current s' = g_current s \<Longrightarrow> ring s' ts \<longleftrightarrow> ring s ts"
  by (simp only: ring_def)

lemma ring_next:
  assumes "ring s (c # ts)"
  obtains x where "tasks s c = Some x" "t_next x = hd (ts @ [c])" "g_current s = c" "t_state x = TASK_RUNNING"
proof -
  have c: "g_current s = c" "chain (tasks s) (c # ts) c"
    "\<forall>t x. tasks s t = Some x \<longrightarrow> t_state x = (if t = g_current s then TASK_RUNNING else TASK_READY)"
    using assms unfolding ring_def list.sel by metis+
  then obtain x where "tasks s c = Some x" "t_next x = hd (ts @ [c])"
    by (simp only: chain.simps) blast
  then show ?thesis
    using c(1,3) that by simp
qed

lemma ring_other:
  assumes "ring s ts" "t \<in> set ts" "t \<noteq> g_current s"
  obtains x where "tasks s t = Some x" "t_state x = TASK_READY"
  using assms by (auto simp: ring_def)

text \<open>A yield rotates the ring.\<close>

lemma ring_rotate:
  assumes r: "ring s (c # n # ts)"
    and T: "\<And>t. map_option t_next (T' t) = map_option t_next (tasks s t)"
    and st: "\<And>t x. T' t = Some x \<Longrightarrow> t_state x = (if t = n then TASK_RUNNING else TASK_READY)"
    and s': "tasks s' = T'" "g_current s' = n"
  shows "ring s' (n # ts @ [c])"
proof -
  have dom: "dom T' = dom (tasks s)"
    unfolding dom_def by (metis (mono_tags) T option.map_disc_iff)
  have c: "chain (tasks s) (c # n # ts) c" "distinct (c # n # ts)" "set (c # n # ts) = dom (tasks s)"
    using r by (auto simp: ring_def)
  then have "chain (tasks s) ((n # ts) @ [c]) n"
    by (subst chain_append) auto
  then have "chain T' ((n # ts) @ [c]) n"
    using chain_cong [of "(n # ts) @ [c]" T' "tasks s"] T by simp
  then show ?thesis
    using c dom st unfolding ring_def s' by auto
qed

text \<open>Linking a new task puts it right behind the current one.\<close>

lemma ring_insert:
  assumes r: "ring s (c # ts)" and t: "t \<notin> set (c # ts)" "t_state x = TASK_READY"
    and l: "link_task t x s' = Some s''" and s': "tasks s' = tasks s" "g_current s' = g_current s"
  shows "ring s'' (c # t # ts)"
    "tasks s'' t = Some (x\<lparr>t_next := hd (ts @ [c])\<rparr>)"
    "\<And>u. u \<noteq> t \<Longrightarrow> tasks s'' u = (if u = c then map_option (\<lambda>y. y\<lparr>t_next := t\<rparr>) (tasks s c) else tasks s u)"
proof -
  obtain y where y: "tasks s c = Some y" "t_next y = hd (ts @ [c])" "g_current s = c" "t_state y = TASK_RUNNING"
    by (rule ring_next [OF r])
  have tc: "t \<noteq> c" using t by simp
  have s'': "s'' = s'\<lparr>tasks := (tasks s)(t \<mapsto> x\<lparr>t_next := t_next y\<rparr>, c \<mapsto> y\<lparr>t_next := t\<rparr>)\<rparr>"
    using l y s' tc by (auto simp: link_task_def set_task_def bind_eq_Some_conv)
  show "tasks s'' t = Some (x\<lparr>t_next := hd (ts @ [c])\<rparr>)"
    using tc y by (simp add: s'')
  show "tasks s'' u = (if u = c then map_option (\<lambda>y. y\<lparr>t_next := t\<rparr>) (tasks s c) else tasks s u)" if "u \<noteq> t" for u
    using that y by (simp add: s'')
  have c: "chain (tasks s) (c # ts) c" "distinct (c # ts)" "set (c # ts) = dom (tasks s)"
    "\<And>u z. tasks s u = Some z \<Longrightarrow> t_state z = (if u = c then TASK_RUNNING else TASK_READY)"
    using r y(3) by (auto simp: ring_def)
  have "chain (tasks s'') ts c"
  proof (subst chain_cong [of ts "tasks s''" "tasks s"])
    show "map_option t_next (tasks s'' u) = map_option t_next (tasks s u)" if "u \<in> set ts" for u
      using that c(2) t(1) by (auto simp: s'')
  qed (use c(1) in simp)
  then have "chain (tasks s'') (c # t # ts) c"
    using y tc by (simp add: s'')
  moreover have "dom (tasks s'') = insert t (dom (tasks s))"
    using y tc by (auto simp: s'')
  ultimately show "ring s'' (c # t # ts)"
    using c t y s' tc unfolding ring_def by (auto simp: s'' split: if_splits)
qed

lemma link_task_returns: "ring s (c # ts) \<Longrightarrow> t \<notin> set (c # ts) \<Longrightarrow> \<exists>s'. link_task t x s = Some s'"
  by (auto simp: ring_def link_task_def set_task_def)

section \<open>The scheduler's invariant\<close>

lemma more_task_fields:
  fixes s s' :: "'a task_state_scheme"
  shows "heap_state.more s' = heap_state.more s \<Longrightarrow>
      tasks s' = tasks s \<and> g_current s' = g_current s \<and> g_next_id s' = g_next_id s \<and> tabs s' = tabs s \<and>
      interrupts s' = interrupts s \<and> pd_phys s' = pd_phys s \<and> cr3 s' = cr3 s"
    "paging_state.more s' = paging_state.more s \<Longrightarrow>
      tasks s' = tasks s \<and> g_current s' = g_current s \<and> g_next_id s' = g_next_id s \<and> tabs s' = tabs s \<and>
      interrupts s' = interrupts s"
  by (cases s; cases s'; simp)+

text \<open>The heap is well formed, every task control block is a live heap block, and the kernel's page
  directory is a page in use.\<close>

definition sched_inv :: "'a task_state_scheme \<Rightarrow> (u32 \<rightharpoonup> nat) \<Rightarrow> nat set \<Rightarrow> u32 list \<Rightarrow> bool" where
  "sched_inv s A Z ts \<longleftrightarrow> heap_owns s A Z \<and> Z \<subseteq> heap_page_bytes s \<and> ring s ts \<and> (\<forall>t\<in>set ts. t \<noteq> 0 \<and> A (t - 8) \<noteq> None) \<and>
     used_page s (pd_phys s)"

lemma sched_invD:
  assumes "sched_inv s A Z ts"
  shows "heap_owns s A Z" "ring s ts" "\<And>t. t \<in> set ts \<Longrightarrow> t \<noteq> 0 \<and> A (t - 8) \<noteq> None"
    "used_page s (pd_phys s)" "pmm_wf (pmm s)" "Z \<subseteq> heap_page_bytes s"
  using assms heap_owns_wf(1) by (auto simp: sched_inv_def)

text \<open>What a function may change without disturbing heap and scheduler: free pages, and page 0,
  where a table is built when the allocator has no page left.\<close>

definition elsewhere :: "'a task_state_scheme \<Rightarrow> 'a task_state_scheme \<Rightarrow> bool" where
  "elsewhere s s' \<longleftrightarrow> changes_only ({0..<4096} \<union> page_bytes (free_set (pmm s))) (memory s) (memory s') \<and>
     pmm_wf (pmm s') \<and> free_set (pmm s') \<subseteq> free_set (pmm s) \<and> free_head s' = free_head s \<and>
     heap_pages s' = heap_pages s \<and> pd_phys s' = pd_phys s \<and> cr3 s' = cr3 s \<and> paging_state.more s' = paging_state.more s"

lemma used_page_mono: "free_set (pmm s') \<subseteq> free_set (pmm s) \<Longrightarrow> used_page s t \<Longrightarrow> used_page s' t"
  by (auto simp: used_page_def)

lemma sched_inv_elsewhere:
  assumes inv: "sched_inv s A Z ts" and e: "elsewhere s s'"
  shows "sched_inv s' A Z ts"
proof -
  note I = sched_invD [OF inv]
  have E: "changes_only ({0..<4096} \<union> page_bytes (free_set (pmm s))) (memory s) (memory s')" "pmm_wf (pmm s')"
    "free_set (pmm s') \<subseteq> free_set (pmm s)" "free_head s' = free_head s" "pd_phys s' = pd_phys s"
    "paging_state.more s' = paging_state.more s" "heap_pages s' = heap_pages s"
    using e by (auto simp: elsewhere_def)
  have "({0..<4096} \<union> page_bytes (free_set (pmm s))) \<inter> Z = {}"
    using heap_owns_wf(2,3) [OF I(1)] by fastforce
  then have "heap_owns s' A Z"
    by (rule heap_owns_elsewhere [OF I(1) E(1) _ E(2,3,4)])
  moreover have "ring s' ts"
    using I(2) more_task_fields(2) [OF E(6)] ring_cong by blast
  moreover have "used_page s' (pd_phys s')"
    unfolding E(5) by (rule used_page_mono [OF E(3) I(4)])
  ultimately show ?thesis
    using I(3,6) E(7) by (simp add: sched_inv_def heap_page_bytes_def)
qed

text \<open>The part every creation function ends with.\<close>

definition task_added :: "'a task_state_scheme \<Rightarrow> 'a task_state_scheme \<Rightarrow> u32 \<Rightarrow> u32 \<Rightarrow> task \<Rightarrow> bool" where
  "task_added s s' c t x \<longleftrightarrow> tasks s' t = Some x \<and> tasks s t = None \<and>
     (\<forall>u. u \<noteq> t \<longrightarrow> tasks s' u = (if u = c then map_option (\<lambda>y. y\<lparr>t_next := t\<rparr>) (tasks s c) else tasks s u)) \<and>
     g_next_id s' = g_next_id s + 1 \<and> tabs s' = tabs s \<and> interrupts s' = interrupts s \<and>
     pd_phys s' = pd_phys s \<and> cr3 s' = cr3 s"

lemma new_tcb_ok:
  assumes inv: "sched_inv s A Z (c # ts)"
  shows "new_tcb sp ktop cr s = None \<and> (\<exists>s1. kmalloc s sizeof_task = Some (0, s1)) \<or>
    (\<exists>t s' A' Z'. new_tcb sp ktop cr s = Some (t, s') \<and> sched_inv s' A' Z' (c # t # ts) \<and> t \<noteq> 0 \<and>
      changes_only (Z \<union> page_bytes (free_set (pmm s) \<inter> kernel_zone)) (memory s) (memory s') \<and>
      free_set (pmm s') \<subseteq> free_set (pmm s) \<and>
      task_added s s' c t \<lparr>t_esp = sp, t_id = g_next_id s, t_state = TASK_READY, t_next = hd (ts @ [c]),
        t_kernel_stack_top = (case ktop of Some v \<Rightarrow> v | None \<Rightarrow> load32 (memory s') (t + 0x10)),
        t_cr3 = cr, t_fds = replicate MAX_FD_PER_TASK 0\<rparr>)"
proof -
  note I = sched_invD [OF inv]
  obtain t s1 A1 Z1 where k: "kmalloc s sizeof_task = Some (t, s1)" "malloc_step s A Z sizeof_task t s1 A1 Z1"
    using kmalloc_step [OF I(1)] by blast
  show ?thesis
  proof (cases "t = 0")
    case True
    then show ?thesis
      using k(1) by (simp add: new_tcb_def)
  next
    case False
    have m: "heap_owns s1 A1 Z1" "heap_state.more s1 = heap_state.more s" "free_set (pmm s1) \<subseteq> free_set (pmm s)"
      "changes_only (Z \<union> page_bytes (free_set (pmm s) \<inter> kernel_zone)) (memory s) (memory s1)"
      "A (t - 8) = None" "\<exists>k. A1 = A(t - 8 \<mapsto> k)" "Z1 \<subseteq> heap_page_bytes s1"
      using k(2) False I(6) by (auto simp: malloc_step_def)
    note f = more_task_fields(1) [OF m(2)]
    have new: "t \<notin> set (c # ts)"
      using I(3) m(5) by blast
    let ?x = "\<lparr>t_esp = sp, t_id = g_next_id s, t_state = TASK_READY, t_next = 0,
        t_kernel_stack_top = (case ktop of Some v \<Rightarrow> v | None \<Rightarrow> load32 (memory s1) (t + 0x10)),
        t_cr3 = cr, t_fds = replicate MAX_FD_PER_TASK 0\<rparr>"
    let ?s2 = "s1\<lparr>g_next_id := g_next_id s + 1\<rparr>"
    have "ring ?s2 (c # ts)"
      using I(2) f ring_cong [of ?s2 s] by simp
    then obtain s' where l: "link_task t ?x ?s2 = Some s'"
      using link_task_returns [OF _ new] by blast
    have "new_tcb sp ktop cr s = Some (t, s')"
      using k(1) False l f by (simp add: new_tcb_def)
    moreover have rest: "memory s' = memory s1" "pmm s' = pmm s1" "free_head s' = free_head s1" "heap_pages s' = heap_pages s1" "pd_phys s' = pd_phys s1"
      "g_next_id s' = g_next_id s + 1" "tabs s' = tabs s1" "interrupts s' = interrupts s1" "cr3 s' = cr3 s1"
      using l by (auto simp: link_task_def set_task_def bind_eq_Some_conv)
    note ins = ring_insert [OF I(2) new _ l]
    have ring': "ring s' (c # t # ts)" "tasks s' t = Some (?x\<lparr>t_next := hd (ts @ [c])\<rparr>)"
      "\<And>u. u \<noteq> t \<Longrightarrow> tasks s' u = (if u = c then map_option (\<lambda>y. y\<lparr>t_next := t\<rparr>) (tasks s c) else tasks s u)"
      using ins f by simp_all
    have "heap_owns s' A1 Z1"
      using m(1) rest by (auto simp: heap_owns_def heap_inv_def)
    moreover have "used_page s' (pd_phys s')"
      using used_page_mono [of s' s "pd_phys s"] I(4) m(3) rest f by simp
    moreover have "\<forall>u\<in>set (c # t # ts). u \<noteq> 0 \<and> A1 (u - 8) \<noteq> None"
      using I(3) m(6) False by auto
    ultimately have "sched_inv s' A1 Z1 (c # t # ts)"
      using ring'(1) m(7) rest(4) by (simp add: sched_inv_def heap_page_bytes_def)
    moreover have "tasks s t = None"
      using new I(2) by (auto simp: ring_def)
    then have "task_added s s' c t \<lparr>t_esp = sp, t_id = g_next_id s, t_state = TASK_READY, t_next = hd (ts @ [c]),
        t_kernel_stack_top = (case ktop of Some v \<Rightarrow> v | None \<Rightarrow> load32 (memory s') (t + 0x10)),
        t_cr3 = cr, t_fds = replicate MAX_FD_PER_TASK 0\<rparr>"
      unfolding rest(1) using ring'(2,3) rest f by (simp add: task_added_def)
    ultimately show ?thesis
      using \<open>new_tcb sp ktop cr s = Some (t, s')\<close> False m(3,4) rest
      by (intro disjI2 exI [of _ t] exI [of _ s'] exI [of _ A1] exI [of _ Z1]) simp
  qed
qed

section \<open>The creation functions\<close>

text \<open>The words of a stack frame.\<close>

definition frame_at :: "mem \<Rightarrow> u32 \<Rightarrow> u32 list \<Rightarrow> bool" where
  "frame_at m sp ws \<longleftrightarrow> (\<forall>i<length ws. load32 m (sp + 4 * of_nat i) = ws ! i)"

lemma stack_frame:
  assumes i: "i + 2 \<le> 1792" and n: "length ws \<le> 10"
  defines "sp \<equiv> page_addr i + 2 * PAGE_SIZE - 4 * of_nat (length ws)"
  shows "aligned4 sp" "unat sp + 4 * length ws = 0x100000 + 4096 * i + 8192"
    "{unat sp..<unat sp + 4 * length ws} \<subseteq> page_bytes {i..<i + 2}"
proof -
  have b: "unat (page_addr i) = 0x100000 + 4096 * i"
    using i by (intro unat_page_addr) simp
  have t: "unat (page_addr i + 2 * PAGE_SIZE) = 0x100000 + 4096 * i + 8192"
    using i b by (intro trans [OF unat_add_no_wrap]) simp_all
  have l: "unat (4 * of_nat (length ws) :: u32) = 4 * length ws"
    using n by (subst unat_mult_no_wrap) (simp_all add: unat_of_nat_u32)
  have sp: "unat sp = 0x100000 + 4096 * i + 8192 - 4 * length ws"
    unfolding sp_def using t l n by (subst unat_sub_no_wrap) (simp_all add: word_le_nat_alt)
  then show "unat sp + 4 * length ws = 0x100000 + 4096 * i + 8192"
    using n by simp
  have "unat sp = 4 * (0x40000 + 1024 * i + 2048 - length ws)"
    using sp n by simp
  then show "aligned4 sp"
    unfolding aligned4_unat by simp
  show "{unat sp..<unat sp + 4 * length ws} \<subseteq> page_bytes {i..<i + 2}"
    unfolding page_bytes_ivl using sp n by auto
qed

lemma frame_at_cong:
  assumes "aligned4 sp" "unat sp + 4 * length ws \<le> 4294967296" "frame_at m sp ws"
    "\<And>x. unat sp \<le> unat x \<Longrightarrow> unat x < unat sp + 4 * length ws \<Longrightarrow> m' x = m x"
  shows "frame_at m' sp ws"
  unfolding frame_at_def
proof (intro allI impI)
  fix k assume k: "k < length ws"
  have k4: "unat (4 * of_nat k :: u32) = 4 * k"
    using k assms(2) by (subst unat_mult_no_wrap) (simp_all add: unat_of_nat_u32)
  then have a: "unat (sp + 4 * of_nat k) = unat sp + 4 * k"
    using k assms(2) by (intro trans [OF unat_add_no_wrap]) simp_all
  then have "aligned4 (sp + 4 * of_nat k)"
    using assms(1) unfolding aligned4_unat by (simp add: dvd_add)
  then have "load32 m' (sp + 4 * of_nat k) = load32 m (sp + 4 * of_nat k)"
    using word_at_unat a k by (intro load32_cong assms(4)) (force simp: a)+
  then show "load32 m' (sp + 4 * of_nat k) = ws ! k"
    using assms(3) k by (simp add: frame_at_def)
qed

lemma finish_create:
  assumes inv: "sched_inv s A Z (c # ts)" and e: "elsewhere s s1"
    and i: "{i..<i + 2} \<subseteq> free_set (pmm s) \<inter> kernel_zone" "{i..<i + 2} \<inter> free_set (pmm s1) = {}"
    and n: "length ws \<le> 10"
  defines "sp \<equiv> page_addr i + 2 * PAGE_SIZE - 4 * of_nat (length ws)"
  shows "new_tcb sp ktop cr (s1\<lparr>memory := store_words (memory s1) sp ws\<rparr>) = None \<and>
      (\<exists>s2 s3. elsewhere s s2 \<and> kmalloc s2 sizeof_task = Some (0, s3)) \<or>
    (\<exists>t s' A' Z'. new_tcb sp ktop cr (s1\<lparr>memory := store_words (memory s1) sp ws\<rparr>) = Some (t, s') \<and>
      sched_inv s' A' Z' (c # t # ts) \<and> t \<noteq> 0 \<and> frame_at (memory s') sp ws \<and>
      task_added s s' c t \<lparr>t_esp = sp, t_id = g_next_id s, t_state = TASK_READY, t_next = hd (ts @ [c]),
        t_kernel_stack_top = (case ktop of Some v \<Rightarrow> v | None \<Rightarrow> load32 (memory s') (t + 0x10)),
        t_cr3 = cr, t_fds = replicate MAX_FD_PER_TASK 0\<rparr>)"
proof -
  have "i + 1 \<in> kernel_zone"
    using i(1) by (intro subsetD [OF i(1), THEN IntD2]) simp
  then have i2: "i + 2 \<le> 1792" by simp
  note sf = stack_frame [OF i2 n, folded sp_def]
  have top: "unat sp + 4 * length ws \<le> 4294967296"
    using sf(2) i2 by simp
  let ?s2 = "s1\<lparr>memory := store_words (memory s1) sp ws\<rparr>"
  have E: "changes_only ({0..<4096} \<union> page_bytes (free_set (pmm s))) (memory s) (memory s1)" "pmm_wf (pmm s1)"
    "free_set (pmm s1) \<subseteq> free_set (pmm s)" "free_head s1 = free_head s" "pd_phys s1 = pd_phys s" "cr3 s1 = cr3 s"
    "paging_state.more s1 = paging_state.more s" "heap_pages s1 = heap_pages s"
    using e by (auto simp: elsewhere_def)
  have pages: "page_bytes {i..<i + 2} \<subseteq> page_bytes (free_set (pmm s))"
    using i(1) by (intro page_bytes_mono) blast
  have ch: "changes_only {unat sp..<unat sp + 4 * length ws} (memory s1) (memory ?s2)"
    using store_words_changes [OF top] by simp
  have "changes_only ({0..<4096} \<union> page_bytes (free_set (pmm s))) (memory s) (memory ?s2)"
    by (rule changes_only_trans [OF E(1) ch]) (use sf(3) pages in blast)+
  then have e2: "elsewhere s ?s2"
    using E by (simp add: elsewhere_def)
  have inv2: "sched_inv ?s2 A Z (c # ts)"
    by (rule sched_inv_elsewhere [OF inv e2])
  have f: "tasks ?s2 = tasks s" "g_next_id ?s2 = g_next_id s" "tabs ?s2 = tabs s" "interrupts ?s2 = interrupts s"
    "pd_phys ?s2 = pd_phys s" "cr3 ?s2 = cr3 s"
    using more_task_fields(2) [OF E(7)] E(5,6) by simp_all
  have fr: "frame_at (memory ?s2) sp ws"
    using load_store_words [OF sf(1) top] by (simp add: frame_at_def)
  have keep: "frame_at m' sp ws"
    if "changes_only (Z \<union> page_bytes (free_set (pmm ?s2) \<inter> kernel_zone)) (memory ?s2) m'" for m'
  proof (rule frame_at_cong [OF sf(1) top fr])
    fix x :: u32 assume "unat sp \<le> unat x" "unat x < unat sp + 4 * length ws"
    then have x: "unat x \<in> page_bytes {i..<i + 2}"
      using sf(3) by auto
    then have "unat x \<notin> Z"
      using heap_owns_wf(2) [OF sched_invD(1) [OF inv]] pages by blast
    moreover have "unat x \<notin> page_bytes (free_set (pmm ?s2) \<inter> kernel_zone)"
      using x i(2) by (auto simp: mem_page_bytes)
    ultimately show "m' x = memory ?s2 x"
      using that by (simp add: changes_only_def)
  qed
  show ?thesis
  proof (cases "new_tcb sp ktop cr ?s2 = None")
    case False
    from new_tcb_ok [OF inv2, of sp ktop cr] False obtain t s' A' Z' where
      r: "new_tcb sp ktop cr ?s2 = Some (t, s')" "sched_inv s' A' Z' (c # t # ts)" "t \<noteq> 0"
      "changes_only (Z \<union> page_bytes (free_set (pmm ?s2) \<inter> kernel_zone)) (memory ?s2) (memory s')"
      "task_added ?s2 s' c t \<lparr>t_esp = sp, t_id = g_next_id ?s2, t_state = TASK_READY, t_next = hd (ts @ [c]),
        t_kernel_stack_top = (case ktop of Some v \<Rightarrow> v | None \<Rightarrow> load32 (memory s') (t + 0x10)),
        t_cr3 = cr, t_fds = replicate MAX_FD_PER_TASK 0\<rparr>"
      by blast
    have "task_added s s' c t x" if "task_added ?s2 s' c t x" for x
      using that f by (simp add: task_added_def)
    then show ?thesis
      using r keep [OF r(4)] f(2) by (intro disjI2 exI [of _ t] exI [of _ s'] exI [of _ A'] exI [of _ Z']) simp
  next
    case True
    then show ?thesis
      using new_tcb_ok [OF inv2, of sp ktop cr] e2 by auto
  qed
qed

text \<open>What a creation function does: it does not return when \<open>kmalloc\<close> has no block for the control
  block (the source stores through the null pointer); otherwise nothing happens to the ring, or the
  new task stands behind the current one, with a stack frame that the allocation of its control
  block left intact.\<close>

definition created :: "'a task_state_scheme \<Rightarrow> u32 \<Rightarrow> u32 list \<Rightarrow> u32 list \<Rightarrow> (u32 \<times> 'a task_state_scheme) option \<Rightarrow>
    (u32 \<Rightarrow> 'a task_state_scheme \<Rightarrow> task \<Rightarrow> bool) \<Rightarrow> bool" where
  "created s c ts ws r Q \<longleftrightarrow> (case r of None \<Rightarrow> \<exists>s1 s2. elsewhere s s1 \<and> kmalloc s1 sizeof_task = Some (0, s2)
     | Some (t, s') \<Rightarrow>
         if t = 0 then (\<exists>A Z. sched_inv s' A Z (c # ts)) \<and> tasks s' = tasks s
         else (\<exists>A Z. sched_inv s' A Z (c # t # ts)) \<and> (\<exists>x. task_added s s' c t x \<and> frame_at (memory s') (t_esp x) ws \<and>
           t_state x = TASK_READY \<and> t_id x = g_next_id s \<and> t_fds x = replicate MAX_FD_PER_TASK 0 \<and> aligned4 (t_esp x) \<and>
           Q t s' x))"

lemma elsewhere_refl: "pmm_wf (pmm s) \<Longrightarrow> elsewhere s s"
  by (simp add: elsewhere_def)

lemma elsewhere_pmm: "pmm_wf p \<Longrightarrow> free_set p \<subseteq> free_set (pmm s) \<Longrightarrow> elsewhere s (s\<lparr>pmm := p\<rparr>)"
  by (simp add: elsewhere_def)

lemma elsewhere_trans:
  assumes "elsewhere s t" "elsewhere t u"
  shows "elsewhere s u"
proof -
  have "page_bytes (free_set (pmm t)) \<subseteq> page_bytes (free_set (pmm s))"
    using assms(1) by (intro page_bytes_mono) (simp add: elsewhere_def)
  then show ?thesis
    using assms changes_only_trans [of "{0..<4096} \<union> page_bytes (free_set (pmm s))" "memory s" "memory t"
        "{0..<4096} \<union> page_bytes (free_set (pmm t))" "memory u" "{0..<4096} \<union> page_bytes (free_set (pmm s))"]
    unfolding elsewhere_def by auto
qed

text \<open>The two pages of a kernel stack.\<close>

lemma kernel_stack:
  assumes "pmm_wf (pmm s)" "pmm_alloc_contiguous_pages (pmm s) 2 = (b, p)"
  shows "elsewhere s (s\<lparr>pmm := p\<rparr>)"
    "b \<noteq> 0 \<Longrightarrow> \<exists>i. b = page_addr i \<and> {i..<i + 2} \<subseteq> free_set (pmm s) \<inter> kernel_zone \<and> {i..<i + 2} \<inter> free_set p = {}"
proof -
  have "elsewhere s (s\<lparr>pmm := p\<rparr>) \<and>
      (b \<noteq> 0 \<longrightarrow> (\<exists>i. b = page_addr i \<and> {i..<i + 2} \<subseteq> free_set (pmm s) \<inter> kernel_zone \<and> {i..<i + 2} \<inter> free_set p = {}))"
  proof (cases "b = 0")
    case True
    then show ?thesis
      using kernel_run.run_failed [OF assms(1), of 2 p] assms by (simp add: elsewhere_refl)
  next
    case False
    from kernel_run.run_found [OF assms False] obtain i where i: "b = page_addr i"
      "{i..<i + 2} \<subseteq> free_set (pmm s) \<inter> kernel_zone" "pmm_wf p" "free_set p = free_set (pmm s) - {i..<i + 2}"
      by auto
    then show ?thesis
      using elsewhere_pmm [of p s] by blast
  qed
  then show "elsewhere s (s\<lparr>pmm := p\<rparr>)"
    "b \<noteq> 0 \<Longrightarrow> \<exists>i. b = page_addr i \<and> {i..<i + 2} \<subseteq> free_set (pmm s) \<inter> kernel_zone \<and> {i..<i + 2} \<inter> free_set p = {}"
    by blast+
qed

lemma createdI:
  assumes inv: "sched_inv s A Z (c # ts)" and e: "elsewhere s s1"
    and i: "{i..<i + 2} \<subseteq> free_set (pmm s) \<inter> kernel_zone" "{i..<i + 2} \<inter> free_set (pmm s1) = {}"
    and n: "length ws \<le> 10"
    and sp: "sp = page_addr i + 2 * PAGE_SIZE - 4 * of_nat (length ws)"
    and Q: "\<And>t s' x. t_esp x = sp \<Longrightarrow> t_cr3 x = cr \<Longrightarrow>
       t_kernel_stack_top x = (case ktop of Some v \<Rightarrow> v | None \<Rightarrow> load32 (memory s') (t + 0x10)) \<Longrightarrow> Q t s' x"
  shows "created s c ts ws (new_tcb sp ktop cr (s1\<lparr>memory := store_words (memory s1) sp ws\<rparr>)) Q"
proof (cases "new_tcb sp ktop cr (s1\<lparr>memory := store_words (memory s1) sp ws\<rparr>)")
  case None
  then show ?thesis
    using finish_create [OF inv e i n, of ktop cr, folded sp] by (auto simp: created_def)
next
  case (Some r)
  have "i + 1 \<in> kernel_zone"
    using i(1) by (intro subsetD [OF i(1), THEN IntD2]) simp
  then have "aligned4 sp"
    unfolding sp by (intro stack_frame(1) n) simp
  moreover obtain t s' A' Z' where r: "r = (t, s')" "sched_inv s' A' Z' (c # t # ts)" "t \<noteq> 0" "frame_at (memory s') sp ws"
      "task_added s s' c t \<lparr>t_esp = sp, t_id = g_next_id s, t_state = TASK_READY, t_next = hd (ts @ [c]),
        t_kernel_stack_top = (case ktop of Some v \<Rightarrow> v | None \<Rightarrow> load32 (memory s') (t + 0x10)),
        t_cr3 = cr, t_fds = replicate MAX_FD_PER_TASK 0\<rparr>"
    using finish_create [OF inv e i n, of ktop cr, folded sp] Some by auto
  ultimately show ?thesis
    using Q [of "\<lparr>t_esp = sp, t_id = g_next_id s, t_state = TASK_READY, t_next = hd (ts @ [c]),
        t_kernel_stack_top = (case ktop of Some v \<Rightarrow> v | None \<Rightarrow> load32 (memory s') (t + 0x10)),
        t_cr3 = cr, t_fds = replicate MAX_FD_PER_TASK 0\<rparr>" s' t]
    unfolding created_def Some r(1) by auto
qed

lemma created_none: "sched_inv s A Z (c # ts) \<Longrightarrow> elsewhere s s' \<Longrightarrow> created s c ts ws (Some (0, s')) Q"
proof -
  assume inv: "sched_inv s A Z (c # ts)" and e: "elsewhere s s'"
  have "sched_inv s' A Z (c # ts)"
    by (rule sched_inv_elsewhere [OF inv e])
  moreover have "tasks s' = tasks s"
    using e more_task_fields(2) [of s' s] by (simp add: elsewhere_def)
  ultimately show ?thesis
    by (auto simp: created_def)
qed

lemma task_create_ok:
  assumes inv: "sched_inv s A Z (c # ts)"
  shows "created s c ts [0, 0, 0, 0, ent] (task_create s ent)
    (\<lambda>t s' x. t_cr3 x = 0 \<and> t_kernel_stack_top x = load32 (memory s') (t + 0x10))"
proof -
  obtain b p where a: "pmm_alloc_contiguous_pages (pmm s) 2 = (b, p)" by fastforce
  note k = kernel_stack [OF sched_invD(5) [OF inv] a]
  show ?thesis
  proof (cases "b = 0")
    case True
    then show ?thesis
      using created_none [OF inv k(1)] by (simp add: task_create_def a)
  next
    case False
    from k(2) [OF this] obtain i where i: "b = page_addr i" "{i..<i + 2} \<subseteq> free_set (pmm s) \<inter> kernel_zone"
      "{i..<i + 2} \<inter> free_set p = {}" by blast
    have "created s c ts [0, 0, 0, 0, ent] (new_tcb (b + 2 * PAGE_SIZE - 20) None 0
        ((s\<lparr>pmm := p\<rparr>)\<lparr>memory := store_words (memory (s\<lparr>pmm := p\<rparr>)) (b + 2 * PAGE_SIZE - 20) [0, 0, 0, 0, ent]\<rparr>))
        (\<lambda>t s' x. t_cr3 x = 0 \<and> t_kernel_stack_top x = load32 (memory s') (t + 0x10))"
      by (rule createdI [OF inv k(1) i(2)]) (use i in simp_all)
    then show ?thesis
      using False by (simp add: task_create_def a Let_def)
  qed
qed

text \<open>The tables of a task directory.\<close>

lemma table_bytes_kernel:
  "table_bytes (insert 0 (page_addr ` (P \<inter> kernel_zone))) \<subseteq> {0..<4096} \<union> page_bytes (P :: nat set)"
proof
  fix x assume "x \<in> table_bytes (insert 0 (page_addr ` (P \<inter> kernel_zone)))"
  then obtain f y where f: "f \<in> insert 0 (page_addr ` (P \<inter> kernel_zone))" and y: "y \<in> page_at f" "x = unat y"
    unfolding table_bytes_def by blast
  then have "f = 0 \<or> (\<exists>i\<in>P. i < 1792 \<and> f = page_addr i)"
    by auto
  then show "x \<in> {0..<4096} \<union> page_bytes P"
  proof
    assume "\<exists>i\<in>P. i < 1792 \<and> f = page_addr i"
    then obtain i where i: "i \<in> P" "i < 1792" "f = page_addr i" by blast
    then have "0x100000 + 4096 * i \<le> x \<and> x < 0x100000 + 4096 * i + 4096"
      using y kernel_page_addr(1) [OF i(2)] by (simp add: page_at_def)
    then show ?thesis
      using i(1) by (auto simp: page_bytes_def)
  qed (use y in \<open>auto simp: page_at_def\<close>)
qed

lemma clone_private:
  assumes wf: "pmm_wf (pmm s)" and k: "used_page s (pd_phys s)" and c: "paging_clone_kernel_pd s = (d, s1)" and nz: "d \<noteq> 0"
  defines "F \<equiv> insert 0 (page_addr ` (free_set (pmm s) \<inter> kernel_zone))"
  shows "private_tables s1 d F" "elsewhere s s1"
proof -
  obtain t q where a: "pmm_alloc_page (pmm s) = (t, q)" by fastforce
  note al = alloc_kernel_page [OF wf a]
  have s1: "d = t" "s1 = s\<lparr>pmm := q, memory := copy_table (memory s) t (pd_phys s)\<rparr>"
    using c nz by (auto simp: paging_clone_kernel_pd_def a Let_def split: if_splits)
  have F: "\<And>f. f \<in> F \<Longrightarrow> table f" "d \<in> F" "pd_phys s \<notin> F"
    using al(3) nz s1(1) k by (auto simp: F_def kernel_page_addr(2) used_page_def table_def [of 0])
  have td: "table d" "table (pd_phys s)" "d \<noteq> pd_phys s"
    using F used_table [OF k] by auto
  have mono: "free_set (pmm s1) \<subseteq> free_set (pmm s)"
    using al(2) by (simp add: s1)
  have ent: "ptab (memory s1) d i = ptab (memory s1) (pd_phys s1) i" if "i < 1024" for i
    using that td by (simp add: s1 [symmetric] ptab_def) (simp add: s1 entry_copy_table td [unfolded s1(1)])
  obtain j where j: "j \<in> free_set (pmm s) \<inter> kernel_zone" "t = page_addr j" "j \<notin> free_set q"
    using al(3) nz s1(1) by auto
  have "d \<noteq> page_addr i" if "i \<in> free_set q" for i
  proof
    assume "d = page_addr i"
    then have "page_addr i = page_addr j"
      using s1(1) j(2) by simp
    moreover have "0x100000 + 4096 * i < 4294967296" "0x100000 + 4096 * j < 4294967296"
      using that al(2) kernel_page.free_in_memory [OF wf] j(1) by auto
    ultimately show False
      using that j(3) page_addr_inj by auto
  qed
  then have "used_page s1 d"
    using td(1) nz by (simp add: used_page_def s1)
  moreover have "used_page s1 (pd_phys s1)"
    using used_page_mono [OF mono k] by (simp add: s1)
  ultimately show "private_tables s1 d F"
    using ent F mono al(1) unfolding private_tables_def by (auto simp: s1 F_def)
  have "changes_only (table_bytes F) (memory s) (memory s1)"
    by (rule changes_table_bytes) (use F(2) td(1) in \<open>auto simp: s1 copy_table_outside\<close>)
  then have "changes_only ({0..<4096} \<union> page_bytes (free_set (pmm s))) (memory s) (memory s1)"
    unfolding F_def by (rule changes_only_mono [OF _ table_bytes_kernel])
  then show "elsewhere s s1"
    using al(1) mono by (simp add: elsewhere_def s1)
qed

lemma private_tables_pmm:
  "private_tables s d F \<Longrightarrow> pmm_wf p \<Longrightarrow> free_set p \<subseteq> free_set (pmm s) \<Longrightarrow> private_tables (s\<lparr>pmm := p\<rparr>) d F"
proof -
  assume p: "private_tables s d F" and q: "pmm_wf p" "free_set p \<subseteq> free_set (pmm s)"
  have "page_addr ` (free_set p \<inter> kernel_zone) \<subseteq> page_addr ` (free_set (pmm s) \<inter> kernel_zone)"
    using q(2) by blast
  moreover have "used_page (s\<lparr>pmm := p\<rparr>) u" if "used_page s u" for u
    using that q(2) by (auto simp: used_page_def)
  moreover have "page_addr ` (free_set (pmm s) \<inter> kernel_zone) \<subseteq> F"
    using p by (simp add: private_tables_def)
  ultimately have "page_addr ` (free_set p \<inter> kernel_zone) \<subseteq> F"
    by (metis order_trans)
  then show ?thesis
    using p q(1) \<open>\<And>u. used_page s u \<Longrightarrow> used_page (s\<lparr>pmm := p\<rparr>) u\<close> unfolding private_tables_def by simp
qed

lemma mark_cr3 [simp]: "cr3 (paging_set_user_accessible_for_task s d pa) = cr3 s"
  by (simp add: paging_set_user_accessible_for_task_def Let_def split: prod.split)

lemma mark_all_cr3 [simp]: "cr3 (fold (\<lambda>pa s. paging_set_user_accessible_for_task s d pa) pages s) = cr3 s"
  by (induction pages arbitrary: s) simp_all

lemma mark_all_elsewhere:
  fixes pages :: "u32 list"
  assumes p: "private_tables s d (insert 0 (page_addr ` (P \<inter> kernel_zone)))" and e: "elsewhere s0 s" and P: "P \<subseteq> free_set (pmm s0)"
  shows "elsewhere s0 (fold (\<lambda>pa s. paging_set_user_accessible_for_task s d pa) pages s)"
proof -
  let ?F = "insert 0 (page_addr ` (P \<inter> kernel_zone))"
  let ?t = "fold (\<lambda>pa s. paging_set_user_accessible_for_task s d pa) pages s"
  note m = mark_all_changes [OF p, of pages]
  have "table_bytes ?F \<subseteq> {0..<4096} \<union> page_bytes (free_set (pmm s0))"
    using table_bytes_kernel [of P] page_bytes_mono [OF P] by blast
  moreover have "changes_only ({0..<4096} \<union> page_bytes (free_set (pmm s0))) (memory s0) (memory s)"
    using e by (simp add: elsewhere_def)
  ultimately have "changes_only ({0..<4096} \<union> page_bytes (free_set (pmm s0))) (memory s0) (memory ?t)"
    using m by (auto intro: changes_only_trans)
  moreover have "pmm_wf (pmm ?t)"
    using m by (auto simp: private_tables_def)
  ultimately show ?thesis
    using m e unfolding elsewhere_def by auto
qed

text \<open>The user stack: a page of the user region, or the caller's.\<close>

lemma alloc_user_page:
  assumes "pmm_wf p" "pmm_alloc_user_page p = (u, q)"
  shows "pmm_wf q" "free_set q \<subseteq> free_set p" "u = 0 \<or> (\<exists>i\<in>free_set p \<inter> user_zone. u = page_addr i)"
proof -
  have "pmm_wf q \<and> free_set q \<subseteq> free_set p \<and> (u = 0 \<or> (\<exists>i\<in>free_set p \<inter> user_zone. u = page_addr i))"
  proof (cases "free_set p \<inter> user_zone = {}")
    case True
    then show ?thesis
      using user_page.alloc_none [OF assms(1)] assms by simp
  next
    case False
    then show ?thesis
      using user_page.alloc_page [OF assms(1)] assms(2) by fastforce
  qed
  then show "pmm_wf q" "free_set q \<subseteq> free_set p" "u = 0 \<or> (\<exists>i\<in>free_set p \<inter> user_zone. u = page_addr i)"
    by blast+
qed

lemma task_create_user_with_pages_ok:
  assumes inv: "sched_inv s A Z (c # ts)"
  shows "\<exists>top. created s c ts (user_frame lm ent top) (task_create_user_with_pages lm s ent user_esp pages)
    (\<lambda>t s' x. t_cr3 x \<noteq> 0 \<and> t_kernel_stack_top x = t_esp x + 40 \<and> t_kernel_stack_top x \<noteq> 0 \<and>
      (if user_esp = 0 then \<exists>i\<in>free_set (pmm s) \<inter> user_zone. top = page_addr i + PAGE_SIZE else top = user_esp))"
    (is "\<exists>top. created s c ts _ ?r (?Q top)")
proof -
  note I = sched_invD [OF inv]
  obtain b p where a: "pmm_alloc_contiguous_pages (pmm s) 2 = (b, p)" by fastforce
  note k = kernel_stack [OF I(5) a]
  let ?s0 = "s\<lparr>pmm := p\<rparr>"
  have p: "pmm_wf p" "free_set p \<subseteq> free_set (pmm s)"
    using k(1) by (auto simp: elsewhere_def)
  have kpd: "used_page ?s0 (pd_phys ?s0)"
    using used_page_mono [OF _ I(4), of ?s0] p by simp
  obtain d s1 where c: "paging_clone_kernel_pd ?s0 = (d, s1)" by fastforce
  obtain u q where u: "(if user_esp = 0 then pmm_alloc_user_page (pmm s1) else (0, pmm s1)) = (u, q)" by fastforce
  let ?top = "if user_esp = 0 then u + PAGE_SIZE else user_esp"
  show ?thesis
  proof (cases "b = 0 \<or> d = 0 \<or> user_esp = 0 \<and> u = 0")
    case True
    have e1: "elsewhere s s1" if "d = 0"
    proof -
      obtain t q where "pmm_alloc_page p = (t, q)" by fastforce
      then show ?thesis
        using that c alloc_kernel_page [OF p(1)] p(2) by (auto simp: paging_clone_kernel_pd_def Let_def elsewhere_def split: if_splits)
    qed
    have e2: "elsewhere s (s1\<lparr>pmm := q\<rparr>)" if "d \<noteq> 0" "user_esp = 0"
    proof -
      have "elsewhere s s1"
        by (rule elsewhere_trans [OF k(1) clone_private(2) [OF _ kpd c that(1)]]) (simp add: p)
      moreover have "elsewhere s1 (s1\<lparr>pmm := q\<rparr>)"
        using calculation alloc_user_page(1,2) [of "pmm s1" u q] u that(2) by (intro elsewhere_pmm) (auto simp: elsewhere_def)
      ultimately show ?thesis
        by (rule elsewhere_trans)
    qed
    have "\<exists>s'. ?r = Some (0, s') \<and> elsewhere s s'"
      using True a c u k(1) e1 e2 unfolding task_create_user_with_pages_def Let_def by (auto simp: prod.case_eq_if)
    then obtain s' where "?r = Some (0, s')" "elsewhere s s'" by blast
    then show ?thesis
      using created_none [OF inv] by auto
  next
    case False
    from k(2) False obtain i where i: "b = page_addr i" "{i..<i + 2} \<subseteq> free_set (pmm s) \<inter> kernel_zone"
      "{i..<i + 2} \<inter> free_set p = {}" by blast
    have d: "d \<noteq> 0" using False by simp
    note cl = clone_private [OF _ kpd c d]
    have wf1: "pmm_wf (pmm s1)" "free_set (pmm s1) \<subseteq> free_set p"
      using cl(2) p(1) by (auto simp: elsewhere_def)
    have q: "pmm_wf q" "free_set q \<subseteq> free_set (pmm s1)" "u = 0 \<or> (\<exists>i\<in>free_set (pmm s1) \<inter> user_zone. u = page_addr i)"
      using u alloc_user_page [OF wf1(1), of u q] wf1(1) by (auto split: if_splits)
    let ?s2 = "s1\<lparr>pmm := q\<rparr>"
    have e2: "elsewhere s ?s2"
      using elsewhere_trans [OF k(1) cl(2)] elsewhere_trans [OF _ elsewhere_pmm [OF q(1,2)]] p(1) by simp
    have p2: "private_tables ?s2 d (insert 0 (page_addr ` (free_set p \<inter> kernel_zone)))"
      using private_tables_pmm [OF cl(1) q(1,2)] p(1) by simp
    define pages' where "pages' = pages @ (if u \<noteq> 0 then [u] else [])"
    let ?s3 = "fold (\<lambda>pa s. paging_set_user_accessible_for_task s d pa) pages' ?s2"
    have e3: "elsewhere s ?s3"
      by (rule mark_all_elsewhere [OF p2 e2 p(2)])
    have "free_set (pmm ?s3) \<subseteq> free_set p"
      using mark_all_changes [OF p2, of pages'] q(2) wf1(2) by auto
    then have dis: "{i..<i + 2} \<inter> free_set (pmm ?s3) = {}"
      using i(3) by blast
    have len: "length (user_frame lm ent ?top) = 10"
      by (simp add: user_frame_def)
    have ne: "page_addr i + 2 * PAGE_SIZE \<noteq> 0"
    proof -
      have "i + 1 \<in> kernel_zone"
        by (intro subsetD [OF i(2), THEN IntD2]) simp
      then have b: "i + 2 \<le> 1792" "unat (page_addr i) = 0x100000 + 4096 * i"
        by (auto intro!: unat_page_addr)
      then have "unat (page_addr i + 2 * PAGE_SIZE) = 0x100000 + 4096 * i + 8192"
        by (intro trans [OF unat_add_no_wrap]) simp_all
      then show ?thesis by (intro notI) simp
    qed
    have top: "if user_esp = 0 then \<exists>i\<in>free_set (pmm s) \<inter> user_zone. ?top = page_addr i + PAGE_SIZE else ?top = user_esp"
      using q(3) False wf1(2) p(2) by (auto simp del: mem_zone)
    have "created s c ts (user_frame lm ent ?top) (new_tcb (b + 2 * PAGE_SIZE - 40) (Some (b + 2 * PAGE_SIZE)) d
       (?s3\<lparr>memory := store_words (memory ?s3) (b + 2 * PAGE_SIZE - 40) (user_frame lm ent ?top)\<rparr>)) (?Q ?top)"
      by (rule createdI [OF inv e3 i(2) dis]) (use i(1) d len top ne in simp_all)
    moreover have "?r = new_tcb (b + 2 * PAGE_SIZE - 40) (Some (b + 2 * PAGE_SIZE)) d
       (?s3\<lparr>memory := store_words (memory ?s3) (b + 2 * PAGE_SIZE - 40) (user_frame lm ent ?top)\<rparr>)"
    proof (cases "user_esp = 0")
      case True
      then show ?thesis
        using False a c u by (simp add: task_create_user_with_pages_def Let_def pages'_def)
    next
      case user: False
      then have eq: "s1\<lparr>pmm := q\<rparr> = s1"
        using u by auto
      have q: "(if user_esp = 0 then pmm_alloc_user_page (pmm s1) else (0, pmm s1)) = (0, pmm s1)" "u = 0"
        using u user by simp_all
      show ?thesis
        unfolding eq task_create_user_with_pages_def Let_def a prod.case c q
        using False user by (simp add: pages'_def q(2))
    qed
    ultimately show ?thesis
      by (intro exI [of _ ?top]) (simp only:)
  qed
qed

section \<open>Yielding\<close>

text \<open>The registers pushed on the stack of the task that yields.\<close>

definition pushed :: "mem \<Rightarrow> cpu \<Rightarrow> mem" where
  "pushed m k = store32 (store32 (store32 (store32 m (r_esp k - 4) (r_ebp k)) (r_esp k - 8) (r_edi k))
     (r_esp k - 12) (r_esi k)) (r_esp k - 16) (r_ebx k)"

text \<open>What the code after the switch finds in its registers.\<close>

definition resumed :: "mem \<Rightarrow> u32 \<Rightarrow> cpu" where
  "resumed m sp = \<lparr>r_ebx = load32 m sp, r_esi = load32 m (sp + 4), r_edi = load32 m (sp + 8),
     r_ebp = load32 m (sp + 12), r_esp = sp + 20, r_eip = load32 m (sp + 16)\<rparr>"

lemma task_yield_alone:
  "tasks s (g_current s) = Some x \<Longrightarrow> t_next x = g_current s \<Longrightarrow> task_yield s k = Some (s\<lparr>interrupts := False\<rparr>, k)"
  by (simp add: task_yield_def)

lemma switch_to_other:
  assumes "tasks s cur = Some x" "nxt \<noteq> cur" "tasks s nxt = Some y"
  shows "switch_to cur nxt s k = Some
    (s\<lparr>memory := pushed (memory s) k, tasks := (tasks s)(cur \<mapsto> x\<lparr>t_esp := r_esp k - 16\<rparr>),
       cr3 := (if t_cr3 y \<noteq> 0 then t_cr3 y else cr3 s)\<rparr>, resumed (pushed (memory s) k) (t_esp y))"
  unfolding switch_to_def pushed_def [symmetric] Let_def set_task_def resumed_def using assms by simp

lemma task_yield_switches:
  assumes "tasks s (g_current s) = Some x" "t_next x \<noteq> g_current s" "tasks s (t_next x) = Some y"
  shows "task_yield s k = Some
    (s\<lparr>interrupts := False,
       tasks := (tasks s)(g_current s \<mapsto> x\<lparr>t_state := TASK_READY, t_esp := r_esp k - 16\<rparr>,
                          t_next x \<mapsto> y\<lparr>t_state := TASK_RUNNING\<rparr>),
       g_current := t_next x,
       tabs := (if t_kernel_stack_top y \<noteq> 0 then tss_set_esp0 (t_kernel_stack_top y) (tabs s) else tabs s),
       memory := pushed (memory s) k,
       cr3 := (if t_cr3 y \<noteq> 0 then t_cr3 y else cr3 s)\<rparr>,
     resumed (pushed (memory s) k) (t_esp y))"
proof -
  let ?s = "s\<lparr>interrupts := False, tasks := (tasks s)(g_current s \<mapsto> x\<lparr>t_state := TASK_READY\<rparr>,
      t_next x \<mapsto> y\<lparr>t_state := TASK_RUNNING\<rparr>), g_current := t_next x,
    tabs := (if t_kernel_stack_top y \<noteq> 0 then tss_set_esp0 (t_kernel_stack_top y) (tabs s) else tabs s)\<rparr>"
  have "task_yield s k = switch_to (g_current s) (t_next x) ?s k"
    using assms by (simp add: task_yield_def set_task_def Let_def)
  moreover have "switch_to (g_current s) (t_next x) ?s k = Some
    (?s\<lparr>memory := pushed (memory ?s) k, tasks := (tasks ?s)(g_current s \<mapsto> x\<lparr>t_state := TASK_READY\<rparr>\<lparr>t_esp := r_esp k - 16\<rparr>),
       cr3 := (if t_cr3 (y\<lparr>t_state := TASK_RUNNING\<rparr>) \<noteq> 0 then t_cr3 (y\<lparr>t_state := TASK_RUNNING\<rparr>) else cr3 ?s)\<rparr>,
     resumed (pushed (memory ?s) k) (t_esp (y\<lparr>t_state := TASK_RUNNING\<rparr>)))"
    by (rule switch_to_other) (use assms in simp_all)
  moreover have "(tasks ?s)(g_current s \<mapsto> x\<lparr>t_state := TASK_READY\<rparr>\<lparr>t_esp := r_esp k - 16\<rparr>) =
      (tasks s)(g_current s \<mapsto> x\<lparr>t_state := TASK_READY, t_esp := r_esp k - 16\<rparr>, t_next x \<mapsto> y\<lparr>t_state := TASK_RUNNING\<rparr>)"
    using assms(2) by (auto simp: fun_eq_iff)
  ultimately show ?thesis
    by simp
qed

definition stack_apart :: "'a task_state_scheme \<Rightarrow> cpu \<Rightarrow> bool" where
  "stack_apart s k \<longleftrightarrow> 16 \<le> unat (r_esp k) \<and> {unat (r_esp k) - 16..<unat (r_esp k)} \<inter> heap_page_bytes s = {}"

lemma store32_changes:
  assumes "unat a + 4 \<le> 4294967296"
  shows "changes_only {unat a..<unat a + 4} m (store32 m a v)"
  using store_words_changes [of a "[v]" m] assms by simp

lemma pushed_changes:
  assumes "16 \<le> unat (r_esp k)"
  shows "changes_only {unat (r_esp k) - 16..<unat (r_esp k)} m (pushed m k)"
proof -
  have sub: "unat (r_esp k - d) = unat (r_esp k) - unat d" if "unat d \<le> 16" for d
    using that assms by (intro unat_sub_no_wrap) (simp add: word_le_nat_alt)
  have one: "changes_only {unat (r_esp k) - 16..<unat (r_esp k)} m' (store32 m' (r_esp k - d) v)"
    if d: "unat d \<le> 16" "4 \<le> unat d" for d v m'
  proof -
    have "unat (r_esp k - d) + 4 \<le> unat (r_esp k)"
      unfolding sub [OF d(1)] using d assms by linarith
    then have "changes_only {unat (r_esp k - d)..<unat (r_esp k - d) + 4} m' (store32 m' (r_esp k - d) v)"
      by (intro store32_changes) (use unat_u32_lt [of "r_esp k"] in linarith)
    then show ?thesis
      by (rule changes_only_mono) (use \<open>unat (r_esp k - d) + 4 \<le> unat (r_esp k)\<close> sub [OF d(1)] d in auto)
  qed
  show ?thesis
    unfolding pushed_def
    by (rule changes_only_trans [OF changes_only_trans [OF changes_only_trans [OF one one] one] one]; (rule order_refl | simp))
qed

lemma sched_inv_yield:
  assumes inv: "sched_inv s A Z (c # ts)" and apart: "stack_apart s k"
  shows "\<exists>s' k'. task_yield s k = Some (s', k') \<and> sched_inv s' A Z (ts @ [c]) \<and> \<not> interrupts s' \<and>
    g_current s' = hd (ts @ [c])"
proof -
  note I = sched_invD [OF inv]
  obtain x where x: "tasks s c = Some x" "t_next x = hd (ts @ [c])" "g_current s = c" "t_state x = TASK_RUNNING"
    by (rule ring_next [OF I(2)])
  show ?thesis
  proof (cases ts)
    case Nil
    then have "task_yield s k = Some (s\<lparr>interrupts := False\<rparr>, k)"
      using x by (intro task_yield_alone) simp_all
    moreover have "heap_owns (s\<lparr>interrupts := False\<rparr>) A Z"
      using I(1) by (simp add: heap_owns_def heap_inv_def)
    then have "sched_inv (s\<lparr>interrupts := False\<rparr>) A Z [c]"
      using inv Nil ring_cong [of "s\<lparr>interrupts := False\<rparr>" s] by (simp add: sched_inv_def heap_page_bytes_def used_page_def)
    ultimately show ?thesis
      using Nil x by simp
  next
    case (Cons n r)
    have n: "t_next x = n" "n \<noteq> c" "distinct (c # n # r)"
      using x I(2) Cons by (auto simp: ring_def)
    obtain y where y: "tasks s n = Some y" "t_state y = TASK_READY"
      by (rule ring_other [OF I(2), of n]) (use Cons n x in auto)
    define s' where "s' = s\<lparr>interrupts := False,
       tasks := (tasks s)(c \<mapsto> x\<lparr>t_state := TASK_READY, t_esp := r_esp k - 16\<rparr>, n \<mapsto> y\<lparr>t_state := TASK_RUNNING\<rparr>),
       g_current := n,
       tabs := (if t_kernel_stack_top y \<noteq> 0 then tss_set_esp0 (t_kernel_stack_top y) (tabs s) else tabs s),
       memory := pushed (memory s) k,
       cr3 := (if t_cr3 y \<noteq> 0 then t_cr3 y else cr3 s)\<rparr>"
    have yield: "task_yield s k = Some (s', resumed (pushed (memory s) k) (t_esp y))"
      using task_yield_switches [of s x y k] x n y by (simp add: s'_def)
    have "16 \<le> unat (r_esp k)" "{unat (r_esp k) - 16..<unat (r_esp k)} \<inter> Z = {}"
      using apart I(6) by (auto simp: stack_apart_def)
    then have "heap_owns s' A Z"
      by (intro heap_owns_elsewhere [OF I(1), where X = "{unat (r_esp k) - 16..<unat (r_esp k)}"])
        (simp_all add: s'_def pushed_changes I(5))
    moreover have "ring s' (n # r @ [c])"
    proof (rule ring_rotate [where T' = "tasks s'"])
      show "ring s (c # n # r)"
        using I(2) Cons by simp
      show "map_option t_next (tasks s' t) = map_option t_next (tasks s t)" for t
        using x y by (simp add: s'_def)
      show "t_state z = (if t = n then TASK_RUNNING else TASK_READY)" if "tasks s' t = Some z" for t z
      proof -
        have "t_state z = TASK_READY" if "tasks s t = Some z" "t \<noteq> c"
          using that I(2) x(3) by (auto simp: ring_def)
        then show ?thesis
          using that n(2) by (auto simp: s'_def split: if_splits)
      qed
    qed (simp_all add: s'_def)
    ultimately have "sched_inv s' A Z (ts @ [c])"
      using inv Cons by (simp add: sched_inv_def heap_page_bytes_def used_page_def s'_def)
    then show ?thesis
      using yield Cons by (simp add: s'_def)
  qed
qed

section \<open>Runs of the scheduler\<close>

text \<open>What happens between boot and now, seen from the scheduler: tasks are created, other parts of
  the kernel allocate memory, tasks yield (or are preempted), and code runs that writes memory
  outside the heap. A failing creation is a step that changes nothing but memory.\<close>

datatype sched_event = Create u32 | Create_User u32 u32 "u32 list" | Alloc u32 | Yield | Run

inductive sched_step :: "link_map \<Rightarrow> 'a task_state_scheme \<Rightarrow> sched_event \<Rightarrow> 'a task_state_scheme \<Rightarrow> bool" for lm where
  create: "task_create s ent = Some (t, s') \<Longrightarrow> sched_step lm s (Create ent) s'"
| create_user: "task_create_user_with_pages lm s ent user_esp pages = Some (t, s') \<Longrightarrow>
    sched_step lm s (Create_User ent user_esp pages) s'"
| alloc: "kmalloc s n = Some (p, s') \<Longrightarrow> sched_step lm s (Alloc n) s'"
| yield: "stack_apart s k \<Longrightarrow> task_yield s k = Some (s', k') \<Longrightarrow> sched_step lm s Yield s'"
| run: "changes_only (- heap_page_bytes s) (memory s) m \<Longrightarrow>
    sched_step lm s Run (s\<lparr>memory := m, interrupts := b\<rparr>)"

inductive_cases sched_stepE: "sched_step lm s e s'"

inductive sched_run :: "link_map \<Rightarrow> 'a task_state_scheme \<Rightarrow> sched_event list \<Rightarrow> 'a task_state_scheme \<Rightarrow> bool" for lm where
  start: "sched_run lm s [] s"
| more: "sched_step lm s e s1 \<Longrightarrow> sched_run lm s1 es s' \<Longrightarrow> sched_run lm s (e # es) s'"

inductive_cases sched_run_Cons: "sched_run lm s (e # es) s'"
inductive_simps sched_run_Nil [simp]: "sched_run lm s [] s'"

definition sched_ok :: "'a task_state_scheme \<Rightarrow> u32 list \<Rightarrow> bool" where
  "sched_ok s ts \<longleftrightarrow> (\<exists>A Z. sched_inv s A Z ts)"

lemma sched_ok_ring: "sched_ok s ts \<Longrightarrow> ring s ts"
  by (auto simp: sched_ok_def sched_inv_def)

lemma created_step:
  "created s c ts ws (Some (t, s')) Q \<Longrightarrow> sched_ok s' (c # ts) \<or> t \<noteq> 0 \<and> sched_ok s' (c # t # ts)"
  by (auto simp: created_def sched_ok_def split: if_splits)

text \<open>A step keeps the ring, puts one new task behind the current one, or rotates it.\<close>

lemma sched_step_ok:
  assumes st: "sched_step lm s e s'" and ok: "sched_ok s (c # ts)"
  shows "(case e of Yield \<Rightarrow> sched_ok s' (ts @ [c])
     | Create _ \<Rightarrow> sched_ok s' (c # ts) \<or> (\<exists>t. sched_ok s' (c # t # ts))
     | Create_User _ _ _ \<Rightarrow> sched_ok s' (c # ts) \<or> (\<exists>t. sched_ok s' (c # t # ts))
     | _ \<Rightarrow> sched_ok s' (c # ts))"
proof -
  obtain A Z where inv: "sched_inv s A Z (c # ts)"
    using ok by (auto simp: sched_ok_def)
  note I = sched_invD [OF inv]
  from st show ?thesis
  proof cases
    case (create ent t)
    then show ?thesis
      using task_create_ok [OF inv, of ent] created_step by fastforce
  next
    case (create_user ent user_esp pages t)
    then show ?thesis
      using task_create_user_with_pages_ok [OF inv, of lm ent user_esp pages] created_step by fastforce
  next
    case (alloc n p)
    then obtain A' Z' where m: "malloc_step s A Z n p s' A' Z'"
      using kmalloc_step [OF I(1), of n] by auto
    then have f: "heap_state.more s' = heap_state.more s" "heap_owns s' A' Z'" "free_set (pmm s') \<subseteq> free_set (pmm s)"
      "Z' \<subseteq> heap_page_bytes s'"
      using I(6) by (auto simp: malloc_step_def)
    have "A' t \<noteq> None" if "A t \<noteq> None" for t
      using m that by (auto simp: malloc_step_def split: if_splits)
    moreover have "used_page s' (pd_phys s')"
      using used_page_mono [OF f(3) I(4)] more_task_fields(1) [OF f(1)] by simp
    moreover have "ring s' (c # ts)"
      using I(2) more_task_fields(1) [OF f(1)] ring_cong [of s' s] by simp
    ultimately have "sched_inv s' A' Z' (c # ts)"
      using f I(3) by (simp add: sched_inv_def)
    then show ?thesis
      using alloc by (auto simp: sched_ok_def)
  next
    case (yield k k')
    then show ?thesis
      using sched_inv_yield [OF inv yield(2)] by (auto simp: sched_ok_def)
  next
    case (run m b)
    have "heap_owns s' A Z"
      by (rule heap_owns_elsewhere [OF I(1), where X = "- heap_page_bytes s"]) (use run I(5,6) in auto)
    then have "sched_inv s' A Z (c # ts)"
      using inv ring_cong [of s' s] by (simp add: sched_inv_def heap_page_bytes_def used_page_def run(2))
    then show ?thesis
      using run by (auto simp: sched_ok_def)
  qed
qed

lemma sched_step_keeps_ok: "sched_step lm s e s' \<Longrightarrow> sched_ok s ts \<Longrightarrow> \<exists>ts'. sched_ok s' ts'"
proof (cases ts)
  case (Cons c r)
  then show "sched_step lm s e s' \<Longrightarrow> sched_ok s ts \<Longrightarrow> \<exists>ts'. sched_ok s' ts'"
    using sched_step_ok [of lm s e s' c r] by (cases e) auto
qed (use sched_ok_ring in \<open>force simp: ring_def\<close>)

lemma task_init_ok:
  assumes own: "heap_owns s A Z" "Z \<subseteq> heap_page_bytes s" and k: "used_page s (pd_phys s)"
    and T: "tasks s = Map.empty" and r: "task_init s = Some s0"
  shows "sched_ok s0 [g_current s0]"
proof -
  obtain t s1 A1 Z1 where m: "kmalloc s sizeof_task = Some (t, s1)" "malloc_step s A Z sizeof_task t s1 A1 Z1"
    using kmalloc_step [OF own(1)] by blast
  have t: "t \<noteq> 0"
    using r m(1) by (auto simp: task_init_def)
  have f: "heap_state.more s1 = heap_state.more s" "heap_owns s1 A1 Z1" "free_set (pmm s1) \<subseteq> free_set (pmm s)"
    "Z1 \<subseteq> heap_page_bytes s1" "A1 (t - 8) \<noteq> None"
    using m(2) own(2) t by (auto simp: malloc_step_def)
  define x where "x = \<lparr>t_esp = 0, t_id = 0, t_state = TASK_RUNNING, t_next = t,
                        t_kernel_stack_top = 0, t_cr3 = 0, t_fds = replicate MAX_FD_PER_TASK 0\<rparr>"
  have s0: "s0 = s1\<lparr>tasks := [t \<mapsto> x], g_current := t\<rparr>"
    using r m(1) t T more_task_fields(1) [OF f(1)] by (simp add: task_init_def set_task_def x_def)
  have "heap_owns s0 A1 Z1"
    using f(2) by (simp add: s0 heap_owns_def heap_inv_def)
  moreover have "ring s0 [t]"
    by (simp add: ring_def s0 x_def)
  moreover have "used_page s0 (pd_phys s0)"
    using used_page_mono [OF f(3) k] more_task_fields(1) [OF f(1)] by (simp add: s0 used_page_def)
  ultimately have "sched_inv s0 A1 Z1 [t]"
    using f(4,5) t by (simp add: sched_inv_def heap_page_bytes_def s0)
  then show ?thesis
    by (auto simp: sched_ok_def s0)
qed

lemma sched_run_ok: "sched_run lm s es s' \<Longrightarrow> sched_ok s ts \<Longrightarrow> \<exists>ts'. sched_ok s' ts'"
  by (induction arbitrary: ts rule: sched_run.induct) (use sched_step_keeps_ok in blast)+

lemma sched_run_append: "sched_run lm s es t \<Longrightarrow> sched_run lm t fs u \<Longrightarrow> sched_run lm s (es @ fs) u"
  by (induction rule: sched_run.induct) (auto intro: sched_run.more)

text \<open>Waiting time: position \<open>i\<close> of the ring becomes current after \<open>i\<close> yields, or later by one
  yield for every task created meanwhile, since a new task is put before all waiting ones.\<close>

fun yields :: "sched_event list \<Rightarrow> nat" where
  "yields [] = 0"
| "yields (e # es) = (if e = Yield then 1 else 0) + yields es"

fun creates :: "sched_event list \<Rightarrow> nat" where
  "creates [] = 0"
| "creates (Create _ # es) = 1 + creates es"
| "creates (Create_User _ _ _ # es) = 1 + creates es"
| "creates (_ # es) = creates es"

definition becomes_current :: "link_map \<Rightarrow> 'a task_state_scheme \<Rightarrow> sched_event list \<Rightarrow> 'a task_state_scheme \<Rightarrow> u32 \<Rightarrow> bool" where
  "becomes_current lm s es s' t \<longleftrightarrow>
     (\<exists>es1 es2 u. es = es1 @ es2 \<and> sched_run lm s es1 u \<and> sched_run lm u es2 s' \<and> g_current u = t)"

lemma becomes_current_later:
  assumes "sched_step lm s e s1" "becomes_current lm s1 es s' t"
  shows "becomes_current lm s (e # es) s' t"
proof -
  obtain es1 es2 u where u: "es = es1 @ es2" "sched_run lm s1 es1 u" "sched_run lm u es2 s'" "g_current u = t"
    using assms(2) unfolding becomes_current_def by blast
  then have "sched_run lm s (e # es1) u"
    using assms(1) by (intro sched_run.more)
  then show ?thesis
    using u unfolding becomes_current_def by (intro exI [of _ "e # es1"] exI [of _ es2] exI [of _ u]) simp
qed

lemma ring_position_runs:
  assumes "sched_run lm s es s'" "sched_ok s ts" "i < length ts" "i + creates es \<le> yields es"
  shows "becomes_current lm s es s' (ts ! i)"
  using assms
proof (induction arbitrary: ts i rule: sched_run.induct)
  case (start s)
  have "ring s ts"
    using start.prems(1) by (rule sched_ok_ring)
  then have "ts ! 0 = g_current s"
    by (cases ts) (auto simp: ring_def)
  then show ?case
    using start.prems unfolding becomes_current_def by (auto intro!: exI [of _ "[]"] sched_run.start)
next
  case (more s e s1 es s')
  obtain c r where ts: "ts = c # r"
    using more.prems(2) by (cases ts) auto
  have g: "g_current s = c"
    using sched_ok_ring [OF more.prems(1)] by (simp add: ring_def ts)
  show ?case
  proof (cases "i = 0")
    case True
    then show ?thesis
      using g ts sched_run.more [OF more.hyps] unfolding becomes_current_def
      by (intro exI [of _ "[]"] exI [of _ "e # es"] exI [of _ s]) simp
  next
    case False
    then obtain j where i: "i = Suc j" by (cases i) auto
    note st = sched_step_ok [OF more.hyps(1) more.prems(1) [unfolded ts]]
    have "\<exists>ts' i'. sched_ok s1 ts' \<and> i' < length ts' \<and> ts' ! i' = ts ! i \<and> i' + creates es \<le> yields es"
    proof (cases e)
      case Yield
      then show ?thesis
        using st more.prems(2,3) i ts by (intro exI [of _ "r @ [c]"] exI [of _ j]) (auto simp: nth_append)
    next
      case (Create ent)
      then consider "sched_ok s1 (c # r)" | t where "sched_ok s1 (c # t # r)"
        using st by auto
      then show ?thesis
      proof cases
        case 1
        then show ?thesis
          using more.prems(2,3) Create ts by (intro exI [of _ ts] exI [of _ i]) simp
      next
        case 2
        then show ?thesis
          using more.prems(2,3) Create ts i by (intro exI [of _ "c # t # r"] exI [of _ "Suc i"]) simp
      qed
    next
      case (Create_User ent user_esp pages)
      then consider "sched_ok s1 (c # r)" | t where "sched_ok s1 (c # t # r)"
        using st by auto
      then show ?thesis
      proof cases
        case 1
        then show ?thesis
          using more.prems(2,3) Create_User ts by (intro exI [of _ ts] exI [of _ i]) simp
      next
        case 2
        then show ?thesis
          using more.prems(2,3) Create_User ts i by (intro exI [of _ "c # t # r"] exI [of _ "Suc i"]) simp
      qed
    qed (use st more.prems(2,3) ts in \<open>auto intro!: exI [of _ ts] exI [of _ i]\<close>)
    then obtain ts' i' where n: "sched_ok s1 ts'" "i' < length ts'" "ts' ! i' = ts ! i" "i' + creates es \<le> yields es"
      by blast
    from more.IH [OF n(1,2,4)] show ?thesis
      unfolding n(3) by (rule becomes_current_later [OF more.hyps(1)])
  qed
qed

section \<open>Properties\<close>




text \<open>Loads from a stack that a switch did not touch, and from the frame it pushed.\<close>

lemma aligned4_uint: "aligned4 a \<longleftrightarrow> 4 dvd uint a"
  unfolding aligned4_unat unat_eq_nat_uint by (metis int_dvd_int_iff int_nat_eq of_nat_numeral uint_ge_0)

lemma aligned4_arith: "aligned4 a \<Longrightarrow> aligned4 b \<Longrightarrow> aligned4 (a + b)" "aligned4 a \<Longrightarrow> aligned4 b \<Longrightarrow> aligned4 (a - b)"
  unfolding aligned4_uint uint_word_ariths by (intro dvd_mod; simp)+

lemma aligned4_times4: "aligned4 (4 * a)"
  unfolding aligned4_uint uint_word_ariths by (intro dvd_mod) simp_all

lemma aligned4_small: "aligned4 4" "aligned4 8" "aligned4 12" "aligned4 16" "aligned4 20"
  by (simp_all add: aligned4_def)

lemma load_pushed:
  assumes "aligned4 (r_esp k)"
  shows "load32 (pushed m k) (r_esp k - 4) = r_ebp k" "load32 (pushed m k) (r_esp k - 8) = r_edi k"
    "load32 (pushed m k) (r_esp k - 12) = r_esi k" "load32 (pushed m k) (r_esp k - 16) = r_ebx k"
    "aligned4 a \<Longrightarrow> a \<notin> {r_esp k - 4, r_esp k - 8, r_esp k - 12, r_esp k - 16} \<Longrightarrow> load32 (pushed m k) a = load32 m a"
  using assms aligned4_arith(2) [OF assms aligned4_small(1)] aligned4_arith(2) [OF assms aligned4_small(2)]
    aligned4_arith(2) [OF assms aligned4_small(3)] aligned4_arith(2) [OF assms aligned4_small(4)]
  by (auto simp: pushed_def load32_store32_other)

text \<open>C18: a context switch is undone by the switch back: when a task that yielded is chosen again,
  and its frame and saved stack pointer were left alone meanwhile, it continues after its call of
  \<open>switch_to\<close> with the callee-saved registers and the stack pointer it had.\<close>

theorem task_yield_roundtrip:
  assumes "task_yield s k = Some (s1, k1)" and "tasks s (g_current s) = Some x" and "t_next x \<noteq> g_current s"
    and "aligned4 (r_esp k)"
    and "task_yield s2 k2 = Some (s3, k3)" and "tasks s2 (g_current s2) = Some y" and "t_next y = g_current s"
    and "g_current s2 \<noteq> g_current s" and "aligned4 (r_esp k2)"
    and "map_option t_esp (tasks s2 (g_current s)) = map_option t_esp (tasks s1 (g_current s))"
    and "\<forall>d\<in>{0, 4, 8, 12, 16}. load32 (memory s2) (r_esp k - d) = load32 (memory s1) (r_esp k - d)"
    and "{r_esp k2 - 4, r_esp k2 - 8, r_esp k2 - 12, r_esp k2 - 16} \<inter>
         {r_esp k, r_esp k - 4, r_esp k - 8, r_esp k - 12, r_esp k - 16} = {}"
  shows "k3 = k\<lparr>r_esp := r_esp k + 4, r_eip := load32 (memory s) (r_esp k)\<rparr> \<and> g_current s3 = g_current s"
proof -
  obtain z where z: "tasks s (t_next x) = Some z"
    using assms(1-3) by (cases "tasks s (t_next x)") (simp_all add: task_yield_def set_task_def)
  have s1: "memory s1 = pushed (memory s) k" "map_option t_esp (tasks s1 (g_current s)) = Some (r_esp k - 16)"
    using task_yield_switches [OF assms(2,3) z, of k] assms(1,3) by auto
  then obtain w where w: "tasks s2 (g_current s) = Some w" "t_esp w = r_esp k - 16"
    using assms(10) by (cases "tasks s2 (g_current s)") auto
  have yield: "k3 = resumed (pushed (memory s2) k2) (r_esp k - 16)" "g_current s3 = g_current s"
    using task_yield_switches [OF assms(6), of w k2] assms(5,7,8) w by auto
  have al: "aligned4 (r_esp k - d)" if "d \<in> {0, 4, 8, 12, 16}" for d
    using that assms(4) by (auto intro: aligned4_arith aligned4_small)
  have load: "load32 (pushed (memory s2) k2) (r_esp k - d) = load32 (pushed (memory s) k) (r_esp k - d)"
    if d: "d \<in> {0, 4, 8, 12, 16}" for d
  proof -
    have "load32 (pushed (memory s2) k2) (r_esp k - d) = load32 (memory s2) (r_esp k - d)"
      using assms(12) d by (intro load_pushed(5) [OF assms(9)] al) auto
    moreover have "load32 (memory s2) (r_esp k - d) = load32 (memory s1) (r_esp k - d)"
      using assms(11) d by blast
    ultimately show ?thesis
      by (simp only: s1(1))
  qed
  have ret: "load32 (pushed (memory s) k) (r_esp k) = load32 (memory s) (r_esp k)"
    by (intro load_pushed(5) [OF assms(4)] assms(4)) (simp add: u32_offset_neq)
  show ?thesis
    using load [of 16] load [of 12] load [of 8] load [of 4] load [of 0] load_pushed(1-4) [OF assms(4), of "memory s"] ret
    by (simp add: yield resumed_def)
qed

text \<open>C20: the first switch to a user task made by \<open>task_create_user_with_pages\<close> enters user mode at
  its entry point with its user stack, in its own page directory, with interrupts enabled and with
  \<open>TSS.esp0\<close> at the top of its kernel stack, which is empty again.\<close>

theorem user_task_first_run:
  assumes "sched_inv s A Z (c # ts)"
    and "task_create_user_with_pages lm s ent user_esp pages = Some (t, s1)" and "t \<noteq> 0" and "tasks s1 t = Some x"
    and "tasks s2 t = Some x'" and "t_esp x' = t_esp x" and "t_cr3 x' = t_cr3 x"
    and "t_kernel_stack_top x' = t_kernel_stack_top x"
    and "\<forall>j<10. load32 (memory s2) (t_esp x + 4 * of_nat j) = load32 (memory s1) (t_esp x + 4 * of_nat j)"
    and "tasks s2 (g_current s2) = Some y" and "t_next y = t" and "g_current s2 \<noteq> t"
    and "task_yield s2 k2 = Some (s3, k3)" and "aligned4 (r_esp k2)"
    and "\<forall>j<10. t_esp x + 4 * of_nat j \<notin> {r_esp k2 - 4, r_esp k2 - 8, r_esp k2 - 12, r_esp k2 - 16}"
  shows "r_eip k3 = return_to_ring3 lm \<and>
    (\<exists>top. iret_to_user (memory s3) (r_esp k3) = \<lparr>u_eip = ent, u_cs = 0x1B, u_eflags = 0x202, u_esp = top, u_ss = 0x23\<rparr> \<and>
       (if user_esp = 0 then \<exists>i\<in>free_set (pmm s) \<inter> user_zone. top = page_addr i + PAGE_SIZE else top = user_esp)) \<and>
    cr3 s3 = t_cr3 x \<and> t_cr3 x \<noteq> 0 \<and> tss_esp0 (g_tss (tabs s3)) = r_esp k3 + 20"
proof -
  note C = task_create_user_with_pages_ok [OF assms(1), of lm ent user_esp pages]
  obtain top where top: "frame_at (memory s1) (t_esp x) (user_frame lm ent top)" "t_cr3 x \<noteq> 0"
      "t_kernel_stack_top x = t_esp x + 40" "aligned4 (t_esp x)" "t_kernel_stack_top x \<noteq> 0"
      "if user_esp = 0 then \<exists>i\<in>free_set (pmm s) \<inter> user_zone. top = page_addr i + PAGE_SIZE else top = user_esp"
    using C assms(2-4) unfolding created_def task_added_def by auto
  have w: "load32 (pushed (memory s2) k2) (t_esp x + 4 * of_nat j) = user_frame lm ent top ! j" if "j < 10" for j
  proof -
    have "aligned4 (t_esp x + 4 * of_nat j)"
      by (intro aligned4_arith(1) [OF top(4)]) (simp only: aligned4_times4)
    then have "load32 (pushed (memory s2) k2) (t_esp x + 4 * of_nat j) = load32 (memory s2) (t_esp x + 4 * of_nat j)"
      using assms(15) that by (intro load_pushed(5) [OF assms(14)]) auto
    then show ?thesis
      using assms(9) that top(1) by (simp add: frame_at_def user_frame_def)
  qed
  have y: "task_yield s2 k2 = Some (s3, k3)" "t_esp x' = t_esp x" using assms by simp_all
  have k3: "k3 = resumed (pushed (memory s2) k2) (t_esp x)" "memory s3 = pushed (memory s2) k2"
      "cr3 s3 = t_cr3 x" "tabs s3 = tss_set_esp0 (t_kernel_stack_top x) (tabs s2)"
    using task_yield_switches [OF assms(10), of x' k2] assms(5-8,11-13) top(2,3,5) by auto
  show ?thesis
    using w [of 4] w [of 5] w [of 6] w [of 7] w [of 8] w [of 9] top(2,3,6)
    by (auto simp: k3 resumed_def iret_to_user_def user_frame_def tss_set_esp0_def algebra_simps)
qed

text \<open>The comment in \<open>copy_to_user\<close> states that CR3 and the directory consulted by the access check
  agree. A switch to a task without a directory of its own leaves CR3 as it was, while the check
  falls back to the kernel's.\<close>

lemma task_yield_stale_cr3:
  assumes "tasks s (g_current s) = Some x" "t_next x \<noteq> g_current s" "tasks s (t_next x) = Some y" "t_cr3 y = 0"
    and "task_yield s k = Some (s', k')"
  shows "cr3 s' = cr3 s" "pd_in_use s' (map_option t_cr3 (tasks s' (task_current s'))) = pd_phys s"
  using task_yield_switches [OF assms(1-3), of k] assms(4,5) by (auto simp: pd_in_use_def task_current_def)

section \<open>Examples\<close>

text \<open>A kernel after boot, with one free block in its heap and no tasks; and the same with the idle
  task.\<close>

definition task_example :: task_state where
  "task_example = \<lparr>memory = memory heap_free, pmm = pmm_example, free_head = 0x300000, heap_pages = [0x300000],
     pd_phys = 0x100000, cr3 = 0x100000, paging_enabled = True, tasks = Map.empty, g_current = 0, g_next_id = 0,
     tabs = tables_example, interrupts = False\<rparr>"

definition idle_example :: task_state where
  "idle_example = (take_block task_example 0x300000 96)
     \<lparr>tasks := [0x300008 \<mapsto> \<lparr>t_esp = 0, t_id = 0, t_state = TASK_RUNNING, t_next = 0x300008, t_kernel_stack_top = 0,
        t_cr3 = 0, t_fds = replicate MAX_FD_PER_TASK 0\<rparr>], g_current := 0x300008\<rparr>"

lemma task_example_owns:
  "heap_owns task_example (alloc_map (memory task_example) {0x300000}) {0x300000..<0x301000}"
  "{0x300000..<0x301000} \<subseteq> heap_page_bytes task_example" "used_page task_example (pd_phys task_example)"
  "tasks task_example = Map.empty"
proof -
  have "heap_inv task_example {0x300000} [0x300000]"
    using heap_free_inv by (simp add: heap_inv_def task_example_def heap_free_def heap_empty_def)
  moreover have "extent (memory task_example) 0x300000 = {0x300000..<0x301000}"
    by (simp add: extent_def task_example_def heap_free_get)
  ultimately show "heap_owns task_example (alloc_map (memory task_example) {0x300000}) {0x300000..<0x301000}"
    unfolding heap_owns_def by (intro exI [of _ "{0x300000}"] exI [of _ "[0x300000]"]) simp
  have "page_addr i \<noteq> 0x100000" if "i \<in> free_set pmm_example" for i
  proof -
    have "unat (page_addr i) = 0x100000 + 4096 * i" "i \<noteq> 0"
      using that by (auto simp: pmm_example_free intro!: unat_page_addr)
    then show ?thesis
      by (intro notI) simp
  qed
  then show "used_page task_example (pd_phys task_example)"
    by (auto simp: used_page_def task_example_def table_def)
qed (simp_all add: heap_page_bytes_def task_example_def)

lemma task_init_example: "task_init task_example = Some idle_example"
proof -
  have "kmalloc task_example sizeof_task = Some (0x300008, take_block task_example 0x300000 96)"
    by (subst kmalloc.simps, subst first_fit.simps)
      (simp add: task_example_def heap_free_get sizeof_task_def block_need_def)
  moreover have "tasks (take_block task_example 0x300000 96) = Map.empty"
    by (simp add: take_block_def Let_def task_example_def heap_free_get fl_remove_def)
  ultimately show ?thesis
    by (simp add: task_init_def idle_example_def set_task_def)
qed

lemma idle_example_ok: "sched_ok idle_example [0x300008]"
  using task_init_ok [OF task_example_owns task_init_example] by (simp add: idle_example_def)


lemma idle_example_fields:
  "heap_pages idle_example = [0x300000]" "tasks idle_example 0x300008 = Some \<lparr>t_esp = 0, t_id = 0, t_state = TASK_RUNNING,
     t_next = 0x300008, t_kernel_stack_top = 0, t_cr3 = 0, t_fds = replicate MAX_FD_PER_TASK 0\<rparr>"
  "g_current idle_example = 0x300008" "pmm idle_example = pmm_example" "free_head idle_example = 0x300060"
  "get (memory idle_example) 0x300060 Size = 4000"
  by (simp_all add: idle_example_def take_block_def Let_def task_example_def heap_free_get
        heap_free_def get_put header_ok_def separate_def)


lemma new_tcb_nonzero: "new_tcb sp ktop cr s \<noteq> Some (0, s')"
  by (auto simp: new_tcb_def bind_eq_Some_conv split: if_splits)

lemma create_user_example:
  obtains t s1 where "task_create_user_with_pages link_example idle_example 0x800000 0xC00000 [0x800000] = Some (t, s1)" "t \<noteq> 0"
proof -
  let ?r = "task_create_user_with_pages link_example idle_example 0x800000 0xC00000 [0x800000]"
  obtain A Z where inv: "sched_inv idle_example A Z [0x300008]"
    using idle_example_ok by (auto simp: sched_ok_def)
  have "\<exists>ws Q. created idle_example 0x300008 [] ws ?r Q"
    using task_create_user_with_pages_ok [OF inv, of link_example "0x800000" "0xC00000" "[0x800000]"] by blast
  then obtain ws Q where c: "created idle_example 0x300008 [] ws ?r Q" by blast
  obtain b p where a: "pmm_alloc_contiguous_pages (pmm idle_example) 2 = (b, p)" by fastforce
  have z: "free_set pmm_example \<inter> kernel_zone = {256..<264}"
    unfolding pmm_example_free by auto
  have b0: "b \<noteq> 0"
  proof
    assume "b = 0"
    then have "(2 :: u32) = 0 \<or> (\<forall>i. \<not> {i..<i + unat (2 :: u32)} \<subseteq> free_set pmm_example \<inter> kernel_zone)"
      using kernel_run.run_failed [OF pmm_example_wf, of 2 p] a by (simp only: idle_example_fields(4))
    moreover have "(2 :: u32) \<noteq> 0" by simp
    ultimately have "\<not> {256..<256 + unat (2 :: u32)} \<subseteq> free_set pmm_example \<inter> kernel_zone"
      by blast
    then show False
      unfolding z by auto
  qed
  obtain i where i: "pmm_wf p" "free_set p = free_set pmm_example - {i..<i + 2}"
    using kernel_run.run_found [OF pmm_example_wf _ b0, of 2 p] a by (auto simp: idle_example_fields(4))
  have "free_set p \<inter> kernel_zone = {256..<264} - {i..<i + 2}"
    unfolding i(2) z [symmetric] by blast
  moreover have "256 \<in> {256..<264} - {i..<i + 2} \<or> 260 \<in> {256..<264} - {i..<i + 2}"
    by auto
  ultimately have "free_set p \<inter> kernel_zone \<noteq> {}"
    by blast
  then have b: "b \<noteq> 0" "fst (pmm_alloc_page p) \<noteq> 0"
    using b0 kernel_page.alloc_zero_iff [OF i(1)] by simp_all
  obtain d s2 where d: "paging_clone_kernel_pd (idle_example\<lparr>pmm := p\<rparr>) = (d, s2)" by fastforce
  then have "d \<noteq> 0"
    using b(2) by (auto simp: paging_clone_kernel_pd_def Let_def split: prod.splits if_splits)
  then have "?r \<noteq> Some (0, s')" for s'
    using b(1) new_tcb_nonzero by (simp add: task_create_user_with_pages_def a d Let_def)
  moreover have "?r \<noteq> None"
  proof
    assume "?r = None"
    then obtain s1 s2 where e: "elsewhere idle_example s1" "kmalloc s1 sizeof_task = Some (0, s2)"
      using c by (auto simp: created_def)
    have m: "memory s1 x = memory idle_example x" if "0x300060 \<le> unat x" "unat x < 0x300064" for x
    proof -
      have "(unat x - 1048576) div 4096 = 512"
        using that by (intro div_nat_eqI) auto
      then show ?thesis
        using e(1) that by (auto simp: elsewhere_def changes_only_def idle_example_fields(4) mem_page_bytes pmm_example_free)
    qed
    have "load32 (memory s1) 0x300060 = load32 (memory idle_example) 0x300060"
      using m word_at_unat [of "0x300060"] by (intro load32_cong) (auto simp: aligned4_def)
    then have "get (memory s1) 0x300060 Size = 4000" "free_head s1 = 0x300060"
      using e(1) idle_example_fields(5,6) by (simp_all add: get_def elsewhere_def)
    then have "kmalloc s1 sizeof_task = Some (0x300068, take_block s1 0x300060 96)"
      by (subst kmalloc.simps, subst first_fit.simps) (simp add: sizeof_task_def block_need_def)
    then show False
      using e(2) by simp
  qed
  ultimately show ?thesis
    using that by (cases ?r) auto
qed


text \<open>Two tasks that yield to each other, in the zero-filled memory.\<close>

definition two_tasks :: task_state where
  "two_tasks = task_example\<lparr>memory := (\<lambda>_. 0), g_current := 0x1000, tasks := (\<lambda>t.
     if t = 0x1000 then Some \<lparr>t_esp = 0, t_id = 0, t_state = TASK_RUNNING, t_next = 0x2000, t_kernel_stack_top = 0,
        t_cr3 = 0, t_fds = []\<rparr>
     else if t = 0x2000 then Some \<lparr>t_esp = 0x9000, t_id = 1, t_state = TASK_READY, t_next = 0x1000, t_kernel_stack_top = 0,
        t_cr3 = 0, t_fds = []\<rparr> else None)\<rparr>"

theorem task_yield_roundtrip_witness:
  "\<exists>s1 k1 s3. task_yield two_tasks \<lparr>r_ebx = 1, r_esi = 2, r_edi = 3, r_ebp = 4, r_esp = 0xA000, r_eip = 5\<rparr> = Some (s1, k1) \<and>
    task_yield s1 k1 = Some (s3, \<lparr>r_ebx = 1, r_esi = 2, r_edi = 3, r_ebp = 4, r_esp = 0xA004, r_eip = 0\<rparr>)"
proof -
  let ?k = "\<lparr>r_ebx = 1, r_esi = 2, r_edi = 3, r_ebp = 4, r_esp = 0xA000, r_eip = 5\<rparr>"
  obtain x where x: "tasks two_tasks (g_current two_tasks) = Some x" "t_next x = 0x2000" "g_current two_tasks = 0x1000"
    by (simp add: two_tasks_def)
  obtain y where y: "tasks two_tasks 0x2000 = Some y" "t_next y = 0x1000" "t_esp y = 0x9000" "t_kernel_stack_top y = 0"
    by (simp add: two_tasks_def)
  obtain s1 k1 where s1: "task_yield two_tasks ?k = Some (s1, k1)" "r_esp k1 = 0x9014" "g_current s1 = 0x2000"
    "tasks s1 = (tasks two_tasks)(0x1000 \<mapsto> x\<lparr>t_state := TASK_READY, t_esp := 0xA000 - 16\<rparr>, 0x2000 \<mapsto> y\<lparr>t_state := TASK_RUNNING\<rparr>)"
    using task_yield_switches [OF x(1), of y ?k] x(2,3) y by (auto simp: resumed_def)
  have t: "tasks s1 (g_current s1) = Some (y\<lparr>t_state := TASK_RUNNING\<rparr>)"
    "tasks s1 0x1000 = Some (x\<lparr>t_state := TASK_READY, t_esp := 0xA000 - 16\<rparr>)"
    using s1(3,4) by simp_all
  obtain s3 k3 where s3: "task_yield s1 k1 = Some (s3, k3)"
    using task_yield_switches [OF t(1), of _ k1] t(2) y(2) s1(3) by auto
  have "k3 = ?k\<lparr>r_esp := r_esp ?k + 4, r_eip := load32 (memory two_tasks) (r_esp ?k)\<rparr> \<and> g_current s3 = g_current two_tasks"
    by (rule task_yield_roundtrip [OF s1(1) x(1) _ _ s3 t(1)])
      (use x y s1(2,3) in \<open>simp_all add: aligned4_def\<close>)
  then show ?thesis
    using s1(1) s3 by (simp add: two_tasks_def load32_zero)
qed

theorem user_task_first_run_witness:
  "\<exists>(s1 :: task_state) k2 s3 k3. task_yield s1 k2 = Some (s3, k3) \<and> r_eip k3 = return_to_ring3 link_example \<and>
    u_eip (iret_to_user (memory s3) (r_esp k3)) = 0x800000"
proof -
  obtain A Z where inv: "sched_inv idle_example A Z [0x300008]"
    using idle_example_ok by (auto simp: sched_ok_def)
  obtain t s1 where t: "task_create_user_with_pages link_example idle_example 0x800000 0xC00000 [0x800000] = Some (t, s1)" "t \<noteq> 0"
    by (rule create_user_example)
  have "\<exists>ws Q. created idle_example 0x300008 [] ws (Some (t, s1)) Q"
    using task_create_user_with_pages_ok [OF inv, of link_example "0x800000" "0xC00000" "[0x800000]"] t(1) by auto
  then obtain x A' Z' where x: "task_added idle_example s1 0x300008 t x" "aligned4 (t_esp x)" "sched_inv s1 A' Z' [0x300008, t]"
    using t(2) unfolding created_def by auto
  have c: "g_current s1 = 0x300008" "t \<noteq> 0x300008"
    using sched_invD(2) [OF x(3)] by (auto simp: ring_def)
  obtain y where y: "tasks s1 0x300008 = Some y" "t_next y = t"
    using x(1) c(2) by (auto simp: task_added_def idle_example_fields(2))
  let ?k = "\<lparr>r_ebx = 0, r_esi = 0, r_edi = 0, r_ebp = 0, r_esp = t_esp x - 96, r_eip = 0\<rparr>"
  have al: "aligned4 (r_esp ?k)"
    using aligned4_arith(2) [OF x(2), of 96] by (simp add: aligned4_def)
  have tx: "tasks s1 t = Some x"
    using x(1) by (simp add: task_added_def)
  obtain s3 k3 where yield: "task_yield s1 ?k = Some (s3, k3)"
    using task_yield_switches [of s1 y x ?k] y c tx by auto
  have "\<forall>j<10. t_esp x + 4 * of_nat j \<notin> {r_esp ?k - 4, r_esp ?k - 8, r_esp ?k - 12, r_esp ?k - 16}"
  proof (intro allI impI)
    fix j :: nat assume "j < 10"
    then have "j \<in> {0, 1, 2, 3, 4, 5, 6, 7, 8, 9}" by auto
    then show "t_esp x + 4 * of_nat j \<notin> {r_esp ?k - 4, r_esp ?k - 8, r_esp ?k - 12, r_esp ?k - 16}"
      by (auto simp: diff_eq_eq)
  qed
  moreover have "tasks s1 (g_current s1) = Some y" "g_current s1 \<noteq> t"
    using y(1) c by simp_all
  ultimately have "r_eip k3 = return_to_ring3 link_example \<and> (\<exists>top. iret_to_user (memory s3) (r_esp k3) =
      \<lparr>u_eip = 0x800000, u_cs = 0x1B, u_eflags = 0x202, u_esp = top, u_ss = 0x23\<rparr>)"
    using user_task_first_run [OF inv t tx tx refl refl refl _ _ y(2) _ yield al] by blast
  then show ?thesis
    using yield by (intro exI [of _ s1] exI [of _ ?k] exI [of _ s3] exI [of _ k3]) auto
qed

end
