(* ===== verification/Heap_Client.thy ===== *)
theory Heap_Client
  imports Heap_Frame
begin

text \<open>
  The heap as a client sees it that keeps typed objects beside the memory: \<open>kmalloc\<close> depends on the
  heap part of the state alone, a sequence of requests is served whatever objects are made in
  between, and writing a live block touches neither the heap nor other blocks.
\<close>

section \<open>Requests\<close>

text \<open>\<open>kmalloc\<close> looks at the heap part of the state only, so a sequence of requests that the heap
  can serve is served whatever typed objects are made in between.\<close>

definition heap_of :: "'a heap_state_scheme \<Rightarrow> heap_state" where
  "heap_of s = \<lparr>memory = memory s, pmm = pmm s, free_head = free_head s, heap_pages = heap_pages s\<rparr>"

lemma heap_of_simps [simp]:
  "memory (heap_of s) = memory s" "pmm (heap_of s) = pmm s" "free_head (heap_of s) = free_head s"
  "heap_pages (heap_of s) = heap_pages s"
  by (simp_all add: heap_of_def)

lemma heap_of_eq: "heap_of s = heap_of t \<longleftrightarrow> memory s = memory t \<and> pmm s = pmm t \<and> free_head s = free_head t \<and>
    heap_pages s = heap_pages t"
  by (simp add: heap_of_def)

lemma heap_of_fl_insert: "heap_of (fl_insert s b) = fl_insert (heap_of s) b"
  by (simp add: fl_insert_def heap_of_def Let_def)

lemma heap_of_fl_remove: "heap_of (fl_remove s b) = fl_remove (heap_of s) b"
  by (simp add: fl_remove_def heap_of_def Let_def)

lemma heap_of_take_block: "heap_of (take_block s b n) = take_block (heap_of s) b n"
proof (cases "get (memory s) b Size - n \<ge> MIN_BLOCK_SIZE")
  case True
  then show ?thesis by (simp add: take_block_def heap_of_def Let_def)
next
  case False
  then have "take_block s b n = (fl_remove s b)\<lparr>memory := put (memory (fl_remove s b)) b Free 0\<rparr>"
    by (simp add: take_block_def Let_def)
  then have "heap_of (take_block s b n) = heap_of (fl_remove s b)\<lparr>memory := put (memory (heap_of (fl_remove s b))) b Free 0\<rparr>"
    by (simp add: heap_of_def)
  also have "\<dots> = take_block (heap_of s) b n"
    unfolding heap_of_fl_remove using False by (simp add: take_block_def Let_def)
  finally show ?thesis .
qed

lemma heap_of_add_pages: "heap_of (add_pages s b n) = add_pages (heap_of s) b n"
proof -
  let ?s = "s\<lparr>memory := put (memory s) b Size (n * PAGE_SIZE)\<rparr>"
  have "heap_of (add_pages s b n) = heap_of (fl_insert ?s b)
      \<lparr>heap_pages := heap_pages (heap_of (fl_insert ?s b)) @ map (\<lambda>i. b + of_nat i * PAGE_SIZE) [0..<unat n]\<rparr>"
    by (simp add: add_pages_def heap_of_def)
  moreover have "heap_of ?s = heap_of s\<lparr>memory := put (memory (heap_of s)) b Size (n * PAGE_SIZE)\<rparr>"
    by (simp add: heap_of_def)
  ultimately show ?thesis
    unfolding heap_of_fl_insert by (simp add: add_pages_def)
qed

lemma heap_of_heap_expand: "heap_expand (heap_of s) = map_prod id heap_of (heap_expand s)"
proof -
  obtain b p where a: "pmm_alloc_contiguous_pages (pmm s) EXPAND_PAGES = (b, p)" by fastforce
  have "heap_of (s\<lparr>pmm := p\<rparr>) = (heap_of s)\<lparr>pmm := p\<rparr>"
    by (simp add: heap_of_def)
  then have "add_pages (heap_of s\<lparr>pmm := p\<rparr>) b n = heap_of (add_pages (s\<lparr>pmm := p\<rparr>) b n)" for b n
    by (simp only: heap_of_add_pages)
  then show ?thesis
    by (simp add: heap_expand_def a Let_def heap_of_def)
qed

lemma kmalloc_heap_of:
  assumes "kmalloc s sz = Some (p, s')"
  shows "kmalloc (heap_of s) sz = Some (p, heap_of s')"
proof -
  have "kmalloc (heap_of s) sz = Some (fst r, heap_of (snd r))" if "kmalloc s sz = Some r" for r
    using that
  proof (rule kmalloc.raw_induct [where P = "\<lambda>s sz r. kmalloc (heap_of s) sz = Some (fst r, heap_of (snd r))", rotated])
    fix f and s :: "'a heap_state_scheme" and sz r
    assume ih: "\<And>(s :: 'a heap_state_scheme) sz r. f s sz = Some r \<Longrightarrow> kmalloc (heap_of s) sz = Some (fst r, heap_of (snd r))"
      and step: "first_fit (memory s) (free_head s) (block_need sz) \<bind> (\<lambda>b. if b \<noteq> 0
          then Some (b + HEADER_SIZE, take_block s b (block_need sz))
          else (case heap_expand s of (ok, s) \<Rightarrow> if ok then f s sz else Some (0, s))) = Some r"
    obtain ok s1 where e: "heap_expand s = (ok, s1)" by fastforce
    then have e': "heap_expand (heap_of s) = (ok, heap_of s1)"
      by (simp add: heap_of_heap_expand)
    obtain b where b: "first_fit (memory s) (free_head s) (block_need sz) = Some b"
      using step by (auto simp: bind_eq_Some_conv)
    show "kmalloc (heap_of s) sz = Some (fst r, heap_of (snd r))"
    proof (cases "b = 0")
      case False
      then have "r = (b + HEADER_SIZE, take_block s b (block_need sz))"
        using step b by simp
      then show ?thesis
        using False b by (simp add: kmalloc.simps [of "heap_of s"] heap_of_take_block)
    next
      case True
      then have "(if ok then f s1 sz else Some (0, s1)) = Some r"
        using step b e by simp
      then show ?thesis
        using True b e' ih [of s1 sz r] by (cases ok) (auto simp: kmalloc.simps [of "heap_of s"])
    qed
  qed
  from this [OF assms] show ?thesis by simp
qed

text \<open>The heap serves a sequence of requests.\<close>

fun heap_serves :: "heap_state \<Rightarrow> u32 list \<Rightarrow> bool" where
  "heap_serves h [] \<longleftrightarrow> True"
| "heap_serves h (n # ns) \<longleftrightarrow> (case kmalloc h n of None \<Rightarrow> False | Some (p, h') \<Rightarrow> p \<noteq> 0 \<and> heap_serves h' ns)"

lemma heap_serves_append: "heap_serves h (ms @ ns) \<Longrightarrow> heap_serves h ms"
  by (induction h ms rule: heap_serves.induct) (auto split: option.splits)

text \<open>A pointer to a live block of at least \<open>n\<close> data bytes.\<close>

definition block_at :: "(u32 \<rightharpoonup> nat) \<Rightarrow> u32 \<Rightarrow> nat \<Rightarrow> bool" where
  "block_at A p n \<longleftrightarrow> p \<noteq> 0 \<and> (\<exists>k. A (p - 8) = Some k \<and> n + 8 \<le> k)"

lemma served:
  assumes v: "heap_view s A" and r: "heap_serves (heap_of s) (n # ns)" and n: "unat n \<le> 0xFFFFFFF0"
  obtains p s' A' where "kmalloc s n = Some (p, s')" "heap_view s' A'" "heap_serves (heap_of s') ns"
    "same_bytes A (memory s) (memory s')" "heap_state.more s' = heap_state.more s"
    "block_at A' p (unat n)" "A (p - 8) = None" "\<And>q. q \<noteq> p - 8 \<Longrightarrow> A' q = A q"
proof -
  obtain p s' A' where k: "kmalloc s n = Some (p, s')" "heap_view s' A'" "same_bytes A (memory s) (memory s')"
      "if p = 0 then A' = A
       else 8 dvd unat p \<and> A (p - 8) = None \<and> (\<exists>k. A' = A(p - 8 \<mapsto> k) \<and> (unat n \<le> 0xFFFFFFF0 \<longrightarrow> unat n + 8 \<le> k))"
    using kheap.malloc_ok [OF v, of n] by blast
  have s: "p \<noteq> 0" "heap_serves (heap_of s') ns"
    using r kmalloc_heap_of [OF k(1)] by simp_all
  then show ?thesis
    using k n kmalloc_more [OF k(1)] by (intro that [of p s' A']) (auto simp: block_at_def)
qed

text \<open>Writing into a live block keeps the heap and every other block.\<close>

lemma write_block:
  assumes v: "heap_view s A" and b: "block_at A p n" and m: "\<And>x. x \<notin> range_at p n \<Longrightarrow> m' x = memory s x"
  shows "heap_view (s\<lparr>memory := m'\<rparr>) A"
    "block_at A q k \<Longrightarrow> q \<noteq> p \<Longrightarrow> x \<in> range_at q k \<Longrightarrow> m' x = memory s x"
proof -
  obtain j where j: "p \<noteq> 0" "A (p - 8) = Some j" "n + 8 \<le> j"
    using b by (auto simp: block_at_def)
  note B = kheap.view_bounds [OF v j(2)]
  have p: "unat p = unat (p - 8) + 8"
    using B j(3) unat_add_no_wrap [of "p - 8" 8] by simp
  have r: "x \<in> range_at p n \<Longrightarrow> unat (p - 8) + 8 \<le> unat x \<and> unat x < unat (p - 8) + j" for x
    using range_at_no_wrap [of p n] p B j(3) by auto
  show "heap_view (s\<lparr>memory := m'\<rparr>) A"
    by (rule kheap.view_write [OF v j(2)]) (use m r in blast)
  show "m' x = memory s x" if q: "block_at A q k" "q \<noteq> p" "x \<in> range_at q k"
  proof (rule m)
    obtain i where i: "q \<noteq> 0" "A (q - 8) = Some i" "k + 8 \<le> i"
      using q by (auto simp: block_at_def)
    note C = kheap.view_bounds [OF v i(2)]
    have "unat q = unat (q - 8) + 8"
      using C i(3) unat_add_no_wrap [of "q - 8" 8] by simp
    then have "unat (q - 8) + 8 \<le> unat x \<and> unat x < unat (q - 8) + i"
      using range_at_no_wrap [of q k] C i(3) q(3) by auto
    moreover have "{unat (p - 8)..<unat (p - 8) + j} \<inter> {unat (q - 8)..<unat (q - 8) + i} = {}"
      by (rule kheap.view_disjoint [OF v j(2) i(2)]) (use q(2) in simp)
    ultimately show "x \<notin> range_at p n"
      using r [of x] by auto
  qed
qed

lemma same_bytes_block:
  assumes v: "heap_view s A" and b: "block_at A p n" and same: "same_bytes A (memory s) m'" and x: "x \<in> range_at p n"
  shows "m' x = memory s x"
proof -
  obtain j where j: "p \<noteq> 0" "A (p - 8) = Some j" "n + 8 \<le> j"
    using b by (auto simp: block_at_def)
  note B = kheap.view_bounds [OF v j(2)]
  have "unat p = unat (p - 8) + 8"
    using B j(3) unat_add_no_wrap [of "p - 8" 8] by simp
  then have "unat (p - 8) \<le> unat x \<and> unat x < unat (p - 8) + j"
    using range_at_no_wrap [of p n] B j(3) x by auto
  then show ?thesis
    using same j(2) by (auto simp: same_bytes_def)
qed

text \<open>A heap that is one free block serves every sequence of requests that fits into it.\<close>

definition one_block :: "heap_state \<Rightarrow> u32 \<Rightarrow> nat \<Rightarrow> bool" where
  "one_block h b n \<longleftrightarrow> free_head h = b \<and> b \<noteq> 0 \<and> header_ok b \<and> unat b + n < 4294967296 \<and>
     unat (get (memory h) b Size) = n \<and> get (memory h) b Next = 0 \<and> get (memory h) b Prev = 0"

fun fits :: "nat \<Rightarrow> u32 list \<Rightarrow> bool" where
  "fits n [] \<longleftrightarrow> True"
| "fits n (sz # ns) \<longleftrightarrow> unat (block_need sz) + 16 \<le> n \<and> fits (n - unat (block_need sz)) ns"

lemma one_block_serves:
  "one_block h b n \<Longrightarrow> fits n ns \<Longrightarrow> heap_serves h ns"
proof (induction ns arbitrary: h b n)
  case (Cons sz ns)
  let ?k = "block_need sz" let ?m = "memory h" let ?r = "b + block_need sz"
  have h: "free_head h = b" "b \<noteq> 0" "header_ok b" "unat b + n < 4294967296" "unat (get ?m b Size) = n"
    "get ?m b Next = 0" "get ?m b Prev = 0"
    using Cons.prems(1) by (simp_all add: one_block_def)
  have k: "16 \<le> unat ?k" "8 dvd unat ?k" "unat ?k + 16 \<le> n"
    using Cons.prems(2) unat_block_need(1) [of sz] by auto
  have ur: "unat ?r = unat b + unat ?k"
    using h(4) k(3) by (intro unat_add_no_wrap) simp
  have r: "header_ok ?r" "?r \<noteq> 0" "separate b ?r" "separate ?r b" "b \<noteq> ?r"
    using h(3,4) k ur by (auto simp: header_ok_def separate_def u32_eq_iff intro: dvd_add)
  have sub: "unat (get ?m b Size - ?k) = n - unat ?k"
    using h(5) k(3) by (subst unat_sub_no_wrap) (simp_all add: word_le_nat_alt)
  have le: "?k \<le> get ?m b Size" "get ?m b Size - ?k \<ge> MIN_BLOCK_SIZE"
    using h(5) k(3) sub by (simp_all add: word_le_nat_alt)
  let ?h = "take_block h b ?k"
  have "kmalloc h sz = Some (b + 8, ?h)"
    using h(1,2) le(1) by (subst kmalloc.simps, subst first_fit.simps) simp
  moreover have "b + 8 \<noteq> 0"
    using h(4) k(1,3) by (intro notI) (simp add: u32_eq_iff unat_add_no_wrap)
  moreover have "one_block ?h ?r (n - unat ?k)"
    using h r le(2) sub ur k(3) by (simp add: one_block_def take_block_def Let_def get_put)
  ultimately show ?case
    using Cons.IH Cons.prems(2) by simp
qed simp

end
