(* ===== verification/RamFS.thy ===== *)
theory RamFS
  imports Task Ports Heap_Client
begin

text \<open>
  The in-memory file system: \<open>fs/ramfs.c\<close>, with the node types of \<open>fs/vfs.h\<close> and \<open>fs/ramfs.h\<close>. Nodes
  and open files are typed objects at the addresses \<open>kmalloc\<close> returns; a dereference of any other
  pointer is a CPU exception, \<^term>\<open>None\<close>. File contents are bytes of the memory. A \<open>char\<close> array that
  holds a string is the list of the string's characters. Every \<open>ops\<close> field points to
  \<open>g_ramfs_ops\<close>, whose members are all set, so it is not kept.
\<close>

section \<open>State\<close>

abbreviation VFS_TYPE_FILE :: u32 where "VFS_TYPE_FILE \<equiv> 0"
abbreviation VFS_TYPE_DIR :: u32 where "VFS_TYPE_DIR \<equiv> 1"
abbreviation NAME_LEN :: nat where "NAME_LEN \<equiv> 63"

record vfs_node =
  v_name :: "u8 list"
  v_type :: u32
  v_size :: u32
  v_fs_data :: u32

record vfs_file =
  f_node :: u32
  f_offset :: u32
  f_flags :: u32

record ramfs_node =
  r_name :: "u8 list"
  r_type :: u32
  r_size :: u32
  r_data :: u32
  r_parent :: u32
  r_children :: u32
  r_next :: u32

definition sizeof_vfs_node :: u32 where "sizeof_vfs_node = 64 + 4 * 4"
definition sizeof_vfs_file :: u32 where "sizeof_vfs_file = 3 * 4"
definition sizeof_ramfs_node :: u32 where "sizeof_ramfs_node = 64 + 6 * 4"

record fs_state = task_state +
  g_root :: u32
  vnodes :: "u32 \<rightharpoonup> vfs_node"
  files :: "u32 \<rightharpoonup> vfs_file"
  rnodes :: "u32 \<rightharpoonup> ramfs_node"

definition set_vnode :: "u32 \<Rightarrow> vfs_node option \<Rightarrow> 'a fs_state_scheme \<Rightarrow> 'a fs_state_scheme" where
  "set_vnode p x s = s\<lparr>vnodes := (vnodes s)(p := x)\<rparr>"

definition set_file :: "u32 \<Rightarrow> vfs_file option \<Rightarrow> 'a fs_state_scheme \<Rightarrow> 'a fs_state_scheme" where
  "set_file p x s = s\<lparr>files := (files s)(p := x)\<rparr>"

definition set_rnode :: "u32 \<Rightarrow> ramfs_node option \<Rightarrow> 'a fs_state_scheme \<Rightarrow> 'a fs_state_scheme" where
  "set_rnode p x s = s\<lparr>rnodes := (rnodes s)(p := x)\<rparr>"

section \<open>Nodes\<close>

text \<open>The copy loops keep at most 63 characters.\<close>

definition copy_name :: "u8 list \<Rightarrow> u8 list" where
  "copy_name name = take NAME_LEN name"

definition ramfs_make_vfs_node ::
    "'a fs_state_scheme \<Rightarrow> u8 list \<Rightarrow> u32 \<Rightarrow> (u32 \<times> 'a fs_state_scheme) option" where
  "ramfs_make_vfs_node s name type =
     do { (rn, s) \<leftarrow> kmalloc s sizeof_ramfs_node;
          if rn = 0 then Some (0, s)
          else do {
            let s = set_rnode rn (Some \<lparr>r_name = copy_name name, r_type = type, r_size = 0, r_data = 0,
                      r_parent = 0, r_children = 0, r_next = 0\<rparr>) s;
            (vn, s) \<leftarrow> kmalloc s sizeof_vfs_node;
            if vn = 0 then do { s \<leftarrow> kfree (set_rnode rn None s) rn; Some (0, s) }
            else Some (vn, set_vnode vn (Some \<lparr>v_name = copy_name name, v_type = type, v_size = 0,
                             v_fs_data = rn\<rparr>) s) } }"

definition ramfs_init :: "'a fs_state_scheme \<Rightarrow> (u32 \<times> 'a fs_state_scheme) option" where
  "ramfs_init s =
     do { (root, s) \<leftarrow> ramfs_make_vfs_node s (bytes_of ''/'') VFS_TYPE_DIR;
          if root \<noteq> 0
          then do { v \<leftarrow> vnodes s root;
                    let rn = v_fs_data v;
                    x \<leftarrow> rnodes s rn;
                    Some (root, set_rnode rn (Some (x\<lparr>r_parent := rn\<rparr>)) s) }
          else Some (root, s) }"

section \<open>Reading and writing\<close>

definition ramfs_read ::
    "'a fs_state_scheme \<Rightarrow> u32 \<Rightarrow> u32 \<Rightarrow> u32 \<Rightarrow> u32 \<Rightarrow> (u32 \<times> 'a fs_state_scheme) option" where
  "ramfs_read s node offset buf sz =
     do { v \<leftarrow> vnodes s node;
          x \<leftarrow> rnodes s (v_fs_data v);
          if r_type x \<noteq> VFS_TYPE_FILE then Some (0xFFFFFFFF, s)
          else if r_data x = 0 \<or> offset \<ge> r_size x then Some (0, s)
          else let to_read = (if offset + sz > r_size x then r_size x - offset else sz)
               in Some (to_read, s\<lparr>memory := copy_bytes (memory s) buf (r_data x + offset) (unat to_read)\<rparr>) }"

text \<open>The part of \<open>ramfs_write\<close> that makes room: a new buffer with the old contents and zeros up to
  the write position.\<close>

definition expand_file ::
    "'a fs_state_scheme \<Rightarrow> u32 \<Rightarrow> u32 \<Rightarrow> u32 \<Rightarrow> (bool \<times> 'a fs_state_scheme) option" where
  "expand_file s node offset needed =
     do { (new_data, s) \<leftarrow> kmalloc s needed;
          if new_data = 0 then Some (False, s)
          else do {
            v \<leftarrow> vnodes s node;
            x \<leftarrow> rnodes s (v_fs_data v);
            let m = copy_bytes (memory s) new_data (r_data x) (unat (r_size x));
            let m = store_bytes m (new_data + r_size x) (replicate (unat offset - unat (r_size x)) 0);
            let s = s\<lparr>memory := m\<rparr>;
            s \<leftarrow> (if r_data x \<noteq> 0 then kfree s (r_data x) else Some s);
            let s = set_rnode (v_fs_data v) (Some (x\<lparr>r_data := new_data, r_size := needed\<rparr>)) s;
            Some (True, set_vnode node (Some (v\<lparr>v_size := needed\<rparr>)) s) } }"

definition ramfs_write ::
    "'a fs_state_scheme \<Rightarrow> u32 \<Rightarrow> u32 \<Rightarrow> u32 \<Rightarrow> u32 \<Rightarrow> (u32 \<times> 'a fs_state_scheme) option" where
  "ramfs_write s node offset buf sz =
     do { v \<leftarrow> vnodes s node;
          x \<leftarrow> rnodes s (v_fs_data v);
          if r_type x \<noteq> VFS_TYPE_FILE then Some (0xFFFFFFFF, s)
          else if sz = 0 then Some (0, s)
          else do {
            let needed = offset + sz;
            (ok, s) \<leftarrow> (if needed > r_size x then expand_file s node offset needed else Some (True, s));
            if \<not> ok then Some (0xFFFFFFFF, s)
            else do {
              x \<leftarrow> rnodes s (v_fs_data v);
              Some (sz, s\<lparr>memory := copy_bytes (memory s) (r_data x + offset) buf (unat sz)\<rparr>) } } }"

definition ramfs_open :: "'a fs_state_scheme \<Rightarrow> u32 \<Rightarrow> u32 \<Rightarrow> u32 \<times> 'a fs_state_scheme" where
  "ramfs_open s node flags = (0, s)"

definition ramfs_close :: "'a fs_state_scheme \<Rightarrow> u32 \<Rightarrow> u32 \<times> 'a fs_state_scheme" where
  "ramfs_close s node = (0, s)"

section \<open>Directories\<close>

text \<open>Character \<open>i\<close> of a string, its NUL included.\<close>

fun char_at :: "u8 list \<Rightarrow> u8" where
  "char_at [] = 0"
| "char_at (c # cs) = c"

text \<open>The comparison loop of \<open>ramfs_lookup\<close>; the first argument is \<open>64 - i\<close>.\<close>

fun names_match :: "nat \<Rightarrow> u8 list \<Rightarrow> u8 list \<Rightarrow> bool" where
  "names_match 0 cname name = True"
| "names_match (Suc n) cname name =
     (if char_at cname \<noteq> char_at name then False
      else if char_at name = 0 then True
      else names_match n (tl cname) (tl name))"

partial_function (option) find_child :: "(u32 \<rightharpoonup> ramfs_node) \<Rightarrow> u32 \<Rightarrow> u8 list \<Rightarrow> u32 option" where
  "find_child R child name =
     (if child = 0 then Some 0
      else do { x \<leftarrow> R child;
                if names_match 64 (r_name x) name then Some child else find_child R (r_next x) name })"

definition ramfs_lookup ::
    "'a fs_state_scheme \<Rightarrow> u32 \<Rightarrow> u8 list \<Rightarrow> (u32 \<times> 'a fs_state_scheme) option" where
  "ramfs_lookup s dir name =
     do { d \<leftarrow> vnodes s dir;
          if v_type d \<noteq> VFS_TYPE_DIR then Some (0, s)
          else do {
            rdir \<leftarrow> rnodes s (v_fs_data d);
            child \<leftarrow> find_child (rnodes s) (r_children rdir) name;
            if child = 0 then Some (0, s)
            else do {
              (vn, s) \<leftarrow> kmalloc s sizeof_vfs_node;
              if vn = 0 then Some (0, s)
              else do {
                x \<leftarrow> rnodes s child;
                Some (vn, set_vnode vn (Some \<lparr>v_name = copy_name (r_name x), v_type = r_type x,
                            v_size = r_size x, v_fs_data = child\<rparr>) s) } } } }"

definition ramfs_create ::
    "'a fs_state_scheme \<Rightarrow> u32 \<Rightarrow> u8 list \<Rightarrow> u32 \<Rightarrow> (u32 \<times> 'a fs_state_scheme) option" where
  "ramfs_create s dir name type =
     do { d \<leftarrow> vnodes s dir;
          if v_type d \<noteq> VFS_TYPE_DIR then Some (0, s)
          else do {
            let rdir = v_fs_data d;
            (rn, s) \<leftarrow> kmalloc s sizeof_ramfs_node;
            if rn = 0 then Some (0, s)
            else do {
              x \<leftarrow> rnodes s rdir;
              let s = set_rnode rn (Some \<lparr>r_name = copy_name name, r_type = type, r_size = 0, r_data = 0,
                        r_parent = rdir, r_children = 0, r_next = r_children x\<rparr>) s;
              let s = set_rnode rdir (Some (x\<lparr>r_children := rn\<rparr>)) s;
              (vn, s) \<leftarrow> kmalloc s sizeof_vfs_node;
              if vn = 0
              then do { s \<leftarrow> kfree (set_rnode rn None (set_rnode rdir (Some x) s)) rn; Some (0, s) }
              else Some (vn, set_vnode vn (Some \<lparr>v_name = copy_name name, v_type = type, v_size = 0,
                               v_fs_data = rn\<rparr>) s) } } }"

partial_function (option) child_at :: "(u32 \<rightharpoonup> ramfs_node) \<Rightarrow> u32 \<Rightarrow> u32 \<Rightarrow> u32 \<Rightarrow> u32 option" where
  "child_at R child i index =
     (if child = 0 then Some 0
      else do { x \<leftarrow> R child;
                if i = index then Some child else child_at R (r_next x) (i + 1) index })"

definition ramfs_readdir ::
    "'a fs_state_scheme \<Rightarrow> u32 \<Rightarrow> u32 \<Rightarrow> u32 \<Rightarrow> (u32 \<times> 'a fs_state_scheme) option" where
  "ramfs_readdir s dir index name_buf =
     do { d \<leftarrow> vnodes s dir;
          if v_type d \<noteq> VFS_TYPE_DIR then Some (0xFFFFFFFF, s)
          else do {
            rdir \<leftarrow> rnodes s (v_fs_data d);
            child \<leftarrow> child_at (rnodes s) (r_children rdir) 0 index;
            if child = 0 then Some (0xFFFFFFFF, s)
            else do {
              x \<leftarrow> rnodes s child;
              Some (0, s\<lparr>memory := store_bytes (memory s) name_buf (copy_name (r_name x) @ [0])\<rparr>) } } }"

section \<open>Names\<close>

definition name_chars :: "u8 list \<Rightarrow> bool" where
  "name_chars name \<longleftrightarrow> length name \<le> NAME_LEN \<and> 0 \<notin> set name"

lemma names_match_iff:
  "length a \<le> n \<Longrightarrow> length b \<le> n \<Longrightarrow> 0 \<notin> set a \<Longrightarrow> 0 \<notin> set b \<Longrightarrow> names_match (Suc n) a b \<longleftrightarrow> a = b"
proof (induction n arbitrary: a b)
  case 0
  then show ?case by simp
next
  case (Suc n)
  show ?case
  proof (cases a)
    case Nil
    then show ?thesis
      using Suc.prems by (cases b) auto
  next
    case (Cons x xs)
    then show ?thesis
      using Suc.prems Suc.IH [of xs "tl b"] by (cases b) (auto simp del: names_match.simps(2) simp: names_match.simps(2) [of "Suc n"])
  qed
qed

lemma names_match_64: "name_chars a \<Longrightarrow> name_chars b \<Longrightarrow> names_match 64 a b \<longleftrightarrow> a = b"
  using names_match_iff [of a 63 b] by (simp add: name_chars_def del: names_match.simps)

section \<open>The tree\<close>

text \<open>The children of a directory, as the list of their addresses.\<close>

fun kids :: "(u32 \<rightharpoonup> ramfs_node) \<Rightarrow> u32 \<Rightarrow> u32 list \<Rightarrow> bool" where
  "kids R p [] \<longleftrightarrow> p = 0"
| "kids R p (k # ks) \<longleftrightarrow> p = k \<and> k \<noteq> 0 \<and> (\<exists>x. R k = Some x \<and> kids R (r_next x) ks)"

lemma kids_cong: "(\<And>k. k \<in> set ks \<Longrightarrow> map_option r_next (R' k) = map_option r_next (R k)) \<Longrightarrow> kids R' p ks \<longleftrightarrow> kids R p ks"
proof (induction ks arbitrary: p)
  case (Cons k ks)
  have "map_option r_next (R' k) = map_option r_next (R k)"
    using Cons.prems by simp
  moreover have "kids R' q ks \<longleftrightarrow> kids R q ks" for q
    using Cons by simp
  ultimately show ?case
    by (cases "R k"; cases "R' k") auto
qed simp

lemma find_child_kids:
  assumes "kids R p ks" "\<And>k x. k \<in> set ks \<Longrightarrow> R k = Some x \<Longrightarrow> name_chars (r_name x)" "name_chars name"
  shows "find_child R p name = Some (case find (\<lambda>k. map_option r_name (R k) = Some name) ks of None \<Rightarrow> 0 | Some k \<Rightarrow> k)"
  using assms(1,2)
proof (induction ks arbitrary: p)
  case Nil
  then show ?case by (simp add: find_child.simps)
next
  case (Cons k ks)
  then obtain x where x: "p = k" "k \<noteq> 0" "R k = Some x" "kids R (r_next x) ks" by auto
  moreover have "name_chars (r_name x)"
    using Cons.prems(2) [of k] x(3) by simp
  ultimately show ?case
    using Cons.IH [OF x(4)] Cons.prems(2) names_match_64 [OF _ assms(3), of "r_name x"]
    by (subst find_child.simps) (auto simp del: names_match.simps)
qed

section \<open>The invariant\<close>

text \<open>A file has a buffer unless it is empty: a live block of at least the file's size.\<close>

definition buffer_ok :: "(u32 \<rightharpoonup> nat) \<Rightarrow> ramfs_node \<Rightarrow> bool" where
  "buffer_ok A x \<longleftrightarrow> (if r_data x = 0 then r_size x = 0 else r_size x \<noteq> 0 \<and> block_at A (r_data x) (unat (r_size x)))"

definition buffers :: "(u32 \<rightharpoonup> ramfs_node) \<Rightarrow> u32 list \<Rightarrow> u32 set" where
  "buffers R ks = {r_data x | k x. k \<in> set ks \<and> R k = Some x \<and> r_data x \<noteq> 0}"

text \<open>The blocks the file system owns.\<close>

definition owned :: "'a fs_state_scheme \<Rightarrow> u32 list \<Rightarrow> u32 set" where
  "owned s ks = dom (vnodes s) \<union> dom (files s) \<union> dom (rnodes s) \<union> buffers (rnodes s) ks"

text \<open>The root directory \<open>rr\<close> has the files \<open>ks\<close> as its children; all objects are live blocks that
  belong to one owner each; every VFS node stands for the root or a file.\<close>

definition tree_ok :: "'a fs_state_scheme \<Rightarrow> (u32 \<rightharpoonup> nat) \<Rightarrow> u32 \<Rightarrow> u32 list \<Rightarrow> bool" where
  "tree_ok s A rr ks \<longleftrightarrow>
     (\<exists>d. rnodes s rr = Some d \<and> kids (rnodes s) (r_children d) ks) \<and> distinct (rr # ks) \<and>
     (\<forall>k\<in>set ks. \<exists>x. rnodes s k = Some x \<and> r_type x = VFS_TYPE_FILE \<and> name_chars (r_name x) \<and> buffer_ok A x) \<and>
     inj_on (\<lambda>k. map_option r_data (rnodes s k)) {k \<in> set ks. map_option r_data (rnodes s k) \<noteq> Some 0}"

definition fs_inv :: "'a fs_state_scheme \<Rightarrow> (u32 \<rightharpoonup> nat) \<Rightarrow> u32 \<Rightarrow> u32 list \<Rightarrow> bool" where
  "fs_inv s A rr ks \<longleftrightarrow> heap_view s A \<and> tree_ok s A rr ks \<and>
     (\<exists>v. vnodes s (g_root s) = Some v \<and> v_fs_data v = rr) \<and>
     (\<forall>p\<in>owned s ks. block_at A p 0) \<and>
     dom (vnodes s) \<inter> dom (files s) = {} \<and> dom (rnodes s) \<inter> (dom (vnodes s) \<union> dom (files s)) = {} \<and>
     buffers (rnodes s) ks \<inter> (dom (vnodes s) \<union> dom (files s) \<union> dom (rnodes s)) = {} \<and>
     (\<forall>p v. vnodes s p = Some v \<longrightarrow> v_fs_data v \<in> set (rr # ks) \<and>
        v_type v = (if v_fs_data v = rr then VFS_TYPE_DIR else VFS_TYPE_FILE)) \<and>
     (\<forall>p f. files s p = Some f \<longrightarrow> f_node f \<in> dom (vnodes s))"

lemma fs_invD:
  assumes "fs_inv s A rr ks"
  shows "heap_view s A" "tree_ok s A rr ks" "\<exists>v. vnodes s (g_root s) = Some v \<and> v_fs_data v = rr"
    "\<And>p. p \<in> owned s ks \<Longrightarrow> block_at A p 0" "dom (vnodes s) \<inter> dom (files s) = {}"
    "dom (rnodes s) \<inter> (dom (vnodes s) \<union> dom (files s)) = {}"
    "buffers (rnodes s) ks \<inter> (dom (vnodes s) \<union> dom (files s) \<union> dom (rnodes s)) = {}"
    "\<And>p v. vnodes s p = Some v \<Longrightarrow> v_fs_data v \<in> set (rr # ks) \<and>
        v_type v = (if v_fs_data v = rr then VFS_TYPE_DIR else VFS_TYPE_FILE)"
    "\<And>p f. files s p = Some f \<Longrightarrow> f_node f \<in> dom (vnodes s)"
  using assms unfolding fs_inv_def by blast+

lemma tree_okD:
  assumes "tree_ok s A rr ks"
  shows "\<exists>d. rnodes s rr = Some d \<and> kids (rnodes s) (r_children d) ks" "distinct (rr # ks)"
    "\<And>k. k \<in> set ks \<Longrightarrow> \<exists>x. rnodes s k = Some x \<and> r_type x = VFS_TYPE_FILE \<and> name_chars (r_name x) \<and> buffer_ok A x"
    "inj_on (\<lambda>k. map_option r_data (rnodes s k)) {k \<in> set ks. map_option r_data (rnodes s k) \<noteq> Some 0}"
  using assms unfolding tree_ok_def by blast+

text \<open>The abstract file system: the names of the files and their contents, newest first.\<close>

definition content :: "'a fs_state_scheme \<Rightarrow> u32 \<Rightarrow> u8 list" where
  "content s k = (case rnodes s k of None \<Rightarrow> [] | Some x \<Rightarrow> load_bytes (memory s) (r_data x) (unat (r_size x)))"

definition name_of :: "'a fs_state_scheme \<Rightarrow> u32 \<Rightarrow> u8 list" where
  "name_of s k = (case rnodes s k of None \<Rightarrow> [] | Some x \<Rightarrow> r_name x)"

definition fs_abs :: "'a fs_state_scheme \<Rightarrow> u32 list \<Rightarrow> (u8 list \<times> u8 list) list" where
  "fs_abs s ks = map (\<lambda>k. (name_of s k, content s k)) ks"

lemma content_cong:
  assumes "rnodes s' k = rnodes s k"
    "\<And>x y. rnodes s k = Some x \<Longrightarrow> y \<in> range_at (r_data x) (unat (r_size x)) \<Longrightarrow> memory s' y = memory s y"
  shows "content s' k = content s k"
  using assms by (auto simp: content_def intro!: load_bytes_cong split: option.split)

lemma fs_abs_cong:
  assumes "\<And>k. k \<in> set ks \<Longrightarrow> name_of s' k = name_of s k \<and> content s' k = content s k"
  shows "fs_abs s' ks = fs_abs s ks"
  using assms by (simp add: fs_abs_def)

lemma fs_abs_same:
  "memory s' = memory s \<Longrightarrow> (\<And>k. k \<in> set ks \<Longrightarrow> rnodes s' k = rnodes s k) \<Longrightarrow> fs_abs s' ks = fs_abs s ks"
  by (intro fs_abs_cong) (simp add: name_of_def content_def split: option.split)

lemma set_object_fields [simp]:
  "memory (set_vnode p v s) = memory s" "vnodes (set_vnode p v s) = (vnodes s)(p := v)" "files (set_vnode p v s) = files s"
  "rnodes (set_vnode p v s) = rnodes s" "g_root (set_vnode p v s) = g_root s" "tasks (set_vnode p v s) = tasks s"
  "g_current (set_vnode p v s) = g_current s"
  "memory (set_file p f s) = memory s" "vnodes (set_file p f s) = vnodes s" "files (set_file p f s) = (files s)(p := f)"
  "rnodes (set_file p f s) = rnodes s" "g_root (set_file p f s) = g_root s" "tasks (set_file p f s) = tasks s"
  "g_current (set_file p f s) = g_current s"
  "memory (set_rnode p x s) = memory s" "vnodes (set_rnode p x s) = vnodes s" "files (set_rnode p x s) = files s"
  "rnodes (set_rnode p x s) = (rnodes s)(p := x)" "g_root (set_rnode p x s) = g_root s" "tasks (set_rnode p x s) = tasks s"
  "g_current (set_rnode p x s) = g_current s"
  by (simp_all add: set_vnode_def set_file_def set_rnode_def)

lemma set_object_abs [simp]:
  "fs_abs (set_vnode p v s) ks = fs_abs s ks" "heap_of (set_vnode p v s) = heap_of s"
  "fs_abs (set_file p f s) ks = fs_abs s ks" "heap_of (set_file p f s) = heap_of s"
  "heap_of (set_rnode p x s) = heap_of s"
  by ((rule fs_abs_same; simp) | simp add: set_vnode_def set_file_def set_rnode_def heap_of_def)+

lemma map_le_new: "A q0 = None \<Longrightarrow> (\<And>q. q \<noteq> q0 \<Longrightarrow> A' q = A q) \<Longrightarrow> A \<subseteq>\<^sub>m A'"
  unfolding map_le_def by (metis domIff)

text \<open>What two states share when only the heap changed between them.\<close>

definition same_objects :: "'a fs_state_scheme \<Rightarrow> 'a fs_state_scheme \<Rightarrow> bool" where
  "same_objects s s' \<longleftrightarrow> rnodes s' = rnodes s \<and> vnodes s' = vnodes s \<and> files s' = files s \<and> g_root s' = g_root s \<and>
     tasks s' = tasks s \<and> g_current s' = g_current s"

lemma more_objects:
  fixes s s' :: "'a fs_state_scheme"
  shows "heap_state.more s' = heap_state.more s \<Longrightarrow> same_objects s s'"
  by (cases s; cases s'; simp add: same_objects_def)

lemma block_content:
  assumes "fs_inv s A rr ks" "k \<in> set ks" "rnodes s k = Some x" "r_size x \<noteq> 0"
  shows "block_at A (r_data x) (unat (r_size x))" "r_data x \<in> buffers (rnodes s) ks" "r_data x \<noteq> 0"
  using tree_okD(3) [OF fs_invD(2) [OF assms(1)] assms(2)] assms(2-4)
  by (auto simp: buffer_ok_def buffers_def block_at_def split: if_splits)

lemma buffer_ok_mono: "buffer_ok A x \<Longrightarrow> (\<And>p. r_data x = p \<Longrightarrow> p \<noteq> 0 \<Longrightarrow> A' (p - 8) = A (p - 8)) \<Longrightarrow> buffer_ok A' x"
  by (auto simp: buffer_ok_def block_at_def split: if_splits)

text \<open>An allocation keeps everything and gives a block nobody owns.\<close>

lemma fs_inv_malloc:
  assumes inv: "fs_inv s A rr ks" and r: "heap_serves (heap_of s) (n # ns)" and n: "unat n \<le> 0xFFFFFFF0"
  obtains p s' A' where "kmalloc s n = Some (p, s')" "fs_inv s' A' rr ks" "heap_serves (heap_of s') ns"
    "same_objects s s'" "same_bytes A (memory s) (memory s')" "fs_abs s' ks = fs_abs s ks"
    "block_at A' p (unat n)" "p \<notin> owned s' ks" "A (p - 8) = None" "\<And>q. q \<noteq> p - 8 \<Longrightarrow> A' q = A q"
proof -
  note I = fs_invD [OF inv]
  obtain p s' A' where k: "kmalloc s n = Some (p, s')" "heap_view s' A'" "heap_serves (heap_of s') ns"
    "same_bytes A (memory s) (memory s')" "heap_state.more s' = heap_state.more s"
    "block_at A' p (unat n)" "A (p - 8) = None" "\<And>q. q \<noteq> p - 8 \<Longrightarrow> A' q = A q"
    by (rule served [OF I(1) r n]) (rule that, assumption+)
  have o: "rnodes s' = rnodes s" "vnodes s' = vnodes s" "files s' = files s" "g_root s' = g_root s"
    using more_objects [OF k(5)] by (simp_all add: same_objects_def)
  have p: "p \<notin> owned s ks"
    using I(4) k(7) by (fastforce simp: block_at_def)
  have mono: "block_at A q m \<Longrightarrow> block_at A' q m" for q m
    using k(7,8) by (auto simp: block_at_def) (metis option.distinct(1))
  have "buffer_ok A' x" if "buffer_ok A x" for x
    using that mono by (auto simp: buffer_ok_def split: if_splits)
  then have "tree_ok s' A' rr ks"
    using I(2) unfolding tree_ok_def o by blast
  then have inv': "fs_inv s' A' rr ks"
    using inv k(2) mono unfolding fs_inv_def owned_def o by blast
  have "content s' q = content s q" if "q \<in> set ks" for q
  proof (rule content_cong)
    show "memory s' y = memory s y" if "rnodes s q = Some x" "y \<in> range_at (r_data x) (unat (r_size x))" for x y
      using same_bytes_block [OF I(1) block_content(1) [OF inv \<open>q \<in> set ks\<close> that(1)] k(4) that(2)] that(2)
      by (cases "r_size x = 0") simp_all
  qed (simp add: o)
  then have "fs_abs s' ks = fs_abs s ks"
    by (intro fs_abs_cong) (simp add: name_of_def o)
  then show ?thesis
    using k inv' p more_objects [OF k(5)] by (intro that [of p s' A']) (simp_all add: owned_def o)
qed

text \<open>New objects at a block nobody owns.\<close>

lemma fs_inv_vnode:
  assumes inv: "fs_inv s A rr ks" and p: "block_at A p 0" "p \<notin> owned s ks"
    and v: "v_fs_data v \<in> set (rr # ks)" "v_type v = (if v_fs_data v = rr then VFS_TYPE_DIR else VFS_TYPE_FILE)"
  shows "fs_inv (set_vnode p (Some v) s) A rr ks"
proof -
  note I = fs_invD [OF inv]
  let ?s = "set_vnode p (Some v) s"
  have s: "rnodes ?s = rnodes s" "files ?s = files s" "g_root ?s = g_root s" "vnodes ?s = (vnodes s)(p \<mapsto> v)"
    "memory ?s = memory s"
    by simp_all
  have n: "p \<notin> dom (vnodes s)" "p \<notin> dom (files s)" "p \<notin> dom (rnodes s)" "p \<notin> buffers (rnodes s) ks"
    using p(2) by (auto simp: owned_def)
  have hv: "heap_view ?s A"
    using I(1) by (simp add: heap_view_def heap_inv_def set_vnode_def)
  have t: "tree_ok ?s A rr ks"
    using I(2) unfolding tree_ok_def s .
  have root: "\<exists>w. vnodes ?s (g_root ?s) = Some w \<and> v_fs_data w = rr"
    using I(3) n(1) by (auto simp: s)
  show ?thesis
    unfolding fs_inv_def s(1-3)
    using hv t root I(4-9) n p(1) v by (auto simp: s owned_def split: if_splits)
qed

lemma fs_inv_file:
  assumes inv: "fs_inv s A rr ks" and p: "block_at A p 0" "p \<notin> owned s ks" and f: "f_node f \<in> dom (vnodes s)"
  shows "fs_inv (set_file p (Some f) s) A rr ks"
proof -
  note I = fs_invD [OF inv]
  let ?s = "set_file p (Some f) s"
  have s: "rnodes ?s = rnodes s" "vnodes ?s = vnodes s" "g_root ?s = g_root s" "files ?s = (files s)(p \<mapsto> f)"
    by simp_all
  have n: "p \<notin> dom (vnodes s)" "p \<notin> dom (files s)" "p \<notin> dom (rnodes s)" "p \<notin> buffers (rnodes s) ks"
    using p(2) by (auto simp: owned_def)
  have hv: "heap_view ?s A"
    using I(1) by (simp add: heap_view_def heap_inv_def set_file_def)
  have t: "tree_ok ?s A rr ks"
    using I(2) unfolding tree_ok_def s .
  show ?thesis
    unfolding fs_inv_def s(1-3)
    using hv t I(3-9) n p(1) f by (auto simp: s owned_def split: if_splits)
qed

text \<open>The list of children grows at its head.\<close>

lemma fs_inv_child:
  assumes inv: "fs_inv s A rr ks" and p: "block_at A p 0" "p \<notin> owned s ks" and d: "rnodes s rr = Some d"
    and x: "x = \<lparr>r_name = copy_name name, r_type = VFS_TYPE_FILE, r_size = 0, r_data = 0, r_parent = rr, r_children = 0,
        r_next = r_children d\<rparr>" and name: "name_chars name"
  defines "s' \<equiv> set_rnode rr (Some (d\<lparr>r_children := p\<rparr>)) (set_rnode p (Some x) s)"
  shows "fs_inv s' A rr (p # ks)" "fs_abs s' (p # ks) = (name, []) # fs_abs s ks"
proof -
  note I = fs_invD [OF inv] note T = tree_okD [OF I(2)]
  have s: "vnodes s' = vnodes s" "files s' = files s" "g_root s' = g_root s" "memory s' = memory s"
    "rnodes s' = (rnodes s)(p \<mapsto> x, rr \<mapsto> d\<lparr>r_children := p\<rparr>)"
    by (simp_all add: s'_def)
  have n: "p \<notin> dom (vnodes s)" "p \<notin> dom (files s)" "p \<notin> dom (rnodes s)" "p \<notin> buffers (rnodes s) ks" "p \<noteq> 0"
    using p by (auto simp: owned_def block_at_def)
  have kr: "k \<in> dom (rnodes s)" "k \<noteq> rr" if "k \<in> set ks" for k
    using T(2,3) that by auto
  have pr: "p \<noteq> rr" "p \<notin> set ks"
    using n(3) d kr by auto
  have same: "rnodes s' k = rnodes s k" if "k \<in> set ks" for k
    using that kr pr by (auto simp: s(5))
  have new: "rnodes s' p = Some x" "rnodes s' rr = Some (d\<lparr>r_children := p\<rparr>)"
    using pr by (simp_all add: s(5))
  have cn: "copy_name name = name"
    using name by (simp add: copy_name_def name_chars_def)
  have hv: "heap_view s' A"
    using I(1) by (simp add: heap_view_def heap_inv_def s'_def set_rnode_def)
  have "kids (rnodes s') (r_children d) ks"
    using T(1) d kids_cong [of ks "rnodes s'" "rnodes s"] same by simp
  then have "kids (rnodes s') p (p # ks)"
    using n(5) new(1) by (simp add: x)
  moreover have "inj_on (\<lambda>k. map_option r_data (rnodes s' k)) {k \<in> set (p # ks). map_option r_data (rnodes s' k) \<noteq> Some 0}"
  proof -
    have e: "{k \<in> set (p # ks). map_option r_data (rnodes s' k) \<noteq> Some 0} = {k \<in> set ks. map_option r_data (rnodes s k) \<noteq> Some 0}"
      using new(1) same by (auto simp: x)
    show ?thesis
      unfolding e using T(4) same by (simp add: inj_on_def)
  qed
  moreover have "\<exists>y. rnodes s' k = Some y \<and> r_type y = VFS_TYPE_FILE \<and> name_chars (r_name y) \<and> buffer_ok A y" if "k \<in> set (p # ks)" for k
    using that T(3) same new(1) name by (cases "k = p") (auto simp: x cn buffer_ok_def)
  ultimately have t: "tree_ok s' A rr (p # ks)"
    unfolding tree_ok_def using T(2) pr new(2) by auto
  have b: "buffers (rnodes s') (p # ks) = buffers (rnodes s) ks"
    using same new(1) by (force simp: buffers_def x)
  have dom: "dom (rnodes s') = insert p (dom (rnodes s))"
    using d by (auto simp: s(5))
  have own: "owned s' (p # ks) = insert p (owned s ks)"
    by (auto simp: owned_def s(1,2) dom b)
  show "fs_inv s' A rr (p # ks)"
    unfolding fs_inv_def s(1-3) dom b own
  proof (intro conjI)
    show "dom (vnodes s) \<inter> dom (files s) = {}" "\<forall>p f. files s p = Some f \<longrightarrow> f_node f \<in> dom (vnodes s)"
      "\<exists>v. vnodes s (g_root s) = Some v \<and> v_fs_data v = rr"
      using I(3,5,9) by blast+
    show "\<forall>q v. vnodes s q = Some v \<longrightarrow> v_fs_data v \<in> set (rr # p # ks) \<and>
        v_type v = (if v_fs_data v = rr then VFS_TYPE_DIR else VFS_TYPE_FILE)"
      using I(8) by auto
  qed (use hv t I(4,6,7) n p(1) in auto)
  have "fs_abs s' ks = fs_abs s ks"
    by (intro fs_abs_same) (simp_all add: same s(4))
  then show "fs_abs s' (p # ks) = (name, []) # fs_abs s ks"
    using new(1) by (simp add: fs_abs_def name_of_def content_def x cn)
qed

section \<open>Lookup and creation\<close>

definition find_file :: "'a fs_state_scheme \<Rightarrow> u32 list \<Rightarrow> u8 list \<Rightarrow> u32 option" where
  "find_file s ks name = find (\<lambda>k. name_of s k = name) ks"

lemma find_child_file:
  assumes inv: "fs_inv s A rr ks" and d: "rnodes s rr = Some d" and name: "name_chars name"
  shows "find_child (rnodes s) (r_children d) name = Some (case find_file s ks name of None \<Rightarrow> 0 | Some k \<Rightarrow> k)"
proof -
  note T = tree_okD [OF fs_invD(2) [OF inv]]
  have "map_option r_name (rnodes s k) = Some name \<longleftrightarrow> name_of s k = name" if "k \<in> set ks" for k
    using T(3) [OF that] by (auto simp: name_of_def)
  then have "find (\<lambda>k. map_option r_name (rnodes s k) = Some name) ks = find_file s ks name"
    unfolding find_file_def by (intro find_cong) simp_all
  moreover have "find_child (rnodes s) (r_children d) name =
     Some (case find (\<lambda>k. map_option r_name (rnodes s k) = Some name) ks of None \<Rightarrow> 0 | Some k \<Rightarrow> k)"
  proof (rule find_child_kids [OF _ _ name])
    show "name_chars (r_name x)" if "k \<in> set ks" "rnodes s k = Some x" for k x
      using T(3) [OF that(1)] that(2) by simp
  qed (use T(1) d in simp)
  ultimately show ?thesis by simp
qed

lemma find_file_Some: "find_file s ks name = Some k \<Longrightarrow> k \<in> set ks \<and> name_of s k = name"
  by (auto simp: find_file_def find_Some_iff)

lemma root_node:
  assumes "fs_inv s A rr ks"
  obtains v d where "vnodes s (g_root s) = Some v" "v_fs_data v = rr" "v_type v = VFS_TYPE_DIR" "rnodes s rr = Some d"
    "kids (rnodes s) (r_children d) ks" "g_root s \<noteq> 0"
proof -
  note I = fs_invD [OF assms]
  obtain v where v: "vnodes s (g_root s) = Some v" "v_fs_data v = rr" using I(3) by blast
  moreover have "v_type v = VFS_TYPE_DIR"
    using I(8) [OF v(1)] v(2) by simp
  moreover have "g_root s \<noteq> 0"
    using I(4) [of "g_root s"] v(1) by (auto simp: owned_def block_at_def)
  moreover obtain d where "rnodes s rr = Some d" "kids (rnodes s) (r_children d) ks"
    using tree_okD(1) [OF I(2)] by blast
  ultimately show ?thesis using that by blast
qed

lemma ramfs_lookup_missing:
  assumes inv: "fs_inv s A rr ks" and name: "name_chars name" "find_file s ks name = None"
  shows "ramfs_lookup s (g_root s) name = Some (0, s)"
proof -
  obtain v d where "vnodes s (g_root s) = Some v" "v_fs_data v = rr" "v_type v = VFS_TYPE_DIR" "rnodes s rr = Some d"
    using root_node [OF inv] by blast
  then show ?thesis
    using find_child_file [OF inv _ name(1), of d] name(2) by (simp add: ramfs_lookup_def)
qed

text \<open>Looking up a file makes a new node for it.\<close>

lemma ramfs_lookup_found:
  assumes inv: "fs_inv s A rr ks" and name: "name_chars name" "find_file s ks name = Some k"
    and r: "heap_serves (heap_of s) (sizeof_vfs_node # ns)"
  obtains p s' A' where "ramfs_lookup s (g_root s) name = Some (p, s')" "fs_inv s' A' rr ks" "p \<noteq> 0"
    "heap_serves (heap_of s') ns" "fs_abs s' ks = fs_abs s ks" "map_option v_fs_data (vnodes s' p) = Some k"
    "files s' = files s" "vnodes s \<subseteq>\<^sub>m vnodes s'" "rnodes s' = rnodes s" "tasks s' = tasks s" "g_current s' = g_current s"
    "same_bytes A (memory s) (memory s')" "A \<subseteq>\<^sub>m A'"
    "\<And>q. q \<in> owned s' ks \<Longrightarrow> q \<in> owned s ks \<or> A (q - 8) = None"
proof -
  obtain v d where v: "vnodes s (g_root s) = Some v" "v_fs_data v = rr" "v_type v = VFS_TYPE_DIR" "rnodes s rr = Some d"
    using root_node [OF inv] by blast
  note k = find_file_Some [OF name(2)]
  note T = tree_okD [OF fs_invD(2) [OF inv]]
  obtain x where x: "rnodes s k = Some x" "r_type x = VFS_TYPE_FILE" "k \<noteq> 0" "k \<noteq> rr"
    using T(2) T(3) [of k] k fs_invD(4) [OF inv, of k] by (auto simp: owned_def block_at_def)
  obtain p s1 A1 where p: "kmalloc s sizeof_vfs_node = Some (p, s1)" "fs_inv s1 A1 rr ks" "heap_serves (heap_of s1) ns"
    "same_objects s s1" "same_bytes A (memory s) (memory s1)" "fs_abs s1 ks = fs_abs s ks"
    "block_at A1 p (unat sizeof_vfs_node)" "p \<notin> owned s1 ks" "A (p - 8) = None" "\<And>q. q \<noteq> p - 8 \<Longrightarrow> A1 q = A q"
    by (rule fs_inv_malloc [OF inv r]) (simp add: sizeof_vfs_node_def, rule that, assumption+)
  have o: "rnodes s1 = rnodes s" "vnodes s1 = vnodes s" "files s1 = files s" "tasks s1 = tasks s" "g_current s1 = g_current s"
    using p(4) by (simp_all add: same_objects_def)
  have p0: "p \<noteq> 0" "block_at A1 p 0" "p \<notin> dom (vnodes s)"
    using p(7,8) o by (auto simp: block_at_def owned_def)
  let ?v = "\<lparr>v_name = copy_name (r_name x), v_type = r_type x, v_size = r_size x, v_fs_data = k\<rparr>"
  let ?s = "set_vnode p (Some ?v) s1"
  have "fs_inv ?s A1 rr ks"
    by (rule fs_inv_vnode [OF p(2) p0(2) p(8)]) (use k x in simp_all)
  moreover have "ramfs_lookup s (g_root s) name = Some (p, ?s)"
    using v x(1,3) find_child_file [OF inv v(4) name(1)] name(2) p(1) p0(1) by (simp add: ramfs_lookup_def o)
  moreover have "heap_of ?s = heap_of s1" "fs_abs ?s ks = fs_abs s1 ks"
    by simp_all
  moreover have "A \<subseteq>\<^sub>m A1"
    by (rule map_le_new [of A "p - 8" A1, OF p(9)]) (rule p(10))
  moreover have "vnodes s \<subseteq>\<^sub>m vnodes ?s"
    using p0(3) by (auto simp: map_le_def o)
  moreover have "owned ?s ks = insert p (owned s ks)"
    by (auto simp: owned_def o)
  ultimately show ?thesis
    using p(3,5,6,9) p0(1) o by (intro that [of p ?s A1]) auto
qed

lemma ramfs_create_ok:
  assumes inv: "fs_inv s A rr ks" and name: "name_chars name"
    and r: "heap_serves (heap_of s) (sizeof_ramfs_node # sizeof_vfs_node # ns)"
  obtains p k s' A' where "ramfs_create s (g_root s) name VFS_TYPE_FILE = Some (p, s')" "fs_inv s' A' rr (k # ks)" "p \<noteq> 0"
    "heap_serves (heap_of s') ns" "fs_abs s' (k # ks) = (name, []) # fs_abs s ks" "map_option v_fs_data (vnodes s' p) = Some k"
    "files s' = files s" "vnodes s \<subseteq>\<^sub>m vnodes s'" "\<And>q. q \<in> set ks \<Longrightarrow> rnodes s' q = rnodes s q" "tasks s' = tasks s"
    "g_current s' = g_current s" "same_bytes A (memory s) (memory s')" "A \<subseteq>\<^sub>m A'"
    "\<And>q. q \<in> owned s' (k # ks) \<Longrightarrow> q \<in> owned s ks \<or> A (q - 8) = None"
proof -
  obtain v d where v: "vnodes s (g_root s) = Some v" "v_fs_data v = rr" "v_type v = VFS_TYPE_DIR" "rnodes s rr = Some d"
    using root_node [OF inv] by blast
  note T = tree_okD [OF fs_invD(2) [OF inv]]
  obtain k s1 A1 where k: "kmalloc s sizeof_ramfs_node = Some (k, s1)" "fs_inv s1 A1 rr ks"
    "heap_serves (heap_of s1) (sizeof_vfs_node # ns)"
    "same_objects s s1" "same_bytes A (memory s) (memory s1)" "fs_abs s1 ks = fs_abs s ks"
    "block_at A1 k (unat sizeof_ramfs_node)" "k \<notin> owned s1 ks" "A (k - 8) = None" "\<And>q. q \<noteq> k - 8 \<Longrightarrow> A1 q = A q"
    by (rule fs_inv_malloc [OF inv r]) (simp add: sizeof_ramfs_node_def, rule that, assumption+)
  have o: "rnodes s1 = rnodes s" "vnodes s1 = vnodes s" "files s1 = files s" "tasks s1 = tasks s" "g_current s1 = g_current s"
    "g_root s1 = g_root s"
    using k(4) by (simp_all add: same_objects_def)
  have k0: "k \<noteq> 0" "block_at A1 k 0" "k \<notin> dom (rnodes s)" "k \<noteq> rr"
    using k(7,8) o v(4) by (auto simp: block_at_def owned_def)
  let ?x = "\<lparr>r_name = copy_name name, r_type = VFS_TYPE_FILE, r_size = 0, r_data = 0, r_parent = rr, r_children = 0,
        r_next = r_children d\<rparr>"
  let ?s = "set_rnode rr (Some (d\<lparr>r_children := k\<rparr>)) (set_rnode k (Some ?x) s1)"
  have d1: "rnodes s1 rr = Some d"
    using v(4) o by simp
  note C = fs_inv_child [OF k(2) k0(2) k(8) d1 refl name]
  have h: "heap_of ?s = heap_of s1" "vnodes ?s = vnodes s" "files ?s = files s" "tasks ?s = tasks s" "g_current ?s = g_current s"
    "memory ?s = memory s1" "g_root ?s = g_root s" "rnodes ?s = (rnodes s)(k \<mapsto> ?x, rr \<mapsto> d\<lparr>r_children := k\<rparr>)"
    by (simp_all add: o)
  have r2: "heap_serves (heap_of ?s) (sizeof_vfs_node # ns)"
    using k(3) h(1) by simp
  obtain p s2 A2 where p: "kmalloc ?s sizeof_vfs_node = Some (p, s2)" "fs_inv s2 A2 rr (k # ks)" "heap_serves (heap_of s2) ns"
    "same_objects ?s s2" "same_bytes A1 (memory ?s) (memory s2)" "fs_abs s2 (k # ks) = fs_abs ?s (k # ks)"
    "block_at A2 p (unat sizeof_vfs_node)" "p \<notin> owned s2 (k # ks)" "A1 (p - 8) = None" "\<And>q. q \<noteq> p - 8 \<Longrightarrow> A2 q = A1 q"
    by (rule fs_inv_malloc [OF C(1) r2]) (simp add: sizeof_vfs_node_def, rule that, assumption+)
  have o2: "rnodes s2 = rnodes ?s" "vnodes s2 = vnodes s" "files s2 = files s" "tasks s2 = tasks s" "g_current s2 = g_current s"
    using p(4) h by (simp_all add: same_objects_def)
  have p0: "p \<noteq> 0" "block_at A2 p 0" "p \<notin> dom (vnodes s)"
    using p(7,8) o2 by (auto simp: block_at_def owned_def)
  let ?v = "\<lparr>v_name = copy_name name, v_type = VFS_TYPE_FILE, v_size = 0, v_fs_data = k\<rparr>"
  let ?t = "set_vnode p (Some ?v) s2"
  have "fs_inv ?t A2 rr (k # ks)"
    by (rule fs_inv_vnode [OF p(2) p0(2) p(8)]) (use k0(4) in simp_all)
  moreover have "ramfs_create s (g_root s) name VFS_TYPE_FILE = Some (p, ?t)"
    using v k(1) k0(1) d1 p(1) p0(1) by (simp add: ramfs_create_def Let_def)
  moreover have "heap_of ?t = heap_of s2" "fs_abs ?t (k # ks) = fs_abs s2 (k # ks)"
    by simp_all
  moreover have le: "A \<subseteq>\<^sub>m A1" "A1 \<subseteq>\<^sub>m A2"
    using map_le_new [of A "k - 8" A1, OF k(9)] k(10) map_le_new [of A1 "p - 8" A2, OF p(9)] p(10) by blast+
  moreover have "same_bytes A (memory s) (memory s2)"
    using k(5) p(5) le(1) unfolding same_bytes_def map_le_def h(6) by (metis domI)
  moreover have "vnodes s \<subseteq>\<^sub>m vnodes ?t"
    using p0(3) by (auto simp: map_le_def o2)
  moreover have "rnodes ?t q = rnodes s q" if "q \<in> set ks" for q
    using that T(2,3) k0(3) by (auto simp: o o2 h(8))
  moreover have "q \<in> owned s ks \<or> A (q - 8) = None" if "q \<in> owned ?t (k # ks)" for q
  proof -
    have "buffers (rnodes ?s) (k # ks) \<subseteq> buffers (rnodes s) ks"
      using T(2) k0(3,4) by (auto simp: buffers_def h(8) o split: if_splits)
    then have "q \<in> insert p (insert k (owned s ks))"
      using that v(4) by (auto simp: owned_def o o2 h(8) split: if_splits)
    moreover have "A (p - 8) = None"
      using p(9) le(1) by (metis domI domIff map_le_def option.exhaust)
    ultimately show ?thesis
      using k(9) by auto
  qed
  ultimately show ?thesis
    using p(3,6) p0(1) o2 C(2) k(6) map_le_trans [OF le]
    by (intro that [of p ?t A2 k]) simp_all
qed

section \<open>Reading and writing the contents\<close>

text \<open>A block nobody owns may be written at will.\<close>

lemma fs_inv_write:
  assumes inv: "fs_inv s A rr ks" and p: "block_at A p n" "p \<notin> owned s ks"
    and m: "\<And>x. x \<notin> range_at p n \<Longrightarrow> m' x = memory s x"
  shows "fs_inv (s\<lparr>memory := m'\<rparr>) A rr ks" "fs_abs (s\<lparr>memory := m'\<rparr>) ks = fs_abs s ks"
proof -
  note W = write_block [OF fs_invD(1) [OF inv] p(1)]
  show "fs_inv (s\<lparr>memory := m'\<rparr>) A rr ks"
    using inv W(1) [of m'] m by (simp add: fs_inv_def tree_ok_def owned_def)
  have "content (s\<lparr>memory := m'\<rparr>) k = content s k" if "k \<in> set ks" for k
  proof (rule content_cong)
    show "memory (s\<lparr>memory := m'\<rparr>) y = memory s y" if "rnodes s k = Some x" "y \<in> range_at (r_data x) (unat (r_size x))" for x y
    proof (cases "r_size x = 0")
      case False
      note b = block_content [OF inv \<open>k \<in> set ks\<close> that(1) False]
      have ne: "r_data x \<noteq> p"
        using b(2) p(2) by (auto simp: owned_def)
      have "m' y = memory s y"
        by (rule W(2) [where m' = m']) (erule m, rule b(1), rule ne, rule that(2))
      then show ?thesis by simp
    qed (use that(2) in simp)
  qed simp
  then show "fs_abs (s\<lparr>memory := m'\<rparr>) ks = fs_abs s ks"
    by (intro fs_abs_cong) (simp add: name_of_def)
qed

text \<open>A write into the buffer of one file changes no other.\<close>

lemma fs_inv_buffer:
  assumes inv: "fs_inv s A rr ks" and k: "k \<in> set ks" "rnodes s k = Some x" "r_size x \<noteq> 0"
    and m: "\<And>y. y \<notin> range_at (r_data x) (unat (r_size x)) \<Longrightarrow> m' y = memory s y"
  shows "fs_inv (s\<lparr>memory := m'\<rparr>) A rr ks" "j \<in> set ks \<Longrightarrow> j \<noteq> k \<Longrightarrow> content (s\<lparr>memory := m'\<rparr>) j = content s j"
proof -
  note b = block_content [OF inv k]
  note W = write_block [OF fs_invD(1) [OF inv] b(1)]
  show "fs_inv (s\<lparr>memory := m'\<rparr>) A rr ks"
    using inv W(1) [of m'] m by (simp add: fs_inv_def tree_ok_def owned_def)
  show "content (s\<lparr>memory := m'\<rparr>) j = content s j" if j: "j \<in> set ks" "j \<noteq> k"
  proof (rule content_cong)
    show "memory (s\<lparr>memory := m'\<rparr>) y = memory s y" if y: "rnodes s j = Some z" "y \<in> range_at (r_data z) (unat (r_size z))" for z y
    proof (cases "r_size z = 0")
      case False
      note c = block_content [OF inv j(1) y(1) False]
      have ne: "r_data z \<noteq> r_data x"
        using inj_onD [OF tree_okD(4) [OF fs_invD(2) [OF inv]], of j k] j k y(1) b(3) c(3) by auto
      have "m' y = memory s y"
        by (rule W(2) [where m' = m']) (erule m, rule c(1), rule ne, rule y(2))
      then show ?thesis by simp
    qed (use y(2) in simp)
  qed simp
qed

text \<open>An empty file gets its buffer.\<close>

lemma fs_inv_first_buffer:
  assumes inv: "fs_inv s A rr ks" and k: "k \<in> set ks" "rnodes s k = Some x" "r_data x = 0"
    and p: "block_at A p (unat n)" "p \<notin> owned s ks" "n \<noteq> 0"
  defines "s' \<equiv> set_rnode k (Some (x\<lparr>r_data := p, r_size := n\<rparr>)) s"
  shows "fs_inv s' A rr ks" "j \<noteq> k \<Longrightarrow> content s' j = content s j" "content s' k = load_bytes (memory s) p (unat n)"
    "name_of s' j = name_of s j" "owned s' ks = insert p (owned s ks)"
proof -
  note I = fs_invD [OF inv] note T = tree_okD [OF I(2)]
  let ?x = "x\<lparr>r_data := p, r_size := n\<rparr>"
  have s: "rnodes s' = (rnodes s)(k \<mapsto> ?x)" "vnodes s' = vnodes s" "files s' = files s" "g_root s' = g_root s" "memory s' = memory s"
    by (simp_all add: s'_def)
  show "content s' j = content s j" if "j \<noteq> k"
    using that by (simp add: content_def s split: option.split)
  show "content s' k = load_bytes (memory s) p (unat n)" "name_of s' j = name_of s j"
    using k(2) by (simp_all add: content_def name_of_def s)
  have n0: "p \<notin> dom (vnodes s)" "p \<notin> dom (files s)" "p \<notin> dom (rnodes s)" "p \<notin> buffers (rnodes s) ks" "p \<noteq> 0"
    using p by (auto simp: owned_def block_at_def)
  have b: "buffers (rnodes s') ks = insert p (buffers (rnodes s) ks)"
  proof
    show "buffers (rnodes s') ks \<subseteq> insert p (buffers (rnodes s) ks)"
      by (auto simp: buffers_def s split: if_splits)
    have "q \<in> buffers (rnodes s') ks" if q: "q \<in> buffers (rnodes s) ks" for q
    proof -
      obtain j z where "j \<in> set ks" "rnodes s j = Some z" "q = r_data z" "r_data z \<noteq> 0"
        using q unfolding buffers_def by blast
      moreover have "j \<noteq> k"
        using calculation k(2,3) by auto
      ultimately show ?thesis
        unfolding buffers_def s by force
    qed
    moreover have "p \<in> buffers (rnodes s') ks"
      using k(1) n0(5) unfolding buffers_def s by force
    ultimately show "insert p (buffers (rnodes s) ks) \<subseteq> buffers (rnodes s') ks"
      by blast
  qed
  have dom: "dom (rnodes s') = dom (rnodes s)"
    using k(2) by (auto simp: s)
  show own: "owned s' ks = insert p (owned s ks)"
    by (auto simp: owned_def b dom s(2,3))
  have kr: "k \<noteq> rr"
    using T(2) k(1) by auto
  have "tree_ok s' A rr ks"
    unfolding tree_ok_def
  proof (intro conjI)
    obtain d where d: "rnodes s rr = Some d" "kids (rnodes s) (r_children d) ks"
      using T(1) by blast
    have "kids (rnodes s') (r_children d) ks"
      using d(2) k(2) kids_cong [of ks "rnodes s'" "rnodes s"] by (simp add: s)
    then show "\<exists>d. rnodes s' rr = Some d \<and> kids (rnodes s') (r_children d) ks"
      using d(1) kr by (auto simp: s)
    show "\<forall>j\<in>set ks. \<exists>z. rnodes s' j = Some z \<and> r_type z = VFS_TYPE_FILE \<and> name_chars (r_name z) \<and> buffer_ok A z"
    proof
      fix j assume j: "j \<in> set ks"
      then obtain z where z: "rnodes s j = Some z" "r_type z = VFS_TYPE_FILE" "name_chars (r_name z)" "buffer_ok A z"
        using T(3) by blast
      then show "\<exists>z. rnodes s' j = Some z \<and> r_type z = VFS_TYPE_FILE \<and> name_chars (r_name z) \<and> buffer_ok A z"
        using k(2) n0(5) p by (cases "j = k") (auto simp: s buffer_ok_def)
    qed
    show "inj_on (\<lambda>k. map_option r_data (rnodes s' k)) {k \<in> set ks. map_option r_data (rnodes s' k) \<noteq> Some 0}"
    proof (rule inj_onI)
      fix i j assume ij: "i \<in> {k \<in> set ks. map_option r_data (rnodes s' k) \<noteq> Some 0}"
        "j \<in> {k \<in> set ks. map_option r_data (rnodes s' k) \<noteq> Some 0}"
        "map_option r_data (rnodes s' i) = map_option r_data (rnodes s' j)"
      have new: "map_option r_data (rnodes s l) \<noteq> Some p" if "l \<in> set ks" for l
        using n0(4,5) that by (auto simp: buffers_def)
      have data: "map_option r_data (rnodes s' l) = (if l = k then Some p else map_option r_data (rnodes s l))" for l
        by (simp add: s)
      show "i = j"
      proof (cases "i = k \<or> j = k")
        case True
        then show ?thesis
          using ij new unfolding data mem_Collect_eq by metis
      next
        case False
        then show ?thesis
          using ij inj_onD [OF T(4), of i j] by (auto simp: s)
      qed
    qed
  qed (use T(2) in simp)
  moreover have "heap_view s' A"
    using I(1) by (simp add: heap_view_def heap_inv_def s'_def set_rnode_def)
  moreover have "block_at A p 0"
    using p(1) by (auto simp: block_at_def)
  ultimately show "fs_inv s' A rr ks"
    unfolding fs_inv_def own b dom s(2-4) using I(3-9) n0 by auto
qed

text \<open>A node may change its recorded size.\<close>

lemma fs_inv_vnode_size:
  assumes inv: "fs_inv s A rr ks" and v: "vnodes s p = Some v"
  shows "fs_inv (set_vnode p (Some (v\<lparr>v_size := n\<rparr>)) s) A rr ks" "owned (set_vnode p (Some (v\<lparr>v_size := n\<rparr>)) s) ks = owned s ks"
proof -
  note I = fs_invD [OF inv]
  let ?s = "set_vnode p (Some (v\<lparr>v_size := n\<rparr>)) s"
  have dom: "dom (vnodes ?s) = dom (vnodes s)"
    using v by auto
  show own: "owned ?s ks = owned s ks"
    by (simp add: owned_def dom del: set_object_fields(2))
  have "heap_view ?s A" "tree_ok ?s A rr ks"
    using I(1,2) by (simp_all add: heap_view_def heap_inv_def set_vnode_def tree_ok_def)
  moreover have "\<exists>w. vnodes ?s (g_root ?s) = Some w \<and> v_fs_data w = rr"
    using I(3) v by auto
  moreover have "\<forall>q w. vnodes ?s q = Some w \<longrightarrow> v_fs_data w \<in> set (rr # ks) \<and>
        v_type w = (if v_fs_data w = rr then VFS_TYPE_DIR else VFS_TYPE_FILE)"
    using I(8) v by auto
  ultimately show "fs_inv ?s A rr ks"
    unfolding fs_inv_def own dom using I(4-7,9) by simp
qed

text \<open>Byte ranges of blocks.\<close>

lemma block_bounds:
  assumes "heap_view s A" "block_at A p n"
  shows "8 \<le> unat p" "unat p + n \<le> 0x800000"
proof -
  obtain j where j: "A (p - 8) = Some j" "n + 8 \<le> j"
    using assms(2) by (auto simp: block_at_def)
  have "unat p = unat (p - 8) + 8"
    using kheap.view_bounds [OF assms(1) j(1)] j(2) unat_add_no_wrap [of "p - 8" 8] by simp
  then show "8 \<le> unat p" "unat p + n \<le> 0x800000"
    using kheap.view_bounds [OF assms(1) j(1)] j(2) by simp_all
qed

lemma blocks_disjoint:
  assumes "heap_view s A" "block_at A p n" "block_at A q k" "p \<noteq> q"
  shows "range_at p n \<inter> range_at q k = {}"
proof -
  have False if x: "x \<in> range_at p n" "x \<in> range_at q k" for x
  proof -
    have "((memory s)(x := memory s x + 1)) x = memory s x"
      by (rule write_block(2) [OF assms(1,2), where q = q and k = k]) (use assms(3,4) x in auto)
    then show False by simp
  qed
  then show ?thesis by blast
qed

lemma load_bytes_sub: "i + n \<le> k \<Longrightarrow> load_bytes m (a + of_nat i) n = take n (drop i (load_bytes m a k))"
  by (rule nth_equalityI) (simp_all add: nth_load_bytes algebra_simps)

lemma range_at_sub: "i + n \<le> k \<Longrightarrow> range_at (a + of_nat i) n \<subseteq> range_at a k"
proof
  fix x assume i: "i + n \<le> k" and "x \<in> range_at (a + of_nat i) n"
  then obtain j where "j < n" "x = a + of_nat (i + j)"
    by (auto simp: range_at_def ac_simps)
  then show "x \<in> range_at a k"
    using i unfolding range_at_def by (intro image_eqI [of _ _ "i + j"]) auto
qed

text \<open>Writing \<open>bs\<close> at position \<open>off\<close> of a file, with zeros between its end and \<open>off\<close>.\<close>

definition write_at :: "u8 list \<Rightarrow> nat \<Rightarrow> u8 list \<Rightarrow> u8 list" where
  "write_at cs off bs =
     (let cs = cs @ replicate (off - length cs) 0 in take off cs @ bs @ drop (off + length bs) cs)"

lemma load_bytes_write:
  assumes "off + length bs \<le> n" "n \<le> 4294967296"
  shows "load_bytes (store_bytes m (a + of_nat off) bs) a n = write_at (load_bytes m a n) off bs"
proof (rule nth_equalityI)
  show "length (load_bytes (store_bytes m (a + of_nat off) bs) a n) = length (write_at (load_bytes m a n) off bs)"
    using assms by (simp add: write_at_def Let_def)
  fix i assume "i < length (load_bytes (store_bytes m (a + of_nat off) bs) a n)"
  then have i: "i < n" by simp
  show "load_bytes (store_bytes m (a + of_nat off) bs) a n ! i = write_at (load_bytes m a n) off bs ! i"
  proof (cases "off \<le> i \<and> i < off + length bs")
    case True
    then have "store_bytes m (a + of_nat off) bs (a + of_nat off + of_nat (i - off)) = bs ! (i - off)"
      using assms by (intro store_bytes_inside) auto
    moreover have "a + of_nat off + of_nat (i - off) = a + of_nat i"
      using True by (simp add: of_nat_diff)
    ultimately show ?thesis
      using True i assms less_diff_conv2 [of off i "length bs"]
      by (simp add: nth_load_bytes write_at_def Let_def nth_append)
  next
    case False
    have "a + of_nat i \<notin> range_at (a + of_nat off) (length bs)"
    proof
      assume "a + of_nat i \<in> range_at (a + of_nat off) (length bs)"
      then obtain j where j: "j < length bs" "(of_nat i :: u32) = of_nat (off + j)"
        by (auto simp: range_at_def ac_simps)
      have "unat (of_nat i :: u32) = i" "unat (of_nat (off + j) :: u32) = off + j"
        using i assms j(1) by (intro unat_of_nat_u32; linarith)+
      then have "i = off + j"
        using j(2) by metis
      then show False
        using False j(1) by simp
    qed
    then show ?thesis
      using False i assms by (auto simp: nth_load_bytes write_at_def Let_def nth_append store_bytes_outside)
  qed
qed

end
