(* ===== verification/VFS.thy ===== *)
theory VFS
  imports RamFS
begin

text \<open>
  The virtual file system layer: \<open>fs/vfs.c\<close>. Paths are the characters of the C string. \<open>int\<close>
  results are 32-bit words, \<open>0xFFFFFFFF\<close> for \<open>-1\<close>. Diagnostic output is left out.
\<close>

section \<open>Operations\<close>

definition vfs_init :: "'a fs_state_scheme \<Rightarrow> 'a fs_state_scheme" where
  "vfs_init s = s\<lparr>g_root := 0\<rparr>"

abbreviation SLASH :: u8 where "SLASH \<equiv> 0x2F"

definition vfs_mount :: "'a fs_state_scheme \<Rightarrow> u8 list \<Rightarrow> u32 \<Rightarrow> u32 \<times> 'a fs_state_scheme" where
  "vfs_mount s path root =
     (if char_at path \<noteq> SLASH \<or> char_at (tl path) \<noteq> 0 then (0xFFFFFFFF, s)
      else (0, s\<lparr>g_root := root\<rparr>))"

text \<open>The copying loop of \<open>path_next\<close>; the first argument is \<open>63 - i\<close>.\<close>

fun next_component :: "nat \<Rightarrow> u8 list \<Rightarrow> u8 list \<times> u8 list" where
  "next_component 0 p = ([], p)"
| "next_component (Suc n) p =
     (if char_at p \<noteq> SLASH \<and> char_at p \<noteq> 0
      then (let (name, rest) = next_component n (tl p) in (char_at p # name, rest))
      else ([], p))"

text \<open>The next name and the rest of the path, or \<^term>\<open>None\<close> for the result \<open>-1\<close>.\<close>

definition path_next :: "u8 list \<Rightarrow> (u8 list \<times> u8 list) option" where
  "path_next path =
     (let p = dropWhile (\<lambda>c. c = SLASH) path
      in if char_at p = 0 then None else Some (next_component NAME_LEN p))"

lemma next_component_length: "length (snd (next_component n p)) \<le> length p"
  by (induction n p rule: next_component.induct) (auto simp: split_beta)

lemma path_next_shorter:
  assumes "path_next path = Some (name, rest)"
  shows "length rest < length path"
proof -
  let ?p = "dropWhile (\<lambda>c. c = SLASH) path"
  have p: "char_at ?p \<noteq> 0" "next_component NAME_LEN ?p = (name, rest)"
    using assms by (auto simp: path_next_def Let_def split: if_splits)
  then obtain c cs where c: "?p = c # cs" "c \<noteq> SLASH"
    using hd_dropWhile [of "\<lambda>c. c = SLASH" path] by (cases ?p) auto
  obtain n where n: "NAME_LEN = Suc n"
    by simp
  have "length rest \<le> length cs"
    using p c next_component_length [of n cs] by (auto simp: n split_beta)
  moreover have "length ?p \<le> length path"
    by (rule length_dropWhile_le)
  ultimately show ?thesis
    using c by simp
qed

text \<open>The loop of \<open>vfs_lookup\<close>; NULL is 0.\<close>

function walk_path ::
    "'a fs_state_scheme \<Rightarrow> u32 \<Rightarrow> u8 list \<Rightarrow> (u32 \<times> 'a fs_state_scheme) option" where
  "walk_path s cur path =
     (case path_next path of
        None \<Rightarrow> Some (cur, s)
      | Some (name, rest) \<Rightarrow>
          do { v \<leftarrow> vnodes s cur;
               if v_type v \<noteq> VFS_TYPE_DIR then Some (0, s)
               else do { (cur, s) \<leftarrow> ramfs_lookup s cur name;
                         if cur = 0 then Some (0, s) else walk_path s cur rest } })"
  by pat_completeness auto
termination
  by (relation "measure (\<lambda>(s, cur, path). length path)") (auto simp: path_next_shorter)

declare walk_path.simps [simp del]

definition vfs_lookup :: "'a fs_state_scheme \<Rightarrow> u8 list \<Rightarrow> (u32 \<times> 'a fs_state_scheme) option" where
  "vfs_lookup s path = (if g_root s = 0 then Some (0, s) else walk_path s (g_root s) path)"

text \<open>The file descriptor table of the current task.\<close>

definition free_fd :: "u32 list \<Rightarrow> nat option" where
  "free_fd fds = find (\<lambda>i. fds ! i = 0) [0..<MAX_FD_PER_TASK]"

fun last_slash :: "u8 list \<Rightarrow> nat \<Rightarrow> nat option \<Rightarrow> nat option" where
  "last_slash [] i found = found"
| "last_slash (c # cs) i found = last_slash cs (Suc i) (if c = SLASH then Some i else found)"

definition open_file ::
    "'a fs_state_scheme \<Rightarrow> u32 \<Rightarrow> nat \<Rightarrow> u32 \<Rightarrow> u32 \<Rightarrow> (u32 \<times> 'a fs_state_scheme) option" where
  "open_file s t fd node flags =
     do { (file, s) \<leftarrow> kmalloc s sizeof_vfs_file;
          if file = 0 then Some (0xFFFFFFFF, s)
          else do {
            let s = set_file file (Some \<lparr>f_node = node, f_offset = 0, f_flags = flags\<rparr>) s;
            x \<leftarrow> tasks s t;
            Some (of_nat fd, set_task t (x\<lparr>t_fds := (t_fds x)[fd := file]\<rparr>) s) } }"

definition vfs_open ::
    "'a fs_state_scheme \<Rightarrow> u8 list \<Rightarrow> u32 \<Rightarrow> (u32 \<times> 'a fs_state_scheme) option" where
  "vfs_open s path flags =
     (let t = task_current s
      in if t = 0 then Some (0xFFFFFFFF, s)
         else do {
           x \<leftarrow> tasks s t;
           case free_fd (t_fds x) of
             None \<Rightarrow> Some (0xFFFFFFFF, s)
           | Some fd \<Rightarrow> do {
               (node, s) \<leftarrow> vfs_lookup s path;
               if node \<noteq> 0 then open_file s t fd node flags
               else case last_slash path 0 None of
                 None \<Rightarrow> Some (0xFFFFFFFF, s)
               | Some k \<Rightarrow>
                   let fname = drop (Suc k) path
                   in if char_at fname = 0 then Some (0xFFFFFFFF, s)
                      else if k \<noteq> 0 then Some (0xFFFFFFFF, s)
                      else do {
                        p \<leftarrow> vnodes s (g_root s);
                        if v_type p \<noteq> VFS_TYPE_DIR then Some (0xFFFFFFFF, s)
                        else do {
                          (node, s) \<leftarrow> ramfs_create s (g_root s) fname VFS_TYPE_FILE;
                          if node = 0 then Some (0xFFFFFFFF, s)
                          else open_file s t fd node flags } } } })"

text \<open>The open file at a descriptor: \<^term>\<open>Some 0\<close> when the check of \<open>vfs_read\<close>, \<open>vfs_write\<close> and
  \<open>vfs_close\<close> fails.\<close>

definition fd_file :: "'a fs_state_scheme \<Rightarrow> u32 \<Rightarrow> u32 option" where
  "fd_file s fd =
     (if task_current s = 0 then Some 0
      else do { x \<leftarrow> tasks s (task_current s);
                Some (if fd <s 0 \<or> of_nat MAX_FD_PER_TASK \<le>s fd then 0 else t_fds x ! unat fd) })"

definition advance :: "'a fs_state_scheme \<Rightarrow> u32 \<Rightarrow> u32 \<Rightarrow> (u32 \<times> 'a fs_state_scheme) option" where
  "advance s file n =
     (if 0 <s n
      then do { f \<leftarrow> files s file;
                Some (n, set_file file (Some (f\<lparr>f_offset := f_offset f + n\<rparr>)) s) }
      else Some (n, s))"

definition vfs_read ::
    "'a fs_state_scheme \<Rightarrow> u32 \<Rightarrow> u32 \<Rightarrow> u32 \<Rightarrow> (u32 \<times> 'a fs_state_scheme) option" where
  "vfs_read s fd buf sz =
     do { file \<leftarrow> fd_file s fd;
          if file = 0 then Some (0xFFFFFFFF, s)
          else do { f \<leftarrow> files s file;
                    (n, s) \<leftarrow> ramfs_read s (f_node f) (f_offset f) buf sz;
                    advance s file n } }"

definition vfs_write ::
    "'a fs_state_scheme \<Rightarrow> u32 \<Rightarrow> u32 \<Rightarrow> u32 \<Rightarrow> (u32 \<times> 'a fs_state_scheme) option" where
  "vfs_write s fd buf sz =
     do { file \<leftarrow> fd_file s fd;
          if file = 0 then Some (0xFFFFFFFF, s)
          else do { f \<leftarrow> files s file;
                    (n, s) \<leftarrow> ramfs_write s (f_node f) (f_offset f) buf sz;
                    advance s file n } }"

definition vfs_close :: "'a fs_state_scheme \<Rightarrow> u32 \<Rightarrow> (u32 \<times> 'a fs_state_scheme) option" where
  "vfs_close s fd =
     do { file \<leftarrow> fd_file s fd;
          if file = 0 then Some (0xFFFFFFFF, s)
          else do { s \<leftarrow> kfree (set_file file None s) file;
                    x \<leftarrow> tasks s (task_current s);
                    Some (0, set_task (task_current s) (x\<lparr>t_fds := (t_fds x)[unat fd := 0]\<rparr>) s) } }"

definition vfs_readdir ::
    "'a fs_state_scheme \<Rightarrow> u8 list \<Rightarrow> u32 \<Rightarrow> u32 \<Rightarrow> (u32 \<times> 'a fs_state_scheme) option" where
  "vfs_readdir s path index name_buf =
     do { (dir, s) \<leftarrow> vfs_lookup s path;
          if dir = 0 then Some (0xFFFFFFFF, s)
          else do { d \<leftarrow> vnodes s dir;
                    if v_type d \<noteq> VFS_TYPE_DIR then Some (0xFFFFFFFF, s)
                    else ramfs_readdir s dir index name_buf } }"

section \<open>Paths\<close>

definition name_ok :: "u8 list \<Rightarrow> bool" where
  "name_ok name \<longleftrightarrow> name \<noteq> [] \<and> name_chars name \<and> SLASH \<notin> set name"

lemma next_component_name:
  "length name \<le> n \<Longrightarrow> 0 \<notin> set name \<Longrightarrow> SLASH \<notin> set name \<Longrightarrow> next_component n name = (name, [])"
proof (induction name arbitrary: n)
  case Nil
  then show ?case by (cases n) simp_all
next
  case (Cons c cs)
  then obtain m where "n = Suc m" by (cases n) auto
  then show ?case
    using Cons by auto
qed

lemma path_next_name: "name_ok name \<Longrightarrow> path_next (SLASH # name) = Some (name, [])"
  by (cases name) (auto simp: path_next_def name_ok_def name_chars_def Let_def next_component_name
    simp del: next_component.simps)

lemma path_next_Nil [simp]: "path_next [] = None"
  by (simp add: path_next_def)

lemma last_slash_none: "SLASH \<notin> set cs \<Longrightarrow> last_slash cs i found = found"
  by (induction cs i found rule: last_slash.induct) auto

lemma vfs_lookup_name:
  assumes inv: "fs_inv s A rr ks" and name: "name_ok name"
  shows "find_file s ks name = None \<Longrightarrow> vfs_lookup s (SLASH # name) = Some (0, s)"
    "ramfs_lookup s (g_root s) name = Some (p, s') \<Longrightarrow> p \<noteq> 0 \<Longrightarrow> vfs_lookup s (SLASH # name) = Some (p, s')"
proof -
  obtain v d where v: "vnodes s (g_root s) = Some v" "v_type v = VFS_TYPE_DIR" "g_root s \<noteq> 0"
    using root_node [OF inv] by metis
  have nc: "name_chars name"
    using name by (simp add: name_ok_def)
  show "vfs_lookup s (SLASH # name) = Some (0, s)" if "find_file s ks name = None"
    using v ramfs_lookup_missing [OF inv nc that]
    by (simp add: vfs_lookup_def walk_path.simps [of s "g_root s"] path_next_name [OF name])
  show "vfs_lookup s (SLASH # name) = Some (p, s')" if "ramfs_lookup s (g_root s) name = Some (p, s')" "p \<noteq> 0"
    using v that
    by (simp add: vfs_lookup_def walk_path.simps [of s "g_root s"] walk_path.simps [of s' p] path_next_name [OF name])
qed

section \<open>Descriptors\<close>

text \<open>The current task has a full table, whose used slots point to different open files.\<close>

definition fds_ok :: "'a fs_state_scheme \<Rightarrow> bool" where
  "fds_ok s \<longleftrightarrow> g_current s \<noteq> 0 \<and> (\<exists>t. tasks s (g_current s) = Some t \<and> length (t_fds t) = MAX_FD_PER_TASK \<and>
     (\<forall>i<MAX_FD_PER_TASK. t_fds t ! i \<noteq> 0 \<longrightarrow> t_fds t ! i \<in> dom (files s)) \<and>
     (\<forall>i<MAX_FD_PER_TASK. \<forall>j<MAX_FD_PER_TASK. t_fds t ! i \<noteq> 0 \<longrightarrow> t_fds t ! i = t_fds t ! j \<longrightarrow> i = j))"

text \<open>What a descriptor stands for: a file and a position.\<close>

definition open_at :: "'a fs_state_scheme \<Rightarrow> nat \<Rightarrow> (u32 \<times> nat) option" where
  "open_at s fd =
     do { t \<leftarrow> tasks s (g_current s);
          f \<leftarrow> (if t_fds t ! fd = 0 then None else files s (t_fds t ! fd));
          v \<leftarrow> vnodes s (f_node f);
          Some (v_fs_data v, unat (f_offset f)) }"

lemma free_fd_Some: "free_fd fds = Some fd \<Longrightarrow> fd < MAX_FD_PER_TASK \<and> fds ! fd = 0 \<and> (\<forall>i<fd. fds ! i \<noteq> 0)"
  by (auto simp: free_fd_def find_Some_iff)

lemma set_task_simps [simp]:
  "memory (set_task t x s) = memory s" "vnodes (set_task t x s) = vnodes s" "files (set_task t x s) = files s"
  "rnodes (set_task t x s) = rnodes s" "g_root (set_task t x s) = g_root s" "g_current (set_task t x s) = g_current s"
  "tasks (set_task t x s) = (tasks s)(t \<mapsto> x)" "heap_of (set_task t x s) = heap_of s" "pmm (set_task t x s) = pmm s"
  "free_head (set_task t x s) = free_head s"
  by (simp_all add: set_task_def heap_of_def)

lemma fs_inv_set_task: "fs_inv (set_task t x s) A rr ks \<longleftrightarrow> fs_inv s A rr ks"
  by (simp add: fs_inv_def heap_view_def heap_inv_def tree_ok_def owned_def)

lemma fs_abs_set_task [simp]: "fs_abs (set_task t x s) ks = fs_abs s ks"
  by (rule fs_abs_same) simp_all

text \<open>Opening a node at a free slot.\<close>

lemma open_file_ok:
  assumes inv: "fs_inv s A rr ks" and node: "map_option v_fs_data (vnodes s node) = Some k"
    and fds: "fds_ok s" "tasks s (g_current s) = Some t" "free_fd (t_fds t) = Some fd"
    and r: "heap_serves (heap_of s) (sizeof_vfs_file # ns)"
  obtains s' A' where "open_file s (g_current s) fd node flags = Some (of_nat fd, s')" "fs_inv s' A' rr ks" "fds_ok s'"
    "heap_serves (heap_of s') ns" "fs_abs s' ks = fs_abs s ks" "open_at s' fd = Some (k, 0)" "rnodes s' = rnodes s"
    "\<And>j. j < MAX_FD_PER_TASK \<Longrightarrow> j \<noteq> fd \<Longrightarrow> open_at s' j = open_at s j" "same_bytes A (memory s) (memory s')" "A \<subseteq>\<^sub>m A'"
    "\<And>q. q \<in> owned s' ks \<Longrightarrow> q \<in> owned s ks \<or> A (q - 8) = None"
proof -
  obtain p s1 A1 where p: "kmalloc s sizeof_vfs_file = Some (p, s1)" "fs_inv s1 A1 rr ks" "heap_serves (heap_of s1) ns"
    "same_objects s s1" "same_bytes A (memory s) (memory s1)" "fs_abs s1 ks = fs_abs s ks"
    "block_at A1 p (unat sizeof_vfs_file)" "p \<notin> owned s1 ks" "A (p - 8) = None" "\<And>q. q \<noteq> p - 8 \<Longrightarrow> A1 q = A q"
    by (rule fs_inv_malloc [OF inv r]) (simp add: sizeof_vfs_file_def, rule that, assumption+)
  have o: "rnodes s1 = rnodes s" "vnodes s1 = vnodes s" "files s1 = files s" "tasks s1 = tasks s" "g_current s1 = g_current s"
    using p(4) by (simp_all add: same_objects_def)
  have p0: "p \<noteq> 0" "block_at A1 p 0" "p \<notin> dom (files s)"
    using p(7,8) o by (auto simp: block_at_def owned_def)
  let ?f = "\<lparr>f_node = node, f_offset = 0, f_flags = flags\<rparr>"
  let ?t = "t\<lparr>t_fds := (t_fds t)[fd := p]\<rparr>"
  let ?s = "set_task (g_current s) ?t (set_file p (Some ?f) s1)"
  note fd = free_fd_Some [OF fds(3)]
  have F: "length (t_fds t) = MAX_FD_PER_TASK" "g_current s \<noteq> 0"
    "\<And>i. i < MAX_FD_PER_TASK \<Longrightarrow> t_fds t ! i \<noteq> 0 \<Longrightarrow> t_fds t ! i \<in> dom (files s)"
    "\<And>i j. i < MAX_FD_PER_TASK \<Longrightarrow> j < MAX_FD_PER_TASK \<Longrightarrow> t_fds t ! i \<noteq> 0 \<Longrightarrow> t_fds t ! i = t_fds t ! j \<Longrightarrow> i = j"
    using fds(1,2) by (auto simp: fds_ok_def)
  have nth: "(t_fds t)[fd := p] ! i = (if i = fd then p else t_fds t ! i)" if "i < MAX_FD_PER_TASK" for i
    using that F(1) by (simp add: nth_list_update)
  have np: "t_fds t ! i \<noteq> p" if "i < MAX_FD_PER_TASK" for i
    using F(3) [OF that] p0(1,3) by auto
  have "fs_inv ?s A1 rr ks"
    unfolding fs_inv_set_task by (rule fs_inv_file [OF p(2) p0(2) p(8)]) (use node in \<open>auto simp: o\<close>)
  moreover have "open_file s (g_current s) fd node flags = Some (of_nat fd, ?s)"
    using p(1) p0(1) fds(2) by (simp add: open_file_def o)
  moreover have "open_at ?s fd = Some (k, 0)"
    using node fd F(1) p0(1) by (auto simp: open_at_def o)
  moreover have "open_at ?s j = open_at s j" if "j < MAX_FD_PER_TASK" "j \<noteq> fd" for j
    using that np [OF that(1)] fds(2) by (simp add: open_at_def o nth)
  moreover have "fds_ok ?s"
    unfolding fds_ok_def
  proof (intro conjI exI [of _ ?t])
    show "\<forall>i<MAX_FD_PER_TASK. t_fds ?t ! i \<noteq> 0 \<longrightarrow> t_fds ?t ! i \<in> dom (files ?s)"
      using F(3) by (auto simp: nth o)
    show "\<forall>i<MAX_FD_PER_TASK. \<forall>j<MAX_FD_PER_TASK. t_fds ?t ! i \<noteq> 0 \<longrightarrow> t_fds ?t ! i = t_fds ?t ! j \<longrightarrow> i = j"
    proof (intro allI impI)
      fix i j assume ij: "i < MAX_FD_PER_TASK" "j < MAX_FD_PER_TASK" "t_fds ?t ! i \<noteq> 0" "t_fds ?t ! i = t_fds ?t ! j"
      then show "i = j"
        using F(4) [OF ij(1,2)] np [OF ij(1)] np [OF ij(2)] by (auto simp: nth split: if_splits)
    qed
  qed (use F(1,2) in \<open>simp_all add: o\<close>)
  moreover have "A \<subseteq>\<^sub>m A1"
    by (rule map_le_new [of A "p - 8" A1, OF p(9)]) (rule p(10))
  moreover have "owned ?s ks = insert p (owned s ks)"
    by (auto simp: owned_def o)
  ultimately show ?thesis
    using p(3,5,6,9) by (intro that [of ?s A1]) (auto simp: o)
qed

section \<open>Opening by name\<close>

lemma open_at_vnodes:
  assumes inv: "fs_inv s A rr ks" and o: "tasks s1 = tasks s" "g_current s1 = g_current s" "files s1 = files s"
    and v: "vnodes s \<subseteq>\<^sub>m vnodes s1"
  shows "open_at s1 j = open_at s j" "fds_ok s \<Longrightarrow> fds_ok s1"
proof -
  have "vnodes s1 (f_node f) = vnodes s (f_node f)" if "files s p = Some f" for p f
    using fs_invD(9) [OF inv that] v by (metis map_le_def)
  then show "open_at s1 j = open_at s j"
    unfolding open_at_def o by (cases "tasks s (g_current s)") (auto split: bind_splits)
  show "fds_ok s \<Longrightarrow> fds_ok s1"
    by (simp add: fds_ok_def o)
qed

lemma step_trans:
  assumes "same_bytes A m m1" "A \<subseteq>\<^sub>m A1" "\<And>q. q \<in> O1 \<Longrightarrow> q \<in> O0 \<or> A (q - 8 :: u32) = None"
    and "same_bytes A1 m1 m2" "A1 \<subseteq>\<^sub>m A2" "\<And>q. q \<in> O2 \<Longrightarrow> q \<in> O1 \<or> A1 (q - 8) = None"
  shows "same_bytes A m m2" "A \<subseteq>\<^sub>m A2" "\<And>q. q \<in> O2 \<Longrightarrow> q \<in> O0 \<or> A (q - 8) = None"
proof -
  show "same_bytes A m m2"
    using assms(1,2,4) unfolding same_bytes_def map_le_def by (metis domI)
  show "A \<subseteq>\<^sub>m A2"
    by (rule map_le_trans [OF assms(2,5)])
  show "q \<in> O0 \<or> A (q - 8) = None" if "q \<in> O2" for q
    using assms(3) assms(6) [OF that] assms(2) by (metis domI domIff map_le_def option.exhaust)
qed

lemma vfs_open_ok:
  assumes inv: "fs_inv s A rr ks" and name: "name_ok name"
    and fds: "fds_ok s" "tasks s (g_current s) = Some t" "free_fd (t_fds t) = Some fd"
    and r: "heap_serves (heap_of s) ((if find_file s ks name = None then [sizeof_ramfs_node] else []) @
              [sizeof_vfs_node, sizeof_vfs_file] @ ns)"
  obtains s' A' ks' k where "vfs_open s (SLASH # name) flags = Some (of_nat fd, s')" "fs_inv s' A' rr ks'" "fds_ok s'"
    "heap_serves (heap_of s') ns"
    "fs_abs s' ks' = (if name \<in> fst ` set (fs_abs s ks) then fs_abs s ks else (name, []) # fs_abs s ks)"
    "find_file s' ks' name = Some k" "open_at s' fd = Some (k, 0)"
    "\<And>j. j < MAX_FD_PER_TASK \<Longrightarrow> j \<noteq> fd \<Longrightarrow> open_at s' j = open_at s j" "same_bytes A (memory s) (memory s')" "A \<subseteq>\<^sub>m A'"
    "\<And>q. q \<in> owned s' ks' \<Longrightarrow> q \<in> owned s ks \<or> A (q - 8) = None"
    "ks' = (if find_file s ks name = None then k # ks else ks)"
proof -
  have nc: "name_chars name" "name \<noteq> []" "SLASH \<notin> set name" "char_at name \<noteq> 0"
    using name by (cases name; auto simp: name_ok_def name_chars_def)+
  have find: "find_file s ks name = None \<longleftrightarrow> name \<notin> fst ` set (fs_abs s ks)"
    by (auto simp: find_file_def fs_abs_def find_None_iff image_iff)
  show ?thesis
  proof (cases "find_file s ks name")
    case (Some k)
    then have r1: "heap_serves (heap_of s) (sizeof_vfs_node # sizeof_vfs_file # ns)"
      using r by simp
    obtain p s1 A1 where p: "ramfs_lookup s (g_root s) name = Some (p, s1)" "fs_inv s1 A1 rr ks" "p \<noteq> 0"
      "heap_serves (heap_of s1) (sizeof_vfs_file # ns)" "fs_abs s1 ks = fs_abs s ks" "map_option v_fs_data (vnodes s1 p) = Some k"
      "files s1 = files s" "vnodes s \<subseteq>\<^sub>m vnodes s1" "rnodes s1 = rnodes s" "tasks s1 = tasks s" "g_current s1 = g_current s"
      "same_bytes A (memory s) (memory s1)" "A \<subseteq>\<^sub>m A1" "\<And>q. q \<in> owned s1 ks \<Longrightarrow> q \<in> owned s ks \<or> A (q - 8) = None"
      by (rule ramfs_lookup_found [OF inv nc(1) Some r1]) (rule that, assumption+)
    note o = open_at_vnodes [OF inv p(10,11,7,8)]
    have t1: "tasks s1 (g_current s1) = Some t"
      using fds(2) p(10,11) by simp
    obtain s2 A2 where q: "open_file s1 (g_current s1) fd p flags = Some (of_nat fd, s2)" "fs_inv s2 A2 rr ks" "fds_ok s2"
      "heap_serves (heap_of s2) ns" "fs_abs s2 ks = fs_abs s1 ks" "open_at s2 fd = Some (k, 0)" "rnodes s2 = rnodes s1"
      "\<And>j. j < MAX_FD_PER_TASK \<Longrightarrow> j \<noteq> fd \<Longrightarrow> open_at s2 j = open_at s1 j" "same_bytes A1 (memory s1) (memory s2)" "A1 \<subseteq>\<^sub>m A2"
      "\<And>q. q \<in> owned s2 ks \<Longrightarrow> q \<in> owned s1 ks \<or> A1 (q - 8) = None"
      by (rule open_file_ok [OF p(2,6) o(2) [OF fds(1)] t1 fds(3) p(4)]) (rule that, assumption+)
    have "vfs_open s (SLASH # name) flags = Some (of_nat fd, s2)"
      using fds p(3) q(1) vfs_lookup_name(2) [OF inv name p(1,3)] p(11)
      by (simp add: vfs_open_def task_current_def Let_def fds_ok_def)
    moreover have "find_file s2 ks name = Some k"
      using Some by (simp add: find_file_def name_of_def q(7) p(9))
    moreover have "name \<in> fst ` set (fs_abs s ks)"
      using find Some by simp
    moreover note step_trans [OF p(12,13,14) q(9,10,11)]
    ultimately show ?thesis
      using q p(5) o(1) Some by (intro that [of s2 A2 ks k]) simp_all
  next
    case None
    then have r1: "heap_serves (heap_of s) (sizeof_ramfs_node # sizeof_vfs_node # sizeof_vfs_file # ns)"
      using r by simp
    obtain p k s1 A1 where p: "ramfs_create s (g_root s) name VFS_TYPE_FILE = Some (p, s1)" "fs_inv s1 A1 rr (k # ks)" "p \<noteq> 0"
      "heap_serves (heap_of s1) (sizeof_vfs_file # ns)" "fs_abs s1 (k # ks) = (name, []) # fs_abs s ks"
      "map_option v_fs_data (vnodes s1 p) = Some k" "files s1 = files s" "vnodes s \<subseteq>\<^sub>m vnodes s1"
      "\<And>q. q \<in> set ks \<Longrightarrow> rnodes s1 q = rnodes s q" "tasks s1 = tasks s" "g_current s1 = g_current s"
      "same_bytes A (memory s) (memory s1)" "A \<subseteq>\<^sub>m A1" "\<And>q. q \<in> owned s1 (k # ks) \<Longrightarrow> q \<in> owned s ks \<or> A (q - 8) = None"
      by (rule ramfs_create_ok [OF inv nc(1) r1]) (rule that, assumption+)
    note o = open_at_vnodes [OF inv p(10,11,7,8)]
    have t1: "tasks s1 (g_current s1) = Some t"
      using fds(2) p(10,11) by simp
    obtain s2 A2 where q: "open_file s1 (g_current s1) fd p flags = Some (of_nat fd, s2)" "fs_inv s2 A2 rr (k # ks)" "fds_ok s2"
      "heap_serves (heap_of s2) ns" "fs_abs s2 (k # ks) = fs_abs s1 (k # ks)" "open_at s2 fd = Some (k, 0)" "rnodes s2 = rnodes s1"
      "\<And>j. j < MAX_FD_PER_TASK \<Longrightarrow> j \<noteq> fd \<Longrightarrow> open_at s2 j = open_at s1 j" "same_bytes A1 (memory s1) (memory s2)" "A1 \<subseteq>\<^sub>m A2"
      "\<And>q. q \<in> owned s2 (k # ks) \<Longrightarrow> q \<in> owned s1 (k # ks) \<or> A1 (q - 8) = None"
      by (rule open_file_ok [OF p(2,6) o(2) [OF fds(1)] t1 fds(3) p(4)]) (rule that, assumption+)
    obtain v d where v: "vnodes s (g_root s) = Some v" "v_type v = VFS_TYPE_DIR"
      using root_node [OF inv] by metis
    have "vfs_open s (SLASH # name) flags = Some (of_nat fd, s2)"
      using fds p(1,3) q(1) vfs_lookup_name(1) [OF inv name None] p(11) v nc(3,4) last_slash_none
      by (simp add: vfs_open_def task_current_def Let_def fds_ok_def)
    moreover have "find_file s2 (k # ks) name = Some k"
      using p(5) by (simp add: fs_abs_def find_file_def name_of_def q(7))
    moreover have "name \<notin> fst ` set (fs_abs s ks)"
      using find None by simp
    moreover note step_trans [OF p(12,13,14) q(9,10,11)]
    ultimately show ?thesis
      using q p(5) o(1) None by (intro that [of s2 A2 "k # ks" k]) simp_all
  qed
qed

section \<open>Reading and writing through a descriptor\<close>

text \<open>The file object behind a descriptor.\<close>

lemma open_atE:
  assumes "fds_ok s" "open_at s fd = Some (k, off)" "fd < MAX_FD_PER_TASK"
  obtains t fp f v where "tasks s (g_current s) = Some t" "t_fds t ! fd = fp" "fp \<noteq> 0" "files s fp = Some f"
    "vnodes s (f_node f) = Some v" "v_fs_data v = k" "unat (f_offset f) = off" "fd_file s (of_nat fd) = Some fp"
proof -
  obtain t f v where t: "tasks s (g_current s) = Some t" "t_fds t ! fd \<noteq> 0" "files s (t_fds t ! fd) = Some f"
    "vnodes s (f_node f) = Some v" "v_fs_data v = k" "unat (f_offset f) = off"
    using assms(2) by (auto simp: open_at_def bind_eq_Some_conv split: if_splits)
  have fd: "unat (of_nat fd :: u32) = fd" "sint (of_nat fd :: u32) = int fd"
  proof -
    show u: "unat (of_nat fd :: u32) = fd"
      using assms(3) by (intro unat_of_nat_u32) simp
    then show "sint (of_nat fd :: u32) = int fd"
      using assms(3) by (simp add: sint_small u)
  qed
  have "fd_file s (of_nat fd) = Some (t_fds t ! fd)"
    using assms(1,3) t(1) fd by (simp add: fd_file_def task_current_def fds_ok_def word_sless_alt word_sle_eq)
  then show ?thesis
    using t that by blast
qed

lemma advance_ok:
  assumes inv: "fs_inv s A rr ks" and fds: "fds_ok s" and fd: "fd < MAX_FD_PER_TASK"
    and t: "tasks s (g_current s) = Some t" "t_fds t ! fd = file" "file \<noteq> 0" "files s file = Some f"
      "vnodes s (f_node f) = Some v" "v_fs_data v = k"
    and n: "unat (f_offset f) + unat n < 4294967296" "unat n < 2147483648"
  obtains s' where "advance s file n = Some (n, s')" "fs_inv s' A rr ks" "fds_ok s'" "fs_abs s' ks = fs_abs s ks"
    "open_at s' fd = Some (k, unat (f_offset f) + unat n)" "memory s' = memory s" "heap_of s' = heap_of s"
    "\<And>j. j < MAX_FD_PER_TASK \<Longrightarrow> j \<noteq> fd \<Longrightarrow> open_at s' j = open_at s j" "owned s' ks = owned s ks"
    "rnodes s' = rnodes s" "tasks s' = tasks s" "g_current s' = g_current s"
proof (cases "n = 0")
  case True
  then show ?thesis
    using assms that [of s] by (simp add: advance_def open_at_def)
next
  case False
  have "0 <s n"
    using False n(2) by (simp add: sless_zero_small)
  moreover define s' where "s' = set_file file (Some (f\<lparr>f_offset := f_offset f + n\<rparr>)) s"
  ultimately have a: "advance s file n = Some (n, s')"
    using t(4) by (simp add: advance_def)
  note I = fs_invD [OF inv]
  have dom: "dom (files s') = dom (files s)"
    using t(4) by (auto simp: s'_def)
  have own: "owned s' ks = owned s ks"
    unfolding owned_def dom by (simp add: s'_def)
  have "heap_view s' A" "tree_ok s' A rr ks"
    using I(1,2) by (simp_all add: heap_view_def heap_inv_def set_file_def tree_ok_def s'_def)
  moreover have "\<forall>p g. files s' p = Some g \<longrightarrow> f_node g \<in> dom (vnodes s)"
    using I(9) t(5) by (auto simp: s'_def)
  ultimately have "fs_inv s' A rr ks"
    unfolding fs_inv_def own dom using I(3-8) by (simp add: s'_def)
  moreover have "fds_ok s'"
    using fds unfolding fds_ok_def dom by (simp add: s'_def)
  moreover have "open_at s' fd = Some (k, unat (f_offset f) + unat n)"
    using t n(1) by (simp add: open_at_def s'_def unat_add_no_wrap)
  moreover have "open_at s' j = open_at s j" if "j < MAX_FD_PER_TASK" "j \<noteq> fd" for j
  proof -
    have "t_fds t ! j \<noteq> file"
      using fds t(1-3) fd that by (auto simp: fds_ok_def)
    then show ?thesis
      using t(1) by (simp add: open_at_def s'_def)
  qed
  ultimately show ?thesis
    using a own by (intro that [of s']) (simp_all add: s'_def)
qed

lemma content_of: "rnodes s k = Some x \<Longrightarrow> content s k = load_bytes (memory s) (r_data x) (unat (r_size x))"
  by (simp add: content_def)

lemma content_size:
  assumes "fs_inv s A rr ks" "k \<in> set ks" "rnodes s k = Some x"
  shows "unat (r_size x) = length (content s k)" "length (content s k) \<le> 0x800000" "r_data x = 0 \<longleftrightarrow> content s k = []"
proof -
  show l: "unat (r_size x) = length (content s k)"
    using assms(3) by (simp add: content_of)
  show "length (content s k) \<le> 0x800000"
    using block_bounds(2) [OF fs_invD(1) [OF assms(1)] block_content(1) [OF assms(1-3)]] l by (cases "r_size x = 0") auto
  have "buffer_ok A x"
    using tree_okD(3) [OF fs_invD(2) [OF assms(1)] assms(2)] assms(3) by auto
  then show "r_data x = 0 \<longleftrightarrow> content s k = []"
    using l by (auto simp: buffer_ok_def unat_eq_0 split: if_splits)
qed

lemma ramfs_read_ok:
  assumes inv: "fs_inv s A rr ks" and k: "k \<in> set ks" and v: "vnodes s node = Some v" "v_fs_data v = k"
    and buf: "block_at A buf (unat n)" "buf \<notin> owned s ks" and len: "unat off + unat n < 4294967296"
  defines "r \<equiv> take (unat n) (drop (unat off) (content s k))"
  obtains s' where "ramfs_read s node off buf n = Some (of_nat (length r), s')" "load_bytes (memory s') buf (length r) = r"
    "fs_inv s' A rr ks" "fs_abs s' ks = fs_abs s ks" "paging_state.more s' = paging_state.more s" "owned s' ks = owned s ks"
    "\<And>x. x \<notin> range_at buf (length r) \<Longrightarrow> memory s' x = memory s x"
proof -
  obtain x where x: "rnodes s k = Some x" "r_type x = VFS_TYPE_FILE"
    using tree_okD(3) [OF fs_invD(2) [OF inv] k] by blast
  note c = content_size [OF inv k x(1)]
  show ?thesis
  proof (cases "r_data x = 0 \<or> off \<ge> r_size x")
    case True
    then have r: "r = []"
      using c by (auto simp: r_def word_le_nat_alt)
    have "ramfs_read s node off buf n = Some (0, s)"
      using True x v by (simp add: ramfs_read_def)
    then show ?thesis
      using that [of s] r inv by simp
  next
    case False
    let ?m = "if off + n > r_size x then r_size x - off else n"
    have nw: "unat (off + n) = unat off + unat n"
      using len by (rule unat_add_no_wrap)
    have "unat (r_size x - off) = unat (r_size x) - unat off"
      using False by (intro unat_sub_no_wrap) (simp add: not_le order.strict_implies_order)
    then have m: "unat ?m = length r"
      using nw c(1) by (auto simp: r_def word_less_nat_alt min_def)
    then have mr: "?m = of_nat (length r)"
      unfolding m [symmetric] by simp
    have mn: "length r \<le> unat n" "unat off + length r \<le> unat (r_size x)"
      using c(1) False by (auto simp: r_def word_le_nat_alt)
    have ne: "r_size x \<noteq> 0"
      using False by auto
    note b = block_content [OF inv k x(1) ne]
    have "range_at buf (unat n) \<inter> range_at (r_data x) (unat (r_size x)) = {}"
      by (rule blocks_disjoint [OF fs_invD(1) [OF inv] buf(1) b(1)]) (use buf(2) b(2) in \<open>auto simp: owned_def\<close>)
    moreover have "range_at buf (length r) \<subseteq> range_at buf (unat n)"
      using range_at_sub [of 0 "length r" "unat n" buf] mn(1) by simp
    moreover have "range_at (r_data x + off) (length r) \<subseteq> range_at (r_data x) (unat (r_size x))"
      using range_at_sub [of "unat off" "length r" "unat (r_size x)" "r_data x"] mn(2) by simp
    ultimately have "range_at buf (length r) \<inter> range_at (r_data x + off) (length r) = {}"
      by blast
    then have copy: "copy_bytes (memory s) buf (r_data x + off) (length r) =
        store_bytes (memory s) buf (load_bytes (memory s) (r_data x + off) (length r))"
      by (rule copy_bytes_store)
    have "load_bytes (memory s) (r_data x + of_nat (unat off)) (length r) = take (length r) (drop (unat off) (content s k))"
      unfolding content_of [OF x(1)] by (rule load_bytes_sub [OF mn(2)])
    then have "load_bytes (memory s) (r_data x + off) (length r) = take (length r) (drop (unat off) (content s k))"
      by simp
    also have "\<dots> = r"
      by (simp add: r_def min_def)
    finally have m': "copy_bytes (memory s) buf (r_data x + off) (unat ?m) = store_bytes (memory s) buf r"
      unfolding m copy by simp
    define s' where "s' = s\<lparr>memory := store_bytes (memory s) buf r\<rparr>"
    have "ramfs_read s node off buf n = Some (of_nat (length r), s')"
      using False x v m' mr by (simp add: ramfs_read_def Let_def s'_def split del: if_split)
    moreover have out: "memory s' y = memory s y" if "y \<notin> range_at buf (length r)" for y
      using that by (simp add: s'_def store_bytes_outside)
    moreover have "store_bytes (memory s) buf r y = memory s y" if "y \<notin> range_at buf (unat n)" for y
      using that \<open>range_at buf (length r) \<subseteq> range_at buf (unat n)\<close> by (intro store_bytes_outside) auto
    note fs_inv_write [OF inv buf this, folded s'_def]
    moreover have "length r \<le> 4294967296"
      using c(2) by (simp add: r_def)
    then have "load_bytes (memory s') buf (length r) = r"
      by (simp add: s'_def load_store_bytes)
    ultimately show ?thesis
      by (intro that [of s']) (simp_all add: s'_def owned_def)
  qed
qed

text \<open>The object-level facts of a write that \<open>vfs_write\<close> builds on.\<close>

definition written :: "'a fs_state_scheme \<Rightarrow> u32 list \<Rightarrow> u32 \<Rightarrow> u8 list \<Rightarrow> 'a fs_state_scheme \<Rightarrow> bool" where
  "written s ks k cs s' \<longleftrightarrow> content s' k = cs \<and> (\<forall>j. name_of s' j = name_of s j) \<and>
     (\<forall>j\<in>set ks - {k}. content s' j = content s j) \<and> files s' = files s \<and> tasks s' = tasks s \<and>
     g_current s' = g_current s \<and> g_root s' = g_root s \<and>
     (\<forall>p. map_option v_fs_data (vnodes s' p) = map_option v_fs_data (vnodes s p))"

lemma block_at_mono: "A \<subseteq>\<^sub>m A' \<Longrightarrow> block_at A p n \<Longrightarrow> block_at A' p n"
  unfolding block_at_def map_le_def by (metis domI)

lemma write_at_zeros:
  "length cs = off + length bs \<Longrightarrow> write_at (write_at cs 0 (replicate off 0)) off bs = write_at [] off bs"
  by (simp add: write_at_def Let_def)

lemma copy_block:
  assumes v: "heap_view s A" and p: "block_at A p n" and q: "block_at A q k" "p \<noteq> q" and i: "i + k \<le> n"
  shows "copy_bytes (memory s) (p + of_nat i) q k = store_bytes (memory s) (p + of_nat i) (load_bytes (memory s) q k)"
proof (rule copy_bytes_store)
  show "range_at (p + of_nat i) k \<inter> range_at q k = {}"
    using blocks_disjoint [OF v p q] range_at_sub [OF i, of p] by blast
qed

lemma ramfs_write_within:
  assumes inv: "fs_inv s A rr ks" and k: "k \<in> set ks" and v: "vnodes s node = Some v" "v_fs_data v = k"
    and buf: "block_at A buf (unat n)" "buf \<notin> owned s ks"
    and fit: "unat off + unat n \<le> length (content s k)" "n \<noteq> 0"
  obtains s' where "ramfs_write s node off buf n = Some (n, s')" "fs_inv s' A rr ks"
    "written s ks k (write_at (content s k) (unat off) (load_bytes (memory s) buf (unat n))) s'" "owned s' ks = owned s ks"
    "load_bytes (memory s') buf (unat n) = load_bytes (memory s) buf (unat n)"
proof -
  obtain x where x: "rnodes s k = Some x" "r_type x = VFS_TYPE_FILE"
    using tree_okD(3) [OF fs_invD(2) [OF inv] k] by blast
  note c = content_size [OF inv k x(1)]
  let ?bs = "load_bytes (memory s) buf (unat n)"
  have n0: "0 < unat n"
    using fit(2) by (simp add: unat_gt_0)
  then have ne: "r_size x \<noteq> 0"
    using fit(1) c(1) by auto
  note b = block_content [OF inv k x(1) ne]
  have q: "r_data x \<noteq> buf"
    using b(2) buf(2) by (auto simp: owned_def)
  define m' where "m' = store_bytes (memory s) (r_data x + of_nat (unat off)) ?bs"
  have copy: "copy_bytes (memory s) (r_data x + off) buf (unat n) = m'"
    using copy_block [OF fs_invD(1) [OF inv] b(1) buf(1) q, of "unat off"] fit(1) c(1) by (simp add: m'_def)
  have out: "m' y = memory s y" if "y \<notin> range_at (r_data x) (unat (r_size x))" for y
    unfolding m'_def using that range_at_sub [of "unat off" "unat n" "unat (r_size x)" "r_data x"] fit(1) c(1)
    by (intro store_bytes_outside) auto
  note F = fs_inv_buffer [OF inv k x(1) ne, of m', OF out]
  let ?s = "s\<lparr>memory := m'\<rparr>"
  have "unat (off + n) = unat off + unat n"
    using fit(1) c(2) by (intro unat_add_no_wrap) simp
  then have "\<not> off + n > r_size x"
    using fit(1) c(1) by (simp add: word_less_nat_alt)
  then have w: "ramfs_write s node off buf n = Some (n, ?s)"
    using x v fit(2) copy by (simp add: ramfs_write_def)
  have "content ?s k = load_bytes m' (r_data x) (unat (r_size x))"
    using x(1) by (simp add: content_def)
  also have "\<dots> = write_at (load_bytes (memory s) (r_data x) (unat (r_size x))) (unat off) ?bs"
    unfolding m'_def by (rule load_bytes_write) (use fit(1) c(1,2) in simp_all)
  also have "\<dots> = write_at (content s k) (unat off) ?bs"
    by (simp only: content_of [OF x(1)])
  finally have "written s ks k (write_at (content s k) (unat off) ?bs) ?s"
    using F(2) by (simp add: written_def name_of_def)
  moreover have "load_bytes m' buf (unat n) = ?bs"
    using blocks_disjoint [OF fs_invD(1) [OF inv] b(1) buf(1) q] by (intro load_bytes_cong out) auto
  ultimately show ?thesis
    using w F(1) by (intro that [of ?s]) (simp_all add: owned_def)
qed

lemma ramfs_write_first:
  assumes inv: "fs_inv s A rr ks" and k: "k \<in> set ks" and v: "vnodes s node = Some v" "v_fs_data v = k"
    and buf: "block_at A buf (unat n)" "buf \<notin> owned s ks"
    and empty: "content s k = []" "n \<noteq> 0" "unat off + unat n \<le> 0xFFFFFFF0"
    and r: "heap_serves (heap_of s) [off + n]"
  obtains s' A' where "ramfs_write s node off buf n = Some (n, s')" "fs_inv s' A' rr ks"
    "written s ks k (write_at [] (unat off) (load_bytes (memory s) buf (unat n))) s'" "A \<subseteq>\<^sub>m A'"
    "\<And>q. q \<in> owned s' ks \<Longrightarrow> q \<in> owned s ks \<or> A (q - 8) = None"
    "load_bytes (memory s') buf (unat n) = load_bytes (memory s) buf (unat n)"
proof -
  obtain x where x: "rnodes s k = Some x" "r_type x = VFS_TYPE_FILE"
    using tree_okD(3) [OF fs_invD(2) [OF inv] k] by blast
  note c = content_size [OF inv k x(1)]
  have x0: "r_data x = 0" "r_size x = 0"
    using c(1,3) empty(1) by (simp_all add: unat_eq_0)
  let ?bs = "load_bytes (memory s) buf (unat n)" let ?n = "off + n"
  have nn: "unat ?n = unat off + unat n"
    using empty(3) by (intro unat_add_no_wrap) simp
  have n0: "0 < unat n"
    using empty(2) by (simp add: unat_gt_0)
  obtain p s1 A1 where p: "kmalloc s ?n = Some (p, s1)" "fs_inv s1 A1 rr ks" "heap_serves (heap_of s1) []"
    "same_objects s s1" "same_bytes A (memory s) (memory s1)" "fs_abs s1 ks = fs_abs s ks"
    "block_at A1 p (unat ?n)" "p \<notin> owned s1 ks" "A (p - 8) = None" "\<And>q. q \<noteq> p - 8 \<Longrightarrow> A1 q = A q"
    by (rule fs_inv_malloc [OF inv r]) (use empty(3) nn in simp, rule that, assumption+)
  have o: "rnodes s1 = rnodes s" "vnodes s1 = vnodes s" "files s1 = files s" "tasks s1 = tasks s" "g_current s1 = g_current s"
    "g_root s1 = g_root s"
    using p(4) by (simp_all add: same_objects_def)
  have p0: "p \<noteq> 0"
    using p(7) by (simp add: block_at_def)
  have le: "A \<subseteq>\<^sub>m A1"
    by (rule map_le_new [of A "p - 8" A1, OF p(9)]) (rule p(10))
  have bufA: "block_at A1 buf (unat n)" "p \<noteq> buf"
    using block_at_mono [OF le buf(1)] buf(1) p(9) by (auto simp: block_at_def)
  have bs1: "load_bytes (memory s1) buf (unat n) = ?bs"
    by (intro load_bytes_cong same_bytes_block [OF fs_invD(1) [OF inv] buf(1) p(5)])
  define m where "m = store_bytes (memory s1) p (replicate (unat off) 0)"
  define s2 where "s2 = s1\<lparr>memory := m\<rparr>"
  define s3 where "s3 = set_rnode k (Some (x\<lparr>r_data := p, r_size := ?n\<rparr>)) s2"
  define s4 where "s4 = set_vnode node (Some (v\<lparr>v_size := ?n\<rparr>)) s3"
  have out: "m y = memory s1 y" if "y \<notin> range_at p (unat ?n)" for y
    unfolding m_def using that range_at_sub [of 0 "unat off" "unat ?n" p] nn by (intro store_bytes_outside) auto
  have own: "owned s2 ks = owned s1 ks" "rnodes s2 = rnodes s" "vnodes s2 = vnodes s"
    by (simp_all add: s2_def owned_def o)
  note W = fs_inv_write [OF p(2,7,8) out, folded s2_def]
  have n1: "?n \<noteq> 0"
    using nn n0 by auto
  have x2: "rnodes s2 k = Some x"
    using x(1) own(2) by simp
  note B = fs_inv_first_buffer [OF W(1) k x2 x0(1) p(7) p(8) [folded own(1)] n1, folded s3_def]
  have v3: "vnodes s3 node = Some v"
    using v(1) own(3) by (simp add: s3_def)
  note V = fs_inv_vnode_size [OF B(1) v3, of ?n, folded s4_def]
  have c4: "content s4 j = content s3 j" "name_of s4 j = name_of s j" for j
    using B(4) [of j] own(2) by (simp_all add: s4_def content_def name_of_def split: option.split)
  have L: "content s4 k = load_bytes m p (unat ?n)"
  proof -
    have "content s3 k = load_bytes (memory s2) p (unat ?n)"
      by (rule B(3))
    then show ?thesis
      unfolding c4(1) by (simp only: s2_def) simp
  qed
  have bs4: "load_bytes (memory s4) buf (unat n) = ?bs"
  proof -
    have "load_bytes m buf (unat n) = load_bytes (memory s1) buf (unat n)"
      using blocks_disjoint [OF fs_invD(1) [OF p(2)] p(7) bufA] by (intro load_bytes_cong out) auto
    then show ?thesis
      using bs1 by (simp add: s4_def s3_def s2_def)
  qed
  have buf4: "buf \<notin> owned s4 ks"
    using V(2) B(5) own(1) buf(2) bufA(2) p(4) by (simp add: owned_def o same_objects_def)
  have v4: "vnodes s4 node = Some (v\<lparr>v_size := ?n\<rparr>)" "v_fs_data (v\<lparr>v_size := ?n\<rparr>) = k"
    using v(2) by (simp_all add: s4_def)
  have fit: "unat off + unat n \<le> length (content s4 k)"
    by (simp add: L nn)
  obtain s' where w: "ramfs_write s4 node off buf n = Some (n, s')" "fs_inv s' A1 rr ks"
    "written s4 ks k (write_at (content s4 k) (unat off) (load_bytes (memory s4) buf (unat n))) s'" "owned s' ks = owned s4 ks"
    "load_bytes (memory s') buf (unat n) = load_bytes (memory s4) buf (unat n)"
    by (rule ramfs_write_within [OF V(1) k v4 bufA(1) buf4 fit empty(2)])
  have "expand_file s node off ?n = Some (True, s4)"
    using p(1) p0 v x x0 by (simp add: expand_file_def o s4_def s3_def s2_def m_def Let_def)
  moreover have "r_size x < ?n"
    using x0(2) n1 by (simp add: word_gt_0)
  moreover have x4: "rnodes s4 k = Some (x\<lparr>r_data := p, r_size := ?n\<rparr>)"
    by (simp add: s4_def s3_def)
  ultimately have "ramfs_write s node off buf n = ramfs_write s4 node off buf n"
    using v x v4 empty(2) by (simp add: ramfs_write_def)
  moreover have "write_at (content s4 k) (unat off) ?bs = write_at [] (unat off) ?bs"
  proof -
    have "content s4 k = write_at (load_bytes (memory s1) p (unat ?n)) 0 (replicate (unat off) 0)"
      using load_bytes_write [of 0 "replicate (unat off) 0" "unat ?n" "memory s1" p] nn empty(3) by (simp add: L m_def)
    then show ?thesis
      by (simp only: write_at_zeros length_load_bytes nn)
  qed
  moreover have "content s3 j = content s j" if "j \<in> set ks - {k}" for j
  proof -
    have "fs_abs s2 ks = fs_abs s ks"
      using W(2) p(6) by simp
    then have "content s2 j = content s j"
      using that by (simp add: fs_abs_def)
    then show ?thesis
      using B(2) [of j] that by simp
  qed
  then have others: "content s4 j = content s j" if "j \<in> set ks - {k}" for j
    using that by (simp only: c4)
  have o4: "files s4 = files s" "tasks s4 = tasks s" "g_current s4 = g_current s" "g_root s4 = g_root s"
    "map_option v_fs_data (vnodes s4 q) = map_option v_fs_data (vnodes s q)" for q
    using v by (simp_all add: s4_def s3_def s2_def o)
  have "written s ks k (write_at (content s4 k) (unat off) ?bs) s'"
    using w(3) others unfolding written_def bs4 c4(2) o4 by simp
  ultimately show ?thesis
    using w le bs4 V(2) B(5) own(1) p(4,9) by (intro that [of s' A1]) (auto simp: owned_def o same_objects_def)
qed

section \<open>The operations on descriptors\<close>

lemma vfs_read_ok:
  assumes inv: "fs_inv s A rr ks" and fds: "fds_ok s" and fd: "fd < MAX_FD_PER_TASK" and k: "open_at s fd = Some (k, off)" "k \<in> set ks"
    and buf: "block_at A buf (unat n)" "buf \<notin> owned s ks" and n: "off + unat n < 4294967296" "unat n < 2147483648"
  defines "r \<equiv> take (unat n) (drop off (content s k))"
  obtains s' where "vfs_read s (of_nat fd) buf n = Some (of_nat (length r), s')" "load_bytes (memory s') buf (length r) = r"
    "fs_inv s' A rr ks" "fds_ok s'" "fs_abs s' ks = fs_abs s ks" "open_at s' fd = Some (k, off + length r)"
    "\<And>j. j < MAX_FD_PER_TASK \<Longrightarrow> j \<noteq> fd \<Longrightarrow> open_at s' j = open_at s j"
proof -
  obtain t fp f v where o: "tasks s (g_current s) = Some t" "t_fds t ! fd = fp" "fp \<noteq> 0" "files s fp = Some f"
    "vnodes s (f_node f) = Some v" "v_fs_data v = k" "unat (f_offset f) = off" "fd_file s (of_nat fd) = Some fp"
    by (rule open_atE [OF fds k(1) fd])
  have len: "unat (f_offset f) + unat n < 4294967296"
    using n(1) o(7) by simp
  obtain s1 where r: "ramfs_read s (f_node f) (f_offset f) buf n = Some (of_nat (length r), s1)"
    "load_bytes (memory s1) buf (length r) = r" "fs_inv s1 A rr ks" "fs_abs s1 ks = fs_abs s ks"
    "paging_state.more s1 = paging_state.more s" "owned s1 ks = owned s ks"
    "\<And>x. x \<notin> range_at buf (length r) \<Longrightarrow> memory s1 x = memory s x"
    by (rule ramfs_read_ok [OF inv k(2) o(5,6) buf len, unfolded o(7), folded r_def]) (rule that, assumption+)
  have m: "tasks s1 = tasks s" "g_current s1 = g_current s" "files s1 = files s" "vnodes s1 = vnodes s"
    using r(5) by (cases s1; cases s; simp)+
  have lr: "length r \<le> unat n" "unat (of_nat (length r) :: u32) = length r"
    using n(2) by (simp_all add: r_def unat_of_nat_u32)
  have f1: "fds_ok s1"
    using fds by (simp add: fds_ok_def m)
  have o1: "tasks s1 (g_current s1) = Some t" "files s1 fp = Some f" "vnodes s1 (f_node f) = Some v"
    using o by (simp_all add: m)
  have n1: "unat (f_offset f) + unat (of_nat (length r) :: u32) < 4294967296" "unat (of_nat (length r) :: u32) < 2147483648"
    using n lr o(7) by simp_all
  obtain s2 where a: "advance s1 fp (of_nat (length r)) = Some (of_nat (length r), s2)" "fs_inv s2 A rr ks" "fds_ok s2"
    "fs_abs s2 ks = fs_abs s1 ks" "open_at s2 fd = Some (k, unat (f_offset f) + unat (of_nat (length r) :: u32))"
    "memory s2 = memory s1" "heap_of s2 = heap_of s1"
    "\<And>j. j < MAX_FD_PER_TASK \<Longrightarrow> j \<noteq> fd \<Longrightarrow> open_at s2 j = open_at s1 j" "owned s2 ks = owned s1 ks"
    by (rule advance_ok [OF r(3) f1 fd o1(1) o(2,3) o1(2,3) o(6) n1]) (rule that, assumption+)
  have "vfs_read s (of_nat fd) buf n = Some (of_nat (length r), s2)"
    using o(3,4,8) r(1) a(1) by (simp add: vfs_read_def)
  moreover have "open_at s1 j = open_at s j" for j
    unfolding open_at_def m ..
  ultimately show ?thesis
    using a r o(7) lr(2) by (intro that [of s2]) simp_all
qed

lemma vfs_write_ok:
  assumes inv: "fs_inv s A rr ks" and fds: "fds_ok s" and fd: "fd < MAX_FD_PER_TASK" and k: "open_at s fd = Some (k, off)" "k \<in> set ks"
    and buf: "block_at A buf (unat n)" "buf \<notin> owned s ks" and n: "n \<noteq> 0" "off + unat n < 2147483648"
    and fit: "off + unat n \<le> length (content s k) \<or> content s k = [] \<and> heap_serves (heap_of s) [of_nat off + n]"
  obtains s' A' where "vfs_write s (of_nat fd) buf n = Some (n, s')" "fs_inv s' A' rr ks" "fds_ok s'"
    "fs_abs s' ks = map (\<lambda>j. (name_of s j, if j = k then write_at (content s k) off (load_bytes (memory s) buf (unat n)) else content s j)) ks"
    "content s' k = write_at (content s k) off (load_bytes (memory s) buf (unat n))"
    "open_at s' fd = Some (k, off + unat n)" "\<And>j. j < MAX_FD_PER_TASK \<Longrightarrow> j \<noteq> fd \<Longrightarrow> open_at s' j = open_at s j"
    "A \<subseteq>\<^sub>m A'" "\<And>q. q \<in> owned s' ks \<Longrightarrow> q \<in> owned s ks \<or> A (q - 8) = None"
    "load_bytes (memory s') buf (unat n) = load_bytes (memory s) buf (unat n)"
proof -
  let ?bs = "load_bytes (memory s) buf (unat n)"
  obtain t fp f v where o: "tasks s (g_current s) = Some t" "t_fds t ! fd = fp" "fp \<noteq> 0" "files s fp = Some f"
    "vnodes s (f_node f) = Some v" "v_fs_data v = k" "unat (f_offset f) = off" "fd_file s (of_nat fd) = Some fp"
    by (rule open_atE [OF fds k(1) fd])
  obtain s1 A1 where w: "ramfs_write s (f_node f) (f_offset f) buf n = Some (n, s1)" "fs_inv s1 A1 rr ks"
    "written s ks k (write_at (content s k) off ?bs) s1" "A \<subseteq>\<^sub>m A1"
    "\<And>q. q \<in> owned s1 ks \<Longrightarrow> q \<in> owned s ks \<or> A (q - 8) = None"
    "load_bytes (memory s1) buf (unat n) = ?bs"
  proof (cases "off + unat n \<le> length (content s k)")
    case True
    then have "unat (f_offset f) + unat n \<le> length (content s k)"
      using o(7) by simp
    from ramfs_write_within [OF inv k(2) o(5,6) buf this n(1)] show ?thesis
      using that [of _ A] o(7) by (metis map_le_refl)
  next
    case False
    then have e: "content s k = []" "heap_serves (heap_of s) [f_offset f + n]"
      using fit o(7) by auto
    have "unat (f_offset f) + unat n \<le> 0xFFFFFFF0"
      using n(2) o(7) by simp
    from ramfs_write_first [OF inv k(2) o(5,6) buf e(1) n(1) this e(2)] show ?thesis
      using that o(7) e(1) by metis
  qed
  have m: "tasks s1 = tasks s" "g_current s1 = g_current s" "files s1 = files s" "content s1 k = write_at (content s k) off ?bs"
    "\<And>j. name_of s1 j = name_of s j" "\<And>j. j \<in> set ks \<Longrightarrow> j \<noteq> k \<Longrightarrow> content s1 j = content s j"
    and vn: "\<And>p. map_option v_fs_data (vnodes s1 p) = map_option v_fs_data (vnodes s p)"
    using w(3) by (auto simp: written_def)
  have f1: "fds_ok s1"
    using fds by (simp add: fds_ok_def m)
  obtain v1 where v1: "vnodes s1 (f_node f) = Some v1" "v_fs_data v1 = k"
    using vn [of "f_node f"] o(5,6) by auto
  have o1: "tasks s1 (g_current s1) = Some t" "files s1 fp = Some f"
    using o by (simp_all add: m)
  have n1: "unat (f_offset f) + unat n < 4294967296" "unat n < 2147483648"
    using n(2) o(7) by simp_all
  obtain s2 where a: "advance s1 fp n = Some (n, s2)" "fs_inv s2 A1 rr ks" "fds_ok s2"
    "fs_abs s2 ks = fs_abs s1 ks" "open_at s2 fd = Some (k, unat (f_offset f) + unat n)"
    "memory s2 = memory s1" "heap_of s2 = heap_of s1"
    "\<And>j. j < MAX_FD_PER_TASK \<Longrightarrow> j \<noteq> fd \<Longrightarrow> open_at s2 j = open_at s1 j" "owned s2 ks = owned s1 ks" "rnodes s2 = rnodes s1"
    by (rule advance_ok [OF w(2) f1 fd o1(1) o(2,3) o1(2) v1 n1]) (rule that, assumption+)
  have "vfs_write s (of_nat fd) buf n = Some (n, s2)"
    using o(3,4,8) w(1) a(1) by (simp add: vfs_write_def)
  moreover have "open_at s1 j = open_at s j" for j
  proof -
    have "map_option (\<lambda>v. (v_fs_data v, x)) (vnodes s1 p) = map_option (\<lambda>v. (v_fs_data v, x)) (vnodes s p)" for p and x :: nat
      using vn [of p] by (cases "vnodes s1 p"; cases "vnodes s p") auto
    then have "vnodes s1 p \<bind> (\<lambda>v. Some (v_fs_data v, x)) = vnodes s p \<bind> (\<lambda>v. Some (v_fs_data v, x))" for p and x :: nat
      by (simp add: map_option_bind [symmetric] map_conv_bind_option comp_def)
    then show ?thesis
      unfolding open_at_def m by simp
  qed
  moreover have "fs_abs s1 ks = map (\<lambda>j. (name_of s j, if j = k then write_at (content s k) off ?bs else content s j)) ks"
    by (auto simp: fs_abs_def m)
  moreover have "content s2 k = content s1 k"
    by (simp add: content_def a(6,10) split: option.split)
  ultimately show ?thesis
    using a w o(7) m(4) by (intro that [of s2 A1]) simp_all
qed

section \<open>Mounting\<close>

text \<open>The boot calls \<open>ramfs_init\<close> and \<open>vfs_mount\<close> give an empty file system.\<close>

definition mount_root :: "'a fs_state_scheme \<Rightarrow> 'a fs_state_scheme option" where
  "mount_root s =
     do { let s = vfs_init s;
          (root, s) \<leftarrow> ramfs_init s;
          if root \<noteq> 0 then Some (snd (vfs_mount s (bytes_of ''/'') root)) else None }"

lemma mount_root_ok:
  assumes v: "heap_view s A" and e: "vnodes s = Map.empty" "files s = Map.empty" "rnodes s = Map.empty"
    and r: "heap_serves (heap_of s) (sizeof_ramfs_node # sizeof_vfs_node # ns)"
  obtains rr s' A' where "mount_root s = Some s'" "fs_inv s' A' rr []" "heap_serves (heap_of s') ns" "A \<subseteq>\<^sub>m A'"
    "tasks s' = tasks s" "g_current s' = g_current s" "files s' = Map.empty" "\<And>q. q \<in> owned s' [] \<Longrightarrow> A (q - 8) = None"
proof -
  let ?s = "vfs_init s"
  have v0: "heap_view ?s A" "heap_serves (heap_of ?s) (sizeof_ramfs_node # sizeof_vfs_node # ns)"
    using v r by (simp_all add: vfs_init_def heap_view_def heap_inv_def heap_of_def)
  obtain rn s1 A1 where n: "kmalloc ?s sizeof_ramfs_node = Some (rn, s1)" "heap_view s1 A1"
    "heap_serves (heap_of s1) (sizeof_vfs_node # ns)" "same_bytes A (memory ?s) (memory s1)" "heap_state.more s1 = heap_state.more ?s"
    "block_at A1 rn (unat sizeof_ramfs_node)" "A (rn - 8) = None" "\<And>q. q \<noteq> rn - 8 \<Longrightarrow> A1 q = A q"
    by (rule served [OF v0]) (simp add: sizeof_ramfs_node_def, rule that, assumption+)
  let ?x = "\<lparr>r_name = copy_name (bytes_of ''/''), r_type = VFS_TYPE_DIR, r_size = 0, r_data = 0, r_parent = 0, r_children = 0, r_next = 0\<rparr>"
  let ?s1 = "set_rnode rn (Some ?x) s1"
  have v1: "heap_view ?s1 A1" "heap_serves (heap_of ?s1) (sizeof_vfs_node # ns)"
    using n(2,3) by (simp_all add: set_rnode_def heap_view_def heap_inv_def heap_of_def)
  obtain vn s2 A2 where w: "kmalloc ?s1 sizeof_vfs_node = Some (vn, s2)" "heap_view s2 A2"
    "heap_serves (heap_of s2) ns" "same_bytes A1 (memory ?s1) (memory s2)" "heap_state.more s2 = heap_state.more ?s1"
    "block_at A2 vn (unat sizeof_vfs_node)" "A1 (vn - 8) = None" "\<And>q. q \<noteq> vn - 8 \<Longrightarrow> A2 q = A1 q"
    by (rule served [OF v1]) (simp add: sizeof_vfs_node_def, rule that, assumption+)
  have o1: "rnodes s1 = Map.empty" "vnodes s1 = Map.empty" "files s1 = Map.empty" "tasks s1 = tasks s" "g_current s1 = g_current s"
    using more_objects [OF n(5)] e by (simp_all add: same_objects_def vfs_init_def)
  have o2: "rnodes s2 = [rn \<mapsto> ?x]" "vnodes s2 = Map.empty" "files s2 = Map.empty" "tasks s2 = tasks s" "g_current s2 = g_current s"
    using more_objects [OF w(5)] o1 by (simp_all add: same_objects_def)
  let ?v = "\<lparr>v_name = copy_name (bytes_of ''/''), v_type = VFS_TYPE_DIR, v_size = 0, v_fs_data = rn\<rparr>"
  let ?s3 = "set_rnode rn (Some (?x\<lparr>r_parent := rn\<rparr>)) (set_vnode vn (Some ?v) s2)"
  let ?s4 = "?s3\<lparr>g_root := vn\<rparr>"
  have p0: "rn \<noteq> 0" "vn \<noteq> 0" "rn \<noteq> vn"
    using n(6) w(6,7) by (auto simp: block_at_def)
  have le: "A \<subseteq>\<^sub>m A1" "A1 \<subseteq>\<^sub>m A2"
    using map_le_new [of A "rn - 8" A1, OF n(7)] n(8) map_le_new [of A1 "vn - 8" A2, OF w(7)] w(8) by blast+
  have blocks: "block_at A2 rn 0" "block_at A2 vn 0"
    using block_at_mono [OF le(2) n(6)] w(6) by (auto simp: block_at_def)
  have "ramfs_init ?s = Some (vn, ?s3)"
    using n(1) w(1) p0 by (simp add: ramfs_init_def ramfs_make_vfs_node_def Let_def o2)
  then have m: "mount_root s = Some ?s4"
    using p0(2) by (simp add: mount_root_def Let_def vfs_mount_def bytes_of_def)
  have own: "owned ?s4 [] = {rn, vn}"
    using o2 by (auto simp: owned_def buffers_def)
  have "heap_view ?s4 A2"
    using w(2) by (simp add: set_rnode_def set_vnode_def heap_view_def heap_inv_def)
  then have "fs_inv ?s4 A2 rn []"
    unfolding fs_inv_def own tree_ok_def using blocks p0(3) o2 by (auto simp: buffers_def)
  moreover have "heap_serves (heap_of ?s4) ns"
    using w(3) by (simp add: set_rnode_def set_vnode_def heap_of_def)
  moreover have "A (vn - 8) = None"
    using w(7) le(1) by (metis domI domIff map_le_def option.exhaust)
  ultimately show ?thesis
    using m own n(7) map_le_trans [OF le] o2 by (intro that [of ?s4 A2 rn]) auto
qed

section \<open>Properties\<close>

text \<open>C23: with room in the heap \<open>vfs_open\<close> of \<open>/name\<close> returns the lowest free descriptor, positioned
  at 0 of the file of that name, which is created empty if there was none; all other files and
  descriptors stay as they are.\<close>

theorem vfs_open_correct:
  assumes "fs_inv s A rr ks" and "name_ok name" and "fds_ok s" and "tasks s (g_current s) = Some t"
    and "free_fd (t_fds t) = Some fd"
    and "heap_serves (heap_of s) ((if find_file s ks name = None then [sizeof_ramfs_node] else []) @ [sizeof_vfs_node, sizeof_vfs_file])"
  shows "\<exists>s' A' ks' k. vfs_open s (SLASH # name) flags = Some (of_nat fd, s') \<and> fs_inv s' A' rr ks' \<and> fds_ok s' \<and>
    fs_abs s' ks' = (if name \<in> fst ` set (fs_abs s ks) then fs_abs s ks else (name, []) # fs_abs s ks) \<and>
    find_file s' ks' name = Some k \<and> open_at s' fd = Some (k, 0) \<and>
    (\<forall>j<MAX_FD_PER_TASK. j \<noteq> fd \<longrightarrow> open_at s' j = open_at s j)"
proof -
  have r: "heap_serves (heap_of s) ((if find_file s ks name = None then [sizeof_ramfs_node] else []) @
      [sizeof_vfs_node, sizeof_vfs_file] @ [])"
    using assms(6) by simp
  show ?thesis
    by (rule vfs_open_ok [OF assms(1-5) r, of flags]) blast
qed


text \<open>What one descriptor wrote to an empty file another descriptor of the file reads back.\<close>

theorem vfs_write_read:
  assumes "fs_inv s A rr ks" and "fds_ok s" and "fd < MAX_FD_PER_TASK" and "fd' < MAX_FD_PER_TASK" and "fd' \<noteq> fd"
    and "open_at s fd = Some (k, 0)" and "open_at s fd' = Some (k, 0)" and "k \<in> set ks" and "content s k = []"
    and "block_at A buf (unat n)" and "buf \<notin> owned s ks" and "block_at A buf' (unat n)" and "buf' \<notin> owned s ks"
    and "n \<noteq> 0" and "unat n < 2147483648" and "heap_serves (heap_of s) [n]"
  shows "\<exists>s1 s2. vfs_write s (of_nat fd) buf n = Some (n, s1) \<and> vfs_read s1 (of_nat fd') buf' n = Some (n, s2) \<and>
    load_bytes (memory s2) buf' (unat n) = load_bytes (memory s) buf (unat n)"
proof -
  let ?bs = "load_bytes (memory s) buf (unat n)"
  have fit: "0 + unat n \<le> length (content s k) \<or> content s k = [] \<and> heap_serves (heap_of s) [of_nat 0 + n]"
    using assms(9,16) by simp
  have n: "0 + unat n < 2147483648" "0 + unat n < 4294967296"
    using assms(15) by simp_all
  obtain s1 A1 where w: "vfs_write s (of_nat fd) buf n = Some (n, s1)" "fs_inv s1 A1 rr ks" "fds_ok s1"
    "content s1 k = write_at (content s k) 0 ?bs" "open_at s1 fd' = open_at s fd'" "A \<subseteq>\<^sub>m A1"
    "buf' \<in> owned s1 ks \<longrightarrow> buf' \<in> owned s ks \<or> A (buf' - 8) = None"
    by (rule vfs_write_ok [OF assms(1-3,6,8,10,11,14) n(1) fit]) (use assms(4,5) that in blast)
  have c: "content s1 k = ?bs"
    using w(4) assms(9) by (simp add: write_at_def Let_def)
  have b: "block_at A1 buf' (unat n)" "buf' \<notin> owned s1 ks"
    using block_at_mono [OF w(6) assms(12)] w(7) assms(12,13) by (auto simp: block_at_def)
  have o: "open_at s1 fd' = Some (k, 0)"
    using w(5) assms(7) by simp
  have r: "take (unat n) (drop 0 (content s1 k)) = ?bs"
    by (simp add: c)
  obtain s2 where "vfs_read s1 (of_nat fd') buf' n = Some (of_nat (length ?bs), s2)"
      "load_bytes (memory s2) buf' (length ?bs) = ?bs"
    by (rule vfs_read_ok [OF w(2,3) assms(4) o assms(8) b n(2) assms(15), unfolded r]) (use that in blast)
  then show ?thesis
    using w(1) by auto
qed

section \<open>Witnesses\<close>

text \<open>A kernel with one task and one free heap block, before the file system is mounted.\<close>

definition fs_example :: fs_state where
  "fs_example = \<lparr>memory = memory heap_free, pmm = pmm_example, free_head = 0x300000, heap_pages = [0x300000],
     pd_phys = 0x100000, cr3 = 0x100000, paging_enabled = True,
     tasks = [0x1000 \<mapsto> \<lparr>t_esp = 0, t_id = 0, t_state = TASK_RUNNING, t_next = 0x1000, t_kernel_stack_top = 0,
        t_cr3 = 0, t_fds = replicate MAX_FD_PER_TASK 0\<rparr>], g_current = 0x1000, g_next_id = 1,
     tabs = tables_example, interrupts = False, g_root = 0, vnodes = Map.empty, files = Map.empty, rnodes = Map.empty\<rparr>"

lemma fs_example_heap: "heap_view fs_example (alloc_map (memory fs_example) {0x300000})"
  using heap_free_inv by (auto simp: heap_view_def heap_inv_def fs_example_def heap_free_def heap_empty_def)

lemma fs_example_serves: "heap_serves (heap_of fs_example) [40, 40, 88, 80, 88, 80, 12, 80, 12, 40]"
  by (rule one_block_serves [where b = "0x300000" and n = 4096])
    (simp_all add: one_block_def fs_example_def heap_free_get header_ok_def block_need_def)

lemma replicate_fd: "free_fd (replicate MAX_FD_PER_TASK 0) = Some 0"
  by (simp add: free_fd_def upt_rec)

text \<open>Two buffers, then a file \<open>/a\<close> opened twice.\<close>

lemma open_at_slot:
  assumes "fs_inv s A rr ks" "fds_ok s" "tasks s (g_current s) = Some t" "j < MAX_FD_PER_TASK"
  shows "open_at s j = None \<longleftrightarrow> t_fds t ! j = 0"
proof (cases "t_fds t ! j = 0")
  case False
  then obtain f where f: "files s (t_fds t ! j) = Some f"
    using assms(2-4) by (auto simp: fds_ok_def)
  then obtain v where "vnodes s (f_node f) = Some v"
    using fs_invD(9) [OF assms(1) f] by auto
  then show ?thesis
    using False f assms(3) by (simp add: open_at_def)
qed (use assms(3) in \<open>simp add: open_at_def\<close>)

lemma fs_example_fields:
  assumes "fs_state.truncate s = fs_example"
  shows "heap_of s = heap_of fs_example" "tasks s = tasks fs_example" "g_current s = g_current fs_example"
    "vnodes s = Map.empty" "files s = Map.empty" "rnodes s = Map.empty"
  using assms by (simp_all add: fs_state.truncate_def fs_example_def heap_of_def)

lemma fs_example_truncate: "fs_state.truncate fs_example = fs_example"
  by (simp add: fs_example_def fs_state.truncate_def)

lemma heap_view_heap_of: "heap_view s A \<longleftrightarrow> heap_view (heap_of s) A"
  by (simp add: heap_view_def heap_inv_def)

lemma mounted_example:
  fixes s0 :: "'a fs_state_scheme"
  assumes s0: "fs_state.truncate s0 = fs_example"
  obtains s :: "'a fs_state_scheme" and A A' rr t buf buf' where "fs_inv s A' rr []" "fds_ok s" "tasks s (g_current s) = Some t"
    "free_fd (t_fds t) = Some 0" "\<And>j. j < MAX_FD_PER_TASK \<Longrightarrow> open_at s j = None" "heap_serves (heap_of s) [88, 80, 12, 80, 12, 40]"
    "block_at A buf 40" "block_at A buf' 40" "A \<subseteq>\<^sub>m A'" "\<And>q. q \<in> owned s [] \<Longrightarrow> A (q - 8) = None"
proof -
  have f: "heap_of s0 = heap_of fs_example" "same_objects s0 s0" "tasks s0 = tasks fs_example" "g_current s0 = g_current fs_example"
    "vnodes s0 = Map.empty" "files s0 = Map.empty" "rnodes s0 = Map.empty"
    using fs_example_fields [OF s0] by (simp_all add: same_objects_def)
  have h0: "heap_view s0 (alloc_map (memory fs_example) {0x300000})" "heap_serves (heap_of s0) [40, 40, 88, 80, 88, 80, 12, 80, 12, 40]"
    using fs_example_heap fs_example_serves f(1) heap_view_heap_of by metis+
  have n16: "unat (40 :: u32) \<le> 0xFFFFFFF0" by simp
  obtain b1 and s1 :: "'a fs_state_scheme" and A1 where b1: "heap_view s1 A1" "heap_serves (heap_of s1) [40, 88, 80, 88, 80, 12, 80, 12, 40]"
    "heap_state.more s1 = heap_state.more s0" "block_at A1 b1 (unat (40 :: u32))"
    by (rule served [OF h0 n16]) (rule that, assumption+)
  obtain b2 and s2 :: "'a fs_state_scheme" and A2 where b2: "heap_view s2 A2" "heap_serves (heap_of s2) [88, 80, 88, 80, 12, 80, 12, 40]"
    "heap_state.more s2 = heap_state.more s1" "block_at A2 b2 (unat (40 :: u32))" "A1 (b2 - 8) = None"
    "\<And>q. q \<noteq> b2 - 8 \<Longrightarrow> A2 q = A1 q"
    by (rule served [OF b1(1,2) n16]) (rule that, assumption+)
  have o: "same_objects s0 s2"
    using more_objects [of s2 s0] b1(3) b2(3) by simp
  have b1': "block_at A2 b1 (unat (40 :: u32))" "b1 \<noteq> b2"
    using block_at_mono [OF map_le_new [of A1 "b2 - 8" A2, OF b2(5)] b1(4)] b2(6) b1(4) b2(5) by (auto simp: block_at_def)
  have e: "vnodes s2 = Map.empty" "files s2 = Map.empty" "rnodes s2 = Map.empty" "tasks s2 = tasks fs_example" "g_current s2 = 0x1000"
    using o f by (simp_all add: same_objects_def fs_example_def)
  have r2: "heap_serves (heap_of s2) (sizeof_ramfs_node # sizeof_vfs_node # [88, 80, 12, 80, 12, 40])"
    using b2(2) by (simp add: sizeof_ramfs_node_def sizeof_vfs_node_def)
  obtain rr and s3 :: "'a fs_state_scheme" and A3 where m: "fs_inv s3 A3 rr []" "heap_serves (heap_of s3) [88, 80, 12, 80, 12, 40]" "A2 \<subseteq>\<^sub>m A3"
    "tasks s3 = tasks s2" "g_current s3 = g_current s2" "files s3 = Map.empty" "\<And>q. q \<in> owned s3 [] \<Longrightarrow> A2 (q - 8) = None"
    by (rule mount_root_ok [OF b2(1) e(1-3) r2]) (rule that, assumption+)
  let ?t = "\<lparr>t_esp = 0, t_id = 0, t_state = TASK_RUNNING, t_next = 0x1000, t_kernel_stack_top = 0,
        t_cr3 = 0, t_fds = replicate MAX_FD_PER_TASK 0\<rparr>"
  have t3: "tasks s3 (g_current s3) = Some ?t" "fds_ok s3"
    using m(4,5) e by (simp_all add: fs_example_def fds_ok_def)
  have fd3: "free_fd (t_fds ?t) = Some 0"
    using replicate_fd by simp
  have "open_at s3 j = None" if "j < MAX_FD_PER_TASK" for j
    using that t3(1) by (simp add: open_at_def)
  moreover have "block_at A2 b1 40" "block_at A2 b2 40"
    using b1'(1) b2(4) by simp_all
  ultimately show ?thesis
    using m t3 fd3 by (intro that [of s3 A3 rr ?t A2 b1 b2]) simp_all
qed

lemma name_97: "name_ok [97]"
  by (simp add: name_ok_def name_chars_def)

lemma serves_97: "heap_serves (heap_of s) ([88, 80, 12] @ ns) \<Longrightarrow>
    heap_serves (heap_of s) ((if find_file s [] [97] = None then [sizeof_ramfs_node] else []) @ [sizeof_vfs_node, sizeof_vfs_file] @ ns)"
  by (simp add: find_file_def sizeof_ramfs_node_def sizeof_vfs_node_def sizeof_vfs_file_def del: heap_serves.simps)

lemma two_descriptors:
  fixes s0 :: "'a fs_state_scheme"
  assumes s0: "fs_state.truncate s0 = fs_example"
  obtains s :: "'a fs_state_scheme" and A rr k buf buf' where "fs_inv s A rr [k]" "fds_ok s" "open_at s 0 = Some (k, 0)" "open_at s 1 = Some (k, 0)"
    "content s k = []" "block_at A buf 40" "buf \<notin> owned s [k]" "block_at A buf' 40" "buf' \<notin> owned s [k]"
    "heap_serves (heap_of s) [40]"
proof -
  obtain s3 :: "'a fs_state_scheme" and A2 A3 rr t b1 b2 where m: "fs_inv s3 A3 rr []" "fds_ok s3" "tasks s3 (g_current s3) = Some t"
    "free_fd (t_fds t) = Some 0" "\<And>j. j < MAX_FD_PER_TASK \<Longrightarrow> open_at s3 j = None" "heap_serves (heap_of s3) [88, 80, 12, 80, 12, 40]"
    "block_at A2 b1 40" "block_at A2 b2 40" "A2 \<subseteq>\<^sub>m A3" "\<And>q. q \<in> owned s3 [] \<Longrightarrow> A2 (q - 8) = None"
    by (rule mounted_example [OF s0]) (rule that, assumption+)
  have r3: "heap_serves (heap_of s3) ((if find_file s3 [] [97] = None then [sizeof_ramfs_node] else []) @
      [sizeof_vfs_node, sizeof_vfs_file] @ [80, 12, 40])"
    using m(6) by (intro serves_97) simp
  obtain s4 :: "'a fs_state_scheme" and A4 ks4 k where p: "fs_inv s4 A4 rr ks4" "fds_ok s4" "heap_serves (heap_of s4) [80, 12, 40]"
    "fs_abs s4 ks4 = (if [97] \<in> fst ` set (fs_abs s3 []) then fs_abs s3 [] else ([97], []) # fs_abs s3 [])"
    "find_file s4 ks4 [97] = Some k" "open_at s4 0 = Some (k, 0)"
    "\<And>j. j < MAX_FD_PER_TASK \<Longrightarrow> j \<noteq> 0 \<Longrightarrow> open_at s4 j = open_at s3 j" "A3 \<subseteq>\<^sub>m A4"
    "\<And>q. q \<in> owned s4 ks4 \<Longrightarrow> q \<in> owned s3 [] \<or> A3 (q - 8) = None"
    "ks4 = (if find_file s3 [] [97] = None then k # [] else [])"
    by (rule vfs_open_ok [OF m(1) name_97 m(2,3,4) r3, of 0]) (rule that, assumption+)
  have ks4: "ks4 = [k]"
    using p(10) by (simp add: find_file_def)
  have a4: "fs_abs s4 [k] = [([97], [])]"
    using p(4) ks4 by (simp add: fs_abs_def)
  obtain t4 where t4: "tasks s4 (g_current s4) = Some t4"
    using p(2) by (auto simp: fds_ok_def)
  have fd4: "free_fd (t_fds t4) = Some 1"
  proof -
    have "t_fds t4 ! 0 \<noteq> 0"
      using open_at_slot [OF p(1,2) t4, of 0] p(6) by simp
    moreover have "t_fds t4 ! 1 = 0"
      using open_at_slot [OF p(1,2) t4, of 1] p(7) [of 1] m(5) [of 1] by simp
    ultimately show ?thesis
      by (simp add: free_fd_def upt_rec)
  qed
  have r4: "heap_serves (heap_of s4) ((if find_file s4 ks4 [97] = None then [sizeof_ramfs_node] else []) @
      [sizeof_vfs_node, sizeof_vfs_file] @ [40])"
    using p(3,5) by (simp add: sizeof_vfs_node_def sizeof_vfs_file_def)
  obtain s5 :: "'a fs_state_scheme" and A5 ks5 k' where q: "fs_inv s5 A5 rr ks5" "fds_ok s5" "heap_serves (heap_of s5) [40]"
    "fs_abs s5 ks5 = (if [97] \<in> fst ` set (fs_abs s4 ks4) then fs_abs s4 ks4 else ([97], []) # fs_abs s4 ks4)"
    "find_file s5 ks5 [97] = Some k'" "open_at s5 1 = Some (k', 0)"
    "\<And>j. j < MAX_FD_PER_TASK \<Longrightarrow> j \<noteq> 1 \<Longrightarrow> open_at s5 j = open_at s4 j" "A4 \<subseteq>\<^sub>m A5"
    "\<And>q. q \<in> owned s5 ks5 \<Longrightarrow> q \<in> owned s4 ks4 \<or> A4 (q - 8) = None"
    "ks5 = (if find_file s4 ks4 [97] = None then k' # ks4 else ks4)"
    by (rule vfs_open_ok [OF p(1) name_97 p(2) t4 fd4 r4, of 0]) (rule that, assumption+)
  have ks5: "ks5 = [k]" "k' = k"
    using q(5,10) p(5) ks4 find_file_Some [OF q(5)] by auto
  have "fs_abs s5 [k] = [([97], [])]"
    using q(4) a4 ks4 ks5 by simp
  then have c: "content s5 k = []"
    by (simp add: fs_abs_def)
  have own: "b \<notin> owned s5 ks5" if "block_at A2 b 40" for b
  proof
    assume o: "b \<in> owned s5 ks5"
    have b: "block_at A3 b 40" "block_at A4 b 40"
      using block_at_mono [OF m(9) that] block_at_mono [OF p(8) block_at_mono [OF m(9) that]] .
    have n: "A2 (b - 8) \<noteq> None" "A3 (b - 8) \<noteq> None" "A4 (b - 8) \<noteq> None"
      using that b by (auto simp: block_at_def)
    have "b \<in> owned s4 ks4"
      using q(9) [OF o] n(3) by simp
    then have "b \<in> owned s3 []"
      using p(9) [of b] n(2) by simp
    then show False
      using m(10) [of b] n(1) by simp
  qed
  have "A2 \<subseteq>\<^sub>m A5"
    using map_le_trans [OF m(9) map_le_trans [OF p(8) q(8)]] .
  then have blocks: "block_at A5 b1 40" "block_at A5 b2 40"
    using block_at_mono m(7,8) by blast+
  show ?thesis
    using q(1,2,3,6) q(7) [of 0] p(6) c blocks own [OF m(7)] own [OF m(8)] unfolding ks5
    by (intro that [of s5 A5 rr k b1 b2]) simp_all
qed

theorem vfs_open_correct_witness:
  "\<exists>(s :: fs_state) s' A' rr ks' k. vfs_open s (SLASH # [97]) 0 = Some (0, s') \<and> fs_inv s' A' rr ks' \<and>
     fs_abs s' ks' = [([97], [])] \<and> open_at s' 0 = Some (k, 0)"
proof -
  obtain s3 :: fs_state and A2 A3 rr t b1 b2 where m: "fs_inv s3 A3 rr []" "fds_ok s3" "tasks s3 (g_current s3) = Some t"
    "free_fd (t_fds t) = Some 0" "\<And>j. j < MAX_FD_PER_TASK \<Longrightarrow> open_at s3 j = None" "heap_serves (heap_of s3) [88, 80, 12, 80, 12, 40]"
    "block_at A2 b1 40" "block_at A2 b2 40" "A2 \<subseteq>\<^sub>m A3" "\<And>q. q \<in> owned s3 [] \<Longrightarrow> A2 (q - 8) = None"
    by (rule mounted_example [OF fs_example_truncate]) (rule that, assumption+)
  have "heap_serves (heap_of s3) [88, 80, 12]"
    using heap_serves_append [of _ "[88, 80, 12]" "[80, 12, 40]"] m(6) by simp
  then have r: "heap_serves (heap_of s3) ((if find_file s3 [] [97] = None then [sizeof_ramfs_node] else []) @
      [sizeof_vfs_node, sizeof_vfs_file])"
    using serves_97 [of s3 "[]"] by simp
  have "fs_abs s3 [] = []"
    by (simp add: fs_abs_def)
  then show ?thesis
    using vfs_open_correct [OF m(1) name_97 m(2,3,4) r, of 0] by fastforce
qed


theorem vfs_write_read_witness:
  "\<exists>(s :: fs_state) s1 s2 buf buf'. vfs_write s 0 buf 40 = Some (40, s1) \<and> vfs_read s1 1 buf' 40 = Some (40, s2) \<and>
     load_bytes (memory s2) buf' 40 = load_bytes (memory s) buf 40"
proof -
  obtain s :: fs_state and A rr k buf buf' where d: "fs_inv s A rr [k]" "fds_ok s" "open_at s 0 = Some (k, 0)" "open_at s 1 = Some (k, 0)"
    "content s k = []" "block_at A buf 40" "buf \<notin> owned s [k]" "block_at A buf' 40" "buf' \<notin> owned s [k]"
    "heap_serves (heap_of s) [40]"
    by (rule two_descriptors [OF fs_example_truncate])
  have "\<exists>s1 s2. vfs_write s (of_nat 0) buf 40 = Some (40, s1) \<and> vfs_read s1 (of_nat 1) buf' 40 = Some (40, s2) \<and>
     load_bytes (memory s2) buf' (unat (40 :: u32)) = load_bytes (memory s) buf (unat (40 :: u32))"
    by (rule vfs_write_read [OF d(1,2) _ _ _ d(3,4) _ d(5)]) (use d(6-10) in simp_all)
  then have "\<exists>s1 s2. vfs_write s 0 buf 40 = Some (40, s1) \<and> vfs_read s1 1 buf' 40 = Some (40, s2) \<and>
     load_bytes (memory s2) buf' 40 = load_bytes (memory s) buf 40"
    by simp
  then show ?thesis
    by blast
qed

end
