(* ===== verification/Messages.thy ===== *)
theory Messages
  imports Ports
begin

text \<open>
  What the kernel prints: a message is a list of pieces, each written by one of the functions of
  \<open>drivers/serial.c\<close>. A fixed C string is an Isabelle string, a computed one is the list of its bytes.
\<close>

datatype piece = Str string | Hex u32 | Chr u8 | Raw "u8 list"

primrec print_piece :: "io_state \<Rightarrow> piece \<Rightarrow> io_state option" where
  "print_piece s (Str cs) = serial_write_string s (bytes_of cs)"
| "print_piece s (Hex n) = serial_write_hex s n"
| "print_piece s (Chr c) = serial_putchar s c"
| "print_piece s (Raw cs) = serial_write_string s cs"

fun print_all :: "io_state \<Rightarrow> piece list \<Rightarrow> io_state option" where
  "print_all s [] = Some s"
| "print_all s (p # ps) = do { s \<leftarrow> print_piece s p; print_all s ps }"

definition newline :: string where "newline = [CHR 0x0A]"

fun piece_text :: "piece \<Rightarrow> u8 list \<Rightarrow> bool" where
  "piece_text (Str cs) bs \<longleftrightarrow> bs = crlf (bytes_of cs)"
| "piece_text (Hex n) bs \<longleftrightarrow> (\<exists>ds. bs = [48, 120] @ ds \<and> length ds = 8 \<and> hex_value ds = unat n)"
| "piece_text (Chr c) bs \<longleftrightarrow> bs = [c]"
| "piece_text (Raw cs) bs \<longleftrightarrow> bs = crlf cs"

fun piece_ok :: "piece \<Rightarrow> bool" where
  "piece_ok (Str cs) \<longleftrightarrow> 0 \<notin> set (bytes_of cs)"
| "piece_ok (Raw cs) \<longleftrightarrow> 0 \<notin> set cs"
| "piece_ok p \<longleftrightarrow> True"

text \<open>With a live transmitter a report returns, and sends its pieces in order.\<close>

lemma print_all_sends:
  assumes "tx_live s" "\<forall>p\<in>set ps. piece_ok p"
  shows "\<exists>s' bss. print_all s ps = Some s' \<and> list_all2 piece_text ps bss \<and> sends s (concat bss) s'"
  using assms
proof (induction ps arbitrary: s)
  case Nil
  then show ?case by (simp add: sends_def)
next
  case (Cons p ps)
  have "\<exists>t bs. print_piece s p = Some t \<and> piece_text p bs \<and> sends s bs t"
  proof (cases p)
    case (Str cs)
    then show ?thesis
      using serial_write_string_sends [OF Cons.prems(1), of "bytes_of cs"] Cons.prems(2) by auto
  next
    case (Hex n)
    then show ?thesis
      using serial_write_hex_sends [OF Cons.prems(1), of n] by auto
  next
    case (Raw cs)
    then show ?thesis
      using serial_write_string_sends [OF Cons.prems(1), of cs] Cons.prems(2) by auto
  next
    case (Chr c)
    then show ?thesis
      using serial_putchar_sends [OF Cons.prems(1), of c] by auto
  qed
  then obtain t bs where t: "print_piece s p = Some t" "piece_text p bs" "sends s bs t"
    by blast
  obtain u bss where u: "print_all t ps = Some u" "list_all2 piece_text ps bss" "sends t (concat bss) u"
    using Cons.IH [OF sends_live [OF Cons.prems(1) t(3)]] Cons.prems(2) by auto
  show ?case
    using t u sends_trans [OF t(3) u(3)] by (intro exI [of _ u] exI [of _ "bs # bss"]) simp
qed

text \<open>A string is written up to its NUL, so with a live transmitter every message returns.\<close>

lemma serial_write_string_nul: "serial_write_string s cs = serial_write_string s (takeWhile (\<lambda>c. c \<noteq> 0) cs)"
  by (induction cs arbitrary: s) auto

lemma string_returns:
  assumes "tx_live s"
  shows "\<exists>s' bs. serial_write_string s cs = Some s' \<and> sends s bs s'"
  using serial_write_string_sends [OF assms, of "takeWhile (\<lambda>c. c \<noteq> 0) cs"] serial_write_string_nul [of s cs]
  by (auto dest: set_takeWhileD)

lemma print_all_returns:
  assumes "tx_live s"
  shows "\<exists>s' bs. print_all s ps = Some s' \<and> sends s bs s'"
  using assms
proof (induction ps arbitrary: s)
  case Nil
  then show ?case by (simp add: sends_def)
next
  case (Cons p ps)
  have "\<exists>t bs. print_piece s p = Some t \<and> sends s bs t"
    using string_returns [OF Cons.prems] serial_write_hex_sends [OF Cons.prems] serial_putchar_sends [OF Cons.prems]
    by (cases p) (fastforce+)
  then obtain t bs where t: "print_piece s p = Some t" "sends s bs t"
    by blast
  obtain u cs where "print_all t ps = Some u" "sends t cs u"
    using Cons.IH [OF sends_live [OF Cons.prems t(2)]] by blast
  then show ?case
    using t sends_trans [OF t(2)] by auto
qed

end
