(* ===== verification/ELF.thy ===== *)
theory ELF
  imports Heap_Client Task Messages
begin

text \<open>
  The ELF loader (\<open>fs/elf.c\<close>). \<open>elf_load\<close> copies the loadable segments of a 32-bit ELF image to
  freshly allocated user pages, \<open>elf_setup_user_stack\<close> builds the initial stack of a program, and
  \<open>elf_parse_and_print\<close> and \<open>hexdump_line\<close> report over the serial port. The progress messages of
  the first two functions are left out. The headers are read where the code reads them: the
  copy loops look at the program header again before every byte, since the bytes they write may be
  the header's.
\<close>

section \<open>Headers\<close>

record elf32_ehdr =
  e_ident :: "u8 list"
  e_type :: u16
  e_machine :: u16
  e_version :: u32
  e_entry :: u32
  e_phoff :: u32
  e_shoff :: u32
  e_flags :: u32
  e_ehsize :: u16
  e_phentsize :: u16
  e_phnum :: u16
  e_shentsize :: u16
  e_shnum :: u16
  e_shstrndx :: u16

record elf32_phdr =
  p_type :: u32
  p_offset :: u32
  p_vaddr :: u32
  p_paddr :: u32
  p_filesz :: u32
  p_memsz :: u32
  p_flags :: u32
  p_align :: u32

abbreviation PT_LOAD :: u32 where "PT_LOAD \<equiv> 1"
abbreviation sizeof_phdr :: nat where "sizeof_phdr \<equiv> 32"

definition read_ehdr :: "mem \<Rightarrow> u32 \<Rightarrow> elf32_ehdr" where
  "read_ehdr m a = \<lparr>e_ident = load_bytes m a 16, e_type = load16 m (a + 16), e_machine = load16 m (a + 18),
     e_version = load32 m (a + 20), e_entry = load32 m (a + 24), e_phoff = load32 m (a + 28),
     e_shoff = load32 m (a + 32), e_flags = load32 m (a + 36), e_ehsize = load16 m (a + 40),
     e_phentsize = load16 m (a + 42), e_phnum = load16 m (a + 44), e_shentsize = load16 m (a + 46),
     e_shnum = load16 m (a + 48), e_shstrndx = load16 m (a + 50)\<rparr>"

definition read_phdr :: "mem \<Rightarrow> u32 \<Rightarrow> elf32_phdr" where
  "read_phdr m a = \<lparr>p_type = load32 m a, p_offset = load32 m (a + 4), p_vaddr = load32 m (a + 8),
     p_paddr = load32 m (a + 12), p_filesz = load32 m (a + 16), p_memsz = load32 m (a + 20),
     p_flags = load32 m (a + 24), p_align = load32 m (a + 28)\<rparr>"

text \<open>The address of program header \<open>i\<close>, and the number of headers.\<close>

definition phdr_addr :: "mem \<Rightarrow> u32 \<Rightarrow> nat \<Rightarrow> u32" where
  "phdr_addr m elf i = elf + e_phoff (read_ehdr m elf) + of_nat i * ucast (e_phentsize (read_ehdr m elf))"

definition phdr_count :: "mem \<Rightarrow> u32 \<Rightarrow> nat" where
  "phdr_count m elf = unat (e_phnum (read_ehdr m elf))"

definition valid_ident :: "mem \<Rightarrow> u32 \<Rightarrow> bool" where
  "valid_ident m elf \<longleftrightarrow> m elf = 0x7F \<and> m (elf + 1) = 0x45 \<and> m (elf + 2) = 0x4C \<and> m (elf + 3) = 0x46 \<and>
     m (elf + 4) = 1 \<and> m (elf + 5) = 1"

section \<open>Loading\<close>

text \<open>Pass 1: lowest start, highest end, and whether there is a loadable segment.\<close>

definition extend_range :: "elf32_phdr \<Rightarrow> u32 \<times> u32 \<times> bool \<Rightarrow> u32 \<times> u32 \<times> bool" where
  "extend_range ph r =
     (case r of (min_vaddr, max_end, found_load) \<Rightarrow>
       if p_type ph \<noteq> PT_LOAD then r
       else let seg_start = p_vaddr ph; seg_end = seg_start + p_memsz ph
            in (if seg_start < min_vaddr then seg_start else min_vaddr,
                if seg_end > max_end then seg_end else max_end, True))"

definition vaddr_range :: "mem \<Rightarrow> u32 \<Rightarrow> u32 \<times> u32 \<times> bool" where
  "vaddr_range m elf =
     fold (\<lambda>i. extend_range (read_phdr m (phdr_addr m elf i))) [0..<phdr_count m elf] (0xFFFFFFFF, 0, False)"

text \<open>Pass 2, one segment: the file bytes, then zeros up to the memory size.\<close>

function copy_segment :: "mem \<Rightarrow> u32 \<Rightarrow> u32 \<Rightarrow> u32 \<Rightarrow> nat \<Rightarrow> mem" where
  "copy_segment m ph dest src j =
     (if j < unat (p_filesz (read_phdr m ph))
      then copy_segment (m(dest + of_nat j := m (src + of_nat j))) ph dest src (Suc j) else m)"
  by pat_completeness auto
termination
proof (relation "measure (\<lambda>(m, ph, dest, src, j). 4294967296 - j)")
  fix m ph dest src j
  assume "j < unat (p_filesz (read_phdr m ph))"
  then have "j < 4294967296"
    by (rule less_trans [OF _ unat_u32_lt])
  then show "((m(dest + of_nat j := m (src + of_nat j)), ph, dest, src, Suc j), m, ph, dest, src, j)
      \<in> measure (\<lambda>(m, ph, dest, src, j). 4294967296 - j)"
    by simp
qed simp

declare copy_segment.simps [simp del]

definition zero_bss :: "mem \<Rightarrow> u32 \<Rightarrow> u32 \<Rightarrow> mem" where
  "zero_bss m ph dest =
     (let h = read_phdr m ph
      in if p_memsz h > p_filesz h
         then store_bytes m (dest + p_filesz h) (replicate (unat (p_memsz h - p_filesz h)) 0) else m)"

definition load_segment :: "mem \<Rightarrow> u32 \<Rightarrow> u32 \<Rightarrow> nat \<Rightarrow> mem" where
  "load_segment m elf load_base i =
     (let ph = phdr_addr m elf i; h = read_phdr m ph
      in if p_type h \<noteq> PT_LOAD then m
         else let dest = load_base + p_vaddr h; src = elf + p_offset h
              in zero_bss (copy_segment m ph dest src 0) ph dest)"

function load_segments :: "mem \<Rightarrow> u32 \<Rightarrow> u32 \<Rightarrow> nat \<Rightarrow> mem" where
  "load_segments m elf load_base i =
     (if i < phdr_count m elf then load_segments (load_segment m elf load_base i) elf load_base (Suc i) else m)"
  by pat_completeness auto
termination
proof (relation "measure (\<lambda>(m, elf, load_base, i). 65536 - i)")
  fix m elf load_base i
  assume "i < phdr_count m elf"
  then have "i < 65536"
    using unsigned_less [of "e_phnum (read_ehdr m elf)", where ?'a = nat] by (simp add: phdr_count_def)
  then show "((load_segment m elf load_base i, elf, load_base, Suc i), m, elf, load_base, i)
      \<in> measure (\<lambda>(m, elf, load_base, i). 65536 - i)"
    by simp
qed simp

declare load_segments.simps [simp del]

text \<open>
  The result is the entry point (0 on failure) and, on success, \<open>*out_pages\<close> and \<open>*out_count\<close>. The
  list of pages is written through the result of \<open>kmalloc\<close> without a check; through NULL that is a
  page fault.
\<close>

definition page_list :: "u32 \<Rightarrow> nat \<Rightarrow> u32 list" where
  "page_list base n = map (\<lambda>i. base + of_nat i * PAGE_SIZE) [0..<n]"

definition elf_load ::
    "'a heap_state_scheme \<Rightarrow> u32 \<Rightarrow> u32 \<Rightarrow> (u32 \<times> (u32 \<times> u32) option \<times> 'a heap_state_scheme) option" where
  "elf_load s elf_data elf_size =
     (if \<not> valid_ident (memory s) elf_data then Some (0, None, s)
      else let (min_vaddr, max_end, found_load) = vaddr_range (memory s) elf_data
           in if \<not> found_load then Some (0, None, s)
              else let total_size = max_end - min_vaddr;
                       num_pages = (total_size + 4095) div 4096;
                       (base_phys, p) = pmm_alloc_contiguous_user_pages (pmm s) num_pages;
                       s = s\<lparr>pmm := p\<rparr>
                   in if base_phys = 0 then Some (0, None, s)
                      else do {
                        let load_base = base_phys - min_vaddr;
                        (out, s) \<leftarrow> kmalloc s (num_pages * 4);
                        if out = 0 then None
                        else do {
                          let m = store_words (memory s) out (page_list base_phys (unat num_pages));
                          let m = load_segments m elf_data load_base 0;
                          Some (load_base + e_entry (read_ehdr m elf_data), Some (out, num_pages), s\<lparr>memory := m\<rparr>) } })"

section \<open>The initial user stack\<close>

text \<open>A name is the list of its characters, without the NUL. The result is the stack pointer, the
  page and the state; without a free page it is 0 and \<open>*out_page\<close> is not written.\<close>

definition elf_setup_user_stack ::
    "'a heap_state_scheme \<Rightarrow> u8 list \<Rightarrow> u32 \<times> u32 \<times> 'a heap_state_scheme" where
  "elf_setup_user_stack s prog_name =
     (let name_bytes = of_nat (length prog_name) + 1;
          (ustack_page, p) = pmm_alloc_user_page (pmm s);
          s = s\<lparr>pmm := p\<rparr>
      in if ustack_page = 0 then (0, 0, s)
         else let sp = ustack_page + 4096;
                  sp = sp - name_bytes;
                  str_addr = sp;
                  m = store_bytes (memory s) sp (prog_name @ [0]);
                  sp = str_addr AND NOT 3;
                  sp = sp - 4; m = store32 m sp 0;
                  sp = sp - 4; m = store32 m sp 0;
                  sp = sp - 4; m = store32 m sp str_addr;
                  sp = sp - 4; m = store32 m sp 1
              in (sp, ustack_page, s\<lparr>memory := m\<rparr>))"

section \<open>The reports\<close>

definition phdr_type_name :: "u32 \<Rightarrow> string" where
  "phdr_type_name type =
     (if type = 0 then ''NULL'' else if type = 1 then ''LOAD'' else if type = 2 then ''DYNAMIC''
      else if type = 3 then ''INTERP'' else if type = 4 then ''NOTE'' else if type = 6 then ''PHDR'' else ''?'')"

definition phdr_flags_str :: "u32 \<Rightarrow> string" where
  "phdr_flags_str flags =
     [if flags AND 4 \<noteq> 0 then CHR ''R'' else CHR ''-'', if flags AND 2 \<noteq> 0 then CHR ''W'' else CHR ''-'',
      if flags AND 1 \<noteq> 0 then CHR ''X'' else CHR ''-'']"

definition ehdr_report :: "elf32_ehdr \<Rightarrow> piece list" where
  "ehdr_report h =
     [Str (''--- ELF Header ---'' @ newline),
      Str ''  e_type     = '', Hex (ucast (e_type h)), Str (if e_type h = 2 then '' (ET_EXEC)'' else ''''), Str newline,
      Str ''  e_machine  = '', Hex (ucast (e_machine h)), Str (if e_machine h = 3 then '' (EM_386)'' else ''''), Str newline,
      Str ''  e_version  = '', Hex (e_version h), Str newline,
      Str ''  e_entry    = '', Hex (e_entry h), Str newline,
      Str ''  e_phoff    = '', Hex (e_phoff h), Str (''  (program headers at file offset)'' @ newline),
      Str ''  e_shoff    = '', Hex (e_shoff h), Str (''  (section headers at file offset)'' @ newline),
      Str ''  e_flags    = '', Hex (e_flags h), Str newline,
      Str ''  e_ehsize   = '', Hex (ucast (e_ehsize h)), Str newline,
      Str ''  e_phentsize= '', Hex (ucast (e_phentsize h)), Str newline,
      Str ''  e_phnum    = '', Hex (ucast (e_phnum h)), Str newline,
      Str ''  e_shentsize= '', Hex (ucast (e_shentsize h)), Str newline,
      Str ''  e_shnum    = '', Hex (ucast (e_shnum h)), Str newline,
      Str ''  e_shstrndx = '', Hex (ucast (e_shstrndx h)), Str newline]"

definition phdr_report :: "nat \<Rightarrow> elf32_phdr \<Rightarrow> piece list" where
  "phdr_report i h =
     [Str ''  ['', Hex (of_nat i), Str ''] type='', Str (phdr_type_name (p_type h)), Str '' flags='',
      Str (phdr_flags_str (p_flags h)), Str newline,
      Str ''      offset='', Hex (p_offset h), Str '' vaddr='', Hex (p_vaddr h), Str '' paddr='', Hex (p_paddr h), Str newline,
      Str ''      filesz='', Hex (p_filesz h), Str '' memsz='', Hex (p_memsz h), Str '' align='', Hex (p_align h), Str newline] @
     (if p_memsz h > p_filesz h then [Str (''      (BSS: memsz > filesz)'' @ newline)] else [])"

definition elf_report :: "mem \<Rightarrow> u32 \<Rightarrow> piece list" where
  "elf_report m elf =
     [Str (''=== ELF Parse (Step 1) ==='' @ newline)] @
     (if m elf \<noteq> 0x7F \<or> m (elf + 1) \<noteq> 0x45 \<or> m (elf + 2) \<noteq> 0x4C \<or> m (elf + 3) \<noteq> 0x46
      then [Str (''ERROR: not an ELF file (bad magic)'' @ newline)]
      else if m (elf + 4) \<noteq> 1 then [Str (''ERROR: not 32-bit ELF'' @ newline)]
      else if m (elf + 5) \<noteq> 1 then [Str (''ERROR: not little-endian ELF'' @ newline)]
      else let h = read_ehdr m elf
           in [Str (''ELF: magic valid, 32-bit LE'' @ newline)] @ ehdr_report h @
              [Str (''--- Program Headers ---'' @ newline)] @
              (if e_phnum h = 0 then [Str (''  (none)'' @ newline)]
               else if unat (e_phentsize h) < sizeof_phdr then [Str (''  ERROR: e_phentsize too small'' @ newline)]
               else concat (map (\<lambda>i. phdr_report i (read_phdr m (phdr_addr m elf i))) [0..<phdr_count m elf]) @
                    [Str (''=== ELF Parse done ==='' @ newline)]))"

definition elf_parse_and_print :: "io_state \<Rightarrow> mem \<Rightarrow> u32 \<Rightarrow> u32 \<Rightarrow> io_state option" where
  "elf_parse_and_print s m elf_data elf_size = print_all s (elf_report m elf_data)"

definition hexdump_report :: "u32 \<Rightarrow> mem \<Rightarrow> u32 \<Rightarrow> u32 \<Rightarrow> piece list" where
  "hexdump_report addr m data len =
     [Hex addr, Str '': ''] @
     concat (map (\<lambda>i. let b = m (data + of_nat i)
                     in [Chr (hex_digits ! unat (drop_bit 4 b)), Chr (hex_digits ! unat (b AND 0xF)),
                         if i mod 16 = 15 \<or> i = unat len - 1 then Str newline else Chr 0x20]) [0..<unat len])"

definition hexdump_line :: "io_state \<Rightarrow> u32 \<Rightarrow> mem \<Rightarrow> u32 \<Rightarrow> u32 \<Rightarrow> io_state option" where
  "hexdump_line s addr m data len = print_all s (hexdump_report addr m data len)"

section \<open>The image in memory\<close>

text \<open>\<open>m'\<close> agrees with \<open>m\<close> on the \<open>n\<close> bytes at \<open>a\<close>.\<close>

definition same_at :: "u32 \<Rightarrow> nat \<Rightarrow> mem \<Rightarrow> mem \<Rightarrow> bool" where
  "same_at a n m m' \<longleftrightarrow> (\<forall>k<n. m' (a + of_nat k) = m (a + of_nat k))"

lemma same_atD: "same_at a n m m' \<Longrightarrow> k < n \<Longrightarrow> m' (a + of_nat k) = m (a + of_nat k)"
  by (simp add: same_at_def)

lemma same_at_load16:
  assumes "same_at a n m m'" "k + 2 \<le> n"
  shows "load16 m' (a + of_nat k) = load16 m (a + of_nat k)"
  using same_atD [OF assms(1), of k] same_atD [OF assms(1), of "k + 1"] assms(2)
  by (simp add: load16_def ac_simps)

lemma same_at_load32:
  assumes "same_at a n m m'" "k + 4 \<le> n"
  shows "load32 m' (a + of_nat k) = load32 m (a + of_nat k)"
  using same_atD [OF assms(1), of k] same_atD [OF assms(1), of "k + 1"] same_atD [OF assms(1), of "k + 2"]
    same_atD [OF assms(1), of "k + 3"] assms(2)
  by (simp add: load32_def ac_simps)

lemma same_at_load_bytes:
  assumes "same_at a n m m'" "k + j \<le> n"
  shows "load_bytes m' (a + of_nat k) j = load_bytes m (a + of_nat k) j"
proof (rule nth_equalityI)
  fix i assume "i < length (load_bytes m' (a + of_nat k) j)"
  then show "load_bytes m' (a + of_nat k) j ! i = load_bytes m (a + of_nat k) j ! i"
    using same_atD [OF assms(1), of "k + i"] assms(2) by (simp add: nth_load_bytes ac_simps)
qed simp

lemma same_at_read_ehdr:
  assumes "same_at a n m m'" "52 \<le> n"
  shows "read_ehdr m' a = read_ehdr m a"
  using same_at_load_bytes [OF assms(1), of 0 16] assms(2)
    same_at_load16 [OF assms(1), of 16] same_at_load16 [OF assms(1), of 18] same_at_load32 [OF assms(1), of 20]
    same_at_load32 [OF assms(1), of 24] same_at_load32 [OF assms(1), of 28] same_at_load32 [OF assms(1), of 32]
    same_at_load32 [OF assms(1), of 36] same_at_load16 [OF assms(1), of 40] same_at_load16 [OF assms(1), of 42]
    same_at_load16 [OF assms(1), of 44] same_at_load16 [OF assms(1), of 46] same_at_load16 [OF assms(1), of 48]
    same_at_load16 [OF assms(1), of 50]
  by (simp add: read_ehdr_def)

lemma same_at_read_phdr:
  assumes "same_at a n m m'" "k + 32 \<le> n"
  shows "read_phdr m' (a + of_nat k) = read_phdr m (a + of_nat k)"
  using same_at_load32 [OF assms(1), of k] same_at_load32 [OF assms(1), of "k + 4"]
    same_at_load32 [OF assms(1), of "k + 8"] same_at_load32 [OF assms(1), of "k + 12"]
    same_at_load32 [OF assms(1), of "k + 16"] same_at_load32 [OF assms(1), of "k + 20"]
    same_at_load32 [OF assms(1), of "k + 24"] same_at_load32 [OF assms(1), of "k + 28"] assms(2)
  by (simp add: read_phdr_def ac_simps)

definition phdrs :: "mem \<Rightarrow> u32 \<Rightarrow> elf32_phdr list" where
  "phdrs m elf = map (\<lambda>i. read_phdr m (phdr_addr m elf i)) [0..<phdr_count m elf]"

definition loads :: "mem \<Rightarrow> u32 \<Rightarrow> elf32_phdr list" where
  "loads m elf = filter (\<lambda>h. p_type h = PT_LOAD) (phdrs m elf)"

text \<open>The bytes a segment occupies in the program's address space, and what they must be.\<close>

definition seg_ivl :: "elf32_phdr \<Rightarrow> nat set" where
  "seg_ivl h = {unat (p_vaddr h)..<unat (p_vaddr h) + unat (p_memsz h)}"

definition seg_bytes :: "mem \<Rightarrow> u32 \<Rightarrow> elf32_phdr \<Rightarrow> u8 list" where
  "seg_bytes m elf h = load_bytes m (elf + p_offset h) (unat (p_filesz h)) @
     replicate (unat (p_memsz h) - unat (p_filesz h)) 0"

text \<open>An image of \<open>n\<close> bytes with at least one non-empty segment, whose tables and segments lie inside the
  image and whose segments do not overlap.\<close>

definition seg_ok :: "nat \<Rightarrow> elf32_phdr \<Rightarrow> bool" where
  "seg_ok n h \<longleftrightarrow> unat (p_offset h) + unat (p_filesz h) \<le> n \<and> unat (p_filesz h) \<le> unat (p_memsz h) \<and>
     0 < unat (p_memsz h) \<and> unat (p_vaddr h) + unat (p_memsz h) < 4294967296"

definition elf_ok :: "mem \<Rightarrow> u32 \<Rightarrow> nat \<Rightarrow> bool" where
  "elf_ok m elf n \<longleftrightarrow> valid_ident m elf \<and> 52 \<le> n \<and> unat elf + n \<le> 4294967296 \<and>
     32 \<le> unat (e_phentsize (read_ehdr m elf)) \<and>
     unat (e_phoff (read_ehdr m elf)) + phdr_count m elf * unat (e_phentsize (read_ehdr m elf)) \<le> n \<and>
     loads m elf \<noteq> [] \<and> (\<forall>h\<in>set (loads m elf). seg_ok n h) \<and>
     sorted_wrt (\<lambda>g h. seg_ivl g \<inter> seg_ivl h = {}) (loads m elf)"

lemma phdr_addr_offset:
  "phdr_addr m elf i = elf + of_nat (unat (e_phoff (read_ehdr m elf)) + i * unat (e_phentsize (read_ehdr m elf)))"
  by (simp add: phdr_addr_def ac_simps)

lemma phdr_inside:
  assumes "elf_ok m elf n" "i < phdr_count m elf"
  shows "unat (e_phoff (read_ehdr m elf)) + i * unat (e_phentsize (read_ehdr m elf)) + 32 \<le> n"
proof -
  let ?e = "unat (e_phentsize (read_ehdr m elf))"
  have "Suc i * ?e \<le> phdr_count m elf * ?e"
    using assms(2) by (intro mult_le_mono1) simp
  then show ?thesis
    using assms(1) by (simp add: elf_ok_def)
qed

lemma same_at_image:
  assumes "elf_ok m elf n" "same_at elf n m m'"
  shows "read_ehdr m' elf = read_ehdr m elf" "phdr_count m' elf = phdr_count m elf"
    "phdr_addr m' elf i = phdr_addr m elf i"
    "i < phdr_count m elf \<Longrightarrow> read_phdr m' (phdr_addr m elf i) = read_phdr m (phdr_addr m elf i)"
proof -
  show e: "read_ehdr m' elf = read_ehdr m elf"
    using same_at_read_ehdr [OF assms(2)] assms(1) by (simp add: elf_ok_def)
  then show "phdr_count m' elf = phdr_count m elf" "phdr_addr m' elf i = phdr_addr m elf i"
    by (simp_all add: phdr_count_def phdr_addr_def)
  show "read_phdr m' (phdr_addr m elf i) = read_phdr m (phdr_addr m elf i)" if "i < phdr_count m elf"
    unfolding phdr_addr_offset by (rule same_at_read_phdr [OF assms(2) phdr_inside [OF assms(1) that]])
qed

section \<open>Copying one segment\<close>

lemma range_at_add: "range_at a (m + n) = range_at a m \<union> range_at (a + of_nat m) n"
proof -
  have "(+) m ` {..<n} = {m..<m + n}"
    by (simp add: lessThan_atLeast0 add.commute [of n])
  then have "{..<m + n} = {..<m} \<union> (+) m ` {..<n}"
    by auto
  then show ?thesis
    by (simp add: range_at_def image_Un image_image ac_simps)
qed

lemma store_bytes_append:
  "store_bytes m a (xs @ ys) = store_bytes (store_bytes m a xs) (a + of_nat (length xs)) ys"
  by (induction xs arbitrary: m a) (simp_all add: ac_simps)

lemma read_phdr_cong:
  assumes "\<And>x. x \<in> range_at ph 32 \<Longrightarrow> m' x = m x"
  shows "read_phdr m' ph = read_phdr m ph"
proof -
  have "same_at ph 32 m m'"
    using assms by (auto simp: same_at_def range_at_def)
  from same_at_read_phdr [OF this, of 0] show ?thesis
    by simp
qed

text \<open>While the program header is not overwritten, the copy loop is a plain byte loop.\<close>

lemma copy_segment_bytes:
  assumes "range_at (dest + of_nat j) (unat (p_filesz (read_phdr m ph)) - j) \<inter> range_at ph 32 = {}"
  shows "copy_segment m ph dest src j =
    copy_bytes m (dest + of_nat j) (src + of_nat j) (unat (p_filesz (read_phdr m ph)) - j)"
  using assms
proof (induction m ph dest src j rule: copy_segment.induct)
  case (1 m ph dest src j)
  let ?n = "unat (p_filesz (read_phdr m ph))"
  show ?case
  proof (cases "j < ?n")
    case True
    let ?m = "m(dest + of_nat j := m (src + of_nat j))"
    have k: "?n - j = Suc (?n - Suc j)"
      using True by simp
    have apart: "dest + of_nat j \<notin> range_at ph 32" "range_at (dest + of_nat (Suc j)) (?n - Suc j) \<inter> range_at ph 32 = {}"
      using "1.prems" unfolding k range_at_Suc by (auto simp: ac_simps)
    have h: "read_phdr ?m ph = read_phdr m ph"
      using apart(1) by (intro read_phdr_cong) auto
    have "copy_segment ?m ph dest src (Suc j) =
        copy_bytes ?m (dest + of_nat (Suc j)) (src + of_nat (Suc j)) (?n - Suc j)"
      using "1.IH" [OF True] apart(2) unfolding h by blast
    then show ?thesis
      using True by (subst copy_segment.simps) (simp add: k ac_simps)
  next
    case False
    then show ?thesis
      by (subst copy_segment.simps) simp
  qed
qed

lemma load_segment_bytes:
  fixes m0 m elf i n load_base
  defines "h \<equiv> read_phdr m0 (phdr_addr m0 elf i)"
  assumes ok: "elf_ok m0 elf n" and same: "same_at elf n m0 m" and i: "i < phdr_count m0 elf"
    and seg: "p_type h = PT_LOAD" "seg_ok n h"
    and apart: "range_at (load_base + p_vaddr h) (unat (p_memsz h)) \<inter> range_at elf n = {}"
  shows "load_segment m elf load_base i = store_bytes m (load_base + p_vaddr h) (seg_bytes m0 elf h)"
proof -
  let ?ph = "phdr_addr m0 elf i" and ?dest = "load_base + p_vaddr h" and ?src = "elf + p_offset h"
  let ?f = "unat (p_filesz h)" and ?z = "unat (p_memsz h) - unat (p_filesz h)"
  have ph: "phdr_addr m elf i = ?ph" and h: "read_phdr m ?ph = h"
    using same_at_image(3,4) [OF ok same] i by (simp_all add: h_def)
  have sz: "unat (p_memsz h) = ?f + ?z"
    using seg(2) by (simp add: seg_ok_def)
  have split: "range_at ?dest (unat (p_memsz h)) = range_at ?dest ?f \<union> range_at (?dest + of_nat ?f) ?z"
    unfolding range_at_add [symmetric] by (rule arg_cong [OF sz])
  have inside: "range_at (elf + of_nat k) j \<subseteq> range_at elf n" if "k + j \<le> n" for k j
  proof -
    have "range_at elf n = range_at elf (k + (j + (n - (k + j))))"
      using that by simp
    then show ?thesis
      by (simp only: range_at_add) blast
  qed
  have "range_at ?ph 32 \<subseteq> range_at elf n" "range_at ?src ?f \<subseteq> range_at elf n"
    using inside [OF phdr_inside [OF ok i]] inside [of "unat (p_offset h)" ?f] seg(2)
    by (simp_all only: phdr_addr_offset seg_ok_def) simp
  then have clear: "range_at ?dest ?f \<inter> range_at ?ph 32 = {}" "range_at ?dest ?f \<inter> range_at ?src ?f = {}"
    "range_at (?dest + of_nat ?f) ?z \<inter> range_at ?ph 32 = {}"
    using apart [unfolded split] by blast+
  have src: "load_bytes m ?src ?f = load_bytes m0 ?src ?f"
    using same_at_load_bytes [OF same, of "unat (p_offset h)" ?f] seg(2) by (simp add: seg_ok_def)
  have c: "copy_segment m ?ph ?dest ?src 0 = store_bytes m ?dest (load_bytes m0 ?src ?f)"
    using copy_segment_bytes [of ?dest 0 m ?ph ?src] copy_bytes_store [OF clear(2), of m] clear(1) src h by simp
  have "read_phdr (store_bytes m ?dest (load_bytes m0 ?src ?f)) ?ph = read_phdr m ?ph"
    using clear(1) by (intro read_phdr_cong store_bytes_outside) auto
  then have h': "read_phdr (store_bytes m ?dest (load_bytes m0 ?src ?f)) ?ph = h"
    using h by simp
  have "zero_bss (store_bytes m ?dest (load_bytes m0 ?src ?f)) ?ph ?dest =
      store_bytes m ?dest (seg_bytes m0 elf h)"
  proof (cases "p_filesz h < p_memsz h")
    case True
    then have "unat (p_memsz h - p_filesz h) = ?z"
      by (simp add: unat_sub_no_wrap)
    then show ?thesis
      using True h' by (simp add: zero_bss_def seg_bytes_def store_bytes_append)
  next
    case False
    then have "?z = 0"
      by (simp add: word_less_nat_alt)
    then show ?thesis
      using False h' by (simp add: zero_bss_def seg_bytes_def)
  qed
  then show ?thesis
    using seg(1) c ph h by (simp add: load_segment_def Let_def)
qed

section \<open>Copying all segments\<close>

definition place :: "mem \<Rightarrow> u32 \<Rightarrow> u32 \<Rightarrow> elf32_phdr \<Rightarrow> mem \<Rightarrow> mem" where
  "place m0 elf load_base h m = store_bytes m (load_base + p_vaddr h) (seg_bytes m0 elf h)"

definition dest_at :: "u32 \<Rightarrow> elf32_phdr \<Rightarrow> u32 set" where
  "dest_at load_base h = range_at (load_base + p_vaddr h) (unat (p_memsz h))"

lemma length_seg_bytes: "seg_ok n h \<Longrightarrow> length (seg_bytes m elf h) = unat (p_memsz h)"
  by (simp add: seg_bytes_def seg_ok_def)

lemma place_outside: "seg_ok n h \<Longrightarrow> x \<notin> dest_at load_base h \<Longrightarrow> place m0 elf load_base h m x = m x"
  by (simp add: place_def dest_at_def store_bytes_outside length_seg_bytes)

lemma same_at_range: "same_at a n m m' \<longleftrightarrow> (\<forall>x\<in>range_at a n. m' x = m x)"
  by (auto simp: same_at_def range_at_def)

lemma load_segments_fold:
  assumes ok: "elf_ok m0 elf n" and apart: "\<forall>h\<in>set (loads m0 elf). dest_at load_base h \<inter> range_at elf n = {}"
    and same: "same_at elf n m0 m" and i: "i \<le> phdr_count m0 elf"
  shows "load_segments m elf load_base i =
    fold (place m0 elf load_base) (filter (\<lambda>h. p_type h = PT_LOAD) (drop i (phdrs m0 elf))) m"
  using same i
proof (induction "phdr_count m0 elf - i" arbitrary: m i)
  case 0
  then show ?case
    using same_at_image(2) [OF ok "0.prems"(1)]
    by (subst load_segments.simps) (simp add: phdrs_def)
next
  case (Suc d)
  let ?h = "read_phdr m0 (phdr_addr m0 elf i)" and ?m = "load_segment m elf load_base i"
  have i: "i < phdr_count m0 elf"
    using Suc.hyps(2) by simp
  have d: "drop i (phdrs m0 elf) = ?h # drop (Suc i) (phdrs m0 elf)"
    using i Cons_nth_drop_Suc [of i "phdrs m0 elf"] by (simp add: phdrs_def)
  have m: "?m = (if p_type ?h = PT_LOAD then place m0 elf load_base ?h m else m) \<and> same_at elf n m0 ?m"
  proof (cases "p_type ?h = PT_LOAD")
    case True
    then have h: "?h \<in> set (loads m0 elf)"
      using i by (auto simp: loads_def phdrs_def)
    then have seg: "seg_ok n ?h" "dest_at load_base ?h \<inter> range_at elf n = {}"
      using ok apart by (auto simp: elf_ok_def)
    have "?m = place m0 elf load_base ?h m"
      unfolding place_def
      by (rule load_segment_bytes [OF ok Suc.prems(1) i True seg(1) seg(2) [unfolded dest_at_def]])
    moreover have "place m0 elf load_base ?h m x = m0 x" if "x \<in> range_at elf n" for x
      using place_outside [OF seg(1), of x load_base m0 elf m] seg(2) that Suc.prems(1) unfolding same_at_range by auto
    ultimately show ?thesis
      using True unfolding same_at_range by simp
  next
    case False
    then show ?thesis
      using same_at_image(3,4) [OF ok Suc.prems(1)] i Suc.prems(1) by (simp add: load_segment_def)
  qed
  have "load_segments m elf load_base i = load_segments ?m elf load_base (Suc i)"
    using i same_at_image(2) [OF ok Suc.prems(1)] by (subst load_segments.simps) simp
  also have "\<dots> = fold (place m0 elf load_base) (filter (\<lambda>h. p_type h = PT_LOAD) (drop (Suc i) (phdrs m0 elf))) ?m"
    using Suc.hyps(2) m i by (intro Suc.hyps(1)) auto
  finally show ?case
    using m by (simp add: d)
qed

lemma fold_place_outside:
  assumes "\<forall>h\<in>set hs. seg_ok n h \<and> x \<notin> dest_at load_base h"
  shows "fold (place m0 elf load_base) hs m x = m x"
  using assms by (induction hs arbitrary: m) (simp_all add: place_outside [of n])

lemma fold_place_inside:
  assumes "\<forall>h\<in>set hs. seg_ok n h" "sorted_wrt (\<lambda>g h. dest_at load_base g \<inter> dest_at load_base h = {}) hs"
    and "h \<in> set hs"
  shows "load_bytes (fold (place m0 elf load_base) hs m) (load_base + p_vaddr h) (unat (p_memsz h)) = seg_bytes m0 elf h"
  using assms
proof (induction hs arbitrary: m)
  case (Cons g hs)
  show ?case
  proof (cases "h \<in> set hs")
    case True
    then show ?thesis
      using Cons by simp
  next
    case False
    then have h: "h = g" "seg_ok n g"
      using Cons.prems by auto
    have "load_bytes (fold (place m0 elf load_base) hs (place m0 elf load_base g m)) (load_base + p_vaddr g) (unat (p_memsz g)) =
        load_bytes (place m0 elf load_base g m) (load_base + p_vaddr g) (unat (p_memsz g))"
    proof (rule load_bytes_cong, rule fold_place_outside)
      fix x assume "x \<in> range_at (load_base + p_vaddr g) (unat (p_memsz g))"
      then show "\<forall>h\<in>set hs. seg_ok n h \<and> x \<notin> dest_at load_base h"
        using Cons.prems(1,2) by (auto simp: dest_at_def)
    qed
    also have "\<dots> = seg_bytes m0 elf g"
      using load_store_bytes [of "seg_bytes m0 elf g" m "load_base + p_vaddr g"] length_seg_bytes [OF h(2), of m0 elf]
        unat_u32_le [of "p_memsz g"]
      by (simp add: place_def)
    finally show ?thesis
      using h(1) by simp
  qed
qed simp

text \<open>Segments that do not overlap in the program's address space do not overlap where they are loaded.\<close>

lemma dest_at_vaddr:
  assumes "seg_ok n h" "x \<in> dest_at load_base h"
  shows "unat (x - load_base) \<in> seg_ivl h"
proof -
  obtain i where i: "x = load_base + p_vaddr h + of_nat i" "i < unat (p_memsz h)"
    using assms(2) by (auto simp: dest_at_def range_at_def)
  have ui: "unat (of_nat i :: u32) = i"
    using i(2) unat_u32_lt [of "p_memsz h"] by (intro unat_of_nat_u32) linarith
  have "unat (p_vaddr h + of_nat i) = unat (p_vaddr h) + i"
    using assms(1) i(2) ui by (subst unat_add_no_wrap) (simp_all add: seg_ok_def)
  moreover have "x - load_base = p_vaddr h + of_nat i"
    using i(1) by simp
  ultimately show ?thesis
    using i(2) by (simp add: seg_ivl_def)
qed

lemma dests_apart:
  assumes "elf_ok m elf n"
  shows "sorted_wrt (\<lambda>g h. dest_at load_base g \<inter> dest_at load_base h = {}) (loads m elf)"
proof (rule sorted_wrt_mono_rel [rotated])
  show "sorted_wrt (\<lambda>g h. seg_ivl g \<inter> seg_ivl h = {}) (loads m elf)"
    using assms by (simp add: elf_ok_def)
  show "dest_at load_base g \<inter> dest_at load_base h = {}"
    if "g \<in> set (loads m elf)" "h \<in> set (loads m elf)" "seg_ivl g \<inter> seg_ivl h = {}" for g h
    using that dest_at_vaddr [of n g] dest_at_vaddr [of n h] assms unfolding elf_ok_def by blast
qed

section \<open>The address range of an image\<close>

definition image_base :: "mem \<Rightarrow> u32 \<Rightarrow> u32" where
  "image_base m elf = Min (p_vaddr ` set (loads m elf))"

definition image_size :: "mem \<Rightarrow> u32 \<Rightarrow> nat" where
  "image_size m elf = Max ((\<lambda>h. unat (p_vaddr h) + unat (p_memsz h)) ` set (loads m elf)) - unat (image_base m elf)"

lemma fold_extend_loads: "fold extend_range hs r = fold extend_range (filter (\<lambda>h. p_type h = PT_LOAD) hs) r"
  by (induction hs arbitrary: r) (simp_all add: extend_range_def split: prod.split)

lemma fold_extend_range:
  assumes "\<forall>h\<in>set hs. p_type h = PT_LOAD \<and> seg_ok n h" "fold extend_range hs (a, b, f) = (mn, mx, fl)"
  shows "mn \<le> a \<and> (\<forall>h\<in>set hs. mn \<le> p_vaddr h) \<and> (mn = a \<or> mn \<in> p_vaddr ` set hs) \<and>
    unat b \<le> unat mx \<and> (\<forall>h\<in>set hs. unat (p_vaddr h) + unat (p_memsz h) \<le> unat mx) \<and>
    (mx = b \<or> unat mx \<in> (\<lambda>h. unat (p_vaddr h) + unat (p_memsz h)) ` set hs) \<and> fl = (f \<or> hs \<noteq> [])"
  using assms
proof (induction hs arbitrary: a b f)
  case (Cons h hs)
  let ?a = "min a (p_vaddr h)" and ?b = "max b (p_vaddr h + p_memsz h)"
  have h: "p_type h = PT_LOAD" "unat (p_vaddr h + p_memsz h) = unat (p_vaddr h) + unat (p_memsz h)"
    using Cons.prems(1) unat_add_no_wrap [of "p_vaddr h" "p_memsz h"] by (simp_all add: seg_ok_def)
  have e: "extend_range h (a, b, f) = (?a, ?b, True)"
    using h(1) by (auto simp: extend_range_def Let_def min_def max_def not_le not_less)
  have ih: "mn \<le> ?a \<and> (\<forall>h\<in>set hs. mn \<le> p_vaddr h) \<and> (mn = ?a \<or> mn \<in> p_vaddr ` set hs) \<and>
    unat ?b \<le> unat mx \<and> (\<forall>h\<in>set hs. unat (p_vaddr h) + unat (p_memsz h) \<le> unat mx) \<and>
    (mx = ?b \<or> unat mx \<in> (\<lambda>h. unat (p_vaddr h) + unat (p_memsz h)) ` set hs) \<and> fl = (True \<or> hs \<noteq> [])"
    using Cons.prems e by (intro Cons.IH) auto
  have "unat ?b = max (unat b) (unat (p_vaddr h) + unat (p_memsz h))"
    using h(2) by (simp add: max_def word_le_nat_alt)
  moreover have "?b = b \<or> unat ?b = unat (p_vaddr h) + unat (p_memsz h)" "?a = a \<or> ?a = p_vaddr h" "?a \<le> a" "?a \<le> p_vaddr h"
    using h(2) by (auto simp: max_def min_def)
  ultimately show ?case
    using ih by auto
qed auto

lemma vaddr_range_image:
  assumes "elf_ok m elf n"
  obtains mx where "vaddr_range m elf = (image_base m elf, mx, True)" "unat (mx - image_base m elf) = image_size m elf"
    "0 < image_size m elf" "\<And>h. h \<in> set (loads m elf) \<Longrightarrow> image_base m elf \<le> p_vaddr h \<and>
      unat (p_vaddr h) + unat (p_memsz h) \<le> unat (image_base m elf) + image_size m elf"
proof -
  let ?L = "set (loads m elf)" and ?fin = "\<lambda>h. unat (p_vaddr h) + unat (p_memsz h)"
  obtain mn mx fl where r: "vaddr_range m elf = (mn, mx, fl)"
    by (cases "vaddr_range m elf")
  have L: "\<forall>h\<in>?L. p_type h = PT_LOAD \<and> seg_ok n h" "loads m elf \<noteq> []"
    using assms by (auto simp: elf_ok_def loads_def)
  have fe: "fold extend_range (phdrs m elf) (0xFFFFFFFF, 0, False) = (mn, mx, fl)"
    using r by (simp add: vaddr_range_def phdrs_def fold_map comp_def)
  have "fold extend_range (loads m elf) (0xFFFFFFFF, 0, False) = (mn, mx, fl)"
    unfolding loads_def fold_extend_loads [symmetric] by (rule fe)
  note e = fold_extend_range [OF L(1) this]
  obtain g where g: "g \<in> ?L"
    using L(2) by (cases "loads m elf") auto
  have pos: "?fin h < 4294967296" "0 < unat (p_memsz h)" if "h \<in> ?L" for h
    using L(1) that by (auto simp: seg_ok_def)
  have mx: "unat mx \<in> ?fin ` ?L"
    using e pos [OF g] g by fastforce
  have "mn \<noteq> 0xFFFFFFFF"
  proof
    assume "mn = 0xFFFFFFFF"
    then have "unat (0xFFFFFFFF :: u32) \<le> unat (p_vaddr g)"
      using e g word_le_nat_alt by metis
    then show False
      using pos [OF g] by simp
  qed
  then have mn: "mn \<in> p_vaddr ` ?L"
    using e by blast
  have base: "image_base m elf = mn"
    unfolding image_base_def using mn e by (intro Min_eqI) auto
  have mxe: "Max (?fin ` ?L) = unat mx"
    using mx e by (intro Max_eqI) auto
  have lt: "unat mn < unat mx"
    using mn e pos by fastforce
  have sub: "unat (mx - mn) = unat mx - unat mn"
    using lt by (intro unat_sub_no_wrap) (simp add: word_le_nat_alt)
  show ?thesis
    using r e L(2) lt sub by (intro that [of mx]) (auto simp: base image_size_def mxe)
qed

section \<open>Loading an image\<close>

text \<open>Every loadable segment is in place when the image's lowest address is at \<open>page_addr i\<close>.\<close>

definition elf_loaded :: "mem \<Rightarrow> u32 \<Rightarrow> nat \<Rightarrow> mem \<Rightarrow> bool" where
  "elf_loaded m0 elf i m \<longleftrightarrow> (\<forall>h\<in>set (loads m0 elf).
     load_bytes m (page_addr i + (p_vaddr h - image_base m0 elf)) (unat (p_memsz h)) = seg_bytes m0 elf h)"

definition pages_for :: "nat \<Rightarrow> nat" where
  "pages_for sz = (sz + 4095) div 4096"

text \<open>What a successful load from state \<open>s\<close> leaves behind.\<close>

definition loaded_ok ::
    "'a heap_state_scheme \<Rightarrow> (u32 \<rightharpoonup> nat) \<Rightarrow> nat set \<Rightarrow> u32 \<Rightarrow> u32 \<Rightarrow> u32 \<Rightarrow> u32 \<Rightarrow> 'a heap_state_scheme \<Rightarrow> nat \<Rightarrow>
     (u32 \<rightharpoonup> nat) \<Rightarrow> nat set \<Rightarrow> bool" where
  "loaded_ok s A Z elf ent out n s' i A' Z' \<longleftrightarrow>
     unat n = pages_for (image_size (memory s) elf) \<and> {i..<i + unat n} \<subseteq> free_set (pmm s) \<inter> user_zone \<and>
     ent = page_addr i + (e_entry (read_ehdr (memory s) elf) - image_base (memory s) elf) \<and>
     elf_loaded (memory s) elf i (memory s') \<and>
     (\<forall>j<unat n. load32 (memory s') (out + 4 * of_nat j) = page_addr (i + j)) \<and>
     heap_owns s' A' Z' \<and> heap_state.more s' = heap_state.more s \<and>
     Z' \<subseteq> Z \<union> page_bytes (free_set (pmm s) \<inter> kernel_zone) \<and> (Z \<subseteq> heap_page_bytes s \<longrightarrow> Z' \<subseteq> heap_page_bytes s') \<and>
     block_at A' out (4 * unat n) \<and> A (out - 8) = None \<and> (\<forall>q. q \<noteq> out - 8 \<longrightarrow> A' q = A q) \<and>
     free_set (pmm s') \<subseteq> free_set (pmm s) - {i..<i + unat n} \<and>
     free_set (pmm s) - free_set (pmm s') \<subseteq> {i..<i + unat n} \<union> kernel_zone \<and>
     changes_only (Z \<union> page_bytes (free_set (pmm s) \<inter> kernel_zone) \<union> page_bytes {i..<i + unat n}) (memory s) (memory s') \<and>
     same_bytes A (memory s) (memory s')"

lemma dest_at_pages:
  assumes h: "seg_ok n h" and mn: "mn \<le> p_vaddr h" "unat (p_vaddr h) + unat (p_memsz h) \<le> unat mn + 4096 * k"
    and i: "0x100000 + 4096 * (i + k) < 4294967296" and x: "x \<in> dest_at (page_addr i - mn) h"
  shows "unat x \<in> page_bytes {i..<i + k}"
proof -
  have v: "unat (x - (page_addr i - mn)) \<in> seg_ivl h"
    by (rule dest_at_vaddr [OF h x])
  let ?v = "x - (page_addr i - mn)"
  have le: "mn \<le> ?v"
    using v mn(1) by (simp add: seg_ivl_def word_le_nat_alt)
  have uv: "unat (?v - mn) = unat ?v - unat mn"
    by (rule unat_sub_no_wrap [OF le])
  have "unat ?v < unat (p_vaddr h) + unat (p_memsz h)" "unat mn \<le> unat ?v"
    using v le by (simp_all add: seg_ivl_def word_le_nat_alt)
  then have lt: "unat (?v - mn) < 4096 * k"
    unfolding uv using mn(2) by arith
  have pa: "unat (page_addr i) = 0x100000 + 4096 * i"
    using i by (intro unat_page_addr) simp
  have "x = page_addr i + (?v - mn)"
    by simp
  moreover have "unat (page_addr i + (?v - mn)) = unat (page_addr i) + unat (?v - mn)"
    using pa lt i by (intro unat_add_no_wrap) simp
  ultimately have "unat x = 0x100000 + 4096 * i + unat (?v - mn)"
    using pa by simp
  then show ?thesis
    using lt by (simp add: page_bytes_ivl)
qed

lemma pages_for_word:
  assumes "unat (t :: u32) \<le> 0xFFFFF000"
  shows "unat ((t + 4095) div 4096) = pages_for (unat t)"
proof -
  have "unat (t + 4095) = unat t + 4095"
    using assms by (intro trans [OF unat_add_no_wrap]) simp_all
  then show ?thesis
    by (simp add: pages_for_def unat_div)
qed

lemma pages_for_wrap:
  assumes "0xFFFFF000 < unat (t :: u32)"
  shows "(t + 4095) div 4096 = 0"
proof -
  have "unat (t + 4095) = unat t + 4095 - 4294967296"
    using assms by (intro trans [OF unat_add_wrap]) simp_all
  then have "unat (t + 4095) < 4096"
    using unat_u32_lt [of t] by linarith
  then show ?thesis
    by (simp add: u32_eq_iff unat_div)
qed

lemma free_set_bound: "pmm_wf p \<Longrightarrow> i \<in> free_set p \<Longrightarrow> 0x100000 + 4096 * Suc i < 4294967296"
  by (auto simp: pmm_wf_def free_set_def)

lemma no_wrapped_run:
  assumes "pmm_wf p" "unat (t :: u32) \<ge> 0xFFFFF000"
  shows "\<not> {i..<i + pages_for (unat t)} \<subseteq> free_set p \<inter> user_zone"
proof
  assume sub: "{i..<i + pages_for (unat t)} \<subseteq> free_set p \<inter> user_zone"
  have "(0xFFFFF000 + 4095) div 4096 \<le> pages_for (unat t)"
    unfolding pages_for_def using assms(2) by (intro div_le_mono) simp
  then have "1048575 \<le> pages_for (unat t)"
    by simp
  then have "i + 1048574 \<in> free_set p"
    using sub by auto
  from free_set_bound [OF assms(1) this] show False
    by simp
qed

lemma elf_load_run:
  assumes own: "heap_owns s A Z" and ok: "elf_ok (memory s) elf len"
    and apart: "{unat elf..<unat elf + len} \<inter> (Z \<union> page_bytes (free_set (pmm s))) = {}"
    and alloc: "pmm_alloc_contiguous_user_pages (pmm s) n = (page_addr i, p)" "page_addr i \<noteq> 0"
    and i: "{i..<i + unat n} \<subseteq> free_set (pmm s) \<inter> user_zone" "pmm_wf p" "free_set p = free_set (pmm s) - {i..<i + unat n}"
    and n: "n \<noteq> 0" "unat n = pages_for (image_size (memory s) elf)"
    and k: "kmalloc (s\<lparr>pmm := p\<rparr>) (n * 4) = Some (out, s2)" "out \<noteq> 0"
  defines "m \<equiv> load_segments (store_words (memory s2) out (page_list (page_addr i) (unat n))) elf
      (page_addr i - image_base (memory s) elf) 0"
  shows "\<exists>A' Z'. loaded_ok s A Z elf (page_addr i - image_base (memory s) elf + e_entry (read_ehdr m elf)) out n
    (s2\<lparr>memory := m\<rparr>) i A' Z'"
proof -
  let ?m0 = "memory s" and ?mn = "image_base (memory s) elf" and ?P = "{i..<i + unat n}"
  let ?lb = "page_addr i - ?mn" and ?L = "loads (memory s) elf" and ?s1 = "s\<lparr>pmm := p\<rparr>"
  let ?m1 = "store_words (memory s2) out (page_list (page_addr i) (unat n))"
  note wf = heap_owns_wf [OF own]
  have pn: "0 < unat n"
    using n(1) by (simp add: unat_gt_0)
  have in_mem: "0x100000 + 4096 * (i + unat n) < 4294967296"
  proof -
    have "i + unat n - 1 \<in> {i..<i + unat n}"
      using pn by auto
    then have "i + unat n - 1 \<in> free_set (pmm s)"
      using i(1) by blast
    from free_set_bound [OF wf(1) this] show ?thesis
      using pn by simp
  qed
  then have n4: "unat (n * 4) = 4 * unat n"
    by (subst unat_mult_no_wrap) simp_all
  have own1: "heap_owns ?s1 A Z"
    by (rule heap_owns_elsewhere [OF own, of "{}"]) (use i in auto)
  obtain A2 Z2 where st: "malloc_step ?s1 A Z (n * 4) out s2 A2 Z2"
    using kmalloc_step [OF own1, of "n * 4"] k(1) by auto
  let ?K = "page_bytes (free_set (pmm s) \<inter> kernel_zone)"
  have K1: "page_bytes (free_set p \<inter> kernel_zone) \<subseteq> ?K"
    using i(3) by (intro page_bytes_mono) auto
  have st': "heap_owns s2 A2 Z2" "heap_state.more s2 = heap_state.more s" "free_set (pmm s2) \<subseteq> free_set p"
      "free_set p - free_set (pmm s2) \<subseteq> kernel_zone" "Z2 \<subseteq> Z \<union> ?K"
      "Z \<subseteq> heap_page_bytes s \<longrightarrow> Z2 \<subseteq> heap_page_bytes s2" "changes_only (Z \<union> ?K) ?m0 (memory s2)"
      "same_bytes A ?m0 (memory s2)"
    using st K1 changes_only_mono [of "Z \<union> page_bytes (free_set p \<inter> kernel_zone)" ?m0 "memory s2" "Z \<union> ?K"]
    unfolding malloc_step_def by (auto simp: heap_page_bytes_def)
  obtain j where j: "8 dvd unat out" "A (out - 8) = None" "A2 = A(out - 8 \<mapsto> j)" "4 * unat n + 8 \<le> j"
  proof -
    have "unat (n * 4) \<le> 0xFFFFFFF0"
      using n4 in_mem by simp
    then show ?thesis
      using st k(2) n4 that unfolding malloc_step_def by auto
  qed
  have blk: "{unat (out - 8)..<unat (out - 8) + j} \<subseteq> Z2"
    by (rule heap_owns_block [OF st'(1)]) (simp add: j(3))
  have o8: "unat (out - 8) = unat out - 8" "8 \<le> unat out"
  proof -
    show *: "8 \<le> unat out"
      using j(1) k(2) by (auto simp: u32_eq_iff dvd_imp_le)
    show "unat (out - 8) = unat out - 8"
      using * by (simp add: unat_sub_no_wrap word_le_nat_alt)
  qed
  have data: "{unat out..<unat out + 4 * unat n} \<subseteq> {unat (out - 8) + 8..<unat (out - 8) + j}"
    using o8 j(4) by auto
  have dataZ: "{unat out..<unat out + 4 * unat n} \<subseteq> Z2"
  proof -
    have "{unat (out - 8) + 8..<unat (out - 8) + j} \<subseteq> {unat (out - 8)..<unat (out - 8) + j}"
      by auto
    then show ?thesis
      using data blk by blast
  qed
  have out_end: "unat out + 4 * unat n \<le> 4294967296"
  proof -
    have "unat out + 4 * unat n - 1 \<in> {unat out..<unat out + 4 * unat n}"
      using pn by auto
    from subsetD [OF data this] have "unat out + 4 * unat n - 1 \<in> {unat (out - 8)..<unat (out - 8) + j}"
      by simp
    then have "unat out + 4 * unat n - 1 \<in> {0x100000..<0x800000}"
      using blk heap_owns_wf(3) [OF st'(1)] by blast
    then show ?thesis unfolding atLeastLessThan_iff by arith
  qed
  have al: "aligned4 out"
    using j(1) by (auto simp: aligned4_unat elim: dvd_trans [rotated])
  have c1: "changes_only {unat out..<unat out + 4 * unat n} (memory s2) ?m1"
    using store_words_changes [of out "page_list (page_addr i) (unat n)" "memory s2"] out_end by (simp add: page_list_def)
  have own2: "heap_owns (s2\<lparr>memory := ?m1\<rparr>) A2 Z2"
  proof (rule heap_owns_write [OF st'(1), of "out - 8" j])
    show "A2 (out - 8) = Some j"
      by (simp add: j(3))
    show "?m1 x = memory s2 x" if "\<not> (unat (out - 8) + 8 \<le> unat x \<and> unat x < unat (out - 8) + j)" for x
    proof -
      have "unat x \<notin> {unat out..<unat out + 4 * unat n}"
        using that subsetD [OF data, of "unat x"] by auto
      then show ?thesis
        using c1 by (simp add: changes_only_def)
    qed
  qed
  have Z2: "Z2 \<inter> page_bytes ?P = {}"
  proof -
    have "Z \<inter> page_bytes ?P = {}"
      using wf(2) page_bytes_mono [of ?P "free_set (pmm s)"] i(1) by blast
    moreover have "?K \<inter> page_bytes ?P = {}"
    proof -
      have "free_set (pmm s) \<inter> kernel_zone \<inter> ?P = {}"
        using i(1) by auto
      then show ?thesis
        by (auto simp: mem_page_bytes)
    qed
    ultimately show ?thesis
      using st'(5) by blast
  qed
  have c01: "changes_only (Z \<union> ?K) ?m0 ?m1"
    by (rule changes_only_trans [OF st'(7) c1]) (use dataZ st'(5) in blast)+
  have elf_out: "unat x \<notin> Z \<union> page_bytes (free_set (pmm s))" if "x \<in> range_at elf len" for x
  proof -
    have "unat elf + len \<le> 4294967296"
      using ok by (simp add: elf_ok_def)
    then show ?thesis
      using that apart range_at_no_wrap [of elf len] by auto
  qed
  have KP: "?K \<subseteq> page_bytes (free_set (pmm s))" "page_bytes ?P \<subseteq> page_bytes (free_set (pmm s))"
    using i(1) by (intro page_bytes_mono; auto)+
  have same1: "same_at elf len ?m0 ?m1"
    unfolding same_at_range
  proof
    fix x assume "x \<in> range_at elf len"
    then have "unat x \<notin> Z \<union> ?K"
      using elf_out KP(1) by blast
    then show "?m1 x = ?m0 x"
      using c01 by (simp add: changes_only_def)
  qed
  have segs: "\<forall>h\<in>set ?L. seg_ok len h"
    using ok by (simp add: elf_ok_def)
  obtain mx where vr: "\<And>h. h \<in> set ?L \<Longrightarrow> ?mn \<le> p_vaddr h \<and>
      unat (p_vaddr h) + unat (p_memsz h) \<le> unat ?mn + image_size ?m0 elf"
    using vaddr_range_image [OF ok] by metis
  have size: "image_size ?m0 elf \<le> 4096 * unat n"
    unfolding n(2) pages_for_def by linarith
  have dest: "unat x \<in> page_bytes ?P" if "h \<in> set ?L" "x \<in> dest_at ?lb h" for h x
  proof (rule dest_at_pages [of len h ?mn "unat n" i x])
    show "seg_ok len h" "?mn \<le> p_vaddr h"
      using segs vr that(1) by auto
    show "unat (p_vaddr h) + unat (p_memsz h) \<le> unat ?mn + 4096 * unat n"
      using vr [OF that(1)] size by linarith
  qed (use in_mem that(2) in simp_all)
  have apart': "\<forall>h\<in>set ?L. dest_at ?lb h \<inter> range_at elf len = {}"
    using dest elf_out KP(2) by blast
  have m: "m = fold (place ?m0 elf ?lb) ?L ?m1"
    unfolding m_def using load_segments_fold [OF ok apart' same1, of 0] by (simp add: loads_def)
  have c2: "changes_only (page_bytes ?P) ?m1 m"
    unfolding changes_only_def m using fold_place_outside [of ?L len] segs dest by blast
  have own3: "heap_owns (s2\<lparr>memory := m\<rparr>) A2 Z2"
    by (rule heap_owns_elsewhere [OF own2, of "page_bytes ?P"])
      (use c2 Z2 heap_owns_wf(1) [OF st'(1)] in auto)
  have same2: "same_at elf len ?m0 m"
    unfolding same_at_range
  proof
    fix x assume x: "x \<in> range_at elf len"
    then have "unat x \<notin> page_bytes ?P"
      using elf_out KP(2) by blast
    then show "m x = ?m0 x"
      using c2 same1 x unfolding same_at_range changes_only_def by simp
  qed
  have list: "load32 m (out + 4 * of_nat q) = page_addr (i + q)" if q: "q < unat n" for q
  proof -
    have "load32 m (out + 4 * of_nat q) = load32 ?m1 (out + 4 * of_nat q)"
    proof (rule load32_cong)
      fix x assume "x \<in> word_at (out + 4 * of_nat q)"
      moreover have "unat (out + 4 * of_nat q :: u32) = unat out + 4 * q"
      proof -
        have "unat (4 * of_nat q :: u32) = 4 * q"
          using q out_end unat_of_nat_u32 [of "4 * q"] by simp
        then show ?thesis
          using q out_end by (subst unat_add_no_wrap) simp_all
      qed
      moreover have "aligned4 (out + 4 * of_nat q)"
        using al aligned4_times4 by (rule aligned4_arith)
      ultimately have "unat x \<in> {unat out..<unat out + 4 * unat n}"
        using q word_at_unat [of "out + 4 * of_nat q" x] by auto
      then have "unat x \<notin> page_bytes ?P"
        using dataZ Z2 by blast
      then show "m x = ?m1 x"
        using c2 by (simp add: changes_only_def)
    qed
    also have "\<dots> = page_list (page_addr i) (unat n) ! q"
      using q out_end by (intro load_store_words [OF al]) (simp_all add: page_list_def)
    also have "\<dots> = page_addr (i + q)"
      using q by (simp add: page_list_def page_addr_def algebra_simps)
    finally show ?thesis .
  qed
  have loaded: "elf_loaded ?m0 elf i m"
    unfolding elf_loaded_def m
    using fold_place_inside [where load_base = ?lb and m = ?m1, OF segs dests_apart [OF ok]]
    by (simp add: algebra_simps)
  have sb: "same_bytes A ?m0 m"
    unfolding same_bytes_def
  proof (intro allI impI)
    fix c q and x :: u32
    assume x: "A c = Some q" "unat c \<le> unat x" "unat x < unat c + q"
    then have "unat x \<in> Z"
      using heap_owns_block [OF own x(1)] by auto
    then have np: "unat x \<notin> page_bytes ?P"
      using wf(2) KP(2) by blast
    have "c \<noteq> out - 8"
      using x(1) j(2) by auto
    then have "{unat c..<unat c + q} \<inter> {unat (out - 8)..<unat (out - 8) + j} = {}"
      using kheap.view_disjoint [OF heap_owns_view [OF st'(1)], of c q "out - 8" j] x(1) j(3) by simp
    then have "unat x \<notin> {unat out..<unat out + 4 * unat n}"
      using x(2,3) data by fastforce
    then show "m x = ?m0 x"
      using c1 c2 np st'(8) x unfolding changes_only_def same_bytes_def by metis
  qed
  have "changes_only (Z \<union> ?K \<union> page_bytes ?P) ?m0 m"
    by (rule changes_only_trans [OF c01 c2]) auto
  moreover have "free_set (pmm s2) \<subseteq> free_set (pmm s) - ?P"
    using st'(3) i(3) by blast
  moreover have "free_set (pmm s) - free_set (pmm s2) \<subseteq> ?P \<union> kernel_zone"
    using st'(4) i(3) by blast
  moreover have "heap_state.more (s2\<lparr>memory := m\<rparr>) = heap_state.more s" "heap_page_bytes (s2\<lparr>memory := m\<rparr>) = heap_page_bytes s2"
    using st'(2) by (simp_all add: heap_page_bytes_def)
  moreover have "block_at A2 out (4 * unat n)" "\<forall>q. q \<noteq> out - 8 \<longrightarrow> A2 q = A q"
    using j k(2) by (simp_all add: block_at_def)
  moreover have "?lb + e_entry (read_ehdr m elf) = page_addr i + (e_entry (read_ehdr ?m0 elf) - ?mn)"
    using same_at_image(1) [OF ok same2] by (simp add: algebra_simps)
  ultimately have "loaded_ok s A Z elf (?lb + e_entry (read_ehdr m elf)) out n (s2\<lparr>memory := m\<rparr>) i A2 Z2"
    using n(2) i(1) loaded list own3 st'(5,6) j(2) sb unfolding loaded_ok_def by simp
  then show ?thesis by blast
qed

lemma elf_load_no_run:
  assumes "pmm_wf (pmm s)" and "elf_ok (memory s) elf len" and "unat t = image_size (memory s) elf"
    and "pmm_alloc_contiguous_user_pages (pmm s) ((t + 4095) div 4096) = (0, p)"
  shows "p = pmm s" "\<not> {i..<i + pages_for (image_size (memory s) elf)} \<subseteq> free_set (pmm s) \<inter> user_zone"
proof -
  let ?n = "(t + 4095) div 4096"
  have f: "p = pmm s" "?n = 0 \<or> (\<forall>i. \<not> {i..<i + unat ?n} \<subseteq> free_set (pmm s) \<inter> user_zone)"
    using user_run.run_failed [OF assms(1)] assms(4) by auto
  have "0 < image_size (memory s) elf"
    by (rule vaddr_range_image [OF assms(2)])
  then have pf: "0 < pages_for (image_size (memory s) elf)"
    by (simp add: pages_for_def div_greater_zero_iff)
  show "p = pmm s" by (rule f(1))
  show "\<not> {i..<i + pages_for (image_size (memory s) elf)} \<subseteq> free_set (pmm s) \<inter> user_zone"
  proof (cases "unat t < 0xFFFFF000")
    case True
    then have "unat ?n = pages_for (image_size (memory s) elf)"
      using pages_for_word [of t] assms(3) by simp
    then show ?thesis
      using f(2) pf by auto
  next
    case False
    then show ?thesis
      using no_wrapped_run [OF assms(1), of t i] assms(3) by simp
  qed
qed


text \<open>Nothing checks \<open>p_filesz\<close> against \<open>p_memsz\<close>: a segment with more file bytes than memory bytes is
  copied in full, past the pages that were allocated for it.\<close>

lemma copy_segment_overrun:
  fixes m ph dest src
  defines "f \<equiv> unat (p_filesz (read_phdr m ph))"
  assumes "range_at dest f \<inter> range_at ph 32 = {}" "range_at dest f \<inter> range_at src f = {}" "p_memsz (read_phdr m ph) < p_filesz (read_phdr m ph)"
  shows "load_bytes (zero_bss (copy_segment m ph dest src 0) ph dest) dest f = load_bytes m src f"
proof -
  have c: "copy_segment m ph dest src 0 = store_bytes m dest (load_bytes m src f)"
    using copy_segment_bytes [of dest 0 m ph src] copy_bytes_store [OF assms(3), of m] assms(2) by (simp add: f_def)
  have "read_phdr (store_bytes m dest (load_bytes m src f)) ph = read_phdr m ph"
    using assms(2) by (intro read_phdr_cong store_bytes_outside) auto
  then have "zero_bss (copy_segment m ph dest src 0) ph dest = store_bytes m dest (load_bytes m src f)"
    using order_less_not_sym [OF assms(4)] c by (simp add: zero_bss_def Let_def)
  then show ?thesis
    using load_store_bytes [of "load_bytes m src f" m dest] less_imp_le [OF unat_u32_lt [of "p_filesz (read_phdr m ph)"]]
    by (simp add: f_def)
qed

section \<open>The stack of a new program\<close>

lemma stack_pointer:
  assumes "0x100000 + 4096 * i + 4096 < 4294967296" "n \<le> 4076"
  defines "a \<equiv> page_addr i + 4096 - of_nat n" and "sp \<equiv> (page_addr i + 4096 - of_nat n) AND NOT 3"
  shows "unat a = 0x100000 + 4096 * i + 4096 - n" "aligned4 sp" "unat sp \<le> unat a" "unat a < unat sp + 4"
    "0x100000 + 4096 * i + 16 \<le> unat sp" "unat sp \<le> 0x100000 + 4096 * i + 4096"
proof -
  have "unat (page_addr i) = 0x100000 + 4096 * i"
    using assms(1) by (intro unat_page_addr) simp
  then have top: "unat (page_addr i + 4096) = 0x100000 + 4096 * i + 4096"
    using assms(1) by (subst unat_add_no_wrap) simp_all
  have n: "unat (of_nat n :: u32) = n"
    using assms(2) by (intro unat_of_nat_u32) simp
  show a: "unat a = 0x100000 + 4096 * i + 4096 - n"
    unfolding a_def using top n assms(2) by (subst unat_sub_no_wrap) (simp_all add: word_le_nat_alt)
  have "sp = a AND NOT (mask 2)"
    by (simp add: sp_def a_def mask_eq_exp_minus_1)
  then have sp: "unat sp = 4 * (unat a div 4)"
    using unat_align_down [of a 2] by simp
  then show "aligned4 sp"
    by (simp add: aligned4_unat)
  show "unat sp \<le> unat a" "unat a < unat sp + 4"
    unfolding sp by linarith+
  have "4 * (0x40000 + 1024 * i + 4) \<le> unat a"
    unfolding a by (rule add_le_imp_le_diff) (use assms(2) in simp)
  from div_le_mono [OF this, of 4] show "0x100000 + 4096 * i + 16 \<le> unat sp"
    unfolding sp by simp
  show "unat sp \<le> 0x100000 + 4096 * i + 4096"
    unfolding sp a by linarith
qed

lemma elf_setup_user_stack_page:
  assumes "pmm_wf (pmm s)" and "i \<in> free_set (pmm s) \<inter> user_zone" and "pmm_alloc_user_page (pmm s) = (page_addr i, p)"
    and "length name \<le> 4075"
  obtains sp a m where "elf_setup_user_stack s name = (sp, page_addr i, s\<lparr>pmm := p, memory := m\<rparr>)"
    "aligned4 sp" "0x100000 + 4096 * i \<le> unat sp" "load32 m sp = 1" "load32 m (sp + 4) = a" "load32 m (sp + 8) = 0"
    "load32 m (sp + 12) = 0" "load_bytes m a (length name + 1) = name @ [0]" "0x100000 + 4096 * i \<le> unat a"
    "unat a + length name + 1 \<le> 0x100000 + 4096 * i + 4096" "changes_only (page_bytes {i}) (memory s) m"
proof -
  define a where "a = page_addr i + 4096 - of_nat (length name + 1)"
  define sp where "sp = a AND NOT 3"
  let ?m = "store_bytes (memory s) a (name @ [0])"
  let ?k = "\<lparr>r_ebx = 1, r_esi = a, r_edi = 0, r_ebp = 0, r_esp = sp, r_eip = 0\<rparr>"
  let ?m' = "pushed ?m ?k"
  have hi: "0x100000 + 4096 * i + 4096 < 4294967296" "unat (page_addr i) = 0x100000 + 4096 * i"
    using free_set_bound [OF assms(1), of i] assms(2) by (auto intro: unat_page_addr)
  have len: "length name + 1 \<le> 4076"
    using assms(4) by simp
  have pz: "page_addr i \<noteq> 0"
    using hi(2) by auto
  note P = stack_pointer [OF hi(1) len, folded a_def, folded sp_def]
  have r: "elf_setup_user_stack s name = (sp - 16, page_addr i, s\<lparr>pmm := p, memory := ?m'\<rparr>)"
    using assms(3) pz by (simp add: elf_setup_user_stack_def Let_def a_def sp_def pushed_def algebra_simps)
  have "unat a + (length name + 1) \<le> 4294967296"
    using P(1) len hi(1) by linarith
  then have c1: "changes_only {unat a..<unat a + (length name + 1)} (memory s) ?m"
    using store_bytes_outside [of _ a "name @ [0]" "memory s"] range_at_no_wrap [of a "length name + 1"]
    by (auto simp: changes_only_def)
  have c2: "changes_only {unat sp - 16..<unat sp} ?m ?m'"
    using pushed_changes [of ?k ?m] P(5) by simp
  have in_page: "{unat a..<unat a + (length name + 1)} \<subseteq> page_bytes {i}" "{unat sp - 16..<unat sp} \<subseteq> page_bytes {i}"
    using P len by (auto simp: page_bytes_def)
  have str: "load_bytes ?m' a (length name + 1) = name @ [0]"
  proof -
    have "load_bytes ?m' a (length name + 1) = load_bytes ?m a (length name + 1)"
    proof (rule load_bytes_cong)
      fix x assume "x \<in> range_at a (length name + 1)"
      then have "unat sp \<le> unat x"
        using range_at_no_wrap [of a "length name + 1"] P(1,3) len hi(1) by auto
      then show "?m' x = ?m x"
        using c2 by (simp add: changes_only_def)
    qed
    then show ?thesis
      using load_store_bytes [of "name @ [0]" "memory s" a] len by simp
  qed
  have al: "aligned4 (sp - 16)"
    using P(2) aligned4_small(4) by (rule aligned4_arith)
  have sp16: "unat (sp - 16) = unat sp - 16"
    using P(5) by (simp add: unat_sub_no_wrap word_le_nat_alt)
  have words: "load32 ?m' (sp - 16) = 1" "load32 ?m' (sp - 16 + 4) = a" "load32 ?m' (sp - 16 + 8) = 0" "load32 ?m' (sp - 16 + 12) = 0"
    using load_pushed(1-4) [of ?k ?m] P(2) by simp_all
  have c3: "changes_only (page_bytes {i}) (memory s) ?m'"
    by (rule changes_only_trans [OF c1 c2 in_page])
  show thesis
    using P sp16 len by (intro that [OF r al _ words str _ _ c3]) auto
qed

text \<open>The initial stack of a program with a name of at most 4075 characters lies in one fresh user page: a word-aligned
  stack pointer with \<open>argc = 1\<close>, \<open>argv[0]\<close> pointing to the name, and two NULL words above it.\<close>

theorem elf_setup_user_stack_correct:
  assumes "pmm_wf (pmm s)" and "length name \<le> 4075"
  shows "case elf_setup_user_stack s name of (sp, page, s') \<Rightarrow>
    if page = 0 then sp = 0 \<and> s' = s \<and> free_set (pmm s) \<inter> user_zone = {}
    else \<exists>i\<in>free_set (pmm s) \<inter> user_zone. page = page_addr i \<and> pmm_wf (pmm s') \<and>
      free_set (pmm s') = free_set (pmm s) - {i} \<and> aligned4 sp \<and> unat page \<le> unat sp \<and>
      load32 (memory s') sp = 1 \<and> load32 (memory s') (sp + 8) = 0 \<and> load32 (memory s') (sp + 12) = 0 \<and>
      load_bytes (memory s') (load32 (memory s') (sp + 4)) (length name + 1) = name @ [0] \<and>
      unat page \<le> unat (load32 (memory s') (sp + 4)) \<and>
      unat (load32 (memory s') (sp + 4)) + length name + 1 \<le> unat page + 4096 \<and>
      changes_only (page_bytes {i}) (memory s) (memory s') \<and> s' = s\<lparr>pmm := pmm s', memory := memory s'\<rparr>"
proof -
  obtain page p where alloc: "pmm_alloc_user_page (pmm s) = (page, p)"
    by fastforce
  show ?thesis
  proof (cases "page = 0")
    case True
    then have z: "free_set (pmm s) \<inter> user_zone = {}" "p = pmm s"
      using alloc user_page.alloc_zero_iff [OF assms(1)] user_page.alloc_none [OF assms(1)] by auto
    then show ?thesis
      using True alloc by (simp add: elf_setup_user_stack_def)
  next
    case False
    obtain i where i: "page = page_addr i" "i \<in> free_set (pmm s) \<inter> user_zone" "pmm_wf p" "free_set p = free_set (pmm s) - {i}"
      using user_page.alloc_free [OF assms(1) alloc False] by blast
    have hi: "unat (page_addr i) = 0x100000 + 4096 * i"
      using free_set_bound [OF assms(1), of i] i(2) by (auto intro: unat_page_addr)
    obtain sp a m where r: "elf_setup_user_stack s name = (sp, page_addr i, s\<lparr>pmm := p, memory := m\<rparr>)"
      "aligned4 sp" "0x100000 + 4096 * i \<le> unat sp" "load32 m sp = 1" "load32 m (sp + 4) = a" "load32 m (sp + 8) = 0"
      "load32 m (sp + 12) = 0" "load_bytes m a (length name + 1) = name @ [0]" "0x100000 + 4096 * i \<le> unat a"
      "unat a + length name + 1 \<le> 0x100000 + 4096 * i + 4096" "changes_only (page_bytes {i}) (memory s) m"
      by (rule elf_setup_user_stack_page [OF assms(1) i(2) alloc [unfolded i(1)] assms(2)]) (rule that)
    show ?thesis
      using r i False hi by (auto simp del: load_bytes.simps)
  qed
qed

section \<open>What the reports send\<close>

lemma no_nul_append:
  "piece_ok (Str (xs @ ys)) \<longleftrightarrow> piece_ok (Str xs) \<and> piece_ok (Str ys)"
  "piece_ok (Str (if b then xs else ys)) \<longleftrightarrow> (if b then piece_ok (Str xs) else piece_ok (Str ys))"
  by (simp_all add: bytes_of_def)

lemma header_reports_ok: "\<forall>p\<in>set (ehdr_report h). piece_ok p" "\<forall>p\<in>set (phdr_report i ph). piece_ok p"
proof -
  have n: "piece_ok (Str newline)"
    by (simp add: newline_def bytes_of_def)
  show "\<forall>p\<in>set (ehdr_report h). piece_ok p"
    unfolding ehdr_report_def list.set ball_simps no_nul_append
    by (intro conjI n TrueI) (simp_all add: bytes_of_def)
  have "piece_ok (Str (phdr_type_name t))" "piece_ok (Str (phdr_flags_str f))" for t f
    by (simp_all add: phdr_type_name_def phdr_flags_str_def bytes_of_def)
  then show "\<forall>p\<in>set (phdr_report i ph). piece_ok p"
    unfolding phdr_report_def set_append list.set ball_Un ball_simps no_nul_append using n
    by (intro conjI TrueI) (simp_all add: bytes_of_def)
qed

lemma elf_report_ok: "\<forall>p\<in>set (elf_report m elf). piece_ok p"
proof -
  have n: "piece_ok (Str newline)"
    by (simp add: newline_def bytes_of_def)
  show ?thesis
    unfolding elf_report_def Let_def if_distrib [where f = set] if_distrib [where f = "\<lambda>X. \<forall>p\<in>X. piece_ok p"]
      set_append ball_Un list.set ball_simps no_nul_append
    using n header_reports_ok(1) by (simp add: bytes_of_def ball_Un header_reports_ok(2))
qed

lemma elf_parse_and_print_sends:
  assumes "tx_live s"
  shows "\<exists>s' bss. elf_parse_and_print s m elf sz = Some s' \<and> list_all2 piece_text (elf_report m elf) bss \<and>
    sends s (concat bss) s'"
  unfolding elf_parse_and_print_def by (rule print_all_sends [OF assms elf_report_ok])

section \<open>Witnesses\<close>

definition elf_image :: "u8 list" where
  "elf_image = [0x7F, 0x45, 0x4C, 0x46, 1, 1, 1, 0, 0, 0, 0, 0, 0, 0, 0, 0, 2, 0, 3, 0, 1, 0, 0, 0, 4, 0, 0, 0, 52, 0, 0, 0,
     0, 0, 0, 0, 0, 0, 0, 0, 52, 0, 32, 0, 1, 0, 0, 0, 0, 0, 0, 0,
     1, 0, 0, 0, 0, 0, 0, 0, 0, 0, 0, 0, 0, 0, 0, 0, 84, 0, 0, 0, 100, 0, 0, 0, 5, 0, 0, 0, 0, 0x10, 0, 0]"

definition elf_example :: heap_state where
  "elf_example = heap_free\<lparr>memory := (\<lambda>x. if unat (x - 0x110000) < 84 then elf_image ! unat (x - 0x110000)
     else memory heap_free x)\<rparr>"

lemma load_bytes_upt: "load_bytes m a n = map (\<lambda>i. m (a + of_nat i)) [0..<n]"
  by (rule nth_equalityI) (simp_all add: nth_load_bytes)

lemma elf_example_byte:
  assumes "unat (x - 0x110000) < 84"
  shows "memory elf_example x = elf_image ! unat (x - 0x110000)"
  using assms by (simp add: elf_example_def)

lemma elf_example_phdr:
  "read_phdr (memory elf_example) 0x110034 = \<lparr>p_type = 1, p_offset = 0, p_vaddr = 0, p_paddr = 0, p_filesz = 84,
     p_memsz = 100, p_flags = 5, p_align = 0x1000\<rparr>"
  unfolding read_phdr_def load32_def by (simp add: elf_example_byte elf_image_def)

lemma elf_example_ehdr:
  "valid_ident (memory elf_example) 0x110000"
  "e_entry (read_ehdr (memory elf_example) 0x110000) = 4" "e_phoff (read_ehdr (memory elf_example) 0x110000) = 52"
  "e_phentsize (read_ehdr (memory elf_example) 0x110000) = 32" "e_phnum (read_ehdr (memory elf_example) 0x110000) = 1"
  by (simp_all add: valid_ident_def read_ehdr_def load16_def load32_def elf_example_byte elf_image_def)

lemma elf_example_loads:
  "loads (memory elf_example) 0x110000 = [\<lparr>p_type = 1, p_offset = 0, p_vaddr = 0, p_paddr = 0, p_filesz = 84,
     p_memsz = 100, p_flags = 5, p_align = 0x1000\<rparr>]"
  by (simp add: loads_def phdrs_def phdr_count_def elf_example_ehdr phdr_addr_def elf_example_phdr)

lemma elf_example_ok: "elf_ok (memory elf_example) 0x110000 84"
  by (simp add: elf_ok_def elf_example_loads phdr_count_def elf_example_ehdr seg_ok_def)

lemma elf_example_owns: "heap_owns elf_example (alloc_map (memory heap_free) {0x300000}) {0x300000..<0x301000}"
proof (rule heap_owns_elsewhere [of heap_free])
  have "extent (memory heap_free) 0x300000 = {0x300000..<0x301000}"
    by (simp add: extent_def heap_free_get)
  then show "heap_owns heap_free (alloc_map (memory heap_free) {0x300000}) {0x300000..<0x301000}"
    unfolding heap_owns_def using heap_free_inv by (intro exI [of _ "{0x300000}"] exI [of _ "[0x300000]"]) simp
  show "changes_only {0x110000..<0x110054} (memory heap_free) (memory elf_example)"
    unfolding changes_only_def
  proof (intro allI impI)
    fix x :: u32 assume x: "unat x \<notin> {0x110000..<0x110054}"
    have "\<not> unat (x - 0x110000) < 84"
    proof
      assume "unat (x - 0x110000) < 84"
      then have "unat ((x - 0x110000) + 0x110000) = unat (x - 0x110000) + 0x110000"
        by (subst unat_add_no_wrap) simp_all
      then show False
        using x \<open>unat (x - 0x110000) < 84\<close> by simp
    qed
    then show "memory elf_example x = memory heap_free x"
      by (simp add: elf_example_def)
  qed
qed (simp_all add: elf_example_def heap_free_def heap_empty_def pmm_example_wf)


theorem elf_setup_user_stack_correct_witness:
  "\<exists>sp s'. elf_setup_user_stack heap_free [97] = (sp, 0x800000, s') \<and> load32 (memory s') sp = 1"
proof -
  have p: "pmm_wf (pmm heap_free)" "pmm heap_free = pmm_example"
    by (simp_all add: heap_free_def heap_empty_def pmm_example_wf)
  obtain sp page s' where r: "elf_setup_user_stack heap_free [97] = (sp, page, s')"
    by (cases "elf_setup_user_stack heap_free [97]")
  have "fst (pmm_alloc_user_page pmm_example) = 0x800000"
    using pmm_example_user_page by (auto simp: split_beta Let_def)
  then have "page = 0x800000"
    using r p(2) by (auto simp: elf_setup_user_stack_def Let_def split: prod.splits if_splits)
  then show ?thesis
    using elf_setup_user_stack_correct [OF p(1), of "[97]"] r by auto
qed

end
