(* ===== verification/Exec.thy ===== *)
theory Exec
  imports VFS ELF
begin

text \<open>
  Starting programs, from \<open>kernel/main.c\<close>: the registry of programs that are built into the kernel
  (\<open>run_register\<close>, \<open>run_exec\<close>), and running an ELF file of the file system (\<open>exec_elf_from_path\<close>).
  The state is that of the file system with the registry and the ports. A name or path is the
  list of its characters.
\<close>

section \<open>State\<close>

record run_entry =
  re_name :: "u8 list"
  re_code_page :: u32

text \<open>\<open>run_registry\<close> holds the first \<open>g_run_count\<close> entries of \<open>g_run_registry\<close>.\<close>

record sys_state = fs_state +
  run_registry :: "run_entry list"
  io :: io_state

abbreviation RUN_MAX_ENTRIES :: nat where "RUN_MAX_ENTRIES \<equiv> 8"
abbreviation ELF_LOAD_MAX :: u32 where "ELF_LOAD_MAX \<equiv> 16 * 1024"
abbreviation ELF_BUF_PAGES :: u32 where "ELF_BUF_PAGES \<equiv> 4"

text \<open>The results \<open>-1\<close> of C functions.\<close>

abbreviation FAILED :: u32 where "FAILED \<equiv> 0xFFFFFFFF"

section \<open>The run registry\<close>

definition run_register :: "'a sys_state_scheme \<Rightarrow> u8 list \<Rightarrow> u32 \<Rightarrow> 'a sys_state_scheme" where
  "run_register s name code_page =
     (if length (run_registry s) \<ge> RUN_MAX_ENTRIES then s
      else s\<lparr>run_registry := run_registry s @ [\<lparr>re_name = take 31 name, re_code_page = code_page\<rparr>]\<rparr>)"

fun run_lookup :: "run_entry list \<Rightarrow> u8 list \<Rightarrow> run_entry option" where
  "run_lookup [] name = None"
| "run_lookup (e # es) name = (if names_match 32 (re_name e) name then Some e else run_lookup es name)"

definition run_exec :: "link_map \<Rightarrow> 'a sys_state_scheme \<Rightarrow> u8 list \<Rightarrow> (u32 \<times> 'a sys_state_scheme) option" where
  "run_exec lm s name =
     (case run_lookup (run_registry s) name of
        None \<Rightarrow> Some (FAILED, s)
      | Some e \<Rightarrow>
          let pg = re_code_page e
          in do { (t, s) \<leftarrow> task_create_user_with_pages lm s pg 0 [pg];
                  if t = 0 then Some (FAILED, s) else do { x \<leftarrow> tasks s t; Some (t_id x, s) } })"

text \<open>Copying a built-in program to its page.\<close>

definition copy_code :: "mem \<Rightarrow> u32 \<Rightarrow> u32 \<Rightarrow> u32 \<Rightarrow> mem" where
  "copy_code m dest_page src len = copy_bytes m dest_page src (unat len)"

section \<open>Running an ELF file\<close>

text \<open>The reading loop; the result is the number of bytes read.\<close>

partial_function (option) read_file :: "'a sys_state_scheme \<Rightarrow> u32 \<Rightarrow> u32 \<Rightarrow> u32 \<Rightarrow> (u32 \<times> 'a sys_state_scheme) option" where
  "read_file s fd buf got =
     (if got < ELF_LOAD_MAX
      then do { (n, s) \<leftarrow> vfs_read s fd (buf + got) (ELF_LOAD_MAX - got);
                if n \<le>s 0 then Some (got, s) else read_file s fd buf (got + n) }
      else Some (got, s))"

text \<open>\<open>all_pages\<close> has room for 32 pages; a longer list overwrites the kernel stack, which is not
  modelled further.\<close>

abbreviation ALL_PAGES :: nat where "ALL_PAGES \<equiv> 32"

definition launch_elf ::
    "link_map \<Rightarrow> 'a sys_state_scheme \<Rightarrow> u8 list \<Rightarrow> u32 \<Rightarrow> u32 \<Rightarrow> u32 \<Rightarrow> (u32 \<times> 'a sys_state_scheme) option" where
  "launch_elf lm s path ent pages page_count =
     (let (user_esp, stack_page, s) = elf_setup_user_stack s path
      in if user_esp = 0 then Some (FAILED, s)
         else if unat page_count + 1 > ALL_PAGES then None
         else let all_pages = stack_page # map (\<lambda>i. load32 (memory s) (pages + 4 * of_nat i)) [0..<unat page_count]
              in do { (t, s) \<leftarrow> task_create_user_with_pages lm s ent user_esp all_pages;
                      s \<leftarrow> kfree s pages;
                      if t = 0 then Some (FAILED, s) else do { x \<leftarrow> tasks s t; Some (t_id x, s) } })"

definition exec_elf_from_path :: "link_map \<Rightarrow> 'a sys_state_scheme \<Rightarrow> u8 list \<Rightarrow> (u32 \<times> 'a sys_state_scheme) option" where
  "exec_elf_from_path lm s path =
     do { (fd, s) \<leftarrow> vfs_open s path 0;
          if fd <s 0 then Some (FAILED, s)
          else let (buf, p) = pmm_alloc_contiguous_pages (pmm s) ELF_BUF_PAGES;
                   s = s\<lparr>pmm := p\<rparr>
               in if buf = 0 then do { (r, s) \<leftarrow> vfs_close s fd; Some (FAILED, s) }
                  else do {
                    (got, s) \<leftarrow> read_file s fd buf 0;
                    (r, s) \<leftarrow> vfs_close s fd;
                    if got = 0 then Some (FAILED, s)
                    else do {
                      (ent, out, s) \<leftarrow> elf_load s buf got;
                      if ent = 0 then Some (FAILED, s)
                      else case out of
                        None \<Rightarrow> None
                      | Some (pages, page_count) \<Rightarrow> launch_elf lm s path ent pages page_count } } }"

end
