(* ===== verification/Syscall.thy ===== *)
theory Syscall
  imports Exec
begin

text \<open>
  The system calls (\<open>arch/x86/syscall_dispatch.c\<close>). The dispatcher's local buffers \<open>kpath\<close> (called
  \<open>kname\<close> in \<open>SYSCALL_RUN\<close>) and the 64-byte \<open>kname\<close> of \<open>SYSCALL_READDIR\<close> lie on the kernel stack, at
  addresses the compiler chooses: they are parameters. A yield goes on in another task, so the
  registers are passed through as in \<open>Task\<close>.
\<close>

section \<open>The dispatcher\<close>

abbreviation SYSCALL_PRINT :: u32 where "SYSCALL_PRINT \<equiv> 1"
abbreviation SYSCALL_YIELD :: u32 where "SYSCALL_YIELD \<equiv> 2"
abbreviation SYSCALL_OPEN :: u32 where "SYSCALL_OPEN \<equiv> 3"
abbreviation SYSCALL_READ :: u32 where "SYSCALL_READ \<equiv> 4"
abbreviation SYSCALL_WRITE :: u32 where "SYSCALL_WRITE \<equiv> 5"
abbreviation SYSCALL_CLOSE :: u32 where "SYSCALL_CLOSE \<equiv> 6"
abbreviation SYSCALL_READCHAR :: u32 where "SYSCALL_READCHAR \<equiv> 7"
abbreviation SYSCALL_READDIR :: u32 where "SYSCALL_READDIR \<equiv> 8"
abbreviation SYSCALL_RUN :: u32 where "SYSCALL_RUN \<equiv> 9"
abbreviation SYSCALL_WRITECONSOLE :: u32 where "SYSCALL_WRITECONSOLE \<equiv> 10"
abbreviation SYSCALL_EXEC :: u32 where "SYSCALL_EXEC \<equiv> 11"

text \<open>The directory the user checks consult: that of the current task.\<close>

definition current_cr3 :: "'a task_state_scheme \<Rightarrow> u32 option" where
  "current_cr3 s = map_option t_cr3 (tasks s (task_current s))"

text \<open>The string in a buffer of \<open>n\<close> bytes.\<close>

definition c_string :: "mem \<Rightarrow> u32 \<Rightarrow> nat \<Rightarrow> u8 list" where
  "c_string m a n = takeWhile (\<lambda>c. c \<noteq> 0) (load_bytes m a n)"

text \<open>The common start of the calls that take a path: copy it in, or give up.\<close>

definition with_path ::
    "'a sys_state_scheme \<Rightarrow> u32 \<Rightarrow> u32 \<Rightarrow> ('a sys_state_scheme \<Rightarrow> u8 list \<Rightarrow> (u32 \<times> 'a sys_state_scheme) option) \<Rightarrow>
     (u32 \<times> 'a sys_state_scheme) option" where
  "with_path s kpath uptr f =
     (let (r, s) = copy_from_user_string s (current_cr3 s) kpath uptr 256
      in if r \<noteq> 0 then Some (FAILED, s) else f s (c_string (memory s) kpath 256))"

definition sys_read :: "'a sys_state_scheme \<Rightarrow> u32 \<Rightarrow> u32 \<Rightarrow> u32 \<Rightarrow> (u32 \<times> 'a sys_state_scheme) option" where
  "sys_read s fd ubuf sz =
     (if sz = 0 then Some (0, s)
      else do {
        (kbuf, s) \<leftarrow> kmalloc s sz;
        if kbuf = 0 then Some (FAILED, s)
        else do {
          (n, s) \<leftarrow> vfs_read s fd kbuf sz;
          (bad, s) \<leftarrow> (if 0 <s n then do { (r, s) \<leftarrow> copy_to_user s (current_cr3 s) ubuf kbuf n; Some (r \<noteq> 0, s) }
                      else Some (False, s));
          s \<leftarrow> kfree s kbuf;
          Some (if bad then FAILED else n, s) } })"

definition sys_write :: "'a sys_state_scheme \<Rightarrow> u32 \<Rightarrow> u32 \<Rightarrow> u32 \<Rightarrow> (u32 \<times> 'a sys_state_scheme) option" where
  "sys_write s fd ubuf sz =
     (if sz = 0 then Some (0, s)
      else do {
        (kbuf, s) \<leftarrow> kmalloc s sz;
        if kbuf = 0 then Some (FAILED, s)
        else do {
          (r, s) \<leftarrow> copy_from_user s (current_cr3 s) kbuf ubuf sz;
          if r \<noteq> 0 then do { s \<leftarrow> kfree s kbuf; Some (FAILED, s) }
          else do {
            (n, s) \<leftarrow> vfs_write s fd kbuf sz;
            s \<leftarrow> kfree s kbuf;
            Some (n, s) } } })"

fun put_chars :: "io_state \<Rightarrow> u8 list \<Rightarrow> io_state option" where
  "put_chars x [] = Some x"
| "put_chars x (c # cs) = do { x \<leftarrow> serial_putchar x c; put_chars x cs }"

definition sys_writeconsole :: "'a sys_state_scheme \<Rightarrow> u32 \<Rightarrow> u32 \<Rightarrow> (u32 \<times> 'a sys_state_scheme) option" where
  "sys_writeconsole s ubuf len =
     (if len = 0 then Some (0, s)
      else if len > 4096 then Some (FAILED, s)
      else do {
        (kbuf, s) \<leftarrow> kmalloc s len;
        if kbuf = 0 then Some (FAILED, s)
        else do {
          (r, s) \<leftarrow> copy_from_user s (current_cr3 s) kbuf ubuf len;
          if r \<noteq> 0 then do { s \<leftarrow> kfree s kbuf; Some (FAILED, s) }
          else do {
            x \<leftarrow> put_chars (io s) (load_bytes (memory s) kbuf (unat len));
            s \<leftarrow> kfree (s\<lparr>io := x\<rparr>) kbuf;
            Some (len, s) } } })"

definition sys_readdir ::
    "'a sys_state_scheme \<Rightarrow> u32 \<Rightarrow> u32 \<Rightarrow> u32 \<Rightarrow> u32 \<Rightarrow> u32 \<Rightarrow> (u32 \<times> 'a sys_state_scheme) option" where
  "sys_readdir s kpath kname upath index uname =
     with_path s kpath upath (\<lambda>s path. do {
       (ret, s) \<leftarrow> vfs_readdir s path index kname;
       if ret \<noteq> 0 then Some (ret, s)
       else do { (r, s) \<leftarrow> copy_to_user s (current_cr3 s) uname kname 64;
                 Some (if r \<noteq> 0 then FAILED else 0, s) } })"

definition syscall_dispatch ::
    "link_map \<Rightarrow> u32 \<Rightarrow> u32 \<Rightarrow> 'a sys_state_scheme \<Rightarrow> cpu \<Rightarrow> u32 \<Rightarrow> u32 \<Rightarrow> u32 \<Rightarrow> u32 \<Rightarrow> u32 \<Rightarrow> u32 \<Rightarrow>
     (u32 \<times> 'a sys_state_scheme \<times> cpu) option" where
  "syscall_dispatch lm kpath kname s c num a1 a2 a3 a4 a5 =
     (if num = SYSCALL_PRINT
      then do { x \<leftarrow> print_all (io s) [Str ''Syscall: Hello from Ring0! (arg='', Hex a1, Str ('')'' @ newline)];
                Some (0, s\<lparr>io := x\<rparr>, c) }
      else if num = SYSCALL_YIELD then do { (s, c) \<leftarrow> task_yield s c; Some (0, s, c) }
      else if num = SYSCALL_READCHAR
      then (let (v, x) = serial_poll_char (io s) in Some (v, s\<lparr>io := x\<rparr>, c))
      else do {
        (r, s) \<leftarrow>
          (if num = SYSCALL_OPEN then with_path s kpath a1 (\<lambda>s path. vfs_open s path a2)
           else if num = SYSCALL_READ then sys_read s a1 a2 a3
           else if num = SYSCALL_WRITE then sys_write s a1 a2 a3
           else if num = SYSCALL_CLOSE then vfs_close s a1
           else if num = SYSCALL_READDIR then sys_readdir s kpath kname a1 a2 a3
           else if num = SYSCALL_RUN then with_path s kpath a1 (\<lambda>s name. run_exec lm s name)
           else if num = SYSCALL_WRITECONSOLE then sys_writeconsole s a1 a2
           else if num = SYSCALL_EXEC then with_path s kpath a1 (\<lambda>s path. exec_elf_from_path lm s path)
           else do { x \<leftarrow> print_all (io s) [Str ''Syscall: unknown number '', Hex num, Str newline];
                     Some (FAILED, s\<lparr>io := x\<rparr>) });
        Some (r, s, c) })"

section \<open>Calls with a path\<close>

text \<open>What is done with the path, by system call.\<close>

definition path_call ::
    "link_map \<Rightarrow> u32 \<Rightarrow> u32 \<Rightarrow> u32 \<Rightarrow> u32 \<Rightarrow> 'a sys_state_scheme \<Rightarrow> u8 list \<Rightarrow> (u32 \<times> 'a sys_state_scheme) option" where
  "path_call lm kname num a2 a3 s path =
     (if num = SYSCALL_OPEN then vfs_open s path a2
      else if num = SYSCALL_RUN then run_exec lm s path
      else if num = SYSCALL_EXEC then exec_elf_from_path lm s path
      else do {
       (ret, s) \<leftarrow> vfs_readdir s path a2 kname;
       if ret \<noteq> 0 then Some (ret, s)
       else do { (r, s) \<leftarrow> copy_to_user s (current_cr3 s) a3 kname 64;
                 Some (if r \<noteq> 0 then FAILED else 0, s) } })"

lemma load_bytes_add: "load_bytes m a (n + k) = load_bytes m a n @ load_bytes m (a + of_nat n) k"
  by (induction n arbitrary: a) (simp_all add: ac_simps)

lemma c_string_at:
  assumes "string_at m a n" "n < k"
  shows "c_string m a k = load_bytes m a n"
proof -
  obtain j where j: "k = n + Suc j"
    using assms(2) less_iff_Suc_add by auto
  have "\<forall>c\<in>set (load_bytes m a n). c \<noteq> 0"
    using assms(1) by (auto simp: string_at_def in_set_conv_nth nth_load_bytes)
  then show ?thesis
    using assms(1) by (simp add: c_string_def j load_bytes_add takeWhile_append2 string_at_def del: add_Suc_right)
qed

lemma c_string_stored:
  assumes "string_at m p n" "n < k" "k \<le> 4294967296"
  shows "c_string (store_bytes m0 a (load_bytes m p (Suc n))) a k = load_bytes m p n"
proof -
  let ?m = "store_bytes m0 a (load_bytes m p (Suc n))"
  have b: "?m (a + of_nat i) = m (p + of_nat i)" if "i < Suc n" for i
    using that assms(2,3) store_bytes_inside [of i "load_bytes m p (Suc n)" m0 a]
    by (simp add: nth_load_bytes del: load_bytes.simps)
  have "string_at ?m a n"
    using assms(1) b unfolding string_at_def by simp
  moreover have "load_bytes ?m a n = load_bytes m p n"
    using b by (intro nth_equalityI) (simp_all add: nth_load_bytes del: store_bytes.simps load_bytes.simps)
  ultimately show ?thesis
    using c_string_at [OF _ assms(2)] by simp
qed

text \<open>C26: a system call that takes a path never uses one that is not a NUL-terminated string of fewer than 256 user
  accessible bytes: it then fails and only its own stack buffer has changed. Otherwise the call
  is made with exactly the user's string.\<close>

theorem syscall_path_correct:
  assumes "num \<in> {SYSCALL_OPEN, SYSCALL_READDIR, SYSCALL_RUN, SYSCALL_EXEC}"
    and "access_stable s (current_cr3 s) (range_at kpath 256)" and "range_at a1 256 \<inter> range_at kpath 256 = {}"
  shows "if \<exists>n<256. string_at (memory s) a1 n \<and> readable s (current_cr3 s) a1 (Suc n)
    then \<exists>n<256. string_at (memory s) a1 n \<and>
      syscall_dispatch lm kpath kname s c num a1 a2 a3 a4 a5 =
        do { (r, s) \<leftarrow> path_call lm kname num a2 a3
               (s\<lparr>memory := store_bytes (memory s) kpath (load_bytes (memory s) a1 (Suc n))\<rparr>) (load_bytes (memory s) a1 n);
             Some (r, s, c) }
    else \<exists>m'. syscall_dispatch lm kpath kname s c num a1 a2 a3 a4 a5 = Some (FAILED, s\<lparr>memory := m'\<rparr>, c) \<and>
      (\<forall>x. x \<notin> range_at kpath 256 \<longrightarrow> m' x = memory s x)"
proof -
  obtain r s' where r: "copy_from_user_string s (current_cr3 s) kpath a1 256 = (r, s')"
    by fastforce
  have u: "unat (256 :: u32) = 256" by simp
  note spec = copy_from_user_string_ok [of s "current_cr3 s" kpath 256 a1, unfolded u, OF assms(2,3), unfolded r, simplified]
  have d: "syscall_dispatch lm kpath kname s c num a1 a2 a3 a4 a5 =
      (if r \<noteq> 0 then Some (FAILED, s', c)
       else do { (r, s) \<leftarrow> path_call lm kname num a2 a3 s' (c_string (memory s') kpath 256); Some (r, s, c) })"
    using assms(1) r by (auto simp: syscall_dispatch_def sys_readdir_def with_path_def path_call_def)
  show ?thesis
  proof (cases "\<exists>n<256. string_at (memory s) a1 n \<and> readable s (current_cr3 s) a1 (Suc n)")
    case True
    then obtain n where n: "r = 0" "n < 256" "string_at (memory s) a1 n"
      "s' = s\<lparr>memory := store_bytes (memory s) kpath (load_bytes (memory s) a1 (Suc n))\<rparr>"
      using spec by (auto simp del: load_bytes.simps store_bytes.simps)
    have "c_string (memory s') kpath 256 = load_bytes (memory s) a1 n"
      using c_string_stored [OF n(3,2)] n(4) by (simp del: load_bytes.simps store_bytes.simps)
    then show ?thesis
      using True n d by (auto simp del: load_bytes.simps store_bytes.simps)
  next
    case False
    then show ?thesis
      using spec d by auto
  qed
qed

section \<open>Reading with a huge size\<close>

lemma read_overflow:
  assumes "fs_inv s A rr ks" and "fds_ok s" and "fd < MAX_FD_PER_TASK" and "open_at s fd = Some (k, 0)" and "k \<in> set ks"
    and "rnodes s k = Some x" and "content s k \<noteq> []" and "kmalloc s 0xFFFFFFFF = Some (kbuf, s1)" and "kbuf \<noteq> 0"
  shows "\<exists>A' n s2. heap_view s1 A' \<and> A' (kbuf - 8) = Some n \<and> n < 32 \<and>
    memory s2 = copy_bytes (memory s1) kbuf (r_data x) (length (content s k)) \<and>
    (range_at kbuf (length (content s k)) \<inter> range_at (r_data x) (length (content s k)) = {} \<longrightarrow>
      load_bytes (memory s2) kbuf (length (content s k)) = content s k) \<and>
    syscall_dispatch lm kpath kname s c SYSCALL_READ (of_nat fd) ubuf 0xFFFFFFFF a4 a5 =
      do { (r, s3) \<leftarrow> copy_to_user s2 (current_cr3 s2) ubuf kbuf (of_nat (length (content s k)));
           s4 \<leftarrow> kfree s3 kbuf;
           Some (if r \<noteq> 0 then FAILED else of_nat (length (content s k)), s4, c) }"
proof -
  let ?len = "length (content s k)"
  obtain B fs where B: "heap_inv s B fs" "A = alloc_map (memory s) B"
    using fs_invD(1) [OF assms(1)] by (auto simp: heap_view_def)
  obtain B' fs' n where n: "heap_inv s1 B' fs'" "alloc_map (memory s1) B' (kbuf - 8) = Some n" "n < 32"
    using kmalloc_size_wraps [OF B(1) _ assms(8,9)] by auto
  have same: "same_bytes A (memory s) (memory s1)"
    using kheap.malloc_ok [OF fs_invD(1) [OF assms(1)], of "0xFFFFFFFF"] assms(8) by auto
  have o: "same_objects s s1"
    by (rule more_objects [OF kmalloc_more [OF assms(8)]])
  note so = o [unfolded same_objects_def]
  note C = content_size [OF assms(1,5,6)]
  have len: "unat (r_size x) = ?len" "r_size x = of_nat ?len" "r_size x \<noteq> 0" "?len < 2147483648" "0 < ?len"
    using C assms(7) unat_of_nat_u32 [of ?len] by (auto simp: u32_eq_iff)
  obtain t fp f v where F: "tasks s (g_current s) = Some t" "t_fds t ! fd = fp" "fp \<noteq> 0" "files s fp = Some f"
    "vnodes s (f_node f) = Some v" "v_fs_data v = k" "unat (f_offset f) = 0" "fd_file s (of_nat fd) = Some fp"
    by (rule open_atE [OF assms(2,4,3)]) (rule that)
  have ty: "r_type x = VFS_TYPE_FILE"
    using tree_okD(3) [OF fs_invD(2) [OF assms(1)] assms(5)] assms(6) by auto
  have "fd_file s1 (of_nat fd) = fd_file s (of_nat fd)"
    using so by (simp add: fd_file_def task_current_def)
  then have fd1: "fd_file s1 (of_nat fd) = Some fp"
    using F(8) by simp
  have off: "f_offset f = 0"
    using F(7) by (simp add: u32_eq_iff)
  have "r_data x \<noteq> 0"
    using C(3) assms(7) by simp
  then have rr: "ramfs_read s1 (f_node f) 0 kbuf 0xFFFFFFFF =
      Some (of_nat ?len, s1\<lparr>memory := copy_bytes (memory s1) kbuf (r_data x) ?len\<rparr>)"
    using F(5,6) assms(6) so ty len by (simp add: ramfs_read_def word_less_nat_alt)
  let ?s2 = "s1\<lparr>memory := copy_bytes (memory s1) kbuf (r_data x) ?len\<rparr>"
  have pos: "0 <s (of_nat ?len :: u32)"
    using sless_zero_small [of "of_nat ?len"] len unat_of_nat_u32 [of ?len] by auto
  let ?s3 = "set_file fp (Some (f\<lparr>f_offset := f_offset f + of_nat ?len\<rparr>)) ?s2"
  have vr: "vfs_read s1 (of_nat fd) kbuf 0xFFFFFFFF = Some (of_nat ?len, ?s3)"
    using fd1 F(3,4) so rr off pos by (simp add: vfs_read_def advance_def)
  have "load_bytes (memory s1) (r_data x) ?len = content s k"
  proof -
    have "load_bytes (memory s1) (r_data x) ?len = load_bytes (memory s) (r_data x) ?len"
      by (intro load_bytes_cong same_bytes_block [OF fs_invD(1) [OF assms(1)] block_content(1) [OF assms(1,5,6) len(3)] same])
        (simp only: len(1))
    also have "\<dots> = content s k"
      unfolding len(1) [symmetric] by (rule content_of [OF assms(6), symmetric])
    finally show ?thesis .
  qed
  then have src: "load_bytes (memory s1) (r_data x) ?len = content s k" .
  have "load_bytes (memory ?s3) kbuf ?len = content s k"
    if apart: "range_at kbuf ?len \<inter> range_at (r_data x) ?len = {}"
  proof -
    have m3: "memory ?s3 = store_bytes (memory s1) kbuf (content s k)"
      using copy_bytes_store [OF apart, of "memory s1"] src by simp
    show ?thesis
      unfolding m3 by (rule load_store_bytes) (use len(4) in simp)
  qed
  moreover have "memory ?s3 = copy_bytes (memory s1) kbuf (r_data x) ?len"
    by simp
  moreover have "syscall_dispatch lm kpath kname s c SYSCALL_READ (of_nat fd) ubuf 0xFFFFFFFF a4 a5 =
      do { (r, s3) \<leftarrow> copy_to_user ?s3 (current_cr3 ?s3) ubuf kbuf (of_nat ?len);
           s4 \<leftarrow> kfree s3 kbuf; Some (if r \<noteq> 0 then FAILED else of_nat ?len, s4, c) }"
    using assms(8,9) vr pos
    by (cases "copy_to_user ?s3 (current_cr3 ?s3) ubuf kbuf (of_nat ?len)")
      (auto simp: syscall_dispatch_def sys_read_def split_beta)
  moreover have "heap_view s1 (alloc_map (memory s1) B')"
    using n(1) by (auto simp: heap_view_def)
  ultimately show ?thesis
    using n(2,3) by blast
qed


section \<open>Writing to the console\<close>

lemma put_chars_sends: "tx_live x \<Longrightarrow> \<exists>x'. put_chars x cs = Some x' \<and> sends x cs x'"
proof (induction cs arbitrary: x)
  case Nil
  then show ?case by (simp add: sends_def)
next
  case (Cons c cs)
  obtain y where y: "serial_putchar x c = Some y" "sends x [c] y"
    using serial_putchar_sends [OF Cons.prems] by blast
  obtain z where z: "put_chars y cs = Some z" "sends y cs z"
    using Cons.IH [OF sends_live [OF Cons.prems y(2)]] by blast
  then show ?case
    using y sends_trans [OF y(2) z(2)] by auto
qed

lemma more_io:
  fixes s s' :: "'a sys_state_scheme"
  shows "heap_state.more s' = heap_state.more s \<Longrightarrow> io s' = io s \<and> run_registry s' = run_registry s"
  by (cases s; cases s') simp

text \<open>The bytes a heap request may change, and what a user copy needs: its checks do not depend on them.\<close>

definition heap_room :: "'a heap_state_scheme \<Rightarrow> nat set \<Rightarrow> nat set" where
  "heap_room s Z = Z \<union> page_bytes (free_set (pmm s) \<inter> kernel_zone)"

lemma malloc_step_tasks:
  fixes s s1 :: "'a sys_state_scheme"
  assumes "malloc_step s A Z n kbuf s1 A' Z'"
  shows "tasks s1 = tasks s" "g_current s1 = g_current s" "pd_phys s1 = pd_phys s" "io s1 = io s"
    "current_cr3 s1 = current_cr3 s" "heap_state.more s1 = heap_state.more s"
proof -
  have more: "heap_state.more s1 = heap_state.more s"
    using assms by (simp add: malloc_step_def)
  then show f: "tasks s1 = tasks s" "g_current s1 = g_current s" "pd_phys s1 = pd_phys s" "io s1 = io s"
    using more_task_fields(1) [OF more] more_io [OF more] by simp_all
  show "current_cr3 s1 = current_cr3 s" "heap_state.more s1 = heap_state.more s"
    using f more by (simp_all add: current_cr3_def task_current_def)
qed

lemma malloc_step_memory:
  assumes "malloc_step s A Z n kbuf s1 A' Z'" "unat x \<notin> heap_room s Z"
  shows "memory s1 x = memory s x"
  using assms by (auto simp: malloc_step_def changes_only_def heap_room_def)

lemma malloc_step_accessible:
  fixes s s1 :: "'a sys_state_scheme"
  assumes "malloc_step s A Z n kbuf s1 A' Z'" "access_stable s cur {x. unat x \<in> heap_room s Z}"
  shows "page_is_user_accessible s1 cur va = page_is_user_accessible s cur va"
proof -
  have "page_is_user_accessible s1 cur va = page_is_user_accessible (s\<lparr>memory := memory s1\<rparr>) cur va"
    using malloc_step_tasks(3) [OF assms(1)] by (simp add: page_is_user_accessible_def pd_in_use_def split: option.split)
  also have "\<dots> = page_is_user_accessible s cur va"
    using assms(2) malloc_step_memory [OF assms(1)] unfolding access_stable_def by auto
  finally show ?thesis .
qed

lemma malloc_step_block:
  assumes "malloc_step s A Z n kbuf s1 A' Z'" "kbuf \<noteq> 0" "n \<le> 4096" "x \<in> range_at kbuf (unat n)"
  shows "unat x \<in> heap_room s Z"
proof -
  obtain j where j: "8 dvd unat kbuf" "A' (kbuf - 8) = Some j" "unat n + 8 \<le> j"
    using assms(1-3) by (auto simp: malloc_step_def word_le_nat_alt)
  have blk: "block_at A' kbuf (unat n)"
    using j assms(2) by (auto simp: block_at_def)
  have view1: "heap_view s1 A'"
    using assms(1) heap_owns_view by (auto simp: malloc_step_def)
  have b: "8 \<le> unat kbuf" "unat kbuf + unat n \<le> 0x800000"
    using block_bounds [OF view1 blk] .
  have "unat (kbuf - 8) = unat kbuf - 8"
    using b(1) by (simp add: unat_sub_no_wrap word_le_nat_alt)
  then have "unat x \<in> {unat (kbuf - 8)..<unat (kbuf - 8) + j}"
    using range_at_no_wrap [of kbuf "unat n"] assms(4) b j(3) by auto
  then have "unat x \<in> Z'"
    using assms(1) heap_owns_block [of s1 A' Z' "kbuf - 8" j] j(2) by (auto simp: malloc_step_def)
  then show ?thesis
    using assms(1) by (auto simp: malloc_step_def heap_room_def)
qed


section \<open>Witnesses\<close>

definition live_serial :: io_state where
  "live_serial = \<lparr>answer = (\<lambda>n p. 0x20), reads = 0, outs = []\<rparr>"

lemma live_serial_live: "tx_live live_serial"
  by (auto simp: tx_live_def live_serial_def)

definition cpu_zero :: cpu where
  "cpu_zero = \<lparr>r_ebx = 0, r_esi = 0, r_edi = 0, r_ebp = 0, r_esp = 0, r_eip = 0\<rparr>"

definition sys_files :: sys_state where
  "sys_files = fs_state.extend fs_example (sys_state.fields [] live_serial)"

lemma sys_files_fs: "fs_state.truncate sys_files = fs_example"
  by (simp add: sys_files_def fs_state.defs sys_state.defs fs_example_def)


text \<open>A state whose current task may access the page at \<open>0x800000\<close>, which holds the string \<open>a\<close>.\<close>

definition user_mem :: mem where
  "user_mem = (store32 (store32 (memory heap_free) 0x100008 0x101007) 0x101000 0x800007)(0x800010 := 97)"

definition sys_user :: sys_state where
  "sys_user = sys_files\<lparr>memory := user_mem\<rparr>"

lemma user_tables:
  assumes m: "\<And>x. 0x100000 \<le> unat x \<Longrightarrow> unat x < 0x102000 \<Longrightarrow> m x = user_mem x" and i: "i < 1024"
  shows "entry m 0x100000 i = (if i = 2 then 0x101007 else 0)" "entry m 0x101000 i = (if i = 0 then 0x800007 else 0)"
proof -
  have ui: "unat i < 1024"
    using i by (simp add: word_less_nat_alt)
  then have u4: "unat (4 * i) = 4 * unat i"
    by (subst unat_mult_no_wrap) simp_all
  have zero: "load32 (memory heap_free) a = 0" if "aligned4 a" "unat a < 0x200000" for a
  proof (rule load32_zero)
    fix x assume "x \<in> word_at a"
    then have "unat x < 0x200004"
      using word_at_unat [OF that(1), of x] that(2) by simp
    then have "x \<notin> word_at 0x300000" "x \<notin> word_at 0x300004"
      by (auto simp: word_at_def)
    then show "memory heap_free x = 0"
      by (simp add: heap_free_def put_def store32_outside)
  qed
  have load: "load32 m a = (if a = 0x100008 then 0x101007 else if a = 0x101000 then 0x800007 else 0)"
    if a: "aligned4 a" "0x100000 \<le> unat a" "unat a < 0x102000" "unat a + 4 \<le> 0x102000" for a
  proof -
    have "load32 m a = load32 user_mem a"
      using a word_at_unat [OF a(1)] by (intro load32_cong m) (fastforce+)
    moreover have "0x800010 \<notin> word_at a"
      using a word_at_unat [OF a(1), of "0x800010"] by auto
    ultimately show ?thesis
      using a zero [OF a(1)] by (simp add: user_mem_def load32_byte_other load32_store32 aligned4_unat)
  qed
  have al: "aligned4 (0x100000 + 4 * i)" "aligned4 (0x101000 + 4 * i)"
    by (intro aligned4_arith aligned4_times4; simp add: aligned4_unat)+
  have ua: "unat (0x100000 + 4 * i) = 0x100000 + 4 * unat i" "unat (0x101000 + 4 * i) = 0x101000 + 4 * unat i"
    using u4 ui by (subst unat_add_no_wrap; simp)+
  have e: "0x100000 + 4 * i = 0x100008 \<longleftrightarrow> i = 2" "0x100000 + 4 * i \<noteq> 0x101000" "0x101000 + 4 * i \<noteq> 0x100008"
    "0x101000 + 4 * i = 0x101000 \<longleftrightarrow> i = 0"
    unfolding u32_eq_iff ua using ui by auto
  show "entry m 0x100000 i = (if i = 2 then 0x101007 else 0)"
    using load [OF al(1)] ui e unfolding entry_def ua by simp
  show "entry m 0x101000 i = (if i = 0 then 0x800007 else 0)"
    using load [OF al(2)] ui e unfolding entry_def ua by simp
qed

lemma user_mem_page:
  assumes "\<And>x. 0x100000 \<le> unat x \<Longrightarrow> unat x < 0x102000 \<Longrightarrow> m x = user_mem x"
  shows "user_page m 0x100000 va \<longleftrightarrow> unat va div 4096 = 2048"
proof -
  have t: "entry m 0x100000 (pd_index va) = (if pd_index va = 2 then 0x101007 else 0)"
    "entry m 0x101000 (pt_index va) = (if pt_index va = 0 then 0x800007 else 0)"
    by (rule user_tables(1) [OF assms index_bound(1)], assumption+) (rule user_tables(2) [OF assms index_bound(2)], assumption+)
  have u: "user_page m 0x100000 va \<longleftrightarrow> pd_index va = 2 \<and> pt_index va = 0"
  proof (cases "pd_index va = 2")
    case True
    have "(0x101007 :: u32) AND NOT 0xFFF = 0x101000"
      by simp
    then show ?thesis
      using True t by (simp add: user_page_def Let_def)
  next
    case False
    then show ?thesis
      using t by (simp add: user_page_def Let_def)
  qed
  have v: "pd_index va = 2 \<longleftrightarrow> unat va div 4194304 = 2" "pt_index va = 0 \<longleftrightarrow> unat va div 4096 mod 1024 = 0"
    by (simp_all add: u32_eq_iff unat_indices)
  have d: "unat va div 4194304 = unat va div 4096 div 1024"
    by (simp add: div_mult2_eq [symmetric])
  have "k div 1024 = 2 \<and> k mod 1024 = 0 \<longleftrightarrow> k = 2048" for k :: nat
    using mult_div_mod_eq [of 1024 k] by auto
  then show ?thesis
    unfolding u v d .
qed

lemma sys_user_fields:
  "memory sys_user = user_mem" "pmm sys_user = pmm_example" "free_head sys_user = 0x300000" "heap_pages sys_user = [0x300000]"
  "pd_phys sys_user = 0x100000" "current_cr3 sys_user = Some 0" "io sys_user = live_serial" "run_registry sys_user = []"
  by (simp_all add: sys_user_def sys_files_def fs_state.defs sys_state.defs fs_example_def current_cr3_def task_current_def)

lemma sys_user_access:
  assumes "\<And>x. 0x100000 \<le> unat x \<Longrightarrow> unat x < 0x102000 \<Longrightarrow> x \<notin> R"
  shows "access_stable sys_user (Some 0) R" "page_is_user_accessible sys_user (Some 0) va \<longleftrightarrow> unat va div 4096 = 2048"
proof -
  show a: "page_is_user_accessible sys_user (Some 0) va \<longleftrightarrow> unat va div 4096 = 2048" for va
    unfolding page_is_user_accessible_def by (simp add: pd_in_use_def sys_user_fields user_mem_page)
  show "access_stable sys_user (Some 0) R"
    unfolding access_stable_def a
  proof (intro allI impI)
    fix m' va assume "\<forall>x. x \<notin> R \<longrightarrow> m' x = memory sys_user x"
    then have "user_page m' 0x100000 va \<longleftrightarrow> unat va div 4096 = 2048"
      using assms by (intro user_mem_page) (simp add: sys_user_fields)
    then show "page_is_user_accessible (sys_user\<lparr>memory := m'\<rparr>) (Some 0) va \<longleftrightarrow> unat va div 4096 = 2048"
      by (simp add: page_is_user_accessible_def pd_in_use_def sys_user_fields)
  qed
qed

theorem syscall_path_correct_witness:
  "\<exists>s'. syscall_dispatch link_example 0x200000 0 sys_user cpu_zero SYSCALL_RUN 0x800010 0 0 0 0 = Some (FAILED, s', cpu_zero)"
proof -
  have R: "x \<notin> range_at 0x200000 256" if "0x100000 \<le> unat x" "unat x < 0x102000" for x :: u32
    using that range_at_no_wrap [of "0x200000" 256] by auto
  have d: "range_at 0x800010 256 \<inter> range_at 0x200000 256 = {}"
    using range_at_no_wrap [of "0x200000" 256] range_at_no_wrap [of "0x800010" 256] by auto
  have "memory heap_free x = 0" if "0x800000 \<le> unat x" for x
  proof -
    have "x \<notin> word_at 0x300000" "x \<notin> word_at 0x300004"
      using that by (auto simp: word_at_def)
    then show ?thesis
      by (simp add: heap_free_def put_def store32_outside)
  qed
  then have m: "user_mem 0x800010 = 97" "user_mem 0x800011 = 0"
    by (simp_all add: user_mem_def store32_def)
  have at: "string_at (memory sys_user) 0x800010 1"
    using m by (simp add: string_at_def sys_user_fields)
  moreover have "readable sys_user (current_cr3 sys_user) 0x800010 (Suc 1)"
    unfolding sys_user_fields(6) readable_def sys_user_access(2) [of "{}", simplified] by (auto simp: less_Suc_eq)
  ultimately have e: "\<exists>n<256. string_at (memory sys_user) 0x800010 n \<and> readable sys_user (current_cr3 sys_user) 0x800010 (Suc n)"
    by (intro exI [of _ 1]) simp
  have n: "SYSCALL_RUN \<in> {SYSCALL_OPEN, SYSCALL_READDIR, SYSCALL_RUN, SYSCALL_EXEC}"
    by simp
  show ?thesis
    using syscall_path_correct [OF n sys_user_access(1) [OF R, folded sys_user_fields(6)] d, where lm = link_example and kname = 0
        and c = cpu_zero and ?a2.0 = 0 and ?a3.0 = 0 and ?a4.0 = 0 and ?a5.0 = 0] e
    by (auto simp: path_call_def run_exec_def sys_user_fields simp del: load_bytes.simps store_bytes.simps)
qed

lemma sys_user_owns: "heap_owns sys_user (alloc_map (memory heap_free) {0x300000}) {0x300000..<0x301000}"
proof -
  have "heap_owns heap_free (alloc_map (memory heap_free) {0x300000}) {0x300000..<0x301000}"
    unfolding heap_owns_def using heap_free_inv
    by (intro exI [of _ "{0x300000}"] exI [of _ "[0x300000]"]) (simp add: extent_def heap_free_get)
  then have "heap_owns (heap_of sys_files) (alloc_map (memory heap_free) {0x300000}) {0x300000..<0x301000}"
    by (simp add: heap_owns_def heap_inv_def heap_of_def sys_files_def fs_state.defs sys_state.defs fs_example_def heap_free_def heap_empty_def)
  then have "heap_owns sys_files (alloc_map (memory heap_free) {0x300000}) {0x300000..<0x301000}"
    by (simp add: heap_owns_def heap_inv_def)
  then show ?thesis
  proof (rule heap_owns_elsewhere [where X = "{0x100000..<0x102000} \<union> {0x800010}"])
    show "changes_only ({0x100000..<0x102000} \<union> {0x800010}) (memory sys_files) (memory sys_user)"
      unfolding changes_only_def
    proof (intro allI impI)
      fix x :: u32 assume x: "unat x \<notin> {0x100000..<0x102000} \<union> {0x800010}"
      then have "x \<notin> word_at 0x100008" "x \<notin> word_at 0x101000" "x \<noteq> 0x800010"
        by (auto simp: word_at_def)
      then show "memory sys_user x = memory sys_files x"
        by (simp add: sys_user_fields user_mem_def store32_outside sys_files_def fs_state.defs sys_state.defs fs_example_def)
    qed
  qed (simp_all add: sys_user_def sys_files_def fs_state.defs sys_state.defs fs_example_def pmm_example_wf)
qed


end
