(* ===== verification/Signed_Words.thy ===== *)
theory Signed_Words
  imports Kumo_Prelude "HOL-Library.Signed_Division"
begin

text \<open>
  \<open>int32_t\<close> and \<open>int\<close> values: 32-bit words read as two's complement numbers. Addition, subtraction and
  multiplication wrap (the kernel is built without overflow trapping); comparisons and division
  are signed. The laws move such values to the integers.
\<close>

type_synonym i32 = "32 word"

text \<open>Signed division, rounding towards zero.\<close>

definition sdiv32 :: "i32 \<Rightarrow> i32 \<Rightarrow> i32" where
  "sdiv32 a b = word_of_int (sint a sdiv sint b)"

definition smod32 :: "i32 \<Rightarrow> i32 \<Rightarrow> i32" where
  "smod32 a b = word_of_int (sint a smod sint b)"

lemma uint_bounds: "0 \<le> uint (x :: i32)" "uint (x :: i32) < 4294967296"
  using uint_lt2p [of x] by simp_all

lemma unat_less_iff_uint: "unat (x :: i32) < n \<longleftrightarrow> uint x < int n" "n \<le> unat (x :: i32) \<longleftrightarrow> int n \<le> uint x"
  unfolding unat_eq_nat_uint using uint_bounds(1) [of x] by linarith+

lemma sint_cases: "sint (x :: i32) = (if uint x < 2147483648 then uint x else uint x - 4294967296)"
proof (cases "uint x < 2147483648")
  case True
  have "- (2 ^ 31) \<le> (0 :: int)"
    by simp
  then have "- (2 ^ 31) \<le> uint x" "uint x < 2 ^ 31"
    using uint_bounds(1) [of x] True by (blast intro: order_trans, simp)
  then have "signed_take_bit 31 (uint x) = uint x"
    by (rule signed_take_bit_int_eq_self)
  then show ?thesis
    using True by (simp add: sint_uint)
next
  case False
  have "(uint x + 2147483648) mod 4294967296 = uint x - 2147483648"
    using False uint_bounds(2) [of x] by (intro int_mod_pos_eq [of _ _ 1]) simp_all
  then show ?thesis
    using False by (simp add: sint_uint signed_take_bit_eq_take_bit_shift take_bit_eq_mod)
qed

lemma sint_of_int: "- 2147483648 \<le> i \<Longrightarrow> i < 2147483648 \<Longrightarrow> sint (word_of_int i :: i32) = i"
  by (simp add: signed_of_int signed_take_bit_int_eq_self)

lemma uint_of_int: "0 \<le> i \<Longrightarrow> i < 4294967296 \<Longrightarrow> uint (word_of_int i :: i32) = i"
  by (simp add: unsigned_of_int take_bit_int_eq_self)

lemma unat_of_int: "0 \<le> i \<Longrightarrow> i < 4294967296 \<Longrightarrow> unat (word_of_int i :: i32) = nat i"
  by (simp add: unsigned_of_int take_bit_int_eq_self)

lemma sint_range: "- 2147483648 \<le> sint (x :: i32) \<and> sint x < 2147483648"
proof (cases "uint x < 2147483648")
  case True
  then have "sint x = uint x"
    by (simp add: sint_cases)
  then show ?thesis
    using True uint_bounds(1) [of x] by (intro conjI) linarith+
next
  case False
  then have "sint x = uint x - 4294967296"
    by (simp add: sint_cases)
  then show ?thesis
    using False uint_bounds(2) [of x] by (intro conjI) linarith+
qed

lemma word_of_sint: "word_of_int (sint x) = (x :: i32)"
  by simp

lemma sless_of_int:
  assumes "- 2147483648 \<le> i" "i < 2147483648" "- 2147483648 \<le> j" "j < 2147483648"
  shows "(word_of_int i :: i32) <s word_of_int j \<longleftrightarrow> i < j" "(word_of_int i :: i32) \<le>s word_of_int j \<longleftrightarrow> i \<le> j"
  using assms by (simp_all add: word_sless_alt word_sle_eq sint_of_int)

lemma not_neg_of_int: "0 \<le> i \<and> i < 2147483648 \<Longrightarrow> \<not> (word_of_int i :: i32) <s 0"
  by (simp add: word_sless_alt sint_of_int)

lemma sless_zero_neg: "(x :: i32) <s 0 \<longleftrightarrow> 2147483648 \<le> unat x"
  using uint_bounds [of x] by (simp add: word_sless_alt sint_cases unat_less_iff_uint)

text \<open>No overflow: the wrapped operation has the exact value.\<close>

lemma sint_add: "- 2147483648 \<le> sint a + sint b \<Longrightarrow> sint a + sint b < 2147483648 \<Longrightarrow> sint ((a :: i32) + b) = sint a + sint b"
  using sint_of_int [of "sint a + sint b"] by simp

lemma sint_sub: "- 2147483648 \<le> sint a - sint b \<Longrightarrow> sint a - sint b < 2147483648 \<Longrightarrow> sint ((a :: i32) - b) = sint a - sint b"
  using sint_of_int [of "sint a - sint b"] by simp

lemma unat_sint: "0 \<le> sint x \<Longrightarrow> unat (x :: i32) = nat (sint x)"
  unfolding unat_eq_nat_uint sint_cases using uint_bounds(2) [of x] by (auto split: if_splits)

lemma u32_of_int: "(x :: u32) = word_of_int (int (unat x))"
  by simp

end
