(* ===== verification/Graphics.thy ===== *)
theory Graphics
  imports Multiboot Signed_Words
begin

text \<open>
  Drawing on the linear framebuffer, \<open>gfx/primitives.c\<close>: packing of colours, single pixels, lines and
  rectangles. The framebuffer description is the record \<open>framebuffer\<close> that \<open>multiboot_parse\<close> fills;
  video memory is part of memory. A drawing function maps memory to memory; only the line loop
  can in principle run for ever, so \<open>draw_line\<close> and its callers have an optional result.
\<close>

section \<open>Colours and pixels\<close>

text \<open>A mask size above 8 makes the C shift count negative, which is undefined; here it counts as 0.\<close>

definition color_field :: "u8 \<Rightarrow> u8 \<Rightarrow> u8 \<Rightarrow> u32" where
  "color_field v msk pos = push_bit (unat pos) (ucast (drop_bit (8 - unat msk) v))"

definition make_color :: "framebuffer \<Rightarrow> u8 \<Rightarrow> u8 \<Rightarrow> u8 \<Rightarrow> u32" where
  "make_color fb r g b = color_field r (red_mask fb) (red_pos fb) OR color_field g (green_mask fb) (green_pos fb)
     OR color_field b (blue_mask fb) (blue_pos fb)"

text \<open>The byte address of a pixel, and the stores and loads of the three pixel formats.\<close>

definition px_size :: "framebuffer \<Rightarrow> u32" where
  "px_size fb = ucast (fb_bpp fb) div 8"

definition pixel_addr :: "framebuffer \<Rightarrow> u32 \<Rightarrow> u32 \<Rightarrow> u32" where
  "pixel_addr fb x y = fb_addr fb + (y * fb_pitch fb + x * px_size fb)"

definition store_pixel :: "framebuffer \<Rightarrow> mem \<Rightarrow> u32 \<Rightarrow> u32 \<Rightarrow> mem" where
  "store_pixel fb m a c =
     (if fb_bpp fb = 32 then store32 m a c
      else if fb_bpp fb = 24 then m(a := ucast c, a + 1 := ucast (drop_bit 8 c), a + 2 := ucast (drop_bit 16 c))
      else if fb_bpp fb = 16 then m(a := ucast c, a + 1 := ucast (drop_bit 8 c))
      else m)"

definition load_pixel :: "framebuffer \<Rightarrow> mem \<Rightarrow> u32 \<Rightarrow> u32" where
  "load_pixel fb m a =
     (if fb_bpp fb = 32 then load32 m a
      else if fb_bpp fb = 24 then ucast (m a) OR push_bit 8 (ucast (m (a + 1))) OR push_bit 16 (ucast (m (a + 2)))
      else if fb_bpp fb = 16 then ucast (load16 m a)
      else 0)"

definition put_pixel :: "framebuffer \<Rightarrow> mem \<Rightarrow> u32 \<Rightarrow> u32 \<Rightarrow> u32 \<Rightarrow> mem" where
  "put_pixel fb m x y c =
     (if x \<ge> fb_width fb \<or> y \<ge> fb_height fb then m else store_pixel fb m (pixel_addr fb x y) c)"

definition get_pixel :: "framebuffer \<Rightarrow> mem \<Rightarrow> u32 \<Rightarrow> u32 \<Rightarrow> u32" where
  "get_pixel fb m x y =
     (if x \<ge> fb_width fb \<or> y \<ge> fb_height fb then 0 else load_pixel fb m (pixel_addr fb x y))"

section \<open>Lines\<close>

text \<open>
  The two loops of \<open>draw_line\<close> differ only in the roles of x and y: \<open>a\<close> is the coordinate that is
  stepped every time, up to \<open>last\<close>, and \<open>b\<close> the one that follows. \<open>int32_t\<close> values are words that are
  compared as signed.
\<close>

partial_function (option) line_loop ::
    "framebuffer \<Rightarrow> bool \<Rightarrow> u32 \<Rightarrow> u32 \<Rightarrow> u32 \<Rightarrow> u32 \<Rightarrow> u32 \<Rightarrow> u32 \<Rightarrow> mem \<Rightarrow> u32 \<Rightarrow> u32 \<Rightarrow> u32 \<Rightarrow> mem option" where
  "line_loop fb steep da db sa sb final c m a b err =
     (let x = (if steep then b else a); y = (if steep then a else b)
      in if x <s 0 \<or> x \<ge> fb_width fb \<or> y <s 0 \<or> y \<ge> fb_height fb then Some m
         else let m = put_pixel fb m x y c
              in if a = final then Some m
                 else let err = err - db
                      in if err <s 0 then line_loop fb steep da db sa sb final c m (a + sa) (b + sb) (err + da)
                         else line_loop fb steep da db sa sb final c m (a + sa) b err)"

definition sign_step :: "u32 \<Rightarrow> u32" where
  "sign_step d = (if d <s 0 then - 1 else if 0 <s d then 1 else 0)"

definition draw_line :: "framebuffer \<Rightarrow> mem \<Rightarrow> u32 \<Rightarrow> u32 \<Rightarrow> u32 \<Rightarrow> u32 \<Rightarrow> u32 \<Rightarrow> mem option" where
  "draw_line fb m x0 y0 x1 y1 c =
     (let dx = x1 - x0; dy = y1 - y0;
          adx = (if dx <s 0 then - dx else dx);
          ady = (if dy <s 0 then - dy else dy);
          sx = sign_step dx; sy = sign_step dy
      in if ady \<le>s adx then line_loop fb False adx ady sx sy x1 c m x0 y0 (sdiv32 adx 2)
         else line_loop fb True ady adx sy sx y1 c m y0 x0 (sdiv32 ady 2))"

section \<open>Rectangles\<close>

definition draw_rect :: "framebuffer \<Rightarrow> mem \<Rightarrow> u32 \<Rightarrow> u32 \<Rightarrow> u32 \<Rightarrow> u32 \<Rightarrow> u32 \<Rightarrow> mem option" where
  "draw_rect fb m x y w h c =
     (let x2 = x + w; y2 = y + h
      in do { m \<leftarrow> draw_line fb m x y x2 y c;
              m \<leftarrow> draw_line fb m x2 y x2 y2 c;
              m \<leftarrow> draw_line fb m x2 y2 x y2 c;
              draw_line fb m x y2 x y c })"

text \<open>The inner loop fills \<open>n\<close> pixels from the address \<open>line\<close>.\<close>

primrec fill_row :: "framebuffer \<Rightarrow> mem \<Rightarrow> u32 \<Rightarrow> u32 \<Rightarrow> nat \<Rightarrow> mem" where
  "fill_row fb m line c 0 = m"
| "fill_row fb m line c (Suc n) = fill_row fb (store_pixel fb m line c) (line + px_size fb) c n"

definition fill_rect :: "framebuffer \<Rightarrow> mem \<Rightarrow> u32 \<Rightarrow> u32 \<Rightarrow> u32 \<Rightarrow> u32 \<Rightarrow> u32 \<Rightarrow> mem" where
  "fill_rect fb m x y w h c =
     (if x \<ge> fb_width fb \<or> y \<ge> fb_height fb then m
      else let x2 = x + w; y2 = y + h;
               x2 = (if x2 > fb_width fb then fb_width fb else x2);
               y2 = (if y2 > fb_height fb then fb_height fb else y2)
           in fold (\<lambda>row m. fill_row fb m (fb_addr fb + of_nat row * fb_pitch fb + x * px_size fb) c (unat x2 - unat x))
                [unat y..<unat y2] m)"

section \<open>The framebuffer as an array of pixels\<close>

text \<open>
  A framebuffer whose rows do not overlap and that fits in the address space. Its bytes, the value
  a pixel of the format can hold, and plotting a list of points.
\<close>

definition fb_ok :: "framebuffer \<Rightarrow> bool" where
  "fb_ok fb \<longleftrightarrow> fb_bpp fb \<in> {16, 24, 32} \<and> unat (fb_width fb) * unat (px_size fb) \<le> unat (fb_pitch fb) \<and>
     unat (fb_height fb) * unat (fb_pitch fb) \<le> 4294967296"

definition fb_bytes :: "framebuffer \<Rightarrow> u32 set" where
  "fb_bytes fb = range_at (fb_addr fb) (unat (fb_height fb) * unat (fb_pitch fb))"

definition on_screen :: "framebuffer \<Rightarrow> u32 \<times> u32 \<Rightarrow> bool" where
  "on_screen fb p \<longleftrightarrow> fst p < fb_width fb \<and> snd p < fb_height fb"

definition pixel_value :: "framebuffer \<Rightarrow> u32 \<Rightarrow> u32" where
  "pixel_value fb c = take_bit (unat (fb_bpp fb)) c"

definition plot :: "framebuffer \<Rightarrow> u32 \<Rightarrow> (u32 \<times> u32) list \<Rightarrow> mem \<Rightarrow> mem" where
  "plot fb c ps = fold (\<lambda>(x, y) m. put_pixel fb m x y c) ps"

text \<open>The pixels of \<open>S\<close> have the colour, the others and all other memory are as before.\<close>

definition paints :: "framebuffer \<Rightarrow> (u32 \<times> u32) set \<Rightarrow> u32 \<Rightarrow> mem \<Rightarrow> mem \<Rightarrow> bool" where
  "paints fb S c m m' \<longleftrightarrow>
     (\<forall>x y. on_screen fb (x, y) \<longrightarrow> get_pixel fb m' x y = (if (x, y) \<in> S then pixel_value fb c else get_pixel fb m x y)) \<and>
     (\<forall>a. a \<notin> fb_bytes fb \<longrightarrow> m' a = m a)"

lemma plot_simps [simp]:
  "plot fb c [] m = m" "plot fb c (p # ps) m = plot fb c ps (put_pixel fb m (fst p) (snd p) c)"
  "plot fb c (ps @ qs) m = plot fb c qs (plot fb c ps m)"
  by (simp_all add: plot_def split_beta)

lemma px_size_cases: "fb_ok fb \<Longrightarrow> fb_bpp fb = 16 \<and> px_size fb = 2 \<or> fb_bpp fb = 24 \<and> px_size fb = 3 \<or> fb_bpp fb = 32 \<and> px_size fb = 4"
  by (auto simp: fb_ok_def px_size_def)

lemma px_pos: "fb_ok fb \<Longrightarrow> 0 < unat (px_size fb) \<and> unat (px_size fb) \<le> 4"
  using px_size_cases [of fb] by auto

text \<open>Pixels on the screen lie inside the framebuffer, and different ones do not share a byte.\<close>

definition px_off :: "framebuffer \<Rightarrow> u32 \<Rightarrow> u32 \<Rightarrow> nat" where
  "px_off fb x y = unat y * unat (fb_pitch fb) + unat x * unat (px_size fb)"

lemma px_off_bound:
  assumes "fb_ok fb" "on_screen fb (x, y)"
  shows "unat x * unat (px_size fb) + unat (px_size fb) \<le> unat (fb_pitch fb)"
    "px_off fb x y + unat (px_size fb) \<le> unat (fb_height fb) * unat (fb_pitch fb)"
proof -
  have "(unat x + 1) * unat (px_size fb) \<le> unat (fb_width fb) * unat (px_size fb)"
    using assms(2) by (intro mult_le_mono1) (simp add: on_screen_def word_less_nat_alt)
  then show r: "unat x * unat (px_size fb) + unat (px_size fb) \<le> unat (fb_pitch fb)"
    using assms(1) by (simp add: fb_ok_def)
  have "(unat y + 1) * unat (fb_pitch fb) \<le> unat (fb_height fb) * unat (fb_pitch fb)"
    using assms(2) by (intro mult_le_mono1) (simp add: on_screen_def word_less_nat_alt)
  then show "px_off fb x y + unat (px_size fb) \<le> unat (fb_height fb) * unat (fb_pitch fb)"
    using r by (simp add: px_off_def)
qed

lemma px_off_lt:
  assumes "fb_ok fb" "on_screen fb (x, y)"
  shows "px_off fb x y + unat (px_size fb) \<le> 4294967296"
  using px_off_bound(2) [OF assms] assms(1) by (simp add: fb_ok_def)

lemma pixel_addr_off: "pixel_addr fb x y = fb_addr fb + of_nat (px_off fb x y)"
  by (simp add: pixel_addr_def px_off_def)

lemma px_off_apart:
  assumes "fb_ok fb" "on_screen fb (x, y)" "on_screen fb (x', y')" "(x, y) \<noteq> (x', y')"
  shows "px_off fb x y + unat (px_size fb) \<le> px_off fb x' y' \<or> px_off fb x' y' + unat (px_size fb) \<le> px_off fb x y"
proof -
  have row: "px_off fb x y + unat (px_size fb) \<le> px_off fb x' y'"
    if "on_screen fb (x, y)" "unat y < unat y'" for x y x' y'
  proof -
    have "(unat y + 1) * unat (fb_pitch fb) \<le> unat y' * unat (fb_pitch fb)"
      using that(2) by (intro mult_le_mono1) simp
    then show ?thesis
      using px_off_bound(1) [OF assms(1) that(1)] by (simp add: px_off_def)
  qed
  have col: "px_off fb x y + unat (px_size fb) \<le> px_off fb x' y" if "unat x < unat x'" for x y x'
  proof -
    have "(unat x + 1) * unat (px_size fb) \<le> unat x' * unat (px_size fb)"
      using that by (intro mult_le_mono1) simp
    then show ?thesis by (simp add: px_off_def)
  qed
  consider "unat y < unat y'" | "unat y' < unat y" | "y = y'" "unat x < unat x'" | "y = y'" "unat x' < unat x"
    using assms(4) by (cases "unat y" "unat y'" rule: linorder_cases; cases "unat x" "unat x'" rule: linorder_cases)
      (auto simp: u32_eq_iff)
  then show ?thesis
    using row [OF assms(2)] row [OF assms(3)] col by cases auto
qed

lemma in_pixel:
  assumes "px_off fb x y + unat (px_size fb) \<le> 4294967296" "k < unat (px_size fb)"
  shows "unat (pixel_addr fb x y + of_nat k - fb_addr fb) = px_off fb x y + k"
  using assms by (simp add: pixel_addr_off unat_of_nat_u32 flip: of_nat_add)

lemma pixel_range_apart:
  assumes "fb_ok fb" "on_screen fb (x, y)" "on_screen fb (x', y')" "(x, y) \<noteq> (x', y')"
  shows "range_at (pixel_addr fb x y) (unat (px_size fb)) \<inter> range_at (pixel_addr fb x' y') (unat (px_size fb)) = {}"
proof -
  have "px_off fb x y + k \<noteq> px_off fb x' y' + l" if "k < unat (px_size fb)" "l < unat (px_size fb)" for k l
    using px_off_apart [OF assms] that by auto
  then have "pixel_addr fb x y + of_nat k \<noteq> pixel_addr fb x' y' + of_nat l"
    if "k < unat (px_size fb)" "l < unat (px_size fb)" for k l
    using in_pixel [OF px_off_lt [OF assms(1,2)] that(1)] in_pixel [OF px_off_lt [OF assms(1,3)] that(2)] that by metis
  then show ?thesis
    unfolding range_at_def by blast
qed

lemma pixel_in_fb:
  assumes "fb_ok fb" "on_screen fb (x, y)"
  shows "range_at (pixel_addr fb x y) (unat (px_size fb)) \<subseteq> fb_bytes fb"
proof
  fix a assume "a \<in> range_at (pixel_addr fb x y) (unat (px_size fb))"
  then obtain k where k: "k < unat (px_size fb)" "a = pixel_addr fb x y + of_nat k"
    by (auto simp: range_at_def)
  then have "unat (a - fb_addr fb) < unat (fb_height fb) * unat (fb_pitch fb)"
    using in_pixel [OF px_off_lt [OF assms] k(1)] px_off_bound(2) [OF assms] by simp
  then show "a \<in> fb_bytes fb"
    unfolding fb_bytes_def using assms(1) by (subst range_at_iff) (auto simp: fb_ok_def)
qed

lemma range_at_2: "range_at a 2 = {a, a + 1}" and range_at_3: "range_at a 3 = {a, a + 1, a + 2}"
  and range_at_4: "range_at a 4 = {a, a + 1, a + 2, a + 3}"
proof -
  have n: "{..<2 :: nat} = {0, 1}" "{..<3 :: nat} = {0, 1, 2}" "{..<4 :: nat} = {0, 1, 2, 3}"
    by auto
  show "range_at a 2 = {a, a + 1}" "range_at a 3 = {a, a + 1, a + 2}" "range_at a 4 = {a, a + 1, a + 2, a + 3}"
    by (simp_all add: range_at_def n)
qed

lemma store_pixel_outside:
  assumes "fb_ok fb" "z \<notin> range_at a (unat (px_size fb))"
  shows "store_pixel fb m a c z = m z"
  using px_size_cases [OF assms(1)] assms(2)
  by (auto simp: store_pixel_def store32_def range_at_2 range_at_3 range_at_4)

lemma load_pixel_cong:
  assumes "fb_ok fb" "\<And>z. z \<in> range_at a (unat (px_size fb)) \<Longrightarrow> m z = m' z"
  shows "load_pixel fb m a = load_pixel fb m' a"
  using px_size_cases [OF assms(1)] assms(2)
  by (auto simp: load_pixel_def load32_def load16_def range_at_2 range_at_3 range_at_4)

lemma bytes_value:
  "(ucast (ucast (v :: u32) :: u8) :: u32) OR push_bit 8 (ucast (ucast (drop_bit 8 v) :: u8)) = take_bit 16 v"
  "(ucast (ucast (v :: u32) :: u8) :: u32) OR push_bit 8 (ucast (ucast (drop_bit 8 v) :: u8))
    OR push_bit 16 (ucast (ucast (drop_bit 16 v) :: u8)) = take_bit 24 v"
  "(ucast ((ucast (ucast v :: u8) :: u16) OR push_bit 8 (ucast (ucast (drop_bit 8 v) :: u8))) :: u32) = take_bit 16 v"
proof -
  show "(ucast (ucast (v :: u32) :: u8) :: u32) OR push_bit 8 (ucast (ucast (drop_bit 8 v) :: u8)) = take_bit 16 v"
  proof (rule bit_eqI)
    fix n assume "possible_bit TYPE(u32) n"
    then show "bit ((ucast (ucast v :: u8) :: u32) OR push_bit 8 (ucast (ucast (drop_bit 8 v) :: u8))) n = bit (take_bit 16 v) n"
      by (cases "n < 8"; cases "n < 16") (auto simp: bit_simps)
  qed
  show "(ucast (ucast (v :: u32) :: u8) :: u32) OR push_bit 8 (ucast (ucast (drop_bit 8 v) :: u8))
    OR push_bit 16 (ucast (ucast (drop_bit 16 v) :: u8)) = take_bit 24 v"
  proof (rule bit_eqI)
    fix n assume "possible_bit TYPE(u32) n"
    then show "bit ((ucast (ucast v :: u8) :: u32) OR push_bit 8 (ucast (ucast (drop_bit 8 v) :: u8))
        OR push_bit 16 (ucast (ucast (drop_bit 16 v) :: u8))) n = bit (take_bit 24 v) n"
      by (cases "n < 8"; cases "n < 16"; cases "n < 24") (auto simp: bit_simps)
  qed
  show "(ucast ((ucast (ucast v :: u8) :: u16) OR push_bit 8 (ucast (ucast (drop_bit 8 v) :: u8))) :: u32) = take_bit 16 v"
  proof (rule bit_eqI)
    fix n assume "possible_bit TYPE(u32) n"
    then show "bit (ucast ((ucast (ucast v :: u8) :: u16) OR push_bit 8 (ucast (ucast (drop_bit 8 v) :: u8))) :: u32) n = bit (take_bit 16 v) n"
      by (cases "n < 8"; cases "n < 16") (auto simp: bit_simps)
  qed
qed

lemma load_store_pixel:
  assumes "fb_ok fb"
  shows "load_pixel fb (store_pixel fb m a c) a = pixel_value fb c"
proof -
  have "take_bit 32 c = c"
    by (simp add: take_bit_word_eq_self)
  then show ?thesis
    using px_size_cases [OF assms]
    by (auto simp: load_pixel_def store_pixel_def pixel_value_def load16_def bytes_value)
qed

lemma put_pixel_paints:
  assumes "fb_ok fb"
  shows "paints fb {(x, y)} c m (put_pixel fb m x y c)"
proof (cases "on_screen fb (x, y)")
  case True
  have e: "put_pixel fb m x y c = store_pixel fb m (pixel_addr fb x y) c"
    using True by (simp add: put_pixel_def on_screen_def linorder_not_less [symmetric])
  show ?thesis
    unfolding paints_def e
  proof (intro conjI allI impI)
    fix x' y' assume s: "on_screen fb (x', y')"
    have g: "get_pixel fb m' x' y' = load_pixel fb m' (pixel_addr fb x' y')" for m'
      using s by (simp add: get_pixel_def on_screen_def linorder_not_less [symmetric])
    show "get_pixel fb (store_pixel fb m (pixel_addr fb x y) c) x' y' =
        (if (x', y') \<in> {(x, y)} then pixel_value fb c else get_pixel fb m x' y')"
    proof (cases "(x', y') = (x, y)")
      case True
      then show ?thesis
        using g load_store_pixel [OF assms] by simp
    next
      case False
      have e2: "load_pixel fb (store_pixel fb m (pixel_addr fb x y) c) (pixel_addr fb x' y') = load_pixel fb m (pixel_addr fb x' y')"
        using pixel_range_apart [OF assms s True False]
        by (intro load_pixel_cong [OF assms] store_pixel_outside [OF assms]) blast
      have "(x', y') \<notin> {(x, y)}"
        using False by simp
      then show ?thesis
        by (simp only: g e2 if_False)
    qed
  next
    fix a assume "a \<notin> fb_bytes fb"
    then show "store_pixel fb m (pixel_addr fb x y) c a = m a"
      using pixel_in_fb [OF assms True] by (intro store_pixel_outside [OF assms]) blast
  qed
next
  case False
  then have "put_pixel fb m x y c = m"
    by (auto simp: put_pixel_def on_screen_def)
  then show ?thesis
    using False by (auto simp: paints_def)
qed

lemma paints_refl: "paints fb {} c m m"
  by (simp add: paints_def)

lemma paints_trans: "paints fb S c m m' \<Longrightarrow> paints fb T c m' m'' \<Longrightarrow> paints fb (S \<union> T) c m m''"
  by (auto simp: paints_def)

lemma paints_cong: "paints fb S c m m' \<Longrightarrow> (\<And>p. on_screen fb p \<Longrightarrow> p \<in> S \<longleftrightarrow> p \<in> T) \<Longrightarrow> paints fb T c m m'"
  by (simp add: paints_def)

lemma plot_paints:
  assumes "fb_ok fb"
  shows "paints fb (set ps) c m (plot fb c ps m)"
proof (induction ps arbitrary: m)
  case Nil
  show ?case by (simp add: paints_refl)
next
  case (Cons p ps)
  then show ?case
    using paints_trans [OF put_pixel_paints [OF assms] Cons.IH] by (cases p) simp
qed

section \<open>Filled rectangles\<close>

lemma pixel_addr_Suc: "pixel_addr fb x y + px_size fb = pixel_addr fb (x + 1) y"
  by (simp add: pixel_addr_def algebra_simps)

lemma fill_row_plot:
  assumes "unat x + n \<le> unat (fb_width fb)" "y < fb_height fb"
  shows "fill_row fb m (pixel_addr fb x y) c n = plot fb c (map (\<lambda>k. (x + of_nat k, y)) [0..<n]) m"
  using assms(1)
proof (induction n arbitrary: x m)
  case (Suc n)
  have x: "x < fb_width fb"
    using Suc.prems by (simp add: word_less_nat_alt)
  have "unat x + 1 < 4294967296"
    using Suc.prems unat_u32_lt [of "fb_width fb"] by linarith
  then have "unat (x + 1) = unat x + 1"
    by (subst unat_add_no_wrap) simp_all
  then have ih: "fill_row fb m' (pixel_addr fb (x + 1) y) c n = plot fb c (map (\<lambda>k. (x + 1 + of_nat k, y)) [0..<n]) m'" for m'
    using Suc.prems by (intro Suc.IH) simp
  have "store_pixel fb m (pixel_addr fb x y) c = put_pixel fb m x y c"
    using x assms(2) by (simp add: put_pixel_def linorder_not_less [symmetric])
  then show ?case
    unfolding fill_row.simps pixel_addr_Suc ih
    by (simp add: upt_conv_Cons map_Suc_upt [symmetric] comp_def algebra_simps del: upt_Suc map_Suc_upt)
qed simp

definition rect_points :: "u32 \<Rightarrow> u32 \<Rightarrow> u32 \<Rightarrow> u32 \<Rightarrow> (u32 \<times> u32) set" where
  "rect_points x y x2 y2 = {(a, b). x \<le> a \<and> a < x2 \<and> y \<le> b \<and> b < y2}"

lemma row_points:
  fixes x x2 y :: u32
  assumes "x \<le> x2"
  shows "set (map (\<lambda>k. (x + of_nat k, y)) [0..<unat x2 - unat x]) = {(a, b). x \<le> a \<and> a < x2 \<and> b = y}"
proof -
  have "a \<in> (\<lambda>k. x + of_nat k) ` {0..<unat x2 - unat x} \<longleftrightarrow> x \<le> a \<and> a < x2" for a
  proof
    assume "a \<in> (\<lambda>k. x + of_nat k) ` {0..<unat x2 - unat x}"
    then obtain k where k: "k < unat x2 - unat x" "a = x + of_nat k"
      by auto
    have k': "unat (of_nat k :: u32) = k"
      using k(1) unat_u32_lt [of x2] by (intro unat_of_nat_u32) linarith
    have "unat x + k < 4294967296"
      using k(1) unat_u32_lt [of x2] by linarith
    then have "unat a = unat x + k"
      using k' by (subst k(2), subst unat_add_no_wrap) simp_all
    then show "x \<le> a \<and> a < x2"
      using k(1) by (simp add: word_le_nat_alt word_less_nat_alt)
  next
    assume a: "x \<le> a \<and> a < x2"
    then have "unat (a - x) = unat a - unat x"
      by (intro unat_sub_no_wrap) simp
    then show "a \<in> (\<lambda>k. x + of_nat k) ` {0..<unat x2 - unat x}"
      using a by (intro image_eqI [where x = "unat (a - x)"]) (auto simp: word_le_nat_alt word_less_nat_alt)
  qed
  then show ?thesis
    by (auto simp: image_iff)
qed

lemma fold_rows_paints:
  assumes "fb_ok fb" "x \<le> x2" "x2 \<le> fb_width fb" "j \<le> unat (fb_height fb)"
  shows "paints fb {(a, b). x \<le> a \<and> a < x2 \<and> i \<le> unat b \<and> unat b < j} c m
    (fold (\<lambda>row m. fill_row fb m (fb_addr fb + of_nat row * fb_pitch fb + x * px_size fb) c (unat x2 - unat x)) [i..<j] m)"
  using assms(4)
proof (induction j)
  case 0
  then show ?case
    using paints_refl by simp
next
  case (Suc j)
  show ?case
  proof (cases "i \<le> j")
    case True
    let ?f = "\<lambda>row m. fill_row fb m (fb_addr fb + of_nat row * fb_pitch fb + x * px_size fb) c (unat x2 - unat x)"
    have j: "unat (of_nat j :: u32) = j"
      using Suc.prems unat_u32_lt [of "fb_height fb"] by (intro unat_of_nat_u32) linarith
    have a: "fb_addr fb + of_nat j * fb_pitch fb + x * px_size fb = pixel_addr fb x (of_nat j)"
      by (simp add: pixel_addr_def)
    have "?f j m' = plot fb c (map (\<lambda>k. (x + of_nat k, of_nat j)) [0..<unat x2 - unat x]) m'" for m'
      unfolding a using assms(2,3) Suc.prems j
      by (intro fill_row_plot) (auto simp: word_le_nat_alt word_less_nat_alt)
    then have p: "paints fb {(a, b). x \<le> a \<and> a < x2 \<and> b = of_nat j} c m' (?f j m')" for m'
      using plot_paints [OF assms(1), of "map (\<lambda>k. (x + of_nat k, of_nat j)) [0..<unat x2 - unat x]" c m']
      unfolding row_points [OF assms(2)] by simp
    have J: "b = of_nat j \<longleftrightarrow> unat b = j" for b :: u32
      using j by (simp add: u32_eq_iff)
    have S: "{(a, b :: u32). x \<le> a \<and> a < x2 \<and> i \<le> unat b \<and> unat b < j} \<union> {(a, b). x \<le> a \<and> a < x2 \<and> b = of_nat j} =
        {(a, b). x \<le> a \<and> a < x2 \<and> i \<le> unat b \<and> unat b < Suc j}"
      unfolding J using True by (auto simp: less_Suc_eq)
    have F: "fold ?f [i..<Suc j] m = ?f j (fold ?f [i..<j] m)"
      using True by simp
    have ih: "paints fb {(a, b). x \<le> a \<and> a < x2 \<and> i \<le> unat b \<and> unat b < j} c m (fold ?f [i..<j] m)"
      using Suc.prems by (intro Suc.IH) simp
    show ?thesis
      unfolding F using paints_trans [OF ih p] unfolding S .
  next
    case False
    then have e: "[i..<Suc j] = []" "{(a, b :: u32). x \<le> a \<and> a < x2 \<and> i \<le> unat b \<and> unat b < Suc j} = {}"
      by auto
    show ?thesis
      unfolding e by (simp add: paints_refl)
  qed
qed

lemma fill_rect_paints:
  assumes "fb_ok fb"
  shows "paints fb (rect_points x y (x + w) (y + h)) c m (fill_rect fb m x y w h c)"
proof (cases "x < fb_width fb \<and> y < fb_height fb")
  case True
  let ?x2 = "min (x + w) (fb_width fb)" and ?y2 = "min (y + h) (fb_height fb)"
  have f: "fill_rect fb m x y w h c = fold (\<lambda>row m. fill_row fb m (fb_addr fb + of_nat row * fb_pitch fb + x * px_size fb) c
      (unat ?x2 - unat x)) [unat y..<unat ?y2] m"
  proof -
    have e: "(if x + w > fb_width fb then fb_width fb else x + w) = ?x2" "(if y + h > fb_height fb then fb_height fb else y + h) = ?y2"
      by (auto simp: min_def not_less)
    show ?thesis
      unfolding fill_rect_def Let_def e using True by (simp add: not_le [symmetric])
  qed
  show ?thesis
  proof (cases "x \<le> x + w")
    case le: True
    have "paints fb {(a, b). x \<le> a \<and> a < ?x2 \<and> unat y \<le> unat b \<and> unat b < unat ?y2} c m (fill_rect fb m x y w h c)"
      unfolding f using True le less_imp_le [of x "fb_width fb"]
      by (intro fold_rows_paints [OF assms] iffD1 [OF word_le_nat_alt]) simp_all
    then show ?thesis
      by (rule paints_cong) (auto simp: rect_points_def on_screen_def word_le_nat_alt word_less_nat_alt min_def)
  next
    case False
    then have "unat ?x2 - unat x = 0"
      by (simp add: min_def word_le_nat_alt)
    moreover have "fold (\<lambda>row m. m) rs m = m" for rs :: "nat list"
      by (induction rs) simp_all
    ultimately have "fill_rect fb m x y w h c = m"
      unfolding f by (simp only: fill_row.simps)
    moreover have "rect_points x y (x + w) (y + h) = {}"
      using False by (auto simp: rect_points_def)
    ultimately show ?thesis
      by (simp add: paints_refl)
  qed
next
  case False
  then have "fill_rect fb m x y w h c = m"
    by (auto simp: fill_rect_def)
  then show ?thesis
    using False by (auto intro!: paints_cong [OF paints_refl] simp: rect_points_def on_screen_def)
qed

text \<open>C29: \<open>fill_rect\<close> sets exactly the pixels of the rectangle that are on the screen and changes no other memory;
  a rectangle whose right or lower edge wraps around 32 bits is not drawn.\<close>

theorem fill_rect_correct:
  assumes "fb_ok fb"
  shows "paints fb (rect_points x y (x + w) (y + h)) c m (fill_rect fb m x y w h c)"
  using assms by (rule fill_rect_paints)

section \<open>The points of a line\<close>

text \<open>
  The loop leaves the screen or meets its last point after at most \<open>2 ^ 31\<close> steps, whatever the
  coordinates, and everything it writes is a list of pixels.
\<close>

lemma line_loop_returns:
  assumes "sa = 1 \<or> sa = - 1 \<or> a = final"
  shows "\<exists>ps. line_loop fb steep da db sa sb final c m a b err = Some (plot fb c ps m)"
  using assms
proof (induction "if sa = 1 then 2147483648 - unat a else if a <s 0 then 0 else unat a + 1" arbitrary: m a b err rule: less_induct)
  case less
  let ?x = "if steep then b else a" and ?y = "if steep then a else b"
  let ?m = "put_pixel fb m ?x ?y c"
  show ?case
  proof (cases "?x <s 0 \<or> ?x \<ge> fb_width fb \<or> ?y <s 0 \<or> ?y \<ge> fb_height fb \<or> a = final")
    case True
    then show ?thesis
      by (subst line_loop.simps) (auto intro: exI [of _ "[]"] exI [of _ "[(?x, ?y)]"] simp: Let_def)
  next
    case False
    then have a: "unat a < 2147483648" "a \<noteq> final"
      by (auto simp: sless_zero_neg not_le split: if_splits)
    then have sa: "sa = 1 \<or> sa = - 1"
      using less.prems by simp
    have dec: "(if sa = 1 then 2147483648 - unat (a + sa) else if a + sa <s 0 then 0 else unat (a + sa) + 1)
        < (if sa = 1 then 2147483648 - unat a else if a <s 0 then 0 else unat a + 1)"
    proof (cases "sa = 1")
      case True
      then have "unat (a + sa) = unat a + 1"
        using a(1) by (simp add: unat_add_no_wrap)
      then show ?thesis
        using True a(1) by simp
    next
      case False
      have nn: "\<not> a <s 0"
        using a(1) by (simp add: sless_zero_neg)
      show ?thesis
      proof (cases "a = 0")
        case True
        then show ?thesis
          using False sa nn by (simp add: sless_zero_neg minus_one_unat)
      next
        case nz: False
        then have "unat (a - 1) = unat a - 1" "0 < unat a"
          by (simp_all add: unat_sub_no_wrap word_le_nat_alt unat_gt_0 Suc_le_eq)
        then show ?thesis
          using False sa nn a(1) by (auto simp: sless_zero_neg)
      qed
    qed
    let ?e = "err - db"
    have l: "line_loop fb steep da db sa sb final c m a b err =
        (if ?e <s 0 then line_loop fb steep da db sa sb final c ?m (a + sa) (b + sb) (?e + da)
         else line_loop fb steep da db sa sb final c ?m (a + sa) b ?e)"
      using False by (subst line_loop.simps) (simp add: Let_def)
    have sa': "sa = 1 \<or> sa = - 1 \<or> a + sa = final"
      using sa by blast
    obtain ps where "line_loop fb steep da db sa sb final c m a b err = Some (plot fb c ps ?m)"
    proof (cases "?e <s 0")
      case True
      then show ?thesis
        using that less.hyps [OF dec sa', of ?m "b + sb" "?e + da"] unfolding l by (simp only: if_True) blast
    next
      case False
      then show ?thesis
        using that less.hyps [OF dec sa', of ?m b ?e] unfolding l by (simp only: if_False) blast
    qed
    then show ?thesis
      by (intro exI [of _ "(?x, ?y) # ps"]) simp
  qed
qed

lemma sign_step_cases: "d = 0 \<or> sign_step d = 1 \<or> sign_step d = - 1"
proof -
  have "0 <s d" if "\<not> d <s 0" "d \<noteq> 0"
    using that sless_zero_small [of d] by (simp add: sless_zero_neg not_le)
  then show ?thesis
    by (auto simp: sign_step_def)
qed

lemma draw_line_returns: "\<exists>ps. draw_line fb m x0 y0 x1 y1 c = Some (plot fb c ps m)"
proof -
  have "sign_step (x1 - x0) = 1 \<or> sign_step (x1 - x0) = - 1 \<or> x0 = x1"
    "sign_step (y1 - y0) = 1 \<or> sign_step (y1 - y0) = - 1 \<or> y0 = y1"
    using sign_step_cases [of "x1 - x0"] sign_step_cases [of "y1 - y0"] by auto
  then show ?thesis
    unfolding draw_line_def Let_def by (auto intro: line_loop_returns)
qed

text \<open>
  Stepping \<open>k\<close> along the longer side \<open>da\<close>, the other coordinate has moved by the nearest integer to
  \<open>k * db / da\<close>.
\<close>

definition line_minor :: "int \<Rightarrow> int \<Rightarrow> int \<Rightarrow> int" where
  "line_minor da db k = (k * db + da - 1 - da div 2) div da"

definition line_points :: "u32 \<Rightarrow> u32 \<Rightarrow> u32 \<Rightarrow> u32 \<Rightarrow> (u32 \<times> u32) list" where
  "line_points x0 y0 x1 y1 =
     (let dx = uint x1 - uint x0; dy = uint y1 - uint y0
      in if \<bar>dy\<bar> \<le> \<bar>dx\<bar>
         then map (\<lambda>k. (word_of_int (uint x0 + sgn dx * k), word_of_int (uint y0 + sgn dy * line_minor \<bar>dx\<bar> \<bar>dy\<bar> k))) [0..\<bar>dx\<bar>]
         else map (\<lambda>k. (word_of_int (uint x0 + sgn dx * line_minor \<bar>dy\<bar> \<bar>dx\<bar> k), word_of_int (uint y0 + sgn dy * k))) [0..\<bar>dy\<bar>])"

lemma line_minor_eqI:
  assumes "0 \<le> da div 2 - k * db + j * da" "da div 2 - k * db + j * da < da"
  shows "line_minor da db k = j"
proof -
  let ?r = "da - 1 - (da div 2 - k * db + j * da)"
  have "k * db + da - 1 - da div 2 = da * j + ?r"
    by (simp add: algebra_simps)
  moreover have "0 \<le> ?r" "?r < da"
    using assms by simp_all
  ultimately show ?thesis
    unfolding line_minor_def by (rule int_div_pos_eq)
qed

lemma line_minor_err:
  assumes "0 < da"
  shows "0 \<le> da div 2 - k * db + line_minor da db k * da" "da div 2 - k * db + line_minor da db k * da < da"
proof -
  let ?n = "k * db + da - 1 - da div 2"
  have "?n div da * da + ?n mod da = ?n" "0 \<le> ?n mod da" "?n mod da < da"
    using assms by simp_all
  then show "0 \<le> da div 2 - k * db + line_minor da db k * da" "da div 2 - k * db + line_minor da db k * da < da"
    unfolding line_minor_def by linarith+
qed

lemma line_minor_ends:
  assumes "0 \<le> db" "db \<le> da"
  shows "line_minor da db 0 = 0" "line_minor da db da = db"
proof -
  show "line_minor da db 0 = 0"
    using assms by (cases "da = 0") (simp_all add: line_minor_def div_pos_pos_trivial)
  show "line_minor da db da = db"
  proof (cases "da = 0")
    case False
    then show ?thesis
      using assms by (intro line_minor_eqI) (simp_all add: mult.commute)
  qed (use assms in \<open>simp add: line_minor_def\<close>)
qed

lemma line_minor_range:
  assumes "0 \<le> db" "db \<le> da" "0 \<le> k" "k \<le> da"
  shows "0 \<le> line_minor da db k" "line_minor da db k \<le> db"
proof -
  have mono: "line_minor da db i \<le> line_minor da db j" if "i \<le> j" for i j
  proof (cases "da = 0")
    case False
    then show ?thesis
      unfolding line_minor_def using assms(1,2) that by (intro zdiv_mono1) (simp_all add: mult_right_mono)
  qed (simp add: line_minor_def)
  show "0 \<le> line_minor da db k" "line_minor da db k \<le> db"
    using mono [OF assms(3)] mono [OF assms(4)] line_minor_ends [OF assms(1,2)] by simp_all
qed

lemma line_minor_step:
  assumes "0 \<le> db" "db \<le> da" "0 < da"
  defines "e \<equiv> (\<lambda>k. da div 2 - k * db + line_minor da db k * da)"
  shows "if e k - db < 0 then line_minor da db (k + 1) = line_minor da db k + 1 \<and> e (k + 1) = e k - db + da
    else line_minor da db (k + 1) = line_minor da db k \<and> e (k + 1) = e k - db"
proof -
  note b = line_minor_err [OF assms(3), of k db, folded e_def]
  show ?thesis
  proof (cases "e k - db < 0")
    case True
    have "line_minor da db (k + 1) = line_minor da db k + 1"
      using True b assms(1,2) by (intro line_minor_eqI) (simp_all add: e_def algebra_simps)
    then show ?thesis
      using True by (simp add: e_def algebra_simps)
  next
    case False
    have "line_minor da db (k + 1) = line_minor da db k"
      using False b assms(1) by (intro line_minor_eqI) (simp_all add: e_def algebra_simps)
    then show ?thesis
      using False by (simp add: e_def algebra_simps)
  qed
qed

lemma line_loop_points:
  fixes A B D E ka kb k :: int and steep :: bool
  assumes dims: "0 \<le> E" "E \<le> D" "D < 2147483648" "D = 0 \<or> ka = 1 \<or> ka = - 1"
    and ca: "\<And>k. 0 \<le> k \<Longrightarrow> k \<le> D \<Longrightarrow> 0 \<le> A + ka * k \<and> A + ka * k < 2147483648"
    and cb: "\<And>j. 0 \<le> j \<Longrightarrow> j \<le> E \<Longrightarrow> 0 \<le> B + kb * j \<and> B + kb * j < 2147483648"
    and "0 \<le> k" "k \<le> D"
  defines "pt \<equiv> \<lambda>k. if steep then (word_of_int (B + kb * line_minor D E k), word_of_int (A + ka * k))
    else (word_of_int (A + ka * k), word_of_int (B + kb * line_minor D E k))"
  shows "line_loop fb steep (word_of_int D) (word_of_int E) (word_of_int ka) (word_of_int kb) (word_of_int (A + ka * D)) c m
      (word_of_int (A + ka * k)) (word_of_int (B + kb * line_minor D E k))
      (word_of_int (D div 2 - k * E + line_minor D E k * D)) =
    Some (plot fb c (takeWhile (on_screen fb) (map pt [k..D])) m)"
  using assms(7,8)
proof (induction "nat (D - k)" arbitrary: k m)
  case (0 k m)
  then have k: "k = D" by simp
  have j: "0 \<le> line_minor D E k" "line_minor D E k \<le> E"
    using line_minor_range [OF dims(1,2)] 0 by auto
  have nn: "\<not> (word_of_int (A + ka * k) :: u32) <s 0" "\<not> (word_of_int (B + kb * line_minor D E k) :: u32) <s 0"
    using not_neg_of_int [OF ca [OF 0(2,3)]] not_neg_of_int [OF cb [OF j]] .
  show ?case
    using nn unfolding k by (subst line_loop.simps) (auto simp: Let_def pt_def on_screen_def not_le)
next
  case (Suc d k m)
  let ?j = "line_minor D E"
  let ?e = "\<lambda>k. D div 2 - k * E + ?j k * D"
  let ?a = "word_of_int (A + ka * k) :: u32" and ?b = "word_of_int (B + kb * ?j k) :: u32"
  have k: "k < D" "0 < D" "0 \<le> k + 1" "k + 1 \<le> D"
    using Suc.hyps(2) Suc.prems by simp_all
  have j: "0 \<le> ?j k" "?j k \<le> E"
    using line_minor_range [OF dims(1,2)] Suc.prems by auto
  have nn: "\<not> ?a <s 0" "\<not> ?b <s 0"
    using not_neg_of_int [OF ca [OF Suc.prems]] not_neg_of_int [OF cb [OF j]] .
  have pts: "map pt [k..D] = pt k # map pt [k + 1..D]"
    using k by (simp add: upto_rec1)
  show ?case
  proof (cases "on_screen fb (pt k)")
    case False
    then show ?thesis
      unfolding pts using nn by (subst line_loop.simps) (auto simp: Let_def pt_def on_screen_def not_le split: if_splits)
  next
    case True
    let ?m = "put_pixel fb m (fst (pt k)) (snd (pt k)) c"
    have "A + ka * k \<noteq> A + ka * D"
      using k dims(4) by auto
    then have ne: "?a \<noteq> word_of_int (A + ka * D)"
      using ca [OF Suc.prems] ca [of D] k(2) sint_of_int [of "A + ka * k"] sint_of_int [of "A + ka * D"] by auto
    note st = line_minor_step [OF dims(1,2) k(2), of k] and er = line_minor_err [OF k(2), of k E]
    have sl: "(word_of_int (?e k) - word_of_int E :: u32) <s 0 \<longleftrightarrow> ?e k - E < 0"
      using sless_of_int(1) [of "?e k - E" 0] er dims by simp
    have l: "line_loop fb steep (word_of_int D) (word_of_int E) (word_of_int ka) (word_of_int kb) (word_of_int (A + ka * D)) c m
        ?a ?b (word_of_int (?e k)) =
      line_loop fb steep (word_of_int D) (word_of_int E) (word_of_int ka) (word_of_int kb) (word_of_int (A + ka * D)) c ?m
        (word_of_int (A + ka * (k + 1))) (word_of_int (B + kb * ?j (k + 1))) (word_of_int (?e (k + 1)))"
    proof (cases "?e k - E < 0")
      case neg: True
      have "?j (k + 1) = ?j k + 1 \<and> ?e (k + 1) = ?e k - E + D"
        by (rule st [unfolded if_P [OF neg]])
      then show ?thesis
        using nn True ne neg sl by (subst line_loop.simps)
          (simp add: Let_def pt_def on_screen_def not_le [symmetric] algebra_simps split: if_splits)
    next
      case pos: False
      have "?j (k + 1) = ?j k \<and> ?e (k + 1) = ?e k - E"
        by (rule st [unfolded if_not_P [OF pos]])
      then show ?thesis
        using nn True ne pos sl by (subst line_loop.simps)
          (simp add: Let_def pt_def on_screen_def not_le [symmetric] algebra_simps split: if_splits)
    qed
    show ?thesis
      unfolding l pts using Suc.hyps(1) [of "k + 1" ?m] Suc.hyps(2) k True by simp
  qed
qed

text \<open>
  The points of a line: they lead from one end to the other, one step along the longer side at a
  time, stay inside the bounding box and lie within half a pixel of the ideal line.
\<close>

definition bounding_box :: "u32 \<Rightarrow> u32 \<Rightarrow> u32 \<Rightarrow> u32 \<Rightarrow> (u32 \<times> u32) set" where
  "bounding_box x0 y0 x1 y1 = {(x, y). min x0 x1 \<le> x \<and> x \<le> max x0 x1 \<and> min y0 y1 \<le> y \<and> y \<le> max y0 y1}"

lemma between_int:
  fixes a b k :: int
  assumes "0 \<le> k" "k \<le> \<bar>b - a\<bar>"
  shows "min a b \<le> a + sgn (b - a) * k" "a + sgn (b - a) * k \<le> max a b"
  using assms by (cases a b rule: linorder_cases; simp)+

lemma between:
  fixes a b :: u32
  assumes "0 \<le> k" "k \<le> \<bar>uint b - uint a\<bar>"
  shows "uint (word_of_int (uint a + sgn (uint b - uint a) * k) :: u32) = uint a + sgn (uint b - uint a) * k"
    "min a b \<le> word_of_int (uint a + sgn (uint b - uint a) * k)" "word_of_int (uint a + sgn (uint b - uint a) * k) \<le> max a b"
proof -
  let ?v = "uint a + sgn (uint b - uint a) * k"
  have r: "min (uint a) (uint b) \<le> ?v \<and> ?v \<le> max (uint a) (uint b)"
    using between_int [OF assms] by simp
  have "0 \<le> min (uint a) (uint b)" "max (uint a) (uint b) < 4294967296"
    using uint_bounds(2) [of a] uint_bounds(2) [of b] by simp_all
  then have "0 \<le> ?v" "?v < 4294967296"
    using r by linarith+
  then show u: "uint (word_of_int ?v :: u32) = ?v"
    by (rule uint_of_int)
  show "min a b \<le> word_of_int ?v" "word_of_int ?v \<le> max a b"
    unfolding word_le_def using u r by (auto simp: min_def max_def word_le_def split: if_splits)
qed

lemma near_scaled:
  fixes p q da db k :: int
  assumes "\<bar>p\<bar> = da" "\<bar>q\<bar> = db" "0 < da"
  shows "2 * \<bar>sgn q * line_minor da db k * p - sgn p * k * q\<bar> \<le> da"
proof (cases "q = 0")
  case False
  have pq: "p = sgn p * da" "q = sgn q * db" "\<bar>sgn q * sgn p\<bar> = 1"
    using assms False by (auto simp: mult_sgn_abs abs_mult)
  have "sgn q * line_minor da db k * (sgn p * da) - sgn p * k * (sgn q * db) = sgn q * sgn p * (line_minor da db k * da - k * db)"
    by (simp add: algebra_simps)
  then have e: "\<bar>sgn q * line_minor da db k * p - sgn p * k * q\<bar> = \<bar>line_minor da db k * da - k * db\<bar>"
    using pq(3) by (simp flip: pq(1,2) add: abs_mult)
  have "2 * (da div 2) \<le> da" "da \<le> 2 * (da div 2) + 1"
    by presburger+
  then show ?thesis
    unfolding e using line_minor_err [OF assms(3), of k db] by arith
qed (use assms in simp)

lemma line_points_geometry:
  shows "length (line_points x0 y0 x1 y1) = nat (max \<bar>uint x1 - uint x0\<bar> \<bar>uint y1 - uint y0\<bar>) + 1"
    and "hd (line_points x0 y0 x1 y1) = (x0, y0)" and "last (line_points x0 y0 x1 y1) = (x1, y1)"
    and "\<forall>(x, y)\<in>set (line_points x0 y0 x1 y1). (x, y) \<in> bounding_box x0 y0 x1 y1 \<and>
      2 * \<bar>(uint y - uint y0) * (uint x1 - uint x0) - (uint x - uint x0) * (uint y1 - uint y0)\<bar> \<le>
        max \<bar>uint x1 - uint x0\<bar> \<bar>uint y1 - uint y0\<bar>"
proof -
  let ?dx = "uint x1 - uint x0" and ?dy = "uint y1 - uint y0"
  have end_of: "word_of_int (uint a + sgn (uint b - uint a) * \<bar>uint b - uint a\<bar>) = b" for a b :: u32
    unfolding sgn_mult_abs by simp
  have ends: "hd (map f [0..n]) = f 0 \<and> last (map f [0..n]) = f n \<and> length (map f [0..n]) = nat n + 1"
    if "0 \<le> n" for n and f :: "int \<Rightarrow> u32 \<times> u32"
  proof (intro conjI)
    show "hd (map f [0..n]) = f 0"
      unfolding upto_rec1 [OF that] by simp
    show "last (map f [0..n]) = f n"
      unfolding upto_rec2 [OF that] by simp
    show "length (map f [0..n]) = nat n + 1"
      using that by (simp add: nat_add_distrib)
  qed
  have le: "line_minor \<bar>?dx\<bar> \<bar>?dy\<bar> \<bar>?dx\<bar> = \<bar>?dy\<bar>" "line_minor \<bar>?dx\<bar> \<bar>?dy\<bar> 0 = 0" if "\<bar>?dy\<bar> \<le> \<bar>?dx\<bar>"
    using line_minor_ends [of "\<bar>?dy\<bar>" "\<bar>?dx\<bar>"] that by simp_all
  have gr: "line_minor \<bar>?dy\<bar> \<bar>?dx\<bar> \<bar>?dy\<bar> = \<bar>?dx\<bar>" "line_minor \<bar>?dy\<bar> \<bar>?dx\<bar> 0 = 0" if "\<not> \<bar>?dy\<bar> \<le> \<bar>?dx\<bar>"
    using line_minor_ends [of "\<bar>?dx\<bar>" "\<bar>?dy\<bar>"] that by simp_all
  show "length (line_points x0 y0 x1 y1) = nat (max \<bar>?dx\<bar> \<bar>?dy\<bar>) + 1"
    by (simp add: line_points_def Let_def ends del: length_map length_upto)
  show "hd (line_points x0 y0 x1 y1) = (x0, y0)"
    by (simp add: line_points_def Let_def ends le gr)
  show "last (line_points x0 y0 x1 y1) = (x1, y1)"
  proof (cases "\<bar>?dy\<bar> \<le> \<bar>?dx\<bar>")
    case True
    then show ?thesis
      by (simp only: line_points_def Let_def if_True ends abs_ge_zero le [OF True] end_of)
  next
    case False
    then show ?thesis
      by (simp only: line_points_def Let_def if_False ends abs_ge_zero gr [OF False] end_of)
  qed
  show "\<forall>(x, y)\<in>set (line_points x0 y0 x1 y1). (x, y) \<in> bounding_box x0 y0 x1 y1 \<and>
      2 * \<bar>(uint y - uint y0) * ?dx - (uint x - uint x0) * ?dy\<bar> \<le> max \<bar>?dx\<bar> \<bar>?dy\<bar>"
  proof (cases "\<bar>?dy\<bar> \<le> \<bar>?dx\<bar>")
    case True
    show ?thesis
    proof (clarify)
      fix x y assume "(x, y) \<in> set (line_points x0 y0 x1 y1)"
      then obtain k where k: "0 \<le> k" "k \<le> \<bar>?dx\<bar>" "x = word_of_int (uint x0 + sgn ?dx * k)"
        "y = word_of_int (uint y0 + sgn ?dy * line_minor \<bar>?dx\<bar> \<bar>?dy\<bar> k)"
        using True unfolding line_points_def Let_def by auto
      have j: "0 \<le> line_minor \<bar>?dx\<bar> \<bar>?dy\<bar> k" "line_minor \<bar>?dx\<bar> \<bar>?dy\<bar> k \<le> \<bar>?dy\<bar>"
        using line_minor_range [of "\<bar>?dy\<bar>" "\<bar>?dx\<bar>"] True k by auto
      note X = between [OF k(1,2), folded k(3)] and Y = between [OF j, folded k(4)]
      have "2 * \<bar>(uint y - uint y0) * ?dx - (uint x - uint x0) * ?dy\<bar> \<le> \<bar>?dx\<bar>"
      proof (cases "?dx = 0")
        case False
        then show ?thesis
          unfolding X(1) Y(1) using near_scaled [of ?dx "\<bar>?dx\<bar>" ?dy "\<bar>?dy\<bar>" k] by simp
      qed (use True in simp)
      then show "(x, y) \<in> bounding_box x0 y0 x1 y1 \<and>
          2 * \<bar>(uint y - uint y0) * ?dx - (uint x - uint x0) * ?dy\<bar> \<le> max \<bar>?dx\<bar> \<bar>?dy\<bar>"
        using X(2,3) Y(2,3) by (auto simp: bounding_box_def)
    qed
  next
    case False
    show ?thesis
    proof (clarify)
      fix x y assume "(x, y) \<in> set (line_points x0 y0 x1 y1)"
      then obtain k where k: "0 \<le> k" "k \<le> \<bar>?dy\<bar>" "y = word_of_int (uint y0 + sgn ?dy * k)"
        "x = word_of_int (uint x0 + sgn ?dx * line_minor \<bar>?dy\<bar> \<bar>?dx\<bar> k)"
        using False unfolding line_points_def Let_def by auto
      have j: "0 \<le> line_minor \<bar>?dy\<bar> \<bar>?dx\<bar> k" "line_minor \<bar>?dy\<bar> \<bar>?dx\<bar> k \<le> \<bar>?dx\<bar>"
        using line_minor_range [of "\<bar>?dx\<bar>" "\<bar>?dy\<bar>"] False k by auto
      note Y = between [OF k(1,2), folded k(3)] and X = between [OF j, folded k(4)]
      have "2 * \<bar>(uint x - uint x0) * ?dy - (uint y - uint y0) * ?dx\<bar> \<le> \<bar>?dy\<bar>"
        unfolding X(1) Y(1) using near_scaled [of ?dy "\<bar>?dy\<bar>" ?dx "\<bar>?dx\<bar>" k] False by simp
      then show "(x, y) \<in> bounding_box x0 y0 x1 y1 \<and>
          2 * \<bar>(uint y - uint y0) * ?dx - (uint x - uint x0) * ?dy\<bar> \<le> max \<bar>?dx\<bar> \<bar>?dy\<bar>"
        using X(2,3) Y(2,3) by (auto simp: bounding_box_def abs_minus_commute)
    qed
  qed
qed

lemma draw_line_points:
  assumes "unat x0 < 2147483648" "unat y0 < 2147483648" "unat x1 < 2147483648" "unat y1 < 2147483648"
  shows "draw_line fb m x0 y0 x1 y1 c = Some (plot fb c (takeWhile (on_screen fb) (line_points x0 y0 x1 y1)) m)"
proof -
  let ?dx = "uint x1 - uint x0" and ?dy = "uint y1 - uint y0"
  have u: "uint x0 < 2147483648" "uint y0 < 2147483648" "uint x1 < 2147483648" "uint y1 < 2147483648"
    using assms by (simp_all add: unat_less_iff_uint)
  note b = u uint_bounds(1) [of x0] uint_bounds(1) [of y0] uint_bounds(1) [of x1] uint_bounds(1) [of y1]
  have d: "x1 - x0 = word_of_int ?dx" "y1 - y0 = word_of_int ?dy"
    by simp_all
  have rx: "\<bar>?dx\<bar> < 2147483648" and ry: "\<bar>?dy\<bar> < 2147483648"
    using b by linarith+
  have abs: "(if (word_of_int i :: u32) <s 0 then - word_of_int i else word_of_int i) = (word_of_int \<bar>i\<bar> :: u32)"
    and sgn: "sign_step (word_of_int i) = word_of_int (sgn i)"
    and hlf: "sdiv32 (word_of_int \<bar>i\<bar>) 2 = word_of_int (\<bar>i\<bar> div 2)" if "\<bar>i\<bar> < 2147483648" for i
  proof -
    have n: "(word_of_int i :: u32) <s 0 \<longleftrightarrow> i < 0" "0 <s (word_of_int i :: u32) \<longleftrightarrow> 0 < i"
      using sless_of_int(1) [of i 0] sless_of_int(1) [of 0 i] that by simp_all
    show "(if (word_of_int i :: u32) <s 0 then - word_of_int i else word_of_int i) = (word_of_int \<bar>i\<bar> :: u32)"
      "sign_step (word_of_int i) = word_of_int (sgn i)"
      using n by (simp_all add: sign_step_def sgn_if)
    have "sint (word_of_int \<bar>i\<bar> :: u32) = \<bar>i\<bar>"
      using that by (intro sint_of_int) simp_all
    then show "sdiv32 (word_of_int \<bar>i\<bar>) 2 = word_of_int (\<bar>i\<bar> div 2)"
      by (simp add: sdiv32_def signed_divide_int_def sgn_if)
  qed
  have le: "(word_of_int \<bar>?dy\<bar> :: u32) \<le>s word_of_int \<bar>?dx\<bar> \<longleftrightarrow> \<bar>?dy\<bar> \<le> \<bar>?dx\<bar>"
    using rx ry by (intro sless_of_int) simp_all
  have end_of: "uint a + sgn (uint b - uint a) * \<bar>uint b - uint a\<bar> = uint b" for a b :: u32
    by (simp add: sgn_if abs_if)
  have coord: "0 \<le> uint a + sgn (uint b - uint a) * k \<and> uint a + sgn (uint b - uint a) * k < 2147483648"
    if "0 \<le> k" "k \<le> \<bar>uint b - uint a\<bar>" "uint a < 2147483648" "uint b < 2147483648" for a b :: u32 and k
  proof -
    have "0 \<le> min (uint a) (uint b)" "max (uint a) (uint b) < 2147483648"
      using that(3,4) by simp_all
    then show ?thesis
      using between_int [OF that(1,2)] by linarith
  qed
  show ?thesis
  proof (cases "\<bar>?dy\<bar> \<le> \<bar>?dx\<bar>")
    case True
    have "line_loop fb False (word_of_int \<bar>?dx\<bar>) (word_of_int \<bar>?dy\<bar>) (word_of_int (sgn ?dx)) (word_of_int (sgn ?dy))
        (word_of_int (uint x0 + sgn ?dx * \<bar>?dx\<bar>)) c m (word_of_int (uint x0 + sgn ?dx * 0))
        (word_of_int (uint y0 + sgn ?dy * line_minor \<bar>?dx\<bar> \<bar>?dy\<bar> 0))
        (word_of_int (\<bar>?dx\<bar> div 2 - 0 * \<bar>?dy\<bar> + line_minor \<bar>?dx\<bar> \<bar>?dy\<bar> 0 * \<bar>?dx\<bar>)) =
      Some (plot fb c (takeWhile (on_screen fb) (line_points x0 y0 x1 y1)) m)"
      using True rx b coord by (subst line_loop_points) (auto simp: line_points_def Let_def sgn_if)
    then show ?thesis
      unfolding draw_line_def Let_def d abs [OF rx] abs [OF ry] sgn [OF rx] sgn [OF ry] hlf [OF rx] hlf [OF ry] le end_of
      using True line_minor_ends(1) [of "\<bar>?dy\<bar>" "\<bar>?dx\<bar>"] by simp
  next
    case False
    have "line_loop fb True (word_of_int \<bar>?dy\<bar>) (word_of_int \<bar>?dx\<bar>) (word_of_int (sgn ?dy)) (word_of_int (sgn ?dx))
        (word_of_int (uint y0 + sgn ?dy * \<bar>?dy\<bar>)) c m (word_of_int (uint y0 + sgn ?dy * 0))
        (word_of_int (uint x0 + sgn ?dx * line_minor \<bar>?dy\<bar> \<bar>?dx\<bar> 0))
        (word_of_int (\<bar>?dy\<bar> div 2 - 0 * \<bar>?dx\<bar> + line_minor \<bar>?dy\<bar> \<bar>?dx\<bar> 0 * \<bar>?dy\<bar>)) =
      Some (plot fb c (takeWhile (on_screen fb) (line_points x0 y0 x1 y1)) m)"
      using False ry b coord by (subst line_loop_points) (auto simp: line_points_def Let_def sgn_if)
    then show ?thesis
      unfolding draw_line_def Let_def d abs [OF rx] abs [OF ry] sgn [OF rx] sgn [OF ry] hlf [OF rx] hlf [OF ry] le end_of
      using False line_minor_ends(1) [of "\<bar>?dx\<bar>" "\<bar>?dy\<bar>"] by simp
  qed
qed


section \<open>Outlines\<close>

lemma draw_rect_returns: "\<exists>ps. draw_rect fb m x y w h c = Some (plot fb c ps m)"
proof -
  let ?r = "x + w" and ?b = "y + h"
  obtain p1 where 1: "draw_line fb m x y ?r y c = Some (plot fb c p1 m)"
    using draw_line_returns by blast
  obtain p2 where 2: "draw_line fb (plot fb c p1 m) ?r y ?r ?b c = Some (plot fb c (p1 @ p2) m)"
    using draw_line_returns by fastforce
  obtain p3 where 3: "draw_line fb (plot fb c (p1 @ p2) m) ?r ?b x ?b c = Some (plot fb c (p1 @ p2 @ p3) m)"
    using draw_line_returns [of fb "plot fb c (p1 @ p2) m"] by fastforce
  obtain p4 where 4: "draw_line fb (plot fb c (p1 @ p2 @ p3) m) x ?b x y c = Some (plot fb c (p1 @ p2 @ p3 @ p4) m)"
    using draw_line_returns [of fb "plot fb c (p1 @ p2 @ p3) m"] by fastforce
  show ?thesis
    using 1 2 3 4 by (intro exI [of _ "p1 @ p2 @ p3 @ p4"]) (simp add: draw_rect_def Let_def)
qed

lemma draw_line_box:
  assumes "unat x0 < 2147483648" "unat y0 < 2147483648" "unat x1 < 2147483648" "unat y1 < 2147483648"
    and "bounding_box x0 y0 x1 y1 \<subseteq> S"
  shows "\<exists>ps. draw_line fb m x0 y0 x1 y1 c = Some (plot fb c ps m) \<and> set ps \<subseteq> S"
proof -
  have "set (takeWhile (on_screen fb) (line_points x0 y0 x1 y1)) \<subseteq> S"
    using line_points_geometry(4) [of x0 y0 x1 y1] assms(5) by (auto dest!: set_takeWhileD)
  then show ?thesis
    using draw_line_points [OF assms(1-4)] by blast
qed

lemma draw_rect_box:
  assumes "unat x + unat w < 2147483648" "unat y + unat h < 2147483648"
  shows "\<exists>ps. draw_rect fb m x y w h c = Some (plot fb c ps m) \<and> set ps \<subseteq> bounding_box x y (x + w) (y + h)"
proof -
  let ?r = "x + w" and ?b = "y + h" and ?S = "bounding_box x y (x + w) (y + h)"
  have lt: "unat ?r = unat x + unat w" "unat ?b = unat y + unat h"
    using assms by (simp_all add: unat_add_no_wrap)
  have sm: "unat x < 2147483648" "unat y < 2147483648" "unat ?r < 2147483648" "unat ?b < 2147483648"
    using assms lt by simp_all
  have sub: "bounding_box x y ?r y \<subseteq> ?S" "bounding_box ?r y ?r ?b \<subseteq> ?S" "bounding_box ?r ?b x ?b \<subseteq> ?S" "bounding_box x ?b x y \<subseteq> ?S"
    using lt by (auto simp: bounding_box_def min_def max_def word_le_nat_alt split: if_splits)
  obtain p1 where 1: "draw_line fb m x y ?r y c = Some (plot fb c p1 m)" "set p1 \<subseteq> ?S"
    using draw_line_box [OF sm(1,2,3,2) sub(1)] by blast
  obtain p2 where 2: "draw_line fb (plot fb c p1 m) ?r y ?r ?b c = Some (plot fb c (p1 @ p2) m)" "set p2 \<subseteq> ?S"
    using draw_line_box [OF sm(3,2,3,4) sub(2), of fb "plot fb c p1 m"] by auto
  obtain p3 where 3: "draw_line fb (plot fb c (p1 @ p2) m) ?r ?b x ?b c = Some (plot fb c (p1 @ p2 @ p3) m)" "set p3 \<subseteq> ?S"
    using draw_line_box [OF sm(3,4,1,4) sub(3), of fb "plot fb c (p1 @ p2) m"] by auto
  obtain p4 where 4: "draw_line fb (plot fb c (p1 @ p2 @ p3) m) x ?b x y c = Some (plot fb c (p1 @ p2 @ p3 @ p4) m)" "set p4 \<subseteq> ?S"
    using draw_line_box [OF sm(1,4,1,2) sub(4), of fb "plot fb c (p1 @ p2 @ p3) m"] by auto
  show ?thesis
    using 1 2 3 4 by (intro exI [of _ "p1 @ p2 @ p3 @ p4"]) (simp add: draw_rect_def Let_def)
qed

text \<open>A line that starts off the screen is not drawn at all, even where it crosses the screen.\<close>

lemma draw_line_off_screen:
  assumes "\<not> on_screen fb (x0, y0)" "unat x0 < 2147483648" "unat y0 < 2147483648" "unat x1 < 2147483648" "unat y1 < 2147483648"
  shows "draw_line fb m x0 y0 x1 y1 c = Some m"
proof -
  have "line_points x0 y0 x1 y1 \<noteq> []"
    using line_points_geometry(1) [of x0 y0 x1 y1] by force
  then have "takeWhile (on_screen fb) (line_points x0 y0 x1 y1) = []"
    using line_points_geometry(2) [of x0 y0 x1 y1] assms(1) by (cases "line_points x0 y0 x1 y1") simp_all
  then show ?thesis
    using draw_line_points [OF assms(2-5), of fb m c] by simp
qed

section \<open>Witnesses\<close>

definition fb_example :: framebuffer where
  "fb_example = \<lparr>fb_addr = 0xFD000000, fb_pitch = 4096, fb_width = 1024, fb_height = 768, fb_bpp = 32, fb_type = 1,
     red_pos = 16, red_mask = 8, green_pos = 8, green_mask = 8, blue_pos = 0, blue_mask = 8\<rparr>"

lemma fb_example_ok: "fb_ok fb_example"
  by (simp add: fb_ok_def fb_example_def px_size_def)

theorem fill_rect_correct_witness:
  "get_pixel fb_example (fill_rect fb_example (\<lambda>_. 1) 1000 700 0x400 0x400 7) 1023 767 = 7 \<and>
   get_pixel fb_example (fill_rect fb_example (\<lambda>_. 1) 1000 700 0x400 0x400 7) 999 767 = get_pixel fb_example (\<lambda>_. 1) 999 767"
  using fill_rect_correct [OF fb_example_ok, of 1000 700 "0x400" "0x400" 7 "\<lambda>_. 1"]
  unfolding paints_def on_screen_def rect_points_def
  by (auto simp: fb_example_def pixel_value_def take_bit_word_eq_self)


end
