(* ===== verification/Font.thy ===== *)
theory Font
  imports Graphics
begin

text \<open>
  Text on the framebuffer, \<open>gfx/font.c\<close>: the bitmap font of the 95 printable ASCII characters, 16
  bytes per glyph with the leftmost pixel in the highest bit, and \<open>draw_string\<close>.
\<close>

abbreviation FONT_WIDTH :: nat where "FONT_WIDTH \<equiv> 8"
abbreviation FONT_HEIGHT :: nat where "FONT_HEIGHT \<equiv> 16"

definition font_data :: "u8 list list" where
  "font_data =
    [[0, 0, 0, 0, 0, 0, 0, 0, 0, 0, 0, 0, 0, 0, 0, 0],
     [0, 0, 0, 0x10, 0x10, 0x10, 0x10, 0x10, 0x10, 0x10, 0, 0, 0x10, 0x10, 0, 0],
     [0, 0, 0, 0x28, 0x28, 0x28, 0, 0, 0, 0, 0, 0, 0, 0, 0, 0],
     [0, 0, 0, 0, 0x28, 0x28, 0x7C, 0x28, 0x28, 0x7C, 0x28, 0x28, 0, 0, 0, 0],
     [0, 0, 0x10, 0x38, 0x54, 0x50, 0x50, 0x38, 0x14, 0x14, 0x54, 0x38, 0x10, 0, 0, 0],
     [0, 0, 0, 0x44, 0xA4, 0xA8, 0x50, 0x20, 0x50, 0xA8, 0x94, 0x8C, 0, 0, 0, 0],
     [0, 0, 0, 0x30, 0x48, 0x48, 0x30, 0x50, 0x88, 0x88, 0x88, 0x74, 0, 0, 0, 0],
     [0, 0, 0, 0x10, 0x10, 0x10, 0, 0, 0, 0, 0, 0, 0, 0, 0, 0],
     [0, 0, 0x08, 0x10, 0x10, 0x20, 0x20, 0x20, 0x20, 0x20, 0x10, 0x10, 0x08, 0, 0, 0],
     [0, 0, 0x20, 0x10, 0x10, 0x08, 0x08, 0x08, 0x08, 0x08, 0x10, 0x10, 0x20, 0, 0, 0],
     [0, 0, 0, 0, 0, 0x10, 0x54, 0x38, 0x10, 0x38, 0x54, 0x10, 0, 0, 0, 0],
     [0, 0, 0, 0, 0, 0x10, 0x10, 0x7C, 0x10, 0x10, 0, 0, 0, 0, 0, 0],
     [0, 0, 0, 0, 0, 0, 0, 0, 0, 0, 0, 0x10, 0x10, 0x20, 0, 0],
     [0, 0, 0, 0, 0, 0, 0, 0, 0x7C, 0, 0, 0, 0, 0, 0, 0],
     [0, 0, 0, 0, 0, 0, 0, 0, 0, 0, 0, 0x10, 0x10, 0, 0, 0],
     [0, 0, 0, 0x04, 0x04, 0x08, 0x08, 0x10, 0x10, 0x20, 0x20, 0x40, 0x40, 0, 0, 0],
     [0, 0, 0, 0x38, 0x44, 0x44, 0x4C, 0x54, 0x64, 0x44, 0x44, 0x38, 0, 0, 0, 0],
     [0, 0, 0, 0x10, 0x30, 0x50, 0x10, 0x10, 0x10, 0x10, 0x10, 0x7C, 0, 0, 0, 0],
     [0, 0, 0, 0x38, 0x44, 0x04, 0x08, 0x10, 0x20, 0x40, 0x40, 0x7C, 0, 0, 0, 0],
     [0, 0, 0, 0x38, 0x44, 0x04, 0x04, 0x18, 0x04, 0x04, 0x44, 0x38, 0, 0, 0, 0],
     [0, 0, 0, 0x08, 0x18, 0x28, 0x48, 0x88, 0xFC, 0x08, 0x08, 0x08, 0, 0, 0, 0],
     [0, 0, 0, 0x7C, 0x40, 0x40, 0x78, 0x44, 0x04, 0x04, 0x44, 0x38, 0, 0, 0, 0],
     [0, 0, 0, 0x18, 0x20, 0x40, 0x40, 0x78, 0x44, 0x44, 0x44, 0x38, 0, 0, 0, 0],
     [0, 0, 0, 0x7C, 0x04, 0x08, 0x08, 0x10, 0x10, 0x20, 0x20, 0x40, 0, 0, 0, 0],
     [0, 0, 0, 0x38, 0x44, 0x44, 0x44, 0x38, 0x44, 0x44, 0x44, 0x38, 0, 0, 0, 0],
     [0, 0, 0, 0x38, 0x44, 0x44, 0x44, 0x3C, 0x04, 0x04, 0x08, 0x30, 0, 0, 0, 0],
     [0, 0, 0, 0, 0, 0, 0x10, 0x10, 0, 0, 0, 0x10, 0x10, 0, 0, 0],
     [0, 0, 0, 0, 0, 0, 0x10, 0x10, 0, 0, 0, 0x10, 0x10, 0x20, 0, 0],
     [0, 0, 0, 0, 0x08, 0x10, 0x20, 0x40, 0x20, 0x10, 0x08, 0, 0, 0, 0, 0],
     [0, 0, 0, 0, 0, 0, 0x7C, 0, 0, 0x7C, 0, 0, 0, 0, 0, 0],
     [0, 0, 0, 0, 0x20, 0x10, 0x08, 0x04, 0x08, 0x10, 0x20, 0, 0, 0, 0, 0],
     [0, 0, 0, 0x38, 0x44, 0x04, 0x08, 0x10, 0x10, 0, 0, 0x10, 0x10, 0, 0, 0],
     [0, 0, 0, 0x38, 0x44, 0x44, 0x5C, 0x54, 0x5C, 0x40, 0x40, 0x3C, 0, 0, 0, 0],
     [0, 0, 0, 0x10, 0x28, 0x28, 0x44, 0x44, 0x44, 0x7C, 0x44, 0x44, 0, 0, 0, 0],
     [0, 0, 0, 0x78, 0x44, 0x44, 0x44, 0x78, 0x44, 0x44, 0x44, 0x78, 0, 0, 0, 0],
     [0, 0, 0, 0x38, 0x44, 0x40, 0x40, 0x40, 0x40, 0x40, 0x44, 0x38, 0, 0, 0, 0],
     [0, 0, 0, 0x78, 0x44, 0x42, 0x42, 0x42, 0x42, 0x42, 0x44, 0x78, 0, 0, 0, 0],
     [0, 0, 0, 0x7C, 0x40, 0x40, 0x40, 0x78, 0x40, 0x40, 0x40, 0x7C, 0, 0, 0, 0],
     [0, 0, 0, 0x7C, 0x40, 0x40, 0x40, 0x78, 0x40, 0x40, 0x40, 0x40, 0, 0, 0, 0],
     [0, 0, 0, 0x38, 0x44, 0x40, 0x40, 0x4E, 0x42, 0x42, 0x46, 0x3A, 0, 0, 0, 0],
     [0, 0, 0, 0x42, 0x42, 0x42, 0x42, 0x7E, 0x42, 0x42, 0x42, 0x42, 0, 0, 0, 0],
     [0, 0, 0, 0x7C, 0x10, 0x10, 0x10, 0x10, 0x10, 0x10, 0x10, 0x7C, 0, 0, 0, 0],
     [0, 0, 0, 0x1E, 0x04, 0x04, 0x04, 0x04, 0x04, 0x04, 0x44, 0x38, 0, 0, 0, 0],
     [0, 0, 0, 0x44, 0x48, 0x50, 0x60, 0x60, 0x50, 0x48, 0x44, 0x44, 0, 0, 0, 0],
     [0, 0, 0, 0x40, 0x40, 0x40, 0x40, 0x40, 0x40, 0x40, 0x40, 0x7C, 0, 0, 0, 0],
     [0, 0, 0, 0x44, 0x6C, 0x54, 0x54, 0x44, 0x44, 0x44, 0x44, 0x44, 0, 0, 0, 0],
     [0, 0, 0, 0x44, 0x44, 0x64, 0x54, 0x54, 0x4C, 0x44, 0x44, 0x44, 0, 0, 0, 0],
     [0, 0, 0, 0x38, 0x44, 0x44, 0x44, 0x44, 0x44, 0x44, 0x44, 0x38, 0, 0, 0, 0],
     [0, 0, 0, 0x78, 0x44, 0x44, 0x44, 0x78, 0x40, 0x40, 0x40, 0x40, 0, 0, 0, 0],
     [0, 0, 0, 0x38, 0x44, 0x44, 0x44, 0x44, 0x44, 0x54, 0x48, 0x34, 0, 0, 0, 0],
     [0, 0, 0, 0x78, 0x44, 0x44, 0x44, 0x78, 0x50, 0x48, 0x44, 0x44, 0, 0, 0, 0],
     [0, 0, 0, 0x38, 0x44, 0x40, 0x40, 0x38, 0x04, 0x04, 0x44, 0x38, 0, 0, 0, 0],
     [0, 0, 0, 0xFE, 0x10, 0x10, 0x10, 0x10, 0x10, 0x10, 0x10, 0x10, 0, 0, 0, 0],
     [0, 0, 0, 0x44, 0x44, 0x44, 0x44, 0x44, 0x44, 0x44, 0x44, 0x38, 0, 0, 0, 0],
     [0, 0, 0, 0x44, 0x44, 0x44, 0x44, 0x28, 0x28, 0x28, 0x10, 0x10, 0, 0, 0, 0],
     [0, 0, 0, 0x44, 0x44, 0x44, 0x44, 0x54, 0x54, 0x54, 0x6C, 0x44, 0, 0, 0, 0],
     [0, 0, 0, 0x44, 0x44, 0x28, 0x28, 0x10, 0x28, 0x28, 0x44, 0x44, 0, 0, 0, 0],
     [0, 0, 0, 0x44, 0x44, 0x28, 0x28, 0x10, 0x10, 0x10, 0x10, 0x10, 0, 0, 0, 0],
     [0, 0, 0, 0x7C, 0x04, 0x08, 0x08, 0x10, 0x20, 0x20, 0x40, 0x7C, 0, 0, 0, 0],
     [0, 0, 0x38, 0x20, 0x20, 0x20, 0x20, 0x20, 0x20, 0x20, 0x20, 0x20, 0x38, 0, 0, 0],
     [0, 0, 0, 0x40, 0x40, 0x20, 0x20, 0x10, 0x10, 0x08, 0x08, 0x04, 0x04, 0, 0, 0],
     [0, 0, 0x38, 0x08, 0x08, 0x08, 0x08, 0x08, 0x08, 0x08, 0x08, 0x08, 0x38, 0, 0, 0],
     [0, 0, 0, 0x10, 0x28, 0x44, 0, 0, 0, 0, 0, 0, 0, 0, 0, 0],
     [0, 0, 0, 0, 0, 0, 0, 0, 0, 0, 0, 0, 0, 0xFE, 0, 0],
     [0, 0, 0x20, 0x10, 0x08, 0, 0, 0, 0, 0, 0, 0, 0, 0, 0, 0],
     [0, 0, 0, 0, 0, 0, 0x38, 0x04, 0x3C, 0x44, 0x44, 0x3C, 0, 0, 0, 0],
     [0, 0, 0, 0x40, 0x40, 0x40, 0x58, 0x64, 0x44, 0x44, 0x64, 0x58, 0, 0, 0, 0],
     [0, 0, 0, 0, 0, 0, 0x38, 0x44, 0x40, 0x40, 0x44, 0x38, 0, 0, 0, 0],
     [0, 0, 0, 0x04, 0x04, 0x04, 0x34, 0x4C, 0x44, 0x44, 0x4C, 0x34, 0, 0, 0, 0],
     [0, 0, 0, 0, 0, 0, 0x38, 0x44, 0x7C, 0x40, 0x44, 0x38, 0, 0, 0, 0],
     [0, 0, 0, 0x0C, 0x10, 0x10, 0x7C, 0x10, 0x10, 0x10, 0x10, 0x10, 0, 0, 0, 0],
     [0, 0, 0, 0, 0, 0, 0x34, 0x4C, 0x44, 0x44, 0x4C, 0x34, 0x04, 0x44, 0x38, 0],
     [0, 0, 0, 0x40, 0x40, 0x40, 0x58, 0x64, 0x44, 0x44, 0x44, 0x44, 0, 0, 0, 0],
     [0, 0, 0, 0x10, 0x10, 0, 0x30, 0x10, 0x10, 0x10, 0x10, 0x7C, 0, 0, 0, 0],
     [0, 0, 0, 0x04, 0x04, 0, 0x0C, 0x04, 0x04, 0x04, 0x04, 0x04, 0x44, 0x44, 0x38, 0],
     [0, 0, 0, 0x40, 0x40, 0x40, 0x44, 0x48, 0x50, 0x70, 0x48, 0x44, 0, 0, 0, 0],
     [0, 0, 0, 0x30, 0x10, 0x10, 0x10, 0x10, 0x10, 0x10, 0x10, 0x7C, 0, 0, 0, 0],
     [0, 0, 0, 0, 0, 0, 0x6C, 0x54, 0x54, 0x54, 0x54, 0x44, 0, 0, 0, 0],
     [0, 0, 0, 0, 0, 0, 0x58, 0x64, 0x44, 0x44, 0x44, 0x44, 0, 0, 0, 0],
     [0, 0, 0, 0, 0, 0, 0x38, 0x44, 0x44, 0x44, 0x44, 0x38, 0, 0, 0, 0],
     [0, 0, 0, 0, 0, 0, 0x58, 0x64, 0x44, 0x44, 0x64, 0x58, 0x40, 0x40, 0x40, 0],
     [0, 0, 0, 0, 0, 0, 0x34, 0x4C, 0x44, 0x44, 0x4C, 0x34, 0x04, 0x04, 0x04, 0],
     [0, 0, 0, 0, 0, 0, 0x2C, 0x30, 0x20, 0x20, 0x20, 0x20, 0, 0, 0, 0],
     [0, 0, 0, 0, 0, 0, 0x3C, 0x40, 0x38, 0x04, 0x04, 0x78, 0, 0, 0, 0],
     [0, 0, 0, 0x20, 0x20, 0x20, 0xFC, 0x20, 0x20, 0x20, 0x24, 0x18, 0, 0, 0, 0],
     [0, 0, 0, 0, 0, 0, 0x44, 0x44, 0x44, 0x44, 0x4C, 0x34, 0, 0, 0, 0],
     [0, 0, 0, 0, 0, 0, 0x44, 0x44, 0x44, 0x28, 0x28, 0x10, 0, 0, 0, 0],
     [0, 0, 0, 0, 0, 0, 0x44, 0x44, 0x54, 0x54, 0x54, 0x28, 0, 0, 0, 0],
     [0, 0, 0, 0, 0, 0, 0x44, 0x28, 0x10, 0x10, 0x28, 0x44, 0, 0, 0, 0],
     [0, 0, 0, 0, 0, 0, 0x44, 0x44, 0x44, 0x28, 0x28, 0x10, 0x10, 0x20, 0x20, 0],
     [0, 0, 0, 0, 0, 0, 0x7C, 0x08, 0x10, 0x20, 0x20, 0x7C, 0, 0, 0, 0],
     [0, 0, 0x0C, 0x10, 0x10, 0x10, 0x10, 0x60, 0x10, 0x10, 0x10, 0x10, 0x0C, 0, 0, 0],
     [0, 0, 0, 0x10, 0x10, 0x10, 0x10, 0x10, 0x10, 0x10, 0x10, 0x10, 0x10, 0, 0, 0],
     [0, 0, 0x60, 0x10, 0x10, 0x10, 0x10, 0x0C, 0x10, 0x10, 0x10, 0x10, 0x60, 0, 0, 0],
     [0, 0, 0, 0, 0, 0, 0x20, 0x54, 0x08, 0, 0, 0, 0, 0, 0, 0]]"

definition glyph_of :: "u8 \<Rightarrow> u8 list" where
  "glyph_of c = font_data ! (unat c - 0x20)"

definition draw_glyph :: "framebuffer \<Rightarrow> mem \<Rightarrow> u32 \<Rightarrow> u32 \<Rightarrow> u8 list \<Rightarrow> u32 \<Rightarrow> mem" where
  "draw_glyph fb m x y glyph fg =
     fold (\<lambda>row m.
       let bits = glyph ! row
       in fold (\<lambda>col m. if bits AND drop_bit col 0x80 \<noteq> 0 then put_pixel fb m (x + of_nat col) (y + of_nat row) fg else m)
            [0..<FONT_WIDTH] m)
       [0..<FONT_HEIGHT] m"

text \<open>The string is the list of its characters up to the NUL, or up to the end of the list.\<close>

fun draw_chars :: "framebuffer \<Rightarrow> u32 \<Rightarrow> u32 \<Rightarrow> mem \<Rightarrow> u32 \<Rightarrow> u32 \<Rightarrow> u8 list \<Rightarrow> mem" where
  "draw_chars fb fg start_x m x y [] = m"
| "draw_chars fb fg start_x m x y (c # cs) =
     (if c = 0 then m
      else if c = 10 then draw_chars fb fg start_x m start_x (y + of_nat FONT_HEIGHT) cs
      else if c <s 0x20 \<or> 0x7E <s c then draw_chars fb fg start_x m x y cs
      else draw_chars fb fg start_x (draw_glyph fb m x y (glyph_of c) fg) (x + of_nat FONT_WIDTH) y cs)"

definition draw_string :: "framebuffer \<Rightarrow> mem \<Rightarrow> u32 \<Rightarrow> u32 \<Rightarrow> u8 list \<Rightarrow> u32 \<Rightarrow> mem" where
  "draw_string fb m x y str fg = draw_chars fb fg x m x y str"

section \<open>What a string paints\<close>

definition glyph_points :: "u32 \<Rightarrow> u32 \<Rightarrow> u8 list \<Rightarrow> (u32 \<times> u32) list" where
  "glyph_points x y glyph = concat (map (\<lambda>row. map (\<lambda>col. (x + of_nat col, y + of_nat row))
     (filter (\<lambda>col. bit (glyph ! row) (7 - col)) [0..<8])) [0..<16])"

lemma glyph_bit: "col < 8 \<Longrightarrow> (b :: u8) AND drop_bit col 0x80 \<noteq> 0 \<longleftrightarrow> bit b (7 - col)"
proof -
  assume c: "col < 8"
  then have "col = 0 \<or> col = 1 \<or> col = 2 \<or> col = 3 \<or> col = 4 \<or> col = 5 \<or> col = 6 \<or> col = 7"
    by linarith
  then have "drop_bit col (0x80 :: u8) = 2 ^ (7 - col)"
    by (elim disjE) simp_all
  then show ?thesis
    using byte_test_bit [of b "7 - col"] less_imp_diff_less [of 7 8 col] by simp
qed

lemma draw_glyph_plot: "draw_glyph fb m x y glyph fg = plot fb fg (glyph_points x y glyph) m"
proof -
  have cols: "fold (\<lambda>col m. if b AND drop_bit col 0x80 \<noteq> 0 then put_pixel fb m (x + of_nat col) (y + of_nat row) fg else m) cs m =
      plot fb fg (map (\<lambda>col. (x + of_nat col, y + of_nat row)) (filter (\<lambda>col. bit b (7 - col)) cs)) m"
    if "\<forall>col\<in>set cs. col < 8" for b :: u8 and row cs m
    using that by (induction cs arbitrary: m) (simp_all add: glyph_bit)
  have rows: "fold (\<lambda>row m. let bits = glyph ! row
       in fold (\<lambda>col m. if bits AND drop_bit col 0x80 \<noteq> 0 then put_pixel fb m (x + of_nat col) (y + of_nat row) fg else m) [0..<8] m) rs m =
    plot fb fg (concat (map (\<lambda>row. map (\<lambda>col. (x + of_nat col, y + of_nat row)) (filter (\<lambda>col. bit (glyph ! row) (7 - col)) [0..<8])) rs)) m" for rs
    unfolding Let_def by (induction rs arbitrary: m) (simp_all add: cols del: upt_Suc upt_rec_numeral)
  show ?thesis
    unfolding draw_glyph_def glyph_points_def by (rule rows)
qed

lemma draw_chars_plot: "\<exists>ps. draw_chars fb fg sx m x y cs = plot fb fg ps m"
proof (induction fb fg sx m x y cs rule: draw_chars.induct)
  case (1 fb fg sx m x y)
  show ?case
    by (intro exI [of _ "[]"]) simp
next
  case (2 fb fg sx m x y c cs)
  show ?case
  proof (cases "c = 0 \<or> c = 10 \<or> c <s 0x20 \<or> 0x7E <s c")
    case True
    then show ?thesis
      using 2(1,2) by (auto intro: exI [of _ "[]"])
  next
    case False
    then obtain ps where "draw_chars fb fg sx (plot fb fg (glyph_points x y (glyph_of c)) m) (x + of_nat FONT_WIDTH) y cs =
        plot fb fg ps (plot fb fg (glyph_points x y (glyph_of c)) m)"
      using 2(3) by (auto simp: draw_glyph_plot)
    then show ?thesis
      using False by (intro exI [of _ "glyph_points x y (glyph_of c) @ ps"]) (simp add: draw_glyph_plot)
  qed
qed

lemma draw_string_plot: "\<exists>ps. draw_string fb m x y cs fg = plot fb fg ps m"
  unfolding draw_string_def by (rule draw_chars_plot)

text \<open>The lit pixels of the characters of a line of text.\<close>

definition printable :: "u8 \<Rightarrow> bool" where
  "printable c \<longleftrightarrow> 0x20 \<le> c \<and> c \<le> 0x7E"

definition text_points :: "u32 \<Rightarrow> u32 \<Rightarrow> u8 list \<Rightarrow> (u32 \<times> u32) set" where
  "text_points x y cs = (\<Union>i<length cs. set (glyph_points (x + of_nat (8 * i)) y (glyph_of (cs ! i))))"

lemma printable_sless: "printable c \<Longrightarrow> \<not> c <s 0x20 \<and> \<not> 0x7E <s c \<and> c \<noteq> 0 \<and> c \<noteq> 10"
proof -
  assume p: "printable c"
  then have u: "32 \<le> uint c" "uint c \<le> 126"
    by (simp_all add: printable_def word_le_def)
  then have "signed_take_bit 7 (uint c) = uint c"
    by (intro signed_take_bit_int_eq_self) simp_all
  then have "sint c = uint c"
    by (simp add: sint_uint)
  then show ?thesis
    using u by (auto simp: word_sless_alt)
qed

lemma text_points_Cons:
  "text_points x y (c # cs) = set (glyph_points x y (glyph_of c)) \<union> text_points (x + 8) y cs"
  unfolding text_points_def length_Cons lessThan_Suc_eq_insert_0 by (simp add: image_image algebra_simps)

text \<open>Drawing a string of printable characters lights exactly the pixels that the glyphs of its characters have
  set, each character 8 pixels right of the one before; everything else keeps its value.\<close>

theorem draw_string_correct:
  assumes "fb_ok fb" and "\<forall>c\<in>set cs. printable c"
  shows "paints fb (text_points x y cs) fg m (draw_string fb m x y cs fg)"
proof -
  have "paints fb (text_points x y cs) fg m (draw_chars fb fg sx m x y cs)" for sx
    using assms(2)
  proof (induction cs arbitrary: m x)
    case Nil
    then show ?case
      by (simp add: paints_refl text_points_def)
  next
    case (Cons c cs)
    have e: "draw_chars fb fg sx m x y (c # cs) =
        draw_chars fb fg sx (plot fb fg (glyph_points x y (glyph_of c)) m) (x + 8) y cs"
      using printable_sless [of c] Cons.prems by (simp add: draw_glyph_plot)
    show ?case
      unfolding e text_points_Cons using Cons.prems by (intro paints_trans [OF plot_paints [OF assms(1)] Cons.IH]) simp
  qed
  then show ?thesis
    unfolding draw_string_def .
qed

section \<open>Witnesses\<close>

theorem draw_string_correct_witness:
  "get_pixel fb_example (draw_string fb_example (\<lambda>_. 0) 10 20 [0x31, 0x21] 5) 21 24 = 5 \<and>
   get_pixel fb_example (draw_string fb_example (\<lambda>_. 0) 10 20 [0x31, 0x21] 5) 10 20 = 0"
proof -
  have p: "printable 0x31" "printable 0x21"
    by (simp_all add: printable_def)
  have "(21, 24) \<in> text_points 10 20 [0x31, 0x21]" "(10, 20) \<notin> text_points 10 20 [0x31, 0x21]"
    unfolding text_points_Cons by (simp_all add: text_points_def glyph_points_def glyph_of_def font_data_def upt_rec)
  moreover have "get_pixel fb_example (\<lambda>_. 0) 10 20 = 0"
    by (simp add: get_pixel_def load_pixel_def load32_def load16_def)
  ultimately show ?thesis
    using draw_string_correct [OF fb_example_ok, of "[0x31, 0x21]" 10 20 5 "\<lambda>_. 0"] p
    unfolding paints_def on_screen_def by (auto simp: fb_example_def pixel_value_def take_bit_word_eq_self)
qed

end
