(* ===== verification/Mouse.thy ===== *)
theory Mouse
  imports Font Messages Descriptors
begin

text \<open>
  The PS/2 mouse driver, \<open>drivers/mouse.c\<close>: the controller handshake, the assembly of three-byte
  packets from interrupts, the cursor with its saved background, and the notification of the
  upper layer. The registered callbacks are arguments of the interrupt handler; what they may do is
  the interface \<open>mouse_client\<close> below.
\<close>

section \<open>State\<close>

text \<open>
  The framebuffer, memory and ports, the tables (for the gate of IRQ 12), and the static variables
  of \<open>mouse.c\<close>. \<open>cursor_backup\<close> is in the order of its index \<open>dy * CURSOR_W + dx\<close>.
\<close>

record gfx_state =
  fb :: framebuffer
  vram :: mem
  ports :: io_state
  itabs :: cpu_tables

record mouse_state = gfx_state +
  cursor_x :: i32
  cursor_y :: i32
  cursor_old_x :: i32
  cursor_old_y :: i32
  cursor_visible :: bool
  cursor_backup :: "u32 list"
  mouse_cycle :: u8
  mouse_bytes :: "u8 list"
  packet_count :: u32
  first_packet :: bool
  last_buttons :: u8

abbreviation CURSOR_W :: nat where "CURSOR_W \<equiv> 12"
abbreviation CURSOR_H :: nat where "CURSOR_H \<equiv> 20"
abbreviation PS2_DATA :: u16 where "PS2_DATA \<equiv> 0x60"
abbreviation PS2_STATUS :: u16 where "PS2_STATUS \<equiv> 0x64"
abbreviation PS2_CMD :: u16 where "PS2_CMD \<equiv> 0x64"

definition say :: "piece list \<Rightarrow> 'a gfx_state_scheme \<Rightarrow> 'a gfx_state_scheme option" where
  "say ps s = do { p \<leftarrow> print_all (ports s) ps; Some (s\<lparr>ports := p\<rparr>) }"

section \<open>The PS/2 controller\<close>

text \<open>\<open>while (busy && --timeout) {}\<close>; the timeout counts down from 100000.\<close>

function wait_status :: "(u8 \<Rightarrow> bool) \<Rightarrow> nat \<Rightarrow> io_state \<Rightarrow> io_state" where
  "wait_status busy timeout p =
     (let (v, p) = inb p PS2_STATUS
      in if busy v \<and> timeout - 1 \<noteq> 0 then wait_status busy (timeout - 1) p else p)"
  by pat_completeness auto
termination by (relation "measure (\<lambda>(busy, timeout, p). timeout)") auto

declare wait_status.simps [simp del]

definition mouse_wait_write :: "io_state \<Rightarrow> io_state" where
  "mouse_wait_write = wait_status (\<lambda>v. v AND 0x02 \<noteq> 0) 100000"

definition mouse_wait_read :: "io_state \<Rightarrow> io_state" where
  "mouse_wait_read = wait_status (\<lambda>v. v AND 0x01 = 0) 100000"

text \<open>\<open>while ((inb(PS2_STATUS) & 0x01) && drained < 16)\<close>.\<close>

function drain :: "nat \<Rightarrow> io_state \<Rightarrow> io_state" where
  "drain drained p =
     (let (v, p) = inb p PS2_STATUS
      in if v AND 0x01 \<noteq> 0 \<and> drained < 16 then drain (drained + 1) (snd (inb p PS2_DATA)) else p)"
  by pat_completeness auto
termination by (relation "measure (\<lambda>(drained, p). 16 - drained)") auto

declare drain.simps [simp del]

definition mouse_drain_buf :: "'a gfx_state_scheme \<Rightarrow> 'a gfx_state_scheme" where
  "mouse_drain_buf s = s\<lparr>ports := drain 0 (ports s)\<rparr>"

section \<open>The cursor\<close>

definition cursor_cells :: "i32 \<Rightarrow> i32 \<Rightarrow> (u32 \<times> u32) list" where
  "cursor_cells x y = concat (map (\<lambda>dy. map (\<lambda>dx. (x + of_nat dx, y + of_nat dy)) [0..<CURSOR_W]) [0..<CURSOR_H])"

definition cursor_save :: "'a mouse_state_scheme \<Rightarrow> 'a mouse_state_scheme" where
  "cursor_save s = s\<lparr>cursor_backup := map (\<lambda>(x, y). get_pixel (fb s) (vram s) x y) (cursor_cells (cursor_x s) (cursor_y s))\<rparr>"

definition cursor_restore :: "'a mouse_state_scheme \<Rightarrow> 'a mouse_state_scheme" where
  "cursor_restore s =
     (if \<not> cursor_visible s then s
      else s\<lparr>vram := fold (\<lambda>((x, y), c) m. put_pixel (fb s) m x y c)
               (zip (cursor_cells (cursor_old_x s) (cursor_old_y s)) (cursor_backup s)) (vram s),
             cursor_visible := False\<rparr>)"

definition cursor_draw :: "'a mouse_state_scheme \<Rightarrow> 'a mouse_state_scheme option" where
  "cursor_draw s =
     (let s = cursor_save s;
          white = make_color (fb s) 0xFF 0xFF 0xFF;
          s = s\<lparr>vram := fill_rect (fb s) (vram s) (cursor_x s) (cursor_y s) (of_nat CURSOR_W - 1) (of_nat CURSOR_H - 1) white\<rparr>;
          black = make_color (fb s) 0 0 0
      in do { m \<leftarrow> draw_rect (fb s) (vram s) (cursor_x s) (cursor_y s) (of_nat CURSOR_W - 1) (of_nat CURSOR_H - 1) black;
              Some (s\<lparr>vram := m, cursor_old_x := cursor_x s, cursor_old_y := cursor_y s, cursor_visible := True\<rparr>) })"

definition mouse_cursor_hide :: "'a mouse_state_scheme \<Rightarrow> 'a mouse_state_scheme" where
  "mouse_cursor_hide s = cursor_restore s"

definition mouse_cursor_show :: "'a mouse_state_scheme \<Rightarrow> 'a mouse_state_scheme option" where
  "mouse_cursor_show s = cursor_draw s"

section \<open>Packets\<close>

definition buttons_text :: "u8 \<Rightarrow> piece list" where
  "buttons_text buttons =
     [Str ''Mouse: buttons=''] @
     (if buttons AND 1 \<noteq> 0 then [Chr 0x4C] else []) @
     (if buttons AND 2 \<noteq> 0 then [Chr 0x52] else []) @
     (if buttons AND 4 \<noteq> 0 then [Chr 0x4D] else []) @
     (if buttons = 0 then [Str ''(none)''] else []) @ [Str newline]"

definition packet_text :: "u32 \<Rightarrow> u8 \<Rightarrow> u8 \<Rightarrow> u8 \<Rightarrow> piece list" where
  "packet_text n flags dx dy =
     [Str ''Mouse: pkt#'', Hex n, Str '' flags=0x'', Hex (ucast flags), Str '' dx='', Hex (scast dx),
      Str '' dy='', Hex (scast dy), Str newline]"

text \<open>The callbacks, \<^term>\<open>None\<close> for a null pointer.\<close>

type_synonym 's click_callback = "(i32 \<Rightarrow> i32 \<Rightarrow> u8 \<Rightarrow> 's \<Rightarrow> 's option) option"
type_synonym 's move_callback = "(i32 \<Rightarrow> i32 \<Rightarrow> 's \<Rightarrow> 's option) option"

definition clamp_cursor :: "i32 \<Rightarrow> u32 \<Rightarrow> nat \<Rightarrow> i32" where
  "clamp_cursor v sz margin =
     (let v = (if v <s 0 then 0 else v) in if sz - of_nat margin <s v then sz - of_nat margin else v)"

definition move_cursor :: "u8 \<Rightarrow> u8 \<Rightarrow> 'a mouse_state_scheme \<Rightarrow> 'a mouse_state_scheme option" where
  "move_cursor dx dy s =
     (let s = cursor_restore s;
          s = s\<lparr>cursor_x := clamp_cursor (cursor_x s + scast dx) (fb_width (fb s)) CURSOR_W\<rparr>;
          s = s\<lparr>cursor_y := clamp_cursor (cursor_y s - scast dy) (fb_height (fb s)) CURSOR_H\<rparr>
      in cursor_draw s)"

definition mouse_process_packet ::
    "'a mouse_state_scheme click_callback \<Rightarrow> 'a mouse_state_scheme move_callback \<Rightarrow> 'a mouse_state_scheme \<Rightarrow>
     'a mouse_state_scheme option" where
  "mouse_process_packet click move s =
     (if first_packet s then Some (s\<lparr>first_packet := False\<rparr>)
      else
        let flags = mouse_bytes s ! 0; dx = mouse_bytes s ! 1; dy = mouse_bytes s ! 2;
            s = s\<lparr>packet_count := packet_count s + 1\<rparr>
        in do {
          s \<leftarrow> (if packet_count s \<le> 5 then say (packet_text (packet_count s) flags dx dy) s else Some s);
          let buttons = flags AND 0x07;
          s \<leftarrow> (if buttons \<noteq> last_buttons s
                then do { s \<leftarrow> say (buttons_text buttons) s;
                          let s = s\<lparr>last_buttons := buttons\<rparr>;
                          (case click of None \<Rightarrow> Some s | Some f \<Rightarrow> f (cursor_x s) (cursor_y s) buttons s) }
                else Some s);
          if dx \<noteq> 0 \<or> dy \<noteq> 0
          then do { s \<leftarrow> move_cursor dx dy s;
                    (case move of None \<Rightarrow> Some s | Some f \<Rightarrow> f (scast dx) (scast dy) s) }
          else Some s })"

definition mouse_handle_interrupt ::
    "'a mouse_state_scheme click_callback \<Rightarrow> 'a mouse_state_scheme move_callback \<Rightarrow> 'a mouse_state_scheme \<Rightarrow>
     'a mouse_state_scheme option" where
  "mouse_handle_interrupt click move s =
     (let (data, p) = inb (ports s) PS2_DATA; s = s\<lparr>ports := p\<rparr>
      in if mouse_cycle s = 0
         then (if data AND 0x08 = 0 then Some s
               else Some (s\<lparr>mouse_bytes := (mouse_bytes s)[0 := data], mouse_cycle := 1\<rparr>))
         else if mouse_cycle s = 1 then Some (s\<lparr>mouse_bytes := (mouse_bytes s)[1 := data], mouse_cycle := 2\<rparr>)
         else if mouse_cycle s = 2
         then mouse_process_packet click move (s\<lparr>mouse_bytes := (mouse_bytes s)[2 := data], mouse_cycle := 0\<rparr>)
         else Some s)"

section \<open>Initialisation\<close>

text \<open>A command to the mouse: 0xD4 to the controller, the byte to the data port, and the answer.\<close>

definition mouse_command :: "u8 \<Rightarrow> io_state \<Rightarrow> u8 \<times> io_state" where
  "mouse_command b p =
     (let p = outb (mouse_wait_write p) PS2_CMD 0xD4;
          p = outb (mouse_wait_write p) PS2_DATA b;
          p = mouse_wait_read p
      in inb p PS2_DATA)"

text \<open>Steps 1 to 7: the handshake with the controller and the mouse, the gate and the interrupt masks.\<close>

definition mouse_handshake :: "link_map \<Rightarrow> 'a mouse_state_scheme \<Rightarrow> 'a mouse_state_scheme option" where
  "mouse_handshake lm s = do {
     s \<leftarrow> say [Str (''Mouse: initializing PS/2...'' @ newline)] s;
     let s = s\<lparr>ports := outb (mouse_wait_write (ports s)) PS2_CMD 0xA8\<rparr>;
     s \<leftarrow> say [Str (''Mouse: aux port enabled (0xA8)'' @ newline)] s;
     let p = outb (mouse_wait_write (ports s)) PS2_CMD 0x20;
     let (cfg, p) = inb (mouse_wait_read p) PS2_DATA;
     let cfg = (cfg OR 0x02) AND NOT 0x20;
     let p = outb (mouse_wait_write p) PS2_CMD 0x60;
     let p = outb (mouse_wait_write p) PS2_DATA cfg;
     s \<leftarrow> say [Str ''Mouse: controller config written (cfg=0x'', Hex (ucast cfg), Str ('')'' @ newline)] (s\<lparr>ports := p\<rparr>);
     let s = s\<lparr>itabs := idt_set_gate 44 (irq12_entry lm) 0x08 0x8E (itabs s)\<rparr>;
     s \<leftarrow> say [Str (''Mouse: IDT[44] wired (IRQ12)'' @ newline)] s;
     let (ack1, p) = mouse_command 0xF6 (ports s);
     s \<leftarrow> say [Str ''Mouse: Set Defaults ACK = 0x'', Hex (ucast ack1), Str newline] (s\<lparr>ports := p\<rparr>);
     let (ack2, p) = mouse_command 0xF4 (ports s);
     s \<leftarrow> say [Str ''Mouse: Enable Reporting ACK = 0x'', Hex (ucast ack2), Str newline] (s\<lparr>ports := p\<rparr>);
     let (ack3, p) = mouse_command 0xEA (ports s);
     s \<leftarrow> say [Str ''Mouse: Stream Mode ACK = 0x'', Hex (ucast ack3), Str newline] (s\<lparr>ports := p\<rparr>);
     let (m1, p) = inb (ports s) PIC1_DATA;
     let m1 = m1 AND NOT 0x04;
     let p = outb p PIC1_DATA m1;
     let (m2, p) = inb p PIC2_DATA;
     let m2 = m2 AND NOT 0x10;
     let p = outb p PIC2_DATA m2;
     say [Str ''Mouse: IRQ12 unmasked (PIC mask1=0x'', Hex (ucast m1), Str '' mask2=0x'', Hex (ucast m2),
          Str ('')'' @ newline)] (s\<lparr>ports := p\<rparr>) }"

definition mouse_init :: "link_map \<Rightarrow> 'a mouse_state_scheme \<Rightarrow> 'a mouse_state_scheme option" where
  "mouse_init lm s = do {
     s \<leftarrow> mouse_handshake lm s;
     let s = s\<lparr>cursor_x := sdiv32 (fb_width (fb s)) 2, cursor_y := sdiv32 (fb_height (fb s)) 2\<rparr>;
     s \<leftarrow> cursor_draw (s\<lparr>cursor_old_x := cursor_x s, cursor_old_y := cursor_y s, cursor_visible := False\<rparr>);
     say [Str ''Mouse: cursor at ('', Hex (cursor_x s), Str '', '', Hex (cursor_y s), Str (''), init complete.'' @ newline)] s }"

section \<open>The cursor does not damage the screen\<close>

lemma grid_iff: "p \<in> set (concat (map (\<lambda>i. map (f i) [0..<m]) [0..<n])) \<longleftrightarrow> (\<exists>j<m. \<exists>i<n. p = f i j)"
  by (induction n) (simp, simp add: image_iff less_Suc_eq Bex_def, blast)

lemma cursor_cells_iff:
  "p \<in> set (cursor_cells x y) \<longleftrightarrow> (\<exists>dx<12. \<exists>dy<20. p = (x + of_nat dx, y + of_nat dy))"
  unfolding cursor_cells_def grid_iff by simp

text \<open>Two memories that show the same picture and agree outside the framebuffer.\<close>

abbreviation same_screen :: "framebuffer \<Rightarrow> mem \<Rightarrow> mem \<Rightarrow> bool" where
  "same_screen f m m' \<equiv> paints f {} 0 m m'"

text \<open>Only the framebuffer has changed.\<close>

definition confined :: "framebuffer \<Rightarrow> mem \<Rightarrow> mem \<Rightarrow> bool" where
  "confined f m m' \<longleftrightarrow> (\<forall>a. a \<notin> fb_bytes f \<longrightarrow> m' a = m a)"

lemma confined_refl [simp]: "confined f m m"
  by (simp add: confined_def)

lemma confined_trans: "confined f m m' \<Longrightarrow> confined f m' m'' \<Longrightarrow> confined f m m''"
  by (simp add: confined_def)

lemma paints_confined: "paints f S c m m' \<Longrightarrow> confined f m m'"
  by (simp add: paints_def confined_def)

text \<open>A driver state: a usable screen, a live transmitter, and the cursor on the screen.\<close>

definition coord_ok :: "i32 \<Rightarrow> u32 \<Rightarrow> nat \<Rightarrow> bool" where
  "coord_ok v sz margin \<longleftrightarrow> unat v + margin \<le> unat sz"

definition screen_ok :: "framebuffer \<Rightarrow> bool" where
  "screen_ok f \<longleftrightarrow> fb_ok f \<and> 2 * CURSOR_W \<le> unat (fb_width f) \<and> unat (fb_width f) < 1073741824 \<and>
     2 * CURSOR_H \<le> unat (fb_height f) \<and> unat (fb_height f) < 1073741824"

definition driver_ok :: "'a mouse_state_scheme \<Rightarrow> bool" where
  "driver_ok s \<longleftrightarrow> screen_ok (fb s) \<and> tx_live (ports s) \<and>
     coord_ok (cursor_x s) (fb_width (fb s)) CURSOR_W \<and> coord_ok (cursor_y s) (fb_height (fb s)) CURSOR_H \<and>
     mouse_cycle s < 3 \<and> length (mouse_bytes s) = 3"

text \<open>The picture under the cursor.\<close>

definition background :: "'a mouse_state_scheme \<Rightarrow> mem" where
  "background s = vram (cursor_restore s)"

lemma pixel_value_load: "pixel_value f (get_pixel f m x y) = get_pixel f m x y"
proof -
  have t: "take_bit 16 (ucast (w :: u16) :: u32) = ucast w" "take_bit 32 (v :: u32) = v" for w v
    by (rule bit_eqI) (auto simp: bit_simps dest: bit_imp_le_length, simp add: take_bit_word_eq_self)
  have high: "8 \<le> k \<Longrightarrow> \<not> bit (x :: u8) k" for x k
    by (auto dest: bit_imp_le_length)
  have "take_bit 24 (ucast (a :: u8) OR push_bit 8 (ucast (b :: u8)) OR push_bit 16 (ucast (c :: u8)) :: u32) =
      ucast a OR push_bit 8 (ucast b) OR push_bit 16 (ucast c)" for a b c
    by (rule bit_eqI, rename_tac n, case_tac "n < 24") (auto simp: bit_simps high)
  then show ?thesis
    using t by (simp add: pixel_value_def get_pixel_def load_pixel_def)
qed

lemma restore_paints:
  assumes "fb_ok f"
  shows "(\<forall>x y. on_screen f (x, y) \<longrightarrow> get_pixel f (fold (\<lambda>((x, y), c) m. put_pixel f m x y c) (zip ps (map g ps)) m) x y =
      (if (x, y) \<in> set ps then pixel_value f (g (x, y)) else get_pixel f m x y)) \<and>
    (\<forall>a. a \<notin> fb_bytes f \<longrightarrow> fold (\<lambda>((x, y), c) m. put_pixel f m x y c) (zip ps (map g ps)) m a = m a)"
proof (induction ps arbitrary: m)
  case (Cons p ps)
  have P: "paints f {p} (g p) m (put_pixel f m (fst p) (snd p) (g p))"
    using put_pixel_paints [OF assms, of "fst p" "snd p" "g p" m] by simp
  show ?case
    using Cons.IH [of "put_pixel f m (fst p) (snd p) (g p)"] P by (auto simp: paints_def split_beta)
qed simp

lemma restore_confined:
  assumes "fb_ok f"
  shows "confined f m (fold (\<lambda>((x, y), c) m. put_pixel f m x y c) pcs m)"
proof (induction pcs arbitrary: m)
  case (Cons pc pcs)
  obtain x y c where pc: "pc = ((x, y), c)"
    by (metis surj_pair)
  show ?case
    using confined_trans [OF paints_confined [OF put_pixel_paints [OF assms, of x y c m]] Cons.IH] by (simp add: pc)
qed simp

lemma cursor_restore_confined: "fb_ok (fb s) \<Longrightarrow> confined (fb s) (vram s) (vram (cursor_restore s))"
  using restore_confined [of "fb s"] by (simp add: cursor_restore_def)

lemma box_cells:
  assumes "unat x + 12 < 4294967296" "unat y + 20 < 4294967296"
  shows "(a, b) \<in> set (cursor_cells x y) \<longleftrightarrow> x \<le> a \<and> a \<le> x + 11 \<and> y \<le> b \<and> b \<le> y + 19"
proof -
  have one: "(\<exists>d<Suc n. a = x + of_nat d) \<longleftrightarrow> x \<le> a \<and> a \<le> x + of_nat n" if "unat x + n < 4294967296" for a x :: u32 and n
  proof -
    have k: "unat (x + of_nat k) = unat x + k" if "k \<le> n" for k
      using that \<open>unat x + n < 4294967296\<close> by (subst unat_add_no_wrap) (simp_all add: unat_of_nat_u32)
    show ?thesis
    proof
      assume "\<exists>d<Suc n. a = x + of_nat d"
      then show "x \<le> a \<and> a \<le> x + of_nat n"
        using k by (auto simp: word_le_nat_alt less_Suc_eq_le)
    next
      assume a: "x \<le> a \<and> a \<le> x + of_nat n"
      then have "unat (a - x) = unat a - unat x"
        by (simp add: unat_sub_no_wrap)
      then have "unat (a - x) < Suc n"
        using a k [of n] by (simp add: word_le_nat_alt) linarith
      then show "\<exists>d<Suc n. a = x + of_nat d"
        by (intro exI [of _ "unat (a - x)"]) simp
    qed
  qed
  show ?thesis
    using one [of x 11 a] one [of y 19 b] assms by (auto simp: cursor_cells_iff)
qed

text \<open>Drawing the cursor changes only the cells that were saved before.\<close>

lemma cursor_draw_ok:
  assumes "fb_ok (fb s)" "unat (cursor_x s) + 12 \<le> 2147483648" "unat (cursor_y s) + 20 \<le> 2147483648"
  shows "\<exists>m. cursor_draw s = Some ((cursor_save s)\<lparr>vram := m, cursor_old_x := cursor_x s, cursor_old_y := cursor_y s, cursor_visible := True\<rparr>) \<and>
    (\<forall>x y. on_screen (fb s) (x, y) \<longrightarrow> (x, y) \<notin> set (cursor_cells (cursor_x s) (cursor_y s)) \<longrightarrow>
      get_pixel (fb s) m x y = get_pixel (fb s) (vram s) x y) \<and>
    (\<forall>a. a \<notin> fb_bytes (fb s) \<longrightarrow> m a = vram s a)"
proof -
  let ?x = "cursor_x s" and ?y = "cursor_y s"
  let ?m1 = "fill_rect (fb s) (vram s) ?x ?y 11 19 (make_color (fb s) 0xFF 0xFF 0xFF)"
  obtain ps where ps: "draw_rect (fb s) ?m1 ?x ?y 11 19 (make_color (fb s) 0 0 0) = Some (plot (fb s) (make_color (fb s) 0 0 0) ps ?m1)"
    "set ps \<subseteq> bounding_box ?x ?y (?x + 11) (?y + 19)"
    using draw_rect_box [of ?x 11 ?y 19 "fb s" ?m1 "make_color (fb s) 0 0 0"] assms(2,3) by auto
  have c: "(a, b) \<in> set (cursor_cells ?x ?y) \<longleftrightarrow> ?x \<le> a \<and> a \<le> ?x + 11 \<and> ?y \<le> b \<and> b \<le> ?y + 19" for a b
    using assms(2,3) by (intro box_cells) simp_all
  have no_wrap: "?x \<le> ?x + 11" "?y \<le> ?y + 19"
    using assms(2,3) by (simp_all add: word_le_nat_alt unat_add_no_wrap)
  have "rect_points ?x ?y (?x + 11) (?y + 19) \<subseteq> set (cursor_cells ?x ?y)"
    by (auto simp: rect_points_def c)
  moreover have "set ps \<subseteq> set (cursor_cells ?x ?y)"
    using ps(2) no_wrap by (auto simp: bounding_box_def c min_def max_def)
  ultimately show ?thesis
    using ps(1) fill_rect_paints [OF assms(1), of ?x ?y 11 19 "make_color (fb s) 0xFF 0xFF 0xFF" "vram s"]
      plot_paints [OF assms(1), of ps "make_color (fb s) 0 0 0" ?m1]
    by (intro exI [of _ "plot (fb s) (make_color (fb s) 0 0 0) ps ?m1"])
      (auto simp: cursor_draw_def cursor_save_def Let_def paints_def)
qed

lemma cursor_draw_background:
  assumes "fb_ok (fb s)" "unat (cursor_x s) + 12 \<le> 2147483648" "unat (cursor_y s) + 20 \<le> 2147483648"
  shows "\<exists>s'. cursor_draw s = Some s' \<and> same_screen (fb s) (vram s) (background s') \<and> cursor_visible s' \<and>
    confined (fb s) (vram s) (vram s') \<and>
    s' = s\<lparr>vram := vram s', cursor_backup := cursor_backup s', cursor_old_x := cursor_x s, cursor_old_y := cursor_y s, cursor_visible := True\<rparr>"
proof -
  let ?C = "cursor_cells (cursor_x s) (cursor_y s)"
  let ?g = "\<lambda>(x, y). get_pixel (fb s) (vram s) x y"
  obtain m where m: "cursor_draw s = Some ((cursor_save s)\<lparr>vram := m, cursor_old_x := cursor_x s, cursor_old_y := cursor_y s, cursor_visible := True\<rparr>)"
    "\<And>x y. on_screen (fb s) (x, y) \<Longrightarrow> (x, y) \<notin> set ?C \<Longrightarrow> get_pixel (fb s) m x y = get_pixel (fb s) (vram s) x y"
    "\<And>a. a \<notin> fb_bytes (fb s) \<Longrightarrow> m a = vram s a"
    using cursor_draw_ok [OF assms] by blast
  let ?s' = "(cursor_save s)\<lparr>vram := m, cursor_old_x := cursor_x s, cursor_old_y := cursor_y s, cursor_visible := True\<rparr>"
  have "background ?s' = fold (\<lambda>((x, y), c) m. put_pixel (fb s) m x y c) (zip ?C (map ?g ?C)) m"
    by (simp add: background_def cursor_restore_def cursor_save_def)
  then have "same_screen (fb s) (vram s) (background ?s')"
    using restore_paints [OF assms(1), of ?C ?g m] m(2,3) by (auto simp: paints_def pixel_value_load)
  then show ?thesis
    using m(1,3) by (intro exI [of _ ?s']) (simp add: cursor_save_def confined_def)
qed

section \<open>Moving the cursor\<close>

lemma sint_scast8: "sint (scast (b :: u8) :: i32) = sint b" "- 128 \<le> sint b" "sint b < 128"
proof -
  show r: "- 128 \<le> sint b" "sint b < 128"
    using sint_ge [of b] sint_lt [of b] by simp_all
  have "sint (scast b :: i32) = signed_take_bit 31 (sint b)"
    by (simp add: signed_scast_eq)
  also have "\<dots> = sint b"
    using r by (intro signed_take_bit_int_eq_self) simp_all
  finally show "sint (scast b :: i32) = sint b" .
qed

lemma sint_coord: "coord_ok v sz mg \<Longrightarrow> unat sz < 2147483648 \<Longrightarrow> sint v = int (unat v)"
  by (intro sint_small) (simp add: coord_ok_def)

lemma clamp_cursor_ok:
  assumes "mg \<le> unat sz" "unat sz < 2147483648"
  shows "sint (clamp_cursor w sz mg) = max 0 (min (int (unat sz) - int mg) (sint w))" "coord_ok (clamp_cursor w sz mg) sz mg"
proof -
  have mg: "unat (of_nat mg :: u32) = mg"
    using assms by (intro unat_of_nat_u32) simp
  have u: "unat (sz - of_nat mg) = unat sz - mg"
    using assms(1) mg by (subst unat_sub_no_wrap) (simp_all add: word_le_nat_alt)
  have s: "sint (sz - of_nat mg) = int (unat sz) - int mg"
    using assms u sint_small [of "sz - of_nat mg"] by (simp add: of_nat_diff del: of_nat_unat)
  show v: "sint (clamp_cursor w sz mg) = max 0 (min (int (unat sz) - int mg) (sint w))"
    using assms(1) s unfolding clamp_cursor_def Let_def word_sless_alt
    by (cases "sint w < 0") (auto simp: min_def max_def simp del: of_nat_unat)
  then have "unat (clamp_cursor w sz mg) = nat (max 0 (min (int (unat sz) - int mg) (sint w)))"
    by (simp add: unat_sint del: of_nat_unat)
  then show "coord_ok (clamp_cursor w sz mg) sz mg"
    unfolding coord_ok_def using assms(1) by (simp add: min_def max_def del: of_nat_unat split: if_splits)
qed

lemma cursor_restore_simps [simp]:
  "fb (cursor_restore s) = fb s" "ports (cursor_restore s) = ports s" "cursor_x (cursor_restore s) = cursor_x s"
  "cursor_y (cursor_restore s) = cursor_y s" "mouse_state.more (cursor_restore s) = mouse_state.more s"
  "cursor_visible (cursor_restore s) = False" "mouse_cycle (cursor_restore s) = mouse_cycle s" "mouse_bytes (cursor_restore s) = mouse_bytes s"
  "itabs (cursor_restore s) = itabs s" "first_packet (cursor_restore s) = first_packet s" "last_buttons (cursor_restore s) = last_buttons s"
  "packet_count (cursor_restore s) = packet_count s"
  by (simp_all add: cursor_restore_def)

lemma move_cursor_ok:
  assumes "driver_ok s"
  shows "\<exists>s'. move_cursor dx dy s = Some s' \<and> driver_ok s' \<and> same_screen (fb s) (background s) (background s') \<and> cursor_visible s' \<and>
    confined (fb s) (vram s) (vram s') \<and>
    sint (cursor_x s') = max 0 (min (int (unat (fb_width (fb s))) - 12) (sint (cursor_x s) + sint dx)) \<and>
    sint (cursor_y s') = max 0 (min (int (unat (fb_height (fb s))) - 20) (sint (cursor_y s) - sint dy)) \<and>
    s' = s\<lparr>vram := vram s', cursor_backup := cursor_backup s', cursor_x := cursor_x s', cursor_y := cursor_y s',
      cursor_old_x := cursor_x s', cursor_old_y := cursor_y s', cursor_visible := True\<rparr>"
proof -
  have sc: "fb_ok (fb s)" "12 \<le> unat (fb_width (fb s))" "unat (fb_width (fb s)) < 1073741824"
    "20 \<le> unat (fb_height (fb s))" "unat (fb_height (fb s)) < 1073741824"
    and co: "coord_ok (cursor_x s) (fb_width (fb s)) 12" "coord_ok (cursor_y s) (fb_height (fb s)) 20"
    using assms by (simp_all add: driver_ok_def screen_ok_def)
  let ?x = "clamp_cursor (cursor_x s + scast dx) (fb_width (fb s)) CURSOR_W"
  let ?y = "clamp_cursor (cursor_y s - scast dy) (fb_height (fb s)) CURSOR_H"
  let ?t = "(cursor_restore s)\<lparr>cursor_x := ?x, cursor_y := ?y\<rparr>"
  have lt: "unat (fb_width (fb s)) < 2147483648" "unat (fb_height (fb s)) < 2147483648"
    using sc by simp_all
  note X = clamp_cursor_ok [OF sc(2) lt(1), of "cursor_x s + scast dx"] and Y = clamp_cursor_ok [OF sc(4) lt(2), of "cursor_y s - scast dy"]
  have x: "sint (cursor_x s + scast dx) = sint (cursor_x s) + sint dx"
    using sint_coord [OF co(1) lt(1)] co(1) sc(3) sint_scast8 [of dx]
    by (subst sint_add) (simp_all add: coord_ok_def del: of_nat_unat)
  have y: "sint (cursor_y s - scast dy) = sint (cursor_y s) - sint dy"
    using sint_coord [OF co(2) lt(2)] co(2) sc(5) sint_scast8 [of dy]
    by (subst sint_sub) (simp_all add: coord_ok_def del: of_nat_unat)
  have "unat ?x + 12 \<le> 2147483648" "unat ?y + 20 \<le> 2147483648"
    using X(2) Y(2) sc by (simp_all add: coord_ok_def)
  then obtain s' where s': "cursor_draw ?t = Some s'" "same_screen (fb s) (background s) (background s')" "cursor_visible s'" "confined (fb s) (vram ?t) (vram s')"
    "s' = ?t\<lparr>vram := vram s', cursor_backup := cursor_backup s', cursor_old_x := ?x, cursor_old_y := ?y, cursor_visible := True\<rparr>"
    using cursor_draw_background [of ?t] sc(1) by (auto simp: background_def)
  have f: "cursor_x s' = ?x" "cursor_y s' = ?y" "fb s' = fb s" "ports s' = ports s" "mouse_cycle s' = mouse_cycle s" "mouse_bytes s' = mouse_bytes s"
    by (subst s'(5), simp)+
  have "driver_ok s'"
    using assms X(2) Y(2) unfolding driver_ok_def f by simp
  moreover have "s' = s\<lparr>vram := vram s', cursor_backup := cursor_backup s', cursor_x := cursor_x s', cursor_y := cursor_y s',
      cursor_old_x := cursor_x s', cursor_old_y := cursor_y s', cursor_visible := True\<rparr>"
    unfolding f by (subst s'(5)) (simp add: cursor_restore_def)
  moreover have "confined (fb s) (vram s) (vram s')"
    using confined_trans [OF cursor_restore_confined [OF sc(1)]] s'(4) by simp
  ultimately show ?thesis
    using s'(1-3) f(1,2) X(1) Y(1) x y by (intro exI [of _ s']) (simp add: move_cursor_def Let_def)
qed

section \<open>The upper layer\<close>

text \<open>
  What the driver needs of the callbacks that the upper layer registers, and what it gives them:
  they run on a good driver state with the upper layer's own invariant on its part of the state,
  return, keep both, leave the cursor position and the packet assembly alone, and change memory
  only in the framebuffer. Printing is part of the driver state. The law on clicks is for states that
  are not in \<open>trap\<close>, where the upper layer's code may raise a CPU exception.
\<close>

definition client_frame :: "'a mouse_state_scheme \<Rightarrow> 'a mouse_state_scheme \<Rightarrow> bool" where
  "client_frame s s' \<longleftrightarrow> fb s' = fb s \<and> cursor_x s' = cursor_x s \<and> cursor_y s' = cursor_y s \<and> mouse_cycle s' = mouse_cycle s \<and>
     mouse_bytes s' = mouse_bytes s \<and> first_packet s' = first_packet s \<and> confined (fb s) (vram s) (vram s')"

lemma client_frame_trans: "client_frame s t \<Longrightarrow> client_frame t u \<Longrightarrow> client_frame s u"
  by (auto simp: client_frame_def intro: confined_trans)

lemma say_ok:
  assumes "tx_live (ports s)"
  shows "\<exists>p. say ps s = Some (s\<lparr>ports := p\<rparr>) \<and> tx_live p \<and> (\<exists>bs. sends (ports s) bs p)"
proof -
  obtain p bs where "print_all (ports s) ps = Some p" "sends (ports s) bs p"
    using print_all_returns [OF assms] by blast
  then show ?thesis
    using sends_live [OF assms] by (auto simp: say_def)
qed

lemma say_driver_ok:
  assumes "driver_ok s"
  shows "\<exists>p. say ps s = Some (s\<lparr>ports := p\<rparr>) \<and> driver_ok (s\<lparr>ports := p\<rparr>)"
  using say_ok [of s ps] assms by (auto simp: driver_ok_def)

locale mouse_client =
  fixes click :: "i32 \<Rightarrow> i32 \<Rightarrow> u8 \<Rightarrow> 'a mouse_state_scheme \<Rightarrow> 'a mouse_state_scheme option"
    and move :: "i32 \<Rightarrow> i32 \<Rightarrow> 'a mouse_state_scheme \<Rightarrow> 'a mouse_state_scheme option"
    and inv trap :: "'a mouse_state_scheme \<Rightarrow> bool"
  assumes inv_frame: "\<And>s t. fb t = fb s \<Longrightarrow> mouse_state.more t = mouse_state.more s \<Longrightarrow> inv s \<Longrightarrow> inv t"
    and trap_frame: "\<And>s t. mouse_state.more t = mouse_state.more s \<Longrightarrow> trap t \<longleftrightarrow> trap s"
    and click_ok: "\<And>x y b s. driver_ok s \<Longrightarrow> inv s \<Longrightarrow> \<not> trap s \<Longrightarrow>
      \<exists>s'. click x y b s = Some s' \<and> driver_ok s' \<and> inv s' \<and> client_frame s s'"
    and move_ok: "\<And>dx dy s. driver_ok s \<Longrightarrow> inv s \<Longrightarrow> - 128 \<le> sint dx \<and> sint dx < 128 \<Longrightarrow>
      - 128 \<le> sint dy \<and> sint dy < 128 \<Longrightarrow>
      \<exists>s'. move dx dy s = Some s' \<and> driver_ok s' \<and> inv s' \<and> client_frame s s'"
begin

definition good :: "'a mouse_state_scheme \<Rightarrow> bool" where
  "good s \<longleftrightarrow> driver_ok s \<and> inv s"

lemma good_frame:
  assumes "good s" "driver_ok t" "fb t = fb s" "mouse_state.more t = mouse_state.more s"
  shows "good t"
  using assms inv_frame [of t s] by (simp add: good_def)

lemma packet_click:
  assumes "good s" "\<not> trap s"
  shows "\<exists>s'. (if buttons \<noteq> last_buttons s
      then do { s \<leftarrow> say (buttons_text buttons) s; let s = s\<lparr>last_buttons := buttons\<rparr>; click (cursor_x s) (cursor_y s) buttons s }
      else Some s) = Some s' \<and> good s' \<and> client_frame s s'"
proof (cases "buttons = last_buttons s")
  case True
  then show ?thesis
    using assms by (simp add: client_frame_def)
next
  case False
  obtain p where p: "say (buttons_text buttons) s = Some (s\<lparr>ports := p\<rparr>)" "driver_ok (s\<lparr>ports := p\<rparr>)"
    using say_driver_ok assms by (auto simp: good_def)
  let ?t = "s\<lparr>ports := p, last_buttons := buttons\<rparr>"
  have "good ?t" "\<not> trap ?t"
    using p(2) assms(2) trap_frame [of ?t s] by (auto intro!: good_frame [OF assms(1)] simp: driver_ok_def)
  from click_ok [OF this(1) [unfolded good_def, THEN conjunct1] this(1) [unfolded good_def, THEN conjunct2] this(2), of "cursor_x s" "cursor_y s" buttons] obtain s' where
    "click (cursor_x s) (cursor_y s) buttons ?t = Some s'" "driver_ok s'" "inv s'" "client_frame ?t s'"
    by blast
  then show ?thesis
    using p(1) False by (intro exI [of _ s']) (simp add: good_def client_frame_def)
qed

lemma process_packet_ok:
  assumes "good s" "\<not> first_packet s" "\<not> trap s"
  shows "\<exists>s'. mouse_process_packet (Some click) (Some move) s = Some s' \<and> good s' \<and>
    fb s' = fb s \<and> mouse_cycle s' = mouse_cycle s \<and> mouse_bytes s' = mouse_bytes s \<and> \<not> first_packet s' \<and>
    confined (fb s) (vram s) (vram s') \<and>
    sint (cursor_x s') = max 0 (min (int (unat (fb_width (fb s))) - 12) (sint (cursor_x s) + sint (mouse_bytes s ! 1))) \<and>
    sint (cursor_y s') = max 0 (min (int (unat (fb_height (fb s))) - 20) (sint (cursor_y s) - sint (mouse_bytes s ! 2)))"
proof -
  let ?dx = "mouse_bytes s ! 1" and ?dy = "mouse_bytes s ! 2" and ?b = "mouse_bytes s ! 0 AND 7"
  let ?s0 = "s\<lparr>packet_count := packet_count s + 1\<rparr>"
  have g0: "good ?s0"
    using assms(1) by (intro good_frame [OF assms(1)]) (simp_all add: good_def driver_ok_def)
  obtain s1 where s1: "(if packet_count ?s0 \<le> 5 then say (packet_text (packet_count ?s0) (mouse_bytes s ! 0) ?dx ?dy) ?s0 else Some ?s0) = Some s1"
    "good s1" "client_frame ?s0 s1" "mouse_state.more s1 = mouse_state.more s"
  proof (cases "packet_count ?s0 \<le> 5")
    case True
    obtain p where p: "say (packet_text (packet_count ?s0) (mouse_bytes s ! 0) ?dx ?dy) ?s0 = Some (?s0\<lparr>ports := p\<rparr>)"
      "driver_ok (?s0\<lparr>ports := p\<rparr>)"
      using say_driver_ok [of ?s0] g0 by (auto simp: good_def)
    have "good (?s0\<lparr>ports := p\<rparr>)"
      using p(2) by (intro good_frame [OF g0]) simp_all
    then show ?thesis
      using that [of "?s0\<lparr>ports := p\<rparr>"] p(1) True by (simp add: client_frame_def)
  next
    case False
    then show ?thesis
      using that g0 by (simp add: client_frame_def)
  qed
  obtain s2 where s2: "(if ?b \<noteq> last_buttons s1
      then do { s \<leftarrow> say (buttons_text ?b) s1; let s = s\<lparr>last_buttons := ?b\<rparr>; click (cursor_x s) (cursor_y s) ?b s }
      else Some s1) = Some s2" "good s2" "client_frame s1 s2"
    using packet_click [OF s1(2), of ?b] trap_frame [OF s1(4)] assms(3) by blast
  have f: "fb s2 = fb s" "cursor_x s2 = cursor_x s" "cursor_y s2 = cursor_y s" "mouse_cycle s2 = mouse_cycle s" "mouse_bytes s2 = mouse_bytes s"
    "\<not> first_packet s2" "confined (fb s) (vram s) (vram s2)"
    using s1(3) s2(3) assms(2) by (auto simp: client_frame_def intro: confined_trans)
  have pp: "mouse_process_packet (Some click) (Some move) s =
      (if ?dx \<noteq> 0 \<or> ?dy \<noteq> 0 then do { s \<leftarrow> move_cursor ?dx ?dy s2; move (scast ?dx) (scast ?dy) s } else Some s2)"
    using assms(2) s1(1) s2(1) by (simp add: mouse_process_packet_def Let_def cong: if_cong)
  show ?thesis
  proof (cases "?dx \<noteq> 0 \<or> ?dy \<noteq> 0")
    case True
    obtain s3 where s3: "move_cursor ?dx ?dy s2 = Some s3" "driver_ok s3"
      "sint (cursor_x s3) = max 0 (min (int (unat (fb_width (fb s2))) - 12) (sint (cursor_x s2) + sint ?dx))"
      "sint (cursor_y s3) = max 0 (min (int (unat (fb_height (fb s2))) - 20) (sint (cursor_y s2) - sint ?dy))"
      "confined (fb s2) (vram s2) (vram s3)" "s3 = s2\<lparr>vram := vram s3, cursor_backup := cursor_backup s3, cursor_x := cursor_x s3, cursor_y := cursor_y s3,
        cursor_old_x := cursor_x s3, cursor_old_y := cursor_y s3, cursor_visible := True\<rparr>"
      using move_cursor_ok [of s2 ?dx ?dy] s2(2) by (auto simp: good_def)
    have m3: "fb s3 = fb s2" "mouse_state.more s3 = mouse_state.more s2" "mouse_cycle s3 = mouse_cycle s2" "mouse_bytes s3 = mouse_bytes s2"
      "first_packet s3 = first_packet s2"
      by (subst s3(6), simp)+
    then have "inv s3"
      using s2(2) inv_frame [of s3 s2] by (simp add: good_def)
    from move_ok [OF s3(2) this, of "scast ?dx" "scast ?dy"] obtain s' where
      "move (scast ?dx) (scast ?dy) s3 = Some s'" "driver_ok s'" "inv s'" "client_frame s3 s'"
      using sint_scast8 by auto
    then show ?thesis
      unfolding pp using True s3(1,3,4,5) f m3 by (intro exI [of _ s']) (auto simp: good_def client_frame_def intro: confined_trans)
  next
    case False
    then have z: "sint ?dx = 0" "sint ?dy = 0"
      by simp_all
    have d: "driver_ok s" using assms(1) by (simp add: good_def)
    have c: "max 0 (min (int (unat (fb_width (fb s))) - 12) (sint (cursor_x s))) = sint (cursor_x s)"
      "max 0 (min (int (unat (fb_height (fb s))) - 20) (sint (cursor_y s))) = sint (cursor_y s)"
      using d sint_coord [of "cursor_x s" "fb_width (fb s)" 12] sint_coord [of "cursor_y s" "fb_height (fb s)" 20]
      by (simp_all add: driver_ok_def screen_ok_def coord_ok_def min_def max_def del: of_nat_unat)
    show ?thesis
      unfolding pp z using False s2(2) f c by (intro exI [of _ s2]) simp
  qed
qed

lemma interrupt_ok:
  assumes "good s" "\<not> trap s"
  shows "\<exists>s'. mouse_handle_interrupt (Some click) (Some move) s = Some s' \<and> good s' \<and> fb s' = fb s \<and>
    confined (fb s) (vram s) (vram s')"
proof -
  let ?d = "answer (ports s) (reads (ports s)) PS2_DATA"
  let ?s0 = "s\<lparr>ports := (ports s)\<lparr>reads := Suc (reads (ports s))\<rparr>\<rparr>"
  have tx: "tx_live ((ports s)\<lparr>reads := Suc (reads (ports s))\<rparr>)"
    using assms by (simp add: good_def driver_ok_def tx_live_def)
  have g: "good (?s0\<lparr>mouse_bytes := (mouse_bytes s)[k := ?d], mouse_cycle := c\<rparr>)" if "c < 3" for k c
    using assms tx that by (intro good_frame [OF assms(1)]) (simp_all add: good_def driver_ok_def)
  have g0: "good ?s0"
    using assms tx by (intro good_frame [OF assms(1)]) (simp_all add: good_def driver_ok_def)
  consider "mouse_cycle s = 0" | "mouse_cycle s = 1" | "mouse_cycle s = 2"
  proof -
    have "unat (mouse_cycle s) < 3"
      using assms by (simp add: good_def driver_ok_def word_less_nat_alt)
    then have "unat (mouse_cycle s) = 0 \<or> unat (mouse_cycle s) = 1 \<or> unat (mouse_cycle s) = 2"
      by linarith
    then have "mouse_cycle s = 0 \<or> mouse_cycle s = 1 \<or> mouse_cycle s = 2"
      by (simp add: word_unat_eq_iff)
    then show ?thesis
      using that by auto
  qed
  then show ?thesis
  proof cases
    case 1
    then show ?thesis
      using g [of 1 0] g0 by (simp add: mouse_handle_interrupt_def inb_def Let_def)
  next
    case 2
    then show ?thesis
      using g [of 2 1] by (simp add: mouse_handle_interrupt_def inb_def Let_def)
  next
    case 3
    let ?t = "?s0\<lparr>mouse_bytes := (mouse_bytes s)[2 := ?d], mouse_cycle := 0\<rparr>"
    have h: "mouse_handle_interrupt (Some click) (Some move) s = mouse_process_packet (Some click) (Some move) ?t"
      using 3 by (simp add: mouse_handle_interrupt_def inb_def Let_def)
    show ?thesis
    proof (cases "first_packet s")
      case True
      have "good (?t\<lparr>first_packet := False\<rparr>)"
        using g [of 0 2] by (intro good_frame [OF g [of 0 2]]) (simp_all add: good_def driver_ok_def)
      then show ?thesis
        unfolding h using True by (simp add: mouse_process_packet_def)
    next
      case False
      then show ?thesis
        unfolding h using process_packet_ok [of ?t] g [of 0 2] trap_frame [of ?t s] assms(2) by auto
    qed
  qed
qed

end

section \<open>The handshake\<close>

text \<open>What goes to devices other than the serial port.\<close>

definition device_outs :: "io_state \<Rightarrow> (u16 \<times> u8) list" where
  "device_outs p = filter (\<lambda>w. fst w \<noteq> COM1_PORT) (outs p)"

definition io_step :: "io_state \<Rightarrow> (u16 \<times> u8) list \<Rightarrow> io_state \<Rightarrow> bool" where
  "io_step p ws p' \<longleftrightarrow> (tx_live p \<longrightarrow> tx_live p') \<and> device_outs p' = device_outs p @ ws"

lemma io_step_trans: "io_step p ws q \<Longrightarrow> io_step q vs r \<Longrightarrow> io_step p (ws @ vs) r"
  by (simp add: io_step_def)

lemma io_step_refl: "io_step p [] p"
  by (simp add: io_step_def)

lemma io_step_append: "io_step p0 ws p \<Longrightarrow> io_step p vs q \<Longrightarrow> us = ws @ vs \<Longrightarrow> io_step p0 us q"
  using io_step_trans by blast

lemma io_step_sends: "sends p bs q \<Longrightarrow> io_step p [] q"
  using sends_live [of p bs q] by (simp add: io_step_def sends_def device_outs_def filter_map comp_def)

lemma io_step_inb: "io_step p [] (snd (inb p q))"
  by (simp add: io_step_def device_outs_def tx_live_def)

lemma io_step_outb: "q \<noteq> COM1_PORT \<Longrightarrow> io_step p [(q, v)] (outb p q v)"
  by (simp add: io_step_def device_outs_def tx_live_def)

lemma io_step_wait: "io_step p [] (wait_status busy t p)"
proof (induction busy t p rule: wait_status.induct)
  case (1 busy t p)
  show ?case
    using io_step_inb [of p PS2_STATUS] io_step_trans [OF io_step_inb [of p PS2_STATUS] 1] 
    by (subst wait_status.simps) (auto simp: inb_def Let_def)
qed

lemma io_step_write:
  assumes "q \<noteq> COM1_PORT"
  shows "io_step p [(q, v)] (outb (mouse_wait_write p) q v)"
  using io_step_trans [OF io_step_wait io_step_outb [OF assms]] by (simp add: mouse_wait_write_def)

lemma io_step_read: "io_step p [] (snd (inb (mouse_wait_read p) q))"
  using io_step_trans [OF io_step_wait io_step_inb] by (simp add: mouse_wait_read_def)

lemma io_step_command: "io_step p [(PS2_CMD, 0xD4), (PS2_DATA, b)] (snd (mouse_command b p))"
  using io_step_trans [OF io_step_trans [OF io_step_write [of PS2_CMD p "0xD4"] io_step_write [of PS2_DATA _ b]] io_step_read]
  by (simp add: mouse_command_def Let_def)

lemma say_step:
  assumes "io_step p0 ws q" "tx_live p0"
  shows "\<exists>p. say ps (s\<lparr>ports := q\<rparr>) = Some (s\<lparr>ports := p\<rparr>) \<and> io_step p0 ws p \<and> tx_live p"
proof -
  have t: "tx_live q"
    using assms by (simp add: io_step_def)
  then obtain p bs where p: "say ps (s\<lparr>ports := q\<rparr>) = Some (s\<lparr>ports := p\<rparr>)" "tx_live p" "sends q bs p"
    using say_ok [of "s\<lparr>ports := q\<rparr>" ps] by auto
  then show ?thesis
    using io_step_trans [OF assms(1) io_step_sends [OF p(3)]] by (intro exI [of _ p]) simp
qed

lemma mouse_handshake_ok:
  assumes "tx_live (ports s)"
  shows "\<exists>p cfg m1 m2. mouse_handshake lm s = Some (s\<lparr>itabs := idt_set_gate 44 (irq12_entry lm) 0x08 0x8E (itabs s), ports := p\<rparr>) \<and>
    tx_live p \<and> device_outs p = device_outs (ports s) @
      [(PS2_CMD, 0xA8), (PS2_CMD, 0x20), (PS2_CMD, 0x60), (PS2_DATA, cfg), (PS2_CMD, 0xD4), (PS2_DATA, 0xF6),
       (PS2_CMD, 0xD4), (PS2_DATA, 0xF4), (PS2_CMD, 0xD4), (PS2_DATA, 0xEA), (PIC1_DATA, m1), (PIC2_DATA, m2)] \<and>
    bit cfg 1 \<and> \<not> bit cfg 5 \<and> \<not> bit m1 2 \<and> \<not> bit m2 4"
proof -
  let ?p0 = "ports s"
  note tx = assms(1) and app = io_step_append [OF _ _ refl]
  obtain p1 where p1: "say [Str (''Mouse: initializing PS/2...'' @ newline)] s = Some (s\<lparr>ports := p1\<rparr>)" "io_step ?p0 [] p1"
    using say_step [OF io_step_refl tx, of _ s] by auto
  define q1 where "q1 = outb (mouse_wait_write p1) PS2_CMD 0xA8"
  have q1: "io_step ?p0 [(PS2_CMD, 0xA8)] q1"
    using app [OF p1(2) io_step_write] by (simp add: q1_def)
  obtain p2 where p2: "say [Str (''Mouse: aux port enabled (0xA8)'' @ newline)] (s\<lparr>ports := q1\<rparr>) = Some (s\<lparr>ports := p2\<rparr>)"
    "io_step ?p0 [(PS2_CMD, 0xA8)] p2"
    using say_step [OF q1 tx, of _ s] by blast
  define q2 where "q2 = outb (mouse_wait_write p2) PS2_CMD 0x20"
  define r2 where "r2 = inb (mouse_wait_read q2) PS2_DATA"
  define cfg where "cfg = (fst r2 OR 0x02) AND NOT 0x20"
  define q3 where "q3 = outb (mouse_wait_write (outb (mouse_wait_write (snd r2)) PS2_CMD 0x60)) PS2_DATA cfg"
  have h2: "io_step ?p0 [(PS2_CMD, 0xA8), (PS2_CMD, 0x20)] (snd r2)"
    using app [OF app [OF p2(2) io_step_write] io_step_read] by (simp add: q2_def r2_def)
  have q3: "io_step ?p0 [(PS2_CMD, 0xA8), (PS2_CMD, 0x20), (PS2_CMD, 0x60), (PS2_DATA, cfg)] q3"
    using app [OF app [OF h2 io_step_write [of PS2_CMD _ "0x60"]] io_step_write [of PS2_DATA _ cfg]] by (simp add: q3_def)
  let ?w3 = "[(PS2_CMD, 0xA8), (PS2_CMD, 0x20), (PS2_CMD, 0x60), (PS2_DATA, cfg)]"
  obtain p3 where p3: "say [Str ''Mouse: controller config written (cfg=0x'', Hex (ucast cfg), Str ('')'' @ newline)] (s\<lparr>ports := q3\<rparr>) =
      Some (s\<lparr>ports := p3\<rparr>)" "io_step ?p0 ?w3 p3"
    using say_step [OF q3 tx, of _ s] by blast
  define g where "g = idt_set_gate 44 (irq12_entry lm) 0x08 0x8E (itabs s)"
  obtain p4 where p4: "say [Str (''Mouse: IDT[44] wired (IRQ12)'' @ newline)] (s\<lparr>itabs := g, ports := p3\<rparr>) = Some (s\<lparr>itabs := g, ports := p4\<rparr>)"
    "io_step ?p0 ?w3 p4"
    using say_step [OF p3(2) tx, of _ "s\<lparr>itabs := g\<rparr>"] by blast
  obtain a1 c1 where c1: "mouse_command 0xF6 p4 = (a1, c1)"
    by fastforce
  have s1: "io_step ?p0 (?w3 @ [(PS2_CMD, 0xD4), (PS2_DATA, 0xF6)]) c1"
    using app [OF p4(2) io_step_command [of p4 "0xF6"]] c1 by simp
  obtain p5 where p5: "say [Str ''Mouse: Set Defaults ACK = 0x'', Hex (ucast a1), Str newline] (s\<lparr>itabs := g, ports := c1\<rparr>) =
      Some (s\<lparr>itabs := g, ports := p5\<rparr>)" "io_step ?p0 (?w3 @ [(PS2_CMD, 0xD4), (PS2_DATA, 0xF6)]) p5"
    using say_step [OF s1 tx, of _ "s\<lparr>itabs := g\<rparr>"] by blast
  obtain a2 c2 where c2: "mouse_command 0xF4 p5 = (a2, c2)"
    by fastforce
  have s2: "io_step ?p0 (?w3 @ [(PS2_CMD, 0xD4), (PS2_DATA, 0xF6), (PS2_CMD, 0xD4), (PS2_DATA, 0xF4)]) c2"
    using app [OF p5(2) io_step_command [of p5 "0xF4"]] c2 by simp
  obtain p6 where p6: "say [Str ''Mouse: Enable Reporting ACK = 0x'', Hex (ucast a2), Str newline] (s\<lparr>itabs := g, ports := c2\<rparr>) =
      Some (s\<lparr>itabs := g, ports := p6\<rparr>)"
    "io_step ?p0 (?w3 @ [(PS2_CMD, 0xD4), (PS2_DATA, 0xF6), (PS2_CMD, 0xD4), (PS2_DATA, 0xF4)]) p6"
    using say_step [OF s2 tx, of _ "s\<lparr>itabs := g\<rparr>"] by blast
  obtain a3 c3 where c3: "mouse_command 0xEA p6 = (a3, c3)"
    by fastforce
  let ?w6 = "?w3 @ [(PS2_CMD, 0xD4), (PS2_DATA, 0xF6), (PS2_CMD, 0xD4), (PS2_DATA, 0xF4), (PS2_CMD, 0xD4), (PS2_DATA, 0xEA)]"
  have s3: "io_step ?p0 ?w6 c3"
    using app [OF p6(2) io_step_command [of p6 "0xEA"]] c3 by simp
  obtain p7 where p7: "say [Str ''Mouse: Stream Mode ACK = 0x'', Hex (ucast a3), Str newline] (s\<lparr>itabs := g, ports := c3\<rparr>) =
      Some (s\<lparr>itabs := g, ports := p7\<rparr>)" "io_step ?p0 ?w6 p7"
    using say_step [OF s3 tx, of _ "s\<lparr>itabs := g\<rparr>"] by blast
  define m1 where "m1 = fst (inb p7 PIC1_DATA) AND NOT 0x04"
  define q7 where "q7 = outb (snd (inb p7 PIC1_DATA)) PIC1_DATA m1"
  define m2 where "m2 = fst (inb q7 PIC2_DATA) AND NOT 0x10"
  define q8 where "q8 = outb (snd (inb q7 PIC2_DATA)) PIC2_DATA m2"
  let ?w8 = "?w6 @ [(PIC1_DATA, m1), (PIC2_DATA, m2)]"
  have h7: "io_step ?p0 (?w6 @ [(PIC1_DATA, m1)]) q7"
    using app [OF app [OF p7(2) io_step_inb [of _ PIC1_DATA]] io_step_outb [of PIC1_DATA _ m1]] by (simp add: q7_def)
  have q8: "io_step ?p0 ?w8 q8"
    using app [OF app [OF h7 io_step_inb [of _ PIC2_DATA]] io_step_outb [of PIC2_DATA _ m2]] by (simp add: q8_def)
  obtain p8 where p8: "say [Str ''Mouse: IRQ12 unmasked (PIC mask1=0x'', Hex (ucast m1), Str '' mask2=0x'', Hex (ucast m2),
      Str ('')'' @ newline)] (s\<lparr>itabs := g, ports := q8\<rparr>) = Some (s\<lparr>itabs := g, ports := p8\<rparr>)" "io_step ?p0 ?w8 p8" "tx_live p8"
    using say_step [OF q8 tx, of _ "s\<lparr>itabs := g\<rparr>"] by blast
  note inb_simps [simp del]
  have sw: "s\<lparr>ports := p3, itabs := g\<rparr> = s\<lparr>itabs := g, ports := p3\<rparr>"
    by simp
  have "mouse_handshake lm s = Some (s\<lparr>itabs := g, ports := p8\<rparr>)"
    unfolding mouse_handshake_def using p1(1) p2(1) p3(1) p4(1) p5(1) p6(1) p7(1) p8(1) c1 c2 c3
    by (simp add: Let_def split_beta sw g_def [symmetric] q1_def [symmetric] q2_def [symmetric] r2_def [symmetric]
      cfg_def [simplified, symmetric] q3_def [symmetric] m1_def [simplified, symmetric] q7_def [symmetric]
      m2_def [simplified, symmetric] q8_def [symmetric])
  moreover have "bit cfg 1 \<and> \<not> bit cfg 5 \<and> \<not> bit m1 2 \<and> \<not> bit m2 4"
    unfolding cfg_def m1_def m2_def
    using byte_set_bit [of 1 "fst r2" 1] byte_clear_bit [of 1 "fst r2 OR 0x02" 5] byte_clear_bit [of 5 "fst r2 OR 0x02" 5]
      byte_clear_bit [of 2 "fst (inb p7 PIC1_DATA)" 2] byte_clear_bit [of 4 "fst (inb q7 PIC2_DATA)" 4]
    by simp
  ultimately show ?thesis
    using p8(2,3) unfolding g_def io_step_def by (intro exI [of _ p8] exI [of _ cfg] exI [of _ m1] exI [of _ m2]) simp
qed

lemma unat_half: "unat v < 2147483648 \<Longrightarrow> unat (sdiv32 v 2) = unat v div 2"
proof -
  assume v: "unat v < 2147483648"
  have "sint v = int (unat v)"
    by (rule sint_small [OF v])
  then have "sint v sdiv 2 = int (unat v div 2)"
    by (simp add: signed_divide_int_def sgn_if zdiv_int del: of_nat_unat)
  then have "sdiv32 v 2 = of_nat (unat v div 2)"
    unfolding sdiv32_def by simp
  then show ?thesis
    using v by (simp add: unat_of_nat_u32)
qed

lemma mouse_init_ok:
  assumes "tx_live (ports s)" and "screen_ok (fb s)" and "length (mouse_bytes s) = 3" and "mouse_cycle s = 0"
    and "44 < length (idt (itabs s))"
  shows "\<exists>s' cfg m1 m2. mouse_init lm s = Some s' \<and>
    device_outs (ports s') = device_outs (ports s) @
      [(PS2_CMD, 0xA8), (PS2_CMD, 0x20), (PS2_CMD, 0x60), (PS2_DATA, cfg), (PS2_CMD, 0xD4), (PS2_DATA, 0xF6),
       (PS2_CMD, 0xD4), (PS2_DATA, 0xF4), (PS2_CMD, 0xD4), (PS2_DATA, 0xEA), (PIC1_DATA, m1), (PIC2_DATA, m2)] \<and>
    bit cfg 1 \<and> \<not> bit cfg 5 \<and> \<not> bit m1 2 \<and> \<not> bit m2 4 \<and>
    gate_handler (idt (itabs s') ! 44) = irq12_entry lm \<and> driver_ok s' \<and> cursor_visible s' \<and>
    unat (cursor_x s') = unat (fb_width (fb s)) div 2 \<and> unat (cursor_y s') = unat (fb_height (fb s)) div 2 \<and>
    same_screen (fb s) (vram s) (background s') \<and> mouse_state.more s' = mouse_state.more s \<and> fb s' = fb s"
proof -
  obtain p cfg m1 m2 where h: "mouse_handshake lm s = Some (s\<lparr>itabs := idt_set_gate 44 (irq12_entry lm) 0x08 0x8E (itabs s), ports := p\<rparr>)"
    "tx_live p" "device_outs p = device_outs (ports s) @
      [(PS2_CMD, 0xA8), (PS2_CMD, 0x20), (PS2_CMD, 0x60), (PS2_DATA, cfg), (PS2_CMD, 0xD4), (PS2_DATA, 0xF6),
       (PS2_CMD, 0xD4), (PS2_DATA, 0xF4), (PS2_CMD, 0xD4), (PS2_DATA, 0xEA), (PIC1_DATA, m1), (PIC2_DATA, m2)]"
    "bit cfg 1" "\<not> bit cfg 5" "\<not> bit m1 2" "\<not> bit m2 4"
    using mouse_handshake_ok [OF assms(1)] by blast
  let ?g = "idt_set_gate 44 (irq12_entry lm) 0x08 0x8E (itabs s)"
  let ?x = "sdiv32 (fb_width (fb s)) 2" and ?y = "sdiv32 (fb_height (fb s)) 2"
  let ?t = "s\<lparr>itabs := ?g, ports := p, cursor_x := ?x, cursor_y := ?y, cursor_old_x := ?x, cursor_old_y := ?y, cursor_visible := False\<rparr>"
  note sc = assms(2) [unfolded screen_ok_def]
  have xy: "unat ?x = unat (fb_width (fb s)) div 2" "unat ?y = unat (fb_height (fb s)) div 2"
    using sc by (simp_all add: unat_half)
  then have "unat (cursor_x ?t) + 12 \<le> 2147483648" "unat (cursor_y ?t) + 20 \<le> 2147483648"
    using le_less_trans [OF div_le_dividend, of "unat (fb_width (fb s))" 1073741824 2]
      le_less_trans [OF div_le_dividend, of "unat (fb_height (fb s))" 1073741824 2] sc by simp_all
  then obtain t' where t': "cursor_draw ?t = Some t'" "same_screen (fb s) (vram s) (background t')" "cursor_visible t'"
    "t' = ?t\<lparr>vram := vram t', cursor_backup := cursor_backup t', cursor_old_x := ?x, cursor_old_y := ?y, cursor_visible := True\<rparr>"
    using cursor_draw_background [of ?t] sc by auto
  have f: "ports t' = p" "itabs t' = ?g" "cursor_x t' = ?x" "cursor_y t' = ?y" "fb t' = fb s" "mouse_state.more t' = mouse_state.more s"
    "mouse_cycle t' = 0" "length (mouse_bytes t') = 3"
    by (subst t'(4), simp add: assms(3,4))+
  let ?msg = "[Str ''Mouse: cursor at ('', Hex (cursor_x t'), Str '', '', Hex (cursor_y t'), Str (''), init complete.'' @ newline)]"
  obtain p' where p': "say ?msg t' = Some (t'\<lparr>ports := p'\<rparr>)" "io_step p [] p'" "tx_live p'"
    using say_step [OF io_step_refl h(2), of ?msg t'] f(1) by auto
  have r: "mouse_init lm s = Some (t'\<lparr>ports := p'\<rparr>)"
    using h(1) t'(1) p'(1) by (simp add: mouse_init_def Let_def)
  have "background (t'\<lparr>ports := p'\<rparr>) = background t'"
    by (simp add: background_def cursor_restore_def)
  moreover have "driver_ok (t'\<lparr>ports := p'\<rparr>)"
    using assms(2) sc xy p'(3) f by (auto simp: driver_ok_def coord_ok_def)
  moreover have "device_outs p' = device_outs p"
    using p'(2) by (simp add: io_step_def)
  moreover have "gate_handler (idt ?g ! 44) = irq12_entry lm"
    using assms(5) by (simp add: idt_set_gate_def gate_handler_def split_word32(1) [symmetric])
  ultimately show ?thesis
    using r h(3-7) f xy t'(2,3) by (intro exI [of _ "t'\<lparr>ports := p'\<rparr>"] exI [of _ cfg] exI [of _ m1] exI [of _ m2]) simp
qed

text \<open>C31: \<open>mouse_init\<close> returns on a live serial line; it sends the documented handshake in order (auxiliary port on,
  configuration with IRQ 12 enabled and the mouse clock running, defaults, reporting, stream
  mode), unmasks IRQ 2 and IRQ 12, routes vector 44 to the handler and shows the cursor in the
  middle of an otherwise unchanged screen.\<close>

theorem mouse_init_correct:
  assumes "tx_live (ports s)" and "screen_ok (fb s)" and "length (mouse_bytes s) = 3" and "mouse_cycle s = 0"
    and "44 < length (idt (itabs s))"
  shows "\<exists>s' cfg m1 m2. mouse_init lm s = Some s' \<and>
    device_outs (ports s') = device_outs (ports s) @
      [(PS2_CMD, 0xA8), (PS2_CMD, 0x20), (PS2_CMD, 0x60), (PS2_DATA, cfg), (PS2_CMD, 0xD4), (PS2_DATA, 0xF6),
       (PS2_CMD, 0xD4), (PS2_DATA, 0xF4), (PS2_CMD, 0xD4), (PS2_DATA, 0xEA), (PIC1_DATA, m1), (PIC2_DATA, m2)] \<and>
    bit cfg 1 \<and> \<not> bit cfg 5 \<and> \<not> bit m1 2 \<and> \<not> bit m2 4 \<and>
    gate_handler (idt (itabs s') ! 44) = irq12_entry lm \<and> driver_ok s' \<and> cursor_visible s' \<and>
    unat (cursor_x s') = unat (fb_width (fb s)) div 2 \<and> unat (cursor_y s') = unat (fb_height (fb s)) div 2 \<and>
    same_screen (fb s) (vram s) (background s') \<and> mouse_state.more s' = mouse_state.more s"
  using mouse_init_ok [OF assms, of lm] by blast

text \<open>C32: a movement packet moves the cursor by its signed displacements, clamped so that the whole cursor stays on the
  screen, and does not damage the picture: what is under the cursor, before and after, is the same
  screen.\<close>

theorem move_cursor_correct:
  assumes "driver_ok s"
  shows "\<exists>s'. move_cursor dx dy s = Some s' \<and> driver_ok s' \<and> same_screen (fb s) (background s) (background s') \<and>
    sint (cursor_x s') = max 0 (min (int (unat (fb_width (fb s))) - 12) (sint (cursor_x s) + sint dx)) \<and>
    sint (cursor_y s') = max 0 (min (int (unat (fb_height (fb s))) - 20) (sint (cursor_y s) - sint dy))"
  using move_cursor_ok [OF assms] by blast

section \<open>Witnesses\<close>

definition mouse_example :: mouse_state where
  "mouse_example = \<lparr>fb = fb_example, vram = (\<lambda>_. 0), ports = io_example, itabs = tables_example, cursor_x = 0, cursor_y = 0,
     cursor_old_x = 0, cursor_old_y = 0, cursor_visible = False, cursor_backup = [], mouse_cycle = 0, mouse_bytes = [0, 0, 0],
     packet_count = 0, first_packet = True, last_buttons = 0\<rparr>"

lemma screen_example_ok: "screen_ok fb_example"
  using fb_example_ok by (simp add: screen_ok_def fb_example_def)

lemma mouse_example_ok: "driver_ok mouse_example"
  using screen_example_ok io_example_live by (simp add: driver_ok_def mouse_example_def coord_ok_def fb_example_def)

theorem mouse_init_correct_witness:
  "\<exists>s'. mouse_init link_example mouse_example = Some s' \<and> unat (cursor_x s') = 512 \<and>
     gate_handler (idt (itabs s') ! 44) = irq12_entry link_example"
proof -
  have "tx_live (ports mouse_example)" "screen_ok (fb mouse_example)" "length (mouse_bytes mouse_example) = 3"
    "mouse_cycle mouse_example = 0" "44 < length (idt (itabs mouse_example))"
    using screen_example_ok io_example_live by (simp_all add: mouse_example_def tables_example_def)
  from mouse_init_correct [OF this, of link_example] show ?thesis
    by (auto simp: mouse_example_def fb_example_def)
qed

theorem move_cursor_correct_witness:
  "\<exists>s'. move_cursor 100 0xFF mouse_example = Some s' \<and> sint (cursor_x s') = 100 \<and> sint (cursor_y s') = 1"
  using move_cursor_correct [OF mouse_example_ok, of 100 "0xFF"] by (auto simp: mouse_example_def fb_example_def)

end
