(* ===== verification/Windows.thy ===== *)
theory Windows
  imports Mouse
begin

text \<open>
  Windows and buttons: \<open>wm/window.h\<close>, \<open>wm/window.c\<close>, \<open>wm/button.h\<close>, \<open>wm/button.c\<close>. A window is
  reached through a pointer to one of the program's static \<open>window_t\<close> objects, a button through its
  index in the calculator's array; both objects live in the state, so that a change made through one
  pointer is seen through every other.
\<close>

section \<open>State\<close>

text \<open>The static windows: \<open>g_win_a\<close>, \<open>g_win_b\<close>, \<open>g_win_c\<close> of \<open>main.c\<close>, \<open>g_calc_win\<close> of \<open>calc.c\<close>.\<close>

datatype window_id = Win_A | Win_B | Win_C | Calc_Win

text \<open>The functions whose addresses the program stores.\<close>

datatype redraw_fn = Calc_Redraw

datatype click_fn = Cb_d0 | Cb_d1 | Cb_d2 | Cb_d3 | Cb_d4 | Cb_d5 | Cb_d6 | Cb_d7 | Cb_d8 | Cb_d9
  | Cb_add | Cb_sub | Cb_mul | Cb_div | Cb_eq | Cb_clr

record window =
  win_x :: i32
  win_y :: i32
  win_w :: u32
  win_h :: u32
  win_title :: string
  title_bar_color :: u32
  body_color :: u32
  on_redraw :: "redraw_fn option"

record button =
  btn_x :: i32
  btn_y :: i32
  btn_w :: u32
  btn_h :: u32
  btn_label :: string
  color_idle :: u32
  color_pressed :: u32
  on_click :: "click_fn option"

text \<open>\<open>btns\<close> holds the buttons in use, the first \<open>g_btn_count\<close> elements of \<open>g_btns\<close>.\<close>

record button_state = mouse_state +
  windows :: "window_id \<Rightarrow> window"
  btns :: "button list"
  g_pressed_button :: "nat option"
  g_pressed_parent :: "window_id option"

abbreviation TITLE_BAR_H :: "32 word" where "TITLE_BAR_H \<equiv> 26"
abbreviation CLOSE_BTN_SIZE :: "32 word" where "CLOSE_BTN_SIZE \<equiv> 18"
abbreviation CLOSE_BTN_MARGIN :: "32 word" where "CLOSE_BTN_MARGIN \<equiv> 4"

definition quote :: string where "quote = [CHR 0x27]"

section \<open>Windows\<close>

definition window_draw :: "framebuffer \<Rightarrow> mem \<Rightarrow> window \<Rightarrow> mem option" where
  "window_draw f m w =
     (let border_color = make_color f 0x40 0x40 0x40; title_text_color = make_color f 0xFF 0xFF 0xFF
      in do {
        m \<leftarrow> draw_rect f m (win_x w) (win_y w) (win_w w) (win_h w) border_color;
        let m = fill_rect f m (win_x w + 1) (win_y w + 1) (win_w w - 2) TITLE_BAR_H (title_bar_color w);
        let m = draw_string f m (win_x w + 4) (win_y w + 1 + sdiv32 (TITLE_BAR_H - of_nat FONT_HEIGHT) 2)
                  (bytes_of (win_title w)) title_text_color;
        let close_x = win_x w + win_w w - CLOSE_BTN_SIZE - CLOSE_BTN_MARGIN;
        let close_y = win_y w + CLOSE_BTN_MARGIN;
        let close_color = make_color f 0xCC 0x44 0x44;
        let m = fill_rect f m close_x close_y CLOSE_BTN_SIZE CLOSE_BTN_SIZE close_color;
        let m = draw_string f m (close_x + sdiv32 (CLOSE_BTN_SIZE - 8) 2)
                  (close_y + sdiv32 (CLOSE_BTN_SIZE - of_nat FONT_HEIGHT) 2) (bytes_of ''X'') title_text_color;
        let body_y = win_y w + TITLE_BAR_H + 1;
        let body_h = win_h w - TITLE_BAR_H - 2;
        Some (fill_rect f m (win_x w + 1) body_y (win_w w - 2) body_h (body_color w)) })"

definition window_hit_test :: "window \<Rightarrow> i32 \<Rightarrow> i32 \<Rightarrow> bool" where
  "window_hit_test w x y \<longleftrightarrow> win_x w \<le>s x \<and> x <s win_x w + win_w w \<and> win_y w \<le>s y \<and> y <s win_y w + win_h w"

definition window_hit_test_title_bar :: "window \<Rightarrow> i32 \<Rightarrow> i32 \<Rightarrow> bool" where
  "window_hit_test_title_bar w x y \<longleftrightarrow>
     win_x w \<le>s x \<and> x <s win_x w + win_w w \<and> win_y w \<le>s y \<and> y <s win_y w + TITLE_BAR_H"

definition window_hit_test_close_button :: "window \<Rightarrow> i32 \<Rightarrow> i32 \<Rightarrow> bool" where
  "window_hit_test_close_button w x y \<longleftrightarrow>
     (let bx = win_x w + win_w w - CLOSE_BTN_SIZE - CLOSE_BTN_MARGIN; by = win_y w + CLOSE_BTN_MARGIN
      in bx \<le>s x \<and> x <s bx + CLOSE_BTN_SIZE \<and> by \<le>s y \<and> y <s by + CLOSE_BTN_SIZE)"

section \<open>Buttons\<close>

definition button_hit_test :: "button \<Rightarrow> window \<Rightarrow> i32 \<Rightarrow> i32 \<Rightarrow> bool" where
  "button_hit_test btn parent x y \<longleftrightarrow>
     (let abs_x = win_x parent + btn_x btn; abs_y = win_y parent + btn_y btn
      in abs_x \<le>s x \<and> x <s abs_x + btn_w btn \<and> abs_y \<le>s y \<and> y <s abs_y + btn_h btn)"

definition button_draw :: "framebuffer \<Rightarrow> mem \<Rightarrow> button \<Rightarrow> window \<Rightarrow> bool \<Rightarrow> mem option" where
  "button_draw f m btn parent pressed =
     (let abs_x = win_x parent + btn_x btn; abs_y = win_y parent + btn_y btn;
          color = (if pressed then color_pressed btn else color_idle btn);
          m = fill_rect f m abs_x abs_y (btn_w btn - 1) (btn_h btn - 1) color;
          border = make_color f 0x30 0x30 0x30
      in do {
        m \<leftarrow> draw_rect f m abs_x abs_y (btn_w btn - 1) (btn_h btn - 1) border;
        let text_color = make_color f 0xFF 0xFF 0xFF;
        Some (draw_string f m (abs_x + 6) (abs_y + 6) (bytes_of (btn_label btn)) text_color) })"

text \<open>Drawing through the pointers.\<close>

definition draw_window :: "window_id \<Rightarrow> 'a button_state_scheme \<Rightarrow> 'a button_state_scheme option" where
  "draw_window w s = do { m \<leftarrow> window_draw (fb s) (vram s) (windows s w); Some (s\<lparr>vram := m\<rparr>) }"

definition draw_button :: "nat \<Rightarrow> window_id \<Rightarrow> bool \<Rightarrow> 'a button_state_scheme \<Rightarrow> 'a button_state_scheme option" where
  "draw_button b parent pressed s = do {
     m \<leftarrow> button_draw (fb s) (vram s) (btns s ! b) (windows s parent) pressed; Some (s\<lparr>vram := m\<rparr>) }"

definition button_handle_down ::
    "nat \<Rightarrow> window_id \<Rightarrow> i32 \<Rightarrow> i32 \<Rightarrow> 'a button_state_scheme \<Rightarrow> (bool \<times> 'a button_state_scheme) option" where
  "button_handle_down btn parent x y s = do {
     let s = s\<lparr>g_pressed_button := Some btn, g_pressed_parent := Some parent\<rparr>;
     s \<leftarrow> draw_button btn parent True s;
     s \<leftarrow> say [Str (''Button: pressed '' @ quote), Str (btn_label (btns s ! btn)), Str (quote @ newline)] s;
     Some (True, s) }"

text \<open>\<open>click\<close> calls the function behind an \<open>on_click\<close> pointer. A pressed button without a parent would be
  a null dereference.\<close>

definition button_handle_up ::
    "(click_fn \<Rightarrow> 'a button_state_scheme \<Rightarrow> 'a button_state_scheme option) \<Rightarrow> i32 \<Rightarrow> i32 \<Rightarrow> 'a button_state_scheme \<Rightarrow>
     (bool \<times> 'a button_state_scheme) option" where
  "button_handle_up click x y s =
     (case g_pressed_button s of None \<Rightarrow> Some (False, s)
      | Some btn \<Rightarrow>
        (case g_pressed_parent s of None \<Rightarrow> None
         | Some parent \<Rightarrow> do {
             s \<leftarrow> (if button_hit_test (btns s ! btn) (windows s parent) x y
                   then do {
                     s \<leftarrow> say [Str (''Button: clicked! '' @ quote), Str (btn_label (btns s ! btn)), Str (quote @ newline)] s;
                     (case on_click (btns s ! btn) of None \<Rightarrow> Some s | Some f \<Rightarrow> click f s) }
                   else say [Str (''Button: cancelled '' @ quote), Str (btn_label (btns s ! btn)), Str (quote @ newline)] s);
             s \<leftarrow> draw_button btn parent False s;
             Some (True, s\<lparr>g_pressed_button := None, g_pressed_parent := None\<rparr>) }))"

section \<open>Calls that return\<close>

text \<open>\<open>returns r Q\<close>: the call returns, in a state that satisfies \<open>Q\<close>. The rules follow the program text.\<close>

definition returns :: "'s option \<Rightarrow> ('s \<Rightarrow> bool) \<Rightarrow> bool" where
  "returns r Q \<longleftrightarrow> (\<exists>s'. r = Some s' \<and> Q s')"

lemma returns_Some [simp]: "returns (Some s) Q \<longleftrightarrow> Q s"
  by (simp add: returns_def)

lemma returns_bind: "returns r P \<Longrightarrow> (\<And>s. P s \<Longrightarrow> returns (k s) Q) \<Longrightarrow> returns (r \<bind> k) Q"
  by (auto simp: returns_def)

lemma returns_mono: "returns r P \<Longrightarrow> (\<And>s. P s \<Longrightarrow> Q s) \<Longrightarrow> returns r Q"
  by (auto simp: returns_def)

lemma returns_if: "(c \<Longrightarrow> returns r Q) \<Longrightarrow> (\<not> c \<Longrightarrow> returns r' Q) \<Longrightarrow> returns (if c then r else r') Q"
  by simp

section \<open>Steps that only draw and print\<close>

text \<open>
  What drawing may change: the framebuffer, the serial line, the cursor's saved background. The
  pointer position, the packet assembly and the data of the upper layers stay as they are.
\<close>

definition draws :: "'a mouse_state_scheme \<Rightarrow> 'a mouse_state_scheme \<Rightarrow> bool" where
  "draws s s' \<longleftrightarrow> client_frame s s' \<and> (driver_ok s \<longrightarrow> driver_ok s') \<and> mouse_state.more s' = mouse_state.more s"

lemma draws_refl [simp]: "draws s s"
  by (simp add: draws_def client_frame_def)

lemma draws_trans [trans]: "draws s t \<Longrightarrow> draws t u \<Longrightarrow> draws s u"
  by (auto simp: draws_def intro: client_frame_trans)

lemma drawsD:
  assumes "draws s s'"
  shows "driver_ok s \<Longrightarrow> driver_ok s'" "client_frame s s'" "fb s' = fb s" "mouse_state.more s' = mouse_state.more s"
  using assms by (auto simp: draws_def client_frame_def)

lemma draws_vram: "confined (fb s) (vram s) m \<Longrightarrow> draws s (s\<lparr>vram := m\<rparr>)"
  by (simp add: draws_def client_frame_def driver_ok_def)

lemma driver_fb: "driver_ok s \<Longrightarrow> fb_ok (fb s)"
  by (simp add: driver_ok_def screen_ok_def)

lemma say_draws: "driver_ok s \<Longrightarrow> returns (say ps s) (draws s)"
  using say_driver_ok [of s ps] by (auto simp: returns_def draws_def client_frame_def)

lemma cursor_hide_draws: "driver_ok s \<Longrightarrow> draws s (mouse_cursor_hide s)"
  using cursor_restore_confined [of s] driver_fb [of s]
  by (simp add: mouse_cursor_hide_def draws_def client_frame_def driver_ok_def)

lemma cursor_show_draws:
  assumes "driver_ok s"
  shows "returns (mouse_cursor_show s) (draws s)"
proof -
  have "fb_ok (fb s)" "unat (cursor_x s) + 12 \<le> 2147483648" "unat (cursor_y s) + 20 \<le> 2147483648"
    using assms by (simp_all add: driver_ok_def screen_ok_def coord_ok_def)
  from cursor_draw_background [OF this] obtain s' where s': "cursor_draw s = Some s'" "confined (fb s) (vram s) (vram s')"
    "s' = s\<lparr>vram := vram s', cursor_backup := cursor_backup s', cursor_old_x := cursor_x s, cursor_old_y := cursor_y s, cursor_visible := True\<rparr>"
    by blast
  have "client_frame s s'" "mouse_state.more s' = mouse_state.more s" "driver_ok s'"
    using s'(2) assms by (subst s'(3), simp add: client_frame_def driver_ok_def)+
  then show ?thesis
    using s'(1) by (simp add: mouse_cursor_show_def draws_def)
qed

text \<open>The drawing routines return and change only the framebuffer.\<close>

lemma plot_confined: "fb_ok f \<Longrightarrow> confined f m (plot f c ps m)"
  using plot_paints paints_confined by blast

lemma draw_rect_confined: "fb_ok f \<Longrightarrow> returns (draw_rect f m x y w h c) (confined f m)"
  using draw_rect_returns [of f m x y w h c] plot_confined [of f m c] by (auto simp: returns_def)

lemma fill_rect_confined: "fb_ok f \<Longrightarrow> confined f m (fill_rect f m x y w h c)"
  using fill_rect_paints paints_confined by blast

lemma draw_string_confined: "fb_ok f \<Longrightarrow> confined f m (draw_string f m x y cs c)"
  using draw_string_plot [of f m x y cs c] plot_confined [of f m c] by auto

lemmas paint_trans = confined_trans [OF _ fill_rect_confined] confined_trans [OF _ draw_string_confined]

lemma window_draw_confined: "fb_ok f \<Longrightarrow> returns (window_draw f m w) (confined f m)"
  unfolding window_draw_def Let_def by (rule returns_bind [OF draw_rect_confined]) (simp_all add: paint_trans)

lemma button_draw_confined: "fb_ok f \<Longrightarrow> returns (button_draw f m btn parent pressed) (confined f m)"
  unfolding button_draw_def Let_def
  by (rule returns_bind [OF draw_rect_confined])
    (auto intro: paint_trans confined_trans [OF fill_rect_confined])

lemma draw_window_draws: "driver_ok s \<Longrightarrow> returns (draw_window w s) (draws s)"
  unfolding draw_window_def
  by (rule returns_bind [OF window_draw_confined [OF driver_fb]]) (simp_all add: draws_vram)

lemma draw_button_draws: "driver_ok s \<Longrightarrow> returns (draw_button b parent pressed s) (draws s)"
  unfolding draw_button_def
  by (rule returns_bind [OF button_draw_confined [OF driver_fb]]) (simp_all add: draws_vram)

text \<open>A sequence of drawing steps.\<close>

lemma draws_bind:
  assumes "returns r (draws s)" "\<And>t. draws s t \<Longrightarrow> returns (k t) (draws t)"
  shows "returns (r \<bind> k) (draws s)"
  by (rule returns_bind [OF assms(1)], rule returns_mono [OF assms(2)]) (auto intro: draws_trans)

primrec each :: "('b \<Rightarrow> 's \<Rightarrow> 's option) \<Rightarrow> 'b list \<Rightarrow> 's \<Rightarrow> 's option" where
  "each f [] s = Some s"
| "each f (x # xs) s = do { s \<leftarrow> f x s; each f xs s }"

lemma each_draws:
  assumes "\<And>x t. draws s t \<Longrightarrow> returns (f x t) (draws t)"
  shows "returns (each f xs s) (draws s)"
  using assms
proof (induction xs arbitrary: s)
  case (Cons x xs)
  show ?case
    unfolding each.simps
    by (rule draws_bind [OF Cons.prems [OF draws_refl]], rule Cons.IH) (blast intro: Cons.prems draws_trans)
qed simp

section \<open>Hit tests as rectangles\<close>

text \<open>For a window whose box does not wrap, the hit test is membership in the box.\<close>

lemma hit_interval:
  assumes "0 \<le> sint (x :: i32)" "sint x + int (unat w) < 2147483648"
  shows "x \<le>s p \<and> p <s x + w \<longleftrightarrow> sint x \<le> sint p \<and> sint p < sint x + int (unat w)"
proof -
  have w: "sint w = int (unat w)"
    using assms by (intro sint_small) linarith
  then have "sint (x + w) = sint x + int (unat w)"
    using assms by (subst sint_add) (simp_all del: of_nat_unat)
  then show ?thesis
    by (simp add: word_sle_eq word_sless_alt del: of_nat_unat)
qed

end
