(* ===== verification/WM.thy ===== *)
theory WM
  imports Windows "HOL-Library.Multiset"
begin

text \<open>
  The window manager, \<open>wm/wm.c\<close>: the stack of windows from bottom to top, clicks, and the rectangle of
  the screen that must be repainted after a window has moved.
\<close>

section \<open>State\<close>

record dirty_rect =
  dirty_x :: i32
  dirty_y :: i32
  dirty_w :: u32
  dirty_h :: u32
  dirty_valid :: bool

text \<open>\<open>g_windows\<close> holds the first \<open>g_window_count\<close> elements of the array, from bottom to top.\<close>

record wm_state = button_state +
  g_windows :: "window_id list"
  g_dirty :: dirty_rect

abbreviation MAX_WINDOWS :: nat where "MAX_WINDOWS \<equiv> 16"

text \<open>\<open>redraw\<close> calls the function behind an \<open>on_redraw\<close> pointer.\<close>

type_synonym 's redraw = "redraw_fn \<Rightarrow> window_id \<Rightarrow> 's \<Rightarrow> 's option"

section \<open>Operations\<close>

definition wm_add_window :: "window_id \<Rightarrow> 'a wm_state_scheme \<Rightarrow> 'a wm_state_scheme" where
  "wm_add_window win s = (if length (g_windows s) \<ge> MAX_WINDOWS then s else s\<lparr>g_windows := g_windows s @ [win]\<rparr>)"

definition paint_window :: "'a wm_state_scheme redraw \<Rightarrow> window_id \<Rightarrow> 'a wm_state_scheme \<Rightarrow> 'a wm_state_scheme option" where
  "paint_window redraw w s = do {
     s \<leftarrow> draw_window w s;
     (case on_redraw (windows s w) of None \<Rightarrow> Some s | Some f \<Rightarrow> redraw f w s) }"

definition wm_draw_all :: "'a wm_state_scheme redraw \<Rightarrow> 'a wm_state_scheme \<Rightarrow> 'a wm_state_scheme option" where
  "wm_draw_all redraw s =
     (let s = mouse_cursor_hide s;
          desktop = make_color (fb s) 0x20 0x20 0x30;
          s = s\<lparr>vram := fill_rect (fb s) (vram s) 0 0 (fb_width (fb s) - 1) (fb_height (fb s) - 1) desktop\<rparr>
      in do { s \<leftarrow> each (paint_window redraw) (g_windows s) s; mouse_cursor_show s })"

text \<open>The loops from the top: the index of the first window that is hit.\<close>

primrec hit_index :: "'a wm_state_scheme \<Rightarrow> i32 \<Rightarrow> i32 \<Rightarrow> nat \<Rightarrow> nat option" where
  "hit_index s x y 0 = None"
| "hit_index s x y (Suc i) =
     (if window_hit_test (windows s (g_windows s ! i)) x y then Some i else hit_index s x y i)"

text \<open>\<open>for (j = i; j < count - 1; j++) g_windows[j] = g_windows[j + 1]\<close>.\<close>

definition shift_down :: "nat \<Rightarrow> 'b list \<Rightarrow> 'b list" where
  "shift_down i ws = fold (\<lambda>j ws. ws[j := ws ! (j + 1)]) [i..<length ws - 1] ws"

definition to_top :: "nat \<Rightarrow> 'b list \<Rightarrow> 'b list" where
  "to_top i ws = (shift_down i ws)[length ws - 1 := ws ! i]"

definition order_text :: "'a wm_state_scheme \<Rightarrow> piece list" where
  "order_text s = concat (map (\<lambda>k. (if k > 0 then [Str '', ''] else []) @ [Str (win_title (windows s (g_windows s ! k)))])
     [0..<length (g_windows s)])"

definition wm_handle_click ::
    "'a wm_state_scheme redraw \<Rightarrow> i32 \<Rightarrow> i32 \<Rightarrow> u8 \<Rightarrow> 'a wm_state_scheme \<Rightarrow> 'a wm_state_scheme option" where
  "wm_handle_click redraw x y buttons s =
     (case hit_index s x y (length (g_windows s)) of
        Some i \<Rightarrow> do {
          s \<leftarrow> say [Str (''WM: click hit '' @ quote), Str (win_title (windows s (g_windows s ! i))), Str quote] s;
          if i = length (g_windows s) - 1 then say [Str ('' (already top)'' @ newline)] s
          else do {
            let s = s\<lparr>g_windows := to_top i (g_windows s)\<rparr>;
            s \<leftarrow> say ([Str '' -> Z(bottom->top): ''] @ order_text s @ [Str newline]) s;
            wm_draw_all redraw s } }
      | None \<Rightarrow> say [Str ''WM: click ('', Hex x, Str '', '', Hex y, Str ('') -> no window hit'' @ newline)] s)"

definition wm_find_window_at :: "i32 \<Rightarrow> i32 \<Rightarrow> 'a wm_state_scheme \<Rightarrow> window_id option" where
  "wm_find_window_at x y s = map_option (\<lambda>i. g_windows s ! i) (hit_index s x y (length (g_windows s)))"

fun index_of :: "'b \<Rightarrow> 'b list \<Rightarrow> nat option" where
  "index_of w [] = None"
| "index_of w (v # vs) = (if v = w then Some 0 else map_option Suc (index_of w vs))"

definition wm_bring_to_top :: "'a wm_state_scheme redraw \<Rightarrow> window_id \<Rightarrow> 'a wm_state_scheme \<Rightarrow> 'a wm_state_scheme option" where
  "wm_bring_to_top redraw win s =
     (case index_of win (g_windows s) of
        None \<Rightarrow> Some s
      | Some idx \<Rightarrow>
          if idx = length (g_windows s) - 1 then Some s
          else wm_draw_all redraw (s\<lparr>g_windows := (shift_down idx (g_windows s))[length (g_windows s) - 1 := win]\<rparr>))"

definition wm_remove_window :: "'a wm_state_scheme redraw \<Rightarrow> window_id \<Rightarrow> 'a wm_state_scheme \<Rightarrow> 'a wm_state_scheme option" where
  "wm_remove_window redraw win s =
     (case index_of win (g_windows s) of
        None \<Rightarrow> Some s
      | Some idx \<Rightarrow> do {
          s \<leftarrow> say [Str (''WM: removing '' @ quote), Str (win_title (windows s win)), Str (quote @ newline)] s;
          wm_draw_all redraw (s\<lparr>g_windows := butlast (shift_down idx (g_windows s))\<rparr>) })"

definition wm_is_window_active :: "window_id \<Rightarrow> 'a wm_state_scheme \<Rightarrow> bool" where
  "wm_is_window_active win s = list_ex (\<lambda>w. w = win) (g_windows s)"

section \<open>The dirty rectangle\<close>

text \<open>
  The clamping at the left and upper edge: the new coordinate and length, or \<^term>\<open>None\<close> for the early
  return.
\<close>

definition clamp_low :: "i32 \<Rightarrow> u32 \<Rightarrow> (i32 \<times> u32) option" where
  "clamp_low x w = (if x <s 0 then (let adj = - x in if adj \<ge> w then None else Some (0, w - adj)) else Some (x, w))"

definition clamp_high :: "i32 \<Rightarrow> u32 \<Rightarrow> u32 \<Rightarrow> u32" where
  "clamp_high x w limit = (if x + w > limit then limit - x else w)"

definition expand_dirty :: "i32 \<Rightarrow> i32 \<Rightarrow> u32 \<Rightarrow> u32 \<Rightarrow> dirty_rect \<Rightarrow> dirty_rect" where
  "expand_dirty x y w h d =
     (if \<not> dirty_valid d then d\<lparr>dirty_x := x, dirty_y := y, dirty_w := w, dirty_h := h, dirty_valid := True\<rparr>
      else let dr = dirty_x d + dirty_w d; db = dirty_y d + dirty_h d; nr = x + w; nb = y + h;
               d = (if x <s dirty_x d then d\<lparr>dirty_x := x\<rparr> else d);
               d = (if y <s dirty_y d then d\<lparr>dirty_y := y\<rparr> else d);
               dr = (if dr <s nr then nr else dr);
               db = (if db <s nb then nb else db)
           in d\<lparr>dirty_w := dr - dirty_x d, dirty_h := db - dirty_y d\<rparr>)"

definition wm_mark_dirty :: "i32 \<Rightarrow> i32 \<Rightarrow> u32 \<Rightarrow> u32 \<Rightarrow> 'a wm_state_scheme \<Rightarrow> 'a wm_state_scheme" where
  "wm_mark_dirty x y w h s =
     (if w = 0 \<or> h = 0 then s
      else case clamp_low x w of None \<Rightarrow> s
      | Some (x, w) \<Rightarrow>
        (case clamp_low y h of None \<Rightarrow> s
         | Some (y, h) \<Rightarrow>
           if x \<ge> fb_width (fb s) \<or> y \<ge> fb_height (fb s) then s
           else let w = clamp_high x w (fb_width (fb s)); h = clamp_high y h (fb_height (fb s))
                in if w = 0 \<or> h = 0 then s else s\<lparr>g_dirty := expand_dirty x y w h (g_dirty s)\<rparr>))"

definition wm_has_dirty :: "'a wm_state_scheme \<Rightarrow> bool" where
  "wm_has_dirty s = dirty_valid (g_dirty s)"

text \<open>The test of the flush loop: does the window's box meet the rectangle?\<close>

definition meets_dirty :: "window \<Rightarrow> dirty_rect \<Rightarrow> bool" where
  "meets_dirty w snap \<longleftrightarrow>
     (let wr = win_x w + win_w w; wb = win_y w + win_h w; dr = dirty_x snap + dirty_w snap; db = dirty_y snap + dirty_h snap
      in \<not> (dr \<le>s win_x w \<or> wr \<le>s dirty_x snap \<or> db \<le>s win_y w \<or> wb \<le>s dirty_y snap))"

definition wm_flush_dirty :: "'a wm_state_scheme redraw \<Rightarrow> 'a wm_state_scheme \<Rightarrow> 'a wm_state_scheme option" where
  "wm_flush_dirty redraw s =
     (if \<not> dirty_valid (g_dirty s) then Some s
      else
        let snap = g_dirty s; s = s\<lparr>g_dirty := (g_dirty s)\<lparr>dirty_valid := False\<rparr>\<rparr>;
            s = mouse_cursor_hide s;
            desktop = make_color (fb s) 0x20 0x20 0x30;
            s = s\<lparr>vram := fill_rect (fb s) (vram s) (dirty_x snap) (dirty_y snap) (dirty_w snap) (dirty_h snap) desktop\<rparr>
        in do {
          s \<leftarrow> each (\<lambda>w s. if meets_dirty (windows s w) snap then paint_window redraw w s else Some s) (g_windows s) s;
          mouse_cursor_show s })"

section \<open>The stack\<close>

lemma shift_down_step:
  assumes "i \<le> n" "n < length ws"
  shows "fold (\<lambda>j ws. ws[j := ws ! (j + 1)]) [i..<n] ws = take i ws @ map (\<lambda>k. ws ! Suc k) [i..<n] @ drop n ws"
  using assms
proof (induction n)
  case 0
  then show ?case by simp
next
  case (Suc n)
  show ?case
  proof (cases "i = Suc n")
    case False
    let ?xs = "take i ws @ map (\<lambda>k. ws ! Suc k) [i..<n]"
    have l: "length ?xs = n"
      using Suc.prems False by simp
    have d: "drop n ws = ws ! n # drop (Suc n) ws" and d1: "drop n ws ! 1 = ws ! Suc n"
      using Suc.prems(2) by (simp_all add: Cons_nth_drop_Suc)
    have "fold (\<lambda>j ws. ws[j := ws ! (j + 1)]) [i..<Suc n] ws = (?xs @ drop n ws)[n := (?xs @ drop n ws) ! (n + 1)]"
      using Suc.IH Suc.prems False by simp
    also have "\<dots> = ?xs @ (drop n ws)[0 := drop n ws ! 1]"
      using l by (simp only: nth_append list_update_append) simp
    also have "\<dots> = ?xs @ ws ! Suc n # drop (Suc n) ws"
      unfolding d1 unfolding d by simp
    finally show ?thesis
      using False Suc.prems(1) by simp
  qed simp
qed

lemma shift_down_eq:
  assumes "i < length ws"
  shows "shift_down i ws = take i ws @ drop (Suc i) ws @ [last ws]"
proof -
  have m: "map (\<lambda>k. ws ! Suc k) [i..<length ws - 1] = drop (Suc i) ws"
    by (rule nth_equalityI) (simp_all add: add.commute)
  have "drop (length ws - 1) ws = [last ws]"
    using assms by (cases ws rule: rev_cases) simp_all
  then show ?thesis
    unfolding shift_down_def using assms m by (subst shift_down_step) auto
qed

lemma to_top_eq:
  assumes "i < length ws"
  shows "to_top i ws = take i ws @ drop (Suc i) ws @ [ws ! i]"
proof -
  let ?A = "take i ws @ drop (Suc i) ws"
  have "length ?A = length ws - 1" "shift_down i ws = ?A @ [last ws]"
    using assms by (simp_all add: shift_down_eq)
  then have "to_top i ws = (?A @ [last ws])[length ?A := ws ! i]"
    by (simp add: to_top_def)
  then show ?thesis
    by (simp only: list_update_length) simp
qed

lemma removed_eq: "i < length ws \<Longrightarrow> butlast (shift_down i ws) = take i ws @ drop (Suc i) ws"
  by (simp add: shift_down_eq butlast_append)

lemma to_top_filter:
  assumes "i < length ws" "distinct ws"
  shows "to_top i ws = filter (\<lambda>w. w \<noteq> ws ! i) ws @ [ws ! i]" "take i ws @ drop (Suc i) ws = filter (\<lambda>w. w \<noteq> ws ! i) ws"
proof -
  have d: "distinct (take i ws @ ws ! i # drop (Suc i) ws)"
    using assms by (simp add: id_take_nth_drop [symmetric])
  have "filter (\<lambda>w. w \<noteq> ws ! i) (take i ws @ ws ! i # drop (Suc i) ws) = take i ws @ drop (Suc i) ws"
    using d by (simp, intro arg_cong2 [of _ _ _ _ "(@)"] filter_True) auto
  then show f: "take i ws @ drop (Suc i) ws = filter (\<lambda>w. w \<noteq> ws ! i) ws"
    using assms(1) by (simp add: id_take_nth_drop [symmetric])
  show "to_top i ws = filter (\<lambda>w. w \<noteq> ws ! i) ws @ [ws ! i]"
    unfolding to_top_eq [OF assms(1)] f [symmetric] by simp
qed

lemma to_top_last: "i = length ws - 1 \<Longrightarrow> ws \<noteq> [] \<Longrightarrow> to_top i ws = ws"
  by (cases ws rule: rev_cases) (simp_all add: to_top_eq)

lemma to_top_permutes: "i < length ws \<Longrightarrow> mset (to_top i ws) = mset ws"
  using id_take_nth_drop [of i ws] by (metis (no_types, lifting) to_top_eq mset_append mset.simps append_assoc add.commute union_mset_add_mset_left add_mset_add_single append_Cons)

lemma hit_index_Some:
  "hit_index s x y n = Some i \<longleftrightarrow> i < n \<and> window_hit_test (windows s (g_windows s ! i)) x y \<and>
    (\<forall>j. i < j \<longrightarrow> j < n \<longrightarrow> \<not> window_hit_test (windows s (g_windows s ! j)) x y)"
  by (induction n) (auto simp: less_Suc_eq)

lemma hit_index_None: "hit_index s x y n = None \<longleftrightarrow> (\<forall>j<n. \<not> window_hit_test (windows s (g_windows s ! j)) x y)"
  by (induction n) (auto simp: less_Suc_eq)

lemma index_of_Some: "index_of w ws = Some i \<longleftrightarrow> i < length ws \<and> ws ! i = w \<and> w \<notin> set (take i ws)"
proof (induction ws arbitrary: i)
  case (Cons v vs)
  then show ?case by (cases i) auto
qed simp

lemma index_of_None: "index_of w ws = None \<longleftrightarrow> w \<notin> set ws"
  by (induction ws) auto

section \<open>Redrawing\<close>

lemma more_fields:
  assumes "mouse_state.more t = mouse_state.more s"
  shows "windows t = windows s" "btns t = btns s" "g_pressed_button t = g_pressed_button s" "g_pressed_parent t = g_pressed_parent s"
    "g_windows t = g_windows s" "g_dirty t = g_dirty s" "wm_state.more t = wm_state.more s"
  using assms by (cases s; cases t; simp)+

lemma draws_fields:
  assumes "draws s t"
  shows "windows t = windows s" "btns t = btns s" "g_pressed_button t = g_pressed_button s" "g_pressed_parent t = g_pressed_parent s"
    "g_windows t = g_windows s" "g_dirty t = g_dirty s" "wm_state.more t = wm_state.more s" "fb t = fb s"
  using drawsD [OF assms] more_fields by blast+

lemma draws_g_windows: "draws s t \<Longrightarrow> draws (s\<lparr>g_windows := ws\<rparr>) (t\<lparr>g_windows := ws\<rparr>)"
  by (cases s; cases t) (simp add: draws_def client_frame_def driver_ok_def)

lemma driver_upper [simp]:
  "driver_ok (s\<lparr>g_windows := ws\<rparr>) \<longleftrightarrow> driver_ok s" "driver_ok (s\<lparr>g_dirty := d\<rparr>) \<longleftrightarrow> driver_ok s"
  by (simp_all add: driver_ok_def)

lemma same_upper: "ws = g_windows s \<Longrightarrow> s\<lparr>g_windows := ws\<rparr> = s" "d = g_dirty s \<Longrightarrow> s\<lparr>g_dirty := d\<rparr> = s"
  by simp_all

lemma hit_index_cong:
  "windows t = windows s \<Longrightarrow> g_windows t = g_windows s \<Longrightarrow> hit_index t x y n = hit_index s x y n"
  by (induction n) simp_all

text \<open>The stack after a click at a point: the window hit comes to the top.\<close>

definition click_order :: "'a wm_state_scheme \<Rightarrow> i32 \<Rightarrow> i32 \<Rightarrow> window_id list" where
  "click_order s x y =
     (case wm_find_window_at x y s of None \<Rightarrow> g_windows s | Some w \<Rightarrow> filter (\<lambda>v. v \<noteq> w) (g_windows s) @ [w])"

text \<open>
  What the window manager needs of the redraw functions: they only draw, and they return. The
  stack is then read once at the start of a redraw loop.
\<close>

locale window_client =
  fixes redraw :: "'a wm_state_scheme redraw"
  assumes redraw_draws: "\<And>f w s. driver_ok s \<Longrightarrow> returns (redraw f w s) (draws s)"
begin

lemma paint_window_draws:
  assumes "driver_ok s"
  shows "returns (paint_window redraw w s) (draws s)"
  unfolding paint_window_def
  by (rule draws_bind [OF draw_window_draws [OF assms]])
    (auto intro: redraw_draws drawsD(1) assms split: option.split)

lemma draw_all_draws:
  assumes "driver_ok s"
  shows "returns (wm_draw_all redraw s) (draws s)"
proof -
  let ?h = "mouse_cursor_hide s"
  let ?t = "?h\<lparr>vram := fill_rect (fb ?h) (vram ?h) 0 0 (fb_width (fb ?h) - 1) (fb_height (fb ?h) - 1) (make_color (fb ?h) 0x20 0x20 0x30)\<rparr>"
  have h: "draws s ?h"
    by (rule cursor_hide_draws [OF assms])
  have t: "draws s ?t"
    by (rule draws_trans [OF h draws_vram [OF fill_rect_confined [OF driver_fb [OF drawsD(1) [OF h assms]]]]])
  note d = drawsD(1) [OF t assms]
  have "returns (each (paint_window redraw) (g_windows s) ?t) (draws ?t)"
    by (rule each_draws, rule paint_window_draws, erule drawsD(1), rule d)
  then have "returns (each (paint_window redraw) (g_windows s) ?t \<bind> mouse_cursor_show) (draws ?t)"
    by (rule draws_bind, intro cursor_show_draws, elim drawsD(1), intro d)
  moreover have "wm_draw_all redraw s = each (paint_window redraw) (g_windows s) ?t \<bind> mouse_cursor_show"
    unfolding wm_draw_all_def Let_def by (simp add: draws_fields(5) [OF h])
  ultimately show ?thesis
    by (simp only:) (erule returns_mono, erule draws_trans [OF t])
qed

lemma flush_draws:
  assumes "driver_ok s"
  shows "returns (wm_flush_dirty redraw s) (draws (s\<lparr>g_dirty := (g_dirty s)\<lparr>dirty_valid := False\<rparr>\<rparr>))"
proof (cases "dirty_valid (g_dirty s)")
  case False
  then have "(g_dirty s)\<lparr>dirty_valid := False\<rparr> = g_dirty s"
    by (cases "g_dirty s") simp
  from same_upper(2) [OF this] show ?thesis
    using False by (simp only: wm_flush_dirty_def) simp
next
  case True
  let ?d = "g_dirty s" and ?s = "s\<lparr>g_dirty := (g_dirty s)\<lparr>dirty_valid := False\<rparr>\<rparr>"
  let ?h = "mouse_cursor_hide ?s"
  let ?t = "?h\<lparr>vram := fill_rect (fb ?h) (vram ?h) (dirty_x ?d) (dirty_y ?d) (dirty_w ?d) (dirty_h ?d) (make_color (fb ?h) 0x20 0x20 0x30)\<rparr>"
  have h: "draws ?s ?h"
    using assms by (intro cursor_hide_draws) simp
  have t: "draws ?s ?t" "driver_ok ?t"
  proof -
    have d: "driver_ok ?s"
      using assms by simp
    show "draws ?s ?t"
      by (rule draws_trans [OF h draws_vram [OF fill_rect_confined [OF driver_fb [OF drawsD(1) [OF h d]]]]])
    then show "driver_ok ?t"
      using d by (rule drawsD(1))
  qed
  have "returns (each (\<lambda>w s. if meets_dirty (windows s w) ?d then paint_window redraw w s else Some s) (g_windows s) ?t) (draws ?t)"
    using t(2) by (intro each_draws) (auto intro: paint_window_draws drawsD(1))
  then have "returns (each (\<lambda>w s. if meets_dirty (windows s w) ?d then paint_window redraw w s else Some s) (g_windows s) ?t \<bind> mouse_cursor_show) (draws ?t)"
    by (rule draws_bind, intro cursor_show_draws, elim drawsD(1), intro t(2))
  moreover have "wm_flush_dirty redraw s =
      each (\<lambda>w s. if meets_dirty (windows s w) ?d then paint_window redraw w s else Some s) (g_windows s) ?t \<bind> mouse_cursor_show"
    using True draws_fields(5) [OF h] unfolding wm_flush_dirty_def Let_def by simp
  ultimately show ?thesis
    by (simp only:) (erule returns_mono, erule draws_trans [OF t(1)])
qed

lemma handle_click_order:
  assumes "driver_ok s" "distinct (g_windows s)"
  shows "returns (wm_handle_click redraw x y b s) (draws (s\<lparr>g_windows := click_order s x y\<rparr>))"
proof (cases "hit_index s x y (length (g_windows s))")
  case None
  then show ?thesis
    using say_draws [OF assms(1)] by (simp add: wm_handle_click_def click_order_def wm_find_window_at_def)
next
  case (Some i)
  let ?ws = "g_windows s"
  have i: "i < length ?ws"
    using Some by (simp add: hit_index_Some)
  have o: "click_order s x y = to_top i ?ws"
    using Some to_top_filter(1) [OF i assms(2)] by (simp add: click_order_def wm_find_window_at_def)
  have top: "s\<lparr>g_windows := to_top i ?ws\<rparr> = s" if "i = length ?ws - 1"
    using that i by (intro same_upper(1) to_top_last) auto
  show ?thesis
    unfolding o wm_handle_click_def Some option.case
  proof (rule returns_bind [OF say_draws [OF assms(1)]])
    fix t
    assume t: "draws s t"
    note f = draws_fields [OF t] and d = drawsD(1) [OF t assms(1)]
    show "returns (if i = length (g_windows t) - 1 then say [Str ('' (already top)'' @ newline)] t
        else do { let s = t\<lparr>g_windows := to_top i (g_windows t)\<rparr>;
                  s \<leftarrow> say ([Str '' -> Z(bottom->top): ''] @ order_text s @ [Str newline]) s; wm_draw_all redraw s })
      (draws (s\<lparr>g_windows := to_top i ?ws\<rparr>))"
    proof (rule returns_if)
      assume "i = length (g_windows t) - 1"
      then have "s\<lparr>g_windows := to_top i ?ws\<rparr> = s"
        unfolding f(5) by (rule top)
      then show "returns (say [Str ('' (already top)'' @ newline)] t) (draws (s\<lparr>g_windows := to_top i ?ws\<rparr>))"
        using returns_mono [OF say_draws [OF d] draws_trans [OF t]] by (simp only:)
    next
      let ?u = "t\<lparr>g_windows := to_top i (g_windows t)\<rparr>"
      have u: "draws (s\<lparr>g_windows := to_top i ?ws\<rparr>) ?u" "driver_ok ?u"
        using draws_g_windows [OF t] f d by simp_all
      have "returns (say ([Str '' -> Z(bottom->top): ''] @ order_text ?u @ [Str newline]) ?u \<bind> wm_draw_all redraw) (draws ?u)"
        by (rule draws_bind [OF say_draws [OF u(2)]], rule draw_all_draws, erule drawsD(1), rule u(2))
      then show "returns (do { let s = ?u; s \<leftarrow> say ([Str '' -> Z(bottom->top): ''] @ order_text s @ [Str newline]) s; wm_draw_all redraw s })
          (draws (s\<lparr>g_windows := to_top i ?ws\<rparr>))"
        unfolding Let_def by (rule returns_mono) (rule draws_trans [OF u(1)])
    qed
  qed
qed

lemma bring_to_top_order:
  assumes "driver_ok s" "distinct (g_windows s)" "w \<in> set (g_windows s)"
  shows "returns (wm_bring_to_top redraw w s) (draws (s\<lparr>g_windows := filter (\<lambda>v. v \<noteq> w) (g_windows s) @ [w]\<rparr>))"
proof -
  obtain i where i: "index_of w (g_windows s) = Some i" "i < length (g_windows s)" "g_windows s ! i = w"
    using assms(3) index_of_None [of w "g_windows s"] by (auto simp: index_of_Some)
  have o: "(shift_down i (g_windows s))[length (g_windows s) - 1 := w] = filter (\<lambda>v. v \<noteq> w) (g_windows s) @ [w]"
    using to_top_filter(1) [OF i(2) assms(2)] i(3) by (simp add: to_top_def)
  have "s\<lparr>g_windows := filter (\<lambda>v. v \<noteq> w) (g_windows s) @ [w]\<rparr> = s" if "i = length (g_windows s) - 1"
  proof (rule same_upper(1))
    have "g_windows s \<noteq> []"
      using i(2) by auto
    from to_top_last [OF that this] show "filter (\<lambda>v. v \<noteq> w) (g_windows s) @ [w] = g_windows s"
      unfolding o [symmetric] to_top_def i(3) .
  qed
  then show ?thesis
    using i(1) o draw_all_draws [of "s\<lparr>g_windows := filter (\<lambda>v. v \<noteq> w) (g_windows s) @ [w]\<rparr>"] assms(1)
    by (simp add: wm_bring_to_top_def)
qed

lemma remove_window_order:
  assumes "driver_ok s" "distinct (g_windows s)"
  shows "returns (wm_remove_window redraw w s) (draws (s\<lparr>g_windows := filter (\<lambda>v. v \<noteq> w) (g_windows s)\<rparr>))"
proof (cases "index_of w (g_windows s)")
  case None
  then have "filter (\<lambda>v. v \<noteq> w) (g_windows s) = g_windows s"
    by (auto simp: index_of_None filter_id_conv)
  then show ?thesis
    using None by (simp add: wm_remove_window_def)
next
  case (Some i)
  then have i: "i < length (g_windows s)" "g_windows s ! i = w"
    by (simp_all add: index_of_Some)
  have o: "butlast (shift_down i (g_windows s)) = filter (\<lambda>v. v \<noteq> w) (g_windows s)"
    using removed_eq [OF i(1)] to_top_filter(2) [OF i(1) assms(2)] i(2) by simp
  show ?thesis
    unfolding wm_remove_window_def Some option.case
  proof (rule returns_bind [OF say_draws [OF assms(1)]])
    fix t
    assume t: "draws s t"
    let ?u = "t\<lparr>g_windows := filter (\<lambda>v. v \<noteq> w) (g_windows s)\<rparr>"
    have u: "draws (s\<lparr>g_windows := filter (\<lambda>v. v \<noteq> w) (g_windows s)\<rparr>) ?u" "driver_ok ?u"
      using draws_g_windows [OF t] drawsD(1) [OF t assms(1)] by simp_all
    then show "returns (wm_draw_all redraw (t\<lparr>g_windows := butlast (shift_down i (g_windows t))\<rparr>))
        (draws (s\<lparr>g_windows := filter (\<lambda>v. v \<noteq> w) (g_windows s)\<rparr>))"
      using draws_fields(5) [OF t] o by (auto intro: returns_mono [OF draw_all_draws [OF u(2)]] draws_trans [OF u(1)])
  qed
qed

end

section \<open>The dirty rectangle covers what was marked\<close>

text \<open>
  The abstract view: an area is nothing or a non-empty rectangle of integer coordinates (left, top,
  right, bottom). Marking joins the area with the part of the new rectangle that is on the screen.
\<close>

type_synonym area = "(int \<times> int \<times> int \<times> int) option"

definition clip :: "framebuffer \<Rightarrow> int \<times> int \<times> int \<times> int \<Rightarrow> area" where
  "clip f r = (case r of (l, t, r, b) \<Rightarrow>
     let l = max 0 l; t = max 0 t; r = min (int (unat (fb_width f))) r; b = min (int (unat (fb_height f))) b
     in if l < r \<and> t < b then Some (l, t, r, b) else None)"

fun hull :: "area \<Rightarrow> area \<Rightarrow> area" where
  "hull None a = a"
| "hull a None = a"
| "hull (Some (l, t, r, b)) (Some (l', t', r', b')) = Some (min l l', min t t', max r r', max b b')"

definition dirty_area :: "dirty_rect \<Rightarrow> area" where
  "dirty_area d =
     (if dirty_valid d then Some (sint (dirty_x d), sint (dirty_y d), sint (dirty_x d) + int (unat (dirty_w d)), sint (dirty_y d) + int (unat (dirty_h d)))
      else None)"

text \<open>A valid dirty rectangle is not empty and lies on the screen.\<close>

definition on_axis :: "i32 \<Rightarrow> u32 \<Rightarrow> u32 \<Rightarrow> bool" where
  "on_axis x w limit \<longleftrightarrow> 0 < unat w \<and> unat x + unat w \<le> unat limit"

definition dirty_ok :: "framebuffer \<Rightarrow> dirty_rect \<Rightarrow> bool" where
  "dirty_ok f d \<longleftrightarrow> (dirty_valid d \<longrightarrow> on_axis (dirty_x d) (dirty_w d) (fb_width f) \<and> on_axis (dirty_y d) (dirty_h d) (fb_height f))"

lemma on_axis_ints:
  assumes "on_axis x w limit" "unat limit < 1073741824"
  shows "sint x = int (unat x)" "sint (x + w) = sint x + int (unat w)" "0 \<le> sint x" "sint x + int (unat w) \<le> int (unat limit)"
proof -
  have b: "unat x + unat w < 1073741824"
    using assms by (simp add: on_axis_def)
  show x: "sint x = int (unat x)"
    using b by (intro sint_small) simp
  have "unat (x + w) = unat x + unat w"
    using b by (intro unat_add_no_wrap) simp
  then show "sint (x + w) = sint x + int (unat w)"
    using b x by (subst sint_small) (simp_all del: of_nat_unat)
  show "0 \<le> sint x" "sint x + int (unat w) \<le> int (unat limit)"
    using x assms(1) by (simp_all add: on_axis_def del: of_nat_unat)
qed

lemma clamp_low_ok:
  assumes "unat w \<le> 2147483648" "0 < unat w"
  shows "case clamp_low x w of None \<Rightarrow> sint x + int (unat w) \<le> 0
    | Some (x', w') \<Rightarrow> sint x' = max 0 (sint x) \<and> sint x' + int (unat w') = sint x + int (unat w) \<and> 0 < unat w' \<and>
        unat w' \<le> 2147483648"
proof (cases "sint x < 0")
  case True
  have u: "unat (- x) = nat (- sint x)"
  proof -
    have "unat (- x) = unat (word_of_int (- sint x) :: i32)"
      by simp
    also have "\<dots> = nat (- sint x)"
      using True sint_range [of x] by (intro unat_of_int) simp_all
    finally show ?thesis .
  qed
  show ?thesis
  proof (cases "w \<le> - x")
    case le: True
    have "unat w \<le> nat (- sint x)"
      using le unfolding word_le_nat_alt u .
    then have "sint x + int (unat w) \<le> 0"
      using True by (simp del: of_nat_unat)
    then show ?thesis
      using True le by (simp add: clamp_low_def Let_def word_sless_alt del: of_nat_unat)
  next
    case False
    then have lt: "nat (- sint x) < unat w"
      by (simp add: word_le_nat_alt u)
    have "unat (w - - x) = unat w - nat (- sint x)"
      using False u by (subst unat_sub_no_wrap) simp_all
    then have "sint x + int (unat w) = int (unat (w - - x))" "0 < unat (w - - x)" "unat (w - - x) \<le> 2147483648"
      using lt True assms(1) by (simp_all del: of_nat_unat diff_minus_eq_add)
    then show ?thesis
      using False True by (simp add: clamp_low_def Let_def word_sless_alt del: of_nat_unat)
  qed
next
  case False
  then show ?thesis
    using assms by (simp add: clamp_low_def word_sless_alt)
qed

lemma clamp_high_ok:
  assumes "x < limit" "unat limit < 1073741824" "0 < unat w" "unat w \<le> 2147483648"
  shows "on_axis x (clamp_high x w limit) limit" "int (unat x) + int (unat (clamp_high x w limit)) = min (int (unat limit)) (int (unat x) + int (unat w))"
proof -
  have lt: "unat x < unat limit"
    using assms(1) by (simp add: word_less_nat_alt)
  have s: "unat (x + w) = unat x + unat w" "unat (limit - x) = unat limit - unat x"
    using lt assms by (simp_all add: unat_add_no_wrap unat_sub_no_wrap word_le_nat_alt)
  have "unat (clamp_high x w limit) = (if unat limit < unat x + unat w then unat limit - unat x else unat w)"
    using s by (simp add: clamp_high_def word_less_nat_alt)
  then show "on_axis x (clamp_high x w limit) limit" "int (unat x) + int (unat (clamp_high x w limit)) = min (int (unat limit)) (int (unat x) + int (unat w))"
    using lt assms(3) by (auto simp: on_axis_def min_def simp del: of_nat_unat)
qed

lemma expand_axis:
  assumes "on_axis a b limit" "on_axis x w limit" "unat limit < 1073741824"
  defines "a' \<equiv> if x <s a then x else a" and "r \<equiv> if a + b <s x + w then x + w else a + b"
  shows "on_axis a' (r - a') limit" "sint a' = min (sint a) (sint x)"
    "sint a' + int (unat (r - a')) = max (sint a + int (unat b)) (sint x + int (unat w))"
proof -
  note A = on_axis_ints [OF assms(1,3)] and X = on_axis_ints [OF assms(2,3)]
  have bw: "0 < int (unat b)" "0 < int (unat w)"
    using assms(1,2) by (simp_all add: on_axis_def del: of_nat_unat)
  show a': "sint a' = min (sint a) (sint x)"
    by (simp add: a'_def word_sless_alt min_def)
  have r: "sint r = max (sint a + int (unat b)) (sint x + int (unat w))"
    using A(2) X(2) by (simp add: r_def word_sless_alt max_def del: of_nat_unat)
  have lim: "int (unat limit) < 1073741824"
    using assms(3) by (simp del: of_nat_unat)
  have d: "sint (r - a') = sint r - sint a'"
    unfolding a' r using A(3,4) X(3,4) lim bw by (intro sint_sub [of r a', unfolded a' r]) (auto simp: min_def max_def simp del: of_nat_unat)
  then have n: "int (unat (r - a')) = sint r - sint a'"
    using A(3,4) X(3,4) bw unfolding a' r by (subst unat_sint) (auto simp: min_def max_def simp del: of_nat_unat)
  show "sint a' + int (unat (r - a')) = max (sint a + int (unat b)) (sint x + int (unat w))"
    using n r by simp
  have "0 \<le> sint a'"
    using A(3) X(3) a' by simp
  then have "int (unat a') = sint a'"
    by (simp add: unat_sint del: of_nat_unat)
  then have "int (unat a') + int (unat (r - a')) \<le> int (unat limit)" "0 < int (unat (r - a'))"
    using n r a' A(3,4) X(3,4) bw by (auto simp: min_def max_def simp del: of_nat_unat)
  then show "on_axis a' (r - a') limit"
    unfolding on_axis_def by (simp del: of_nat_unat)
qed

lemma expand_dirty_ok:
  assumes "dirty_ok f d" "on_axis x w (fb_width f)" "on_axis y h (fb_height f)" "screen_ok f"
  shows "dirty_ok f (expand_dirty x y w h d)"
    "dirty_area (expand_dirty x y w h d) = hull (dirty_area d) (Some (sint x, sint y, sint x + int (unat w), sint y + int (unat h)))"
proof -
  have lim: "unat (fb_width f) < 1073741824" "unat (fb_height f) < 1073741824"
    using assms(4) by (simp_all add: screen_ok_def)
  consider "\<not> dirty_valid d" | "dirty_valid d" "on_axis (dirty_x d) (dirty_w d) (fb_width f)" "on_axis (dirty_y d) (dirty_h d) (fb_height f)"
    using assms(1) by (auto simp: dirty_ok_def)
  then have "dirty_ok f (expand_dirty x y w h d) \<and>
    dirty_area (expand_dirty x y w h d) = hull (dirty_area d) (Some (sint x, sint y, sint x + int (unat w), sint y + int (unat h)))"
  proof cases
    case 1
    then show ?thesis
      using assms(2,3) by (simp add: expand_dirty_def dirty_ok_def dirty_area_def)
  next
    case 2
    define a c where "a = (if x <s dirty_x d then x else dirty_x d)" and "c = (if y <s dirty_y d then y else dirty_y d)"
    define r q where "r = (if dirty_x d + dirty_w d <s x + w then x + w else dirty_x d + dirty_w d)"
      and "q = (if dirty_y d + dirty_h d <s y + h then y + h else dirty_y d + dirty_h d)"
    note X = expand_axis [OF 2(2) assms(2) lim(1), folded a_def r_def] and Y = expand_axis [OF 2(3) assms(3) lim(2), folded c_def q_def]
    have e: "expand_dirty x y w h d = d\<lparr>dirty_x := a, dirty_y := c, dirty_w := r - a, dirty_h := q - c\<rparr>"
      using 2(1) by (simp add: expand_dirty_def Let_def a_def c_def r_def q_def)
    show ?thesis
      unfolding e using 2(1) X Y by (simp add: dirty_ok_def dirty_area_def del: of_nat_unat)
  qed
  then show "dirty_ok f (expand_dirty x y w h d)"
    "dirty_area (expand_dirty x y w h d) = hull (dirty_area d) (Some (sint x, sint y, sint x + int (unat w), sint y + int (unat h)))"
    by blast+
qed

lemma hull_None [simp]: "hull a None = a"
  by (cases a) auto

lemma mark_dirty_frame: "wm_mark_dirty x y w h s = s\<lparr>g_dirty := g_dirty (wm_mark_dirty x y w h s)\<rparr>"
  unfolding wm_mark_dirty_def by (simp add: Let_def split: option.split prod.split)

lemma mark_dirty_ok:
  assumes "screen_ok (fb s)" "dirty_ok (fb s) (g_dirty s)" "unat w \<le> 2147483648" "unat h \<le> 2147483648"
  shows "dirty_ok (fb s) (g_dirty (wm_mark_dirty x y w h s)) \<and>
    dirty_area (g_dirty (wm_mark_dirty x y w h s)) =
      hull (dirty_area (g_dirty s)) (clip (fb s) (sint x, sint y, sint x + int (unat w), sint y + int (unat h)))"
    (is "?G (wm_mark_dirty x y w h s)")
proof -
  let ?W = "fb_width (fb s)" and ?H = "fb_height (fb s)"
  let ?clip = "clip (fb s) (sint x, sint y, sint x + int (unat w), sint y + int (unat h))"
  have lim: "unat ?W < 1073741824" "unat ?H < 1073741824"
    using assms(1) by (simp_all add: screen_ok_def)
  have same: "?G s" if "?clip = None"
    using assms(2) that by simp
  show ?thesis
  proof (cases "w = 0 \<or> h = 0")
    case True
    then have "?clip = None"
      by (auto simp: clip_def)
    then show ?thesis
      using True same by (simp add: wm_mark_dirty_def)
  next
    case False
    then have pos: "0 < unat w" "0 < unat h"
      by (auto simp: unat_gt_0)
    note X = clamp_low_ok [OF assms(3) pos(1), of x] and Y = clamp_low_ok [OF assms(4) pos(2), of y]
    show ?thesis
    proof (cases "clamp_low x w")
      case None
      then have "?clip = None"
        using X by (simp add: clip_def min_def max_def)
      then show ?thesis
        using False None same by (simp add: wm_mark_dirty_def)
    next
      case xs: (Some xw)
      obtain x' w' where xw: "clamp_low x w = Some (x', w')"
        using xs by (cases xw) simp
      then have x': "sint x' = max 0 (sint x)" "sint x' + int (unat w') = sint x + int (unat w)" "0 < unat w'" "unat w' \<le> 2147483648"
        using X by simp_all
      show ?thesis
      proof (cases "clamp_low y h")
        case None
        then have "?clip = None"
          using Y by (simp add: clip_def min_def max_def)
        then show ?thesis
          using False None xw same by (simp add: wm_mark_dirty_def)
      next
        case ys: (Some yh)
        obtain y' h' where yh: "clamp_low y h = Some (y', h')"
          using ys by (cases yh) simp
        then have y': "sint y' = max 0 (sint y)" "sint y' + int (unat h') = sint y + int (unat h)" "0 < unat h'" "unat h' \<le> 2147483648"
          using Y by simp_all
        have xy: "sint x' = int (unat x')" "sint y' = int (unat y')"
          using x'(1) y'(1) by (simp_all add: unat_sint del: of_nat_unat)
        show ?thesis
        proof (cases "x' \<ge> ?W \<or> y' \<ge> ?H")
          case True
          then have "int (unat ?W) \<le> sint x' \<or> int (unat ?H) \<le> sint y'"
            unfolding xy by (simp add: word_le_nat_alt del: of_nat_unat)
          then have "?clip = None"
            using x'(1) y'(1) by (auto simp: clip_def Let_def simp del: of_nat_unat)
          then show ?thesis
            using False True xw yh same by (auto simp: wm_mark_dirty_def)
        next
          case on: False
          then have lt: "x' < ?W" "y' < ?H"
            by auto
          let ?w = "clamp_high x' w' ?W" and ?h = "clamp_high y' h' ?H"
          note CX = clamp_high_ok [OF lt(1) lim(1) x'(3,4)] and CY = clamp_high_ok [OF lt(2) lim(2) y'(3,4)]
          have nz: "?w \<noteq> 0" "?h \<noteq> 0"
            using CX(1) CY(1) by (auto simp: on_axis_def)
          have m: "wm_mark_dirty x y w h s = s\<lparr>g_dirty := expand_dirty x' y' ?w ?h (g_dirty s)\<rparr>"
            using False xw yh on nz by (simp add: wm_mark_dirty_def Let_def)
          have ends: "sint x' + int (unat ?w) = min (int (unat ?W)) (sint x + int (unat w))"
            "sint y' + int (unat ?h) = min (int (unat ?H)) (sint y + int (unat h))"
            using CX(2) CY(2) x'(2) y'(2) unfolding xy by simp_all
          have "sint x' < sint x' + int (unat ?w)" "sint y' < sint y' + int (unat ?h)"
            using CX(1) CY(1) by (simp_all add: on_axis_def del: of_nat_unat)
          then have "?clip = Some (sint x', sint y', sint x' + int (unat ?w), sint y' + int (unat ?h))"
            unfolding clip_def Let_def prod.case x'(1) [symmetric] y'(1) [symmetric] ends by simp
          then show ?thesis
            using expand_dirty_ok [OF assms(2) CX(1) CY(1) assms(1)] unfolding m by simp
        qed
      qed
    qed
  qed
qed

text \<open>C33: marking a rectangle dirty changes only the dirty rectangle, which becomes the smallest one that covers what was
  marked before and the part of the new rectangle that is on the screen, and stays on the screen;
  a rectangle off the screen changes nothing.\<close>

theorem wm_mark_dirty_covers:
  assumes "screen_ok (fb s)" and "dirty_ok (fb s) (g_dirty s)" and "unat w \<le> 2147483648" and "unat h \<le> 2147483648"
  shows "dirty_ok (fb s) (g_dirty (wm_mark_dirty x y w h s)) \<and>
    dirty_area (g_dirty (wm_mark_dirty x y w h s)) =
      hull (dirty_area (g_dirty s)) (clip (fb s) (sint x, sint y, sint x + int (unat w), sint y + int (unat h))) \<and>
    wm_mark_dirty x y w h s = s\<lparr>g_dirty := g_dirty (wm_mark_dirty x y w h s)\<rparr>"
  using mark_dirty_ok [OF assms] mark_dirty_frame by blast

section \<open>Witnesses\<close>

definition window_example :: window where
  "window_example = \<lparr>win_x = 50, win_y = 60, win_w = 220, win_h = 160, win_title = ''Demo'', title_bar_color = 1, body_color = 2,
     on_redraw = None\<rparr>"

definition wm_example :: wm_state where
  "wm_example = \<lparr>fb = fb_example, vram = (\<lambda>_. 0), ports = io_example, itabs = tables_example, cursor_x = 0, cursor_y = 0,
     cursor_old_x = 0, cursor_old_y = 0, cursor_visible = False, cursor_backup = [], mouse_cycle = 0, mouse_bytes = [0, 0, 0],
     packet_count = 0, first_packet = True, last_buttons = 0, windows = (\<lambda>_. window_example), btns = [], g_pressed_button = None,
     g_pressed_parent = None, g_windows = [], g_dirty = \<lparr>dirty_x = 0, dirty_y = 0, dirty_w = 0, dirty_h = 0, dirty_valid = False\<rparr>\<rparr>"

theorem wm_mark_dirty_covers_witness:
  "dirty_area (g_dirty (wm_mark_dirty (- 5) 20 30 1000 wm_example)) = Some (0, 20, 25, 768)"
proof -
  have "screen_ok (fb wm_example)" "dirty_ok (fb wm_example) (g_dirty wm_example)"
    using screen_example_ok by (simp_all add: wm_example_def dirty_ok_def)
  from wm_mark_dirty_covers [OF this, of 30 "1000" "- 5" 20] show ?thesis
    by (simp add: wm_example_def fb_example_def dirty_area_def clip_def)
qed

end
