(* ===== verification/Calc.thy ===== *)
theory Calc
  imports WM
begin

text \<open>
  The calculator, \<open>app/calc.c\<close>: a four-function machine behind a window with sixteen buttons. Its
  window is \<^term>\<open>Calc_Win\<close>, its buttons are the array \<^term>\<open>btns\<close>.
\<close>

section \<open>State\<close>

record calc_state = wm_state +
  g_accumulator :: i32
  g_current :: i32
  g_pending_op :: u8
  g_entering :: bool

abbreviation MAX_BTNS :: nat where "MAX_BTNS \<equiv> 20"
abbreviation DISP_X :: i32 where "DISP_X \<equiv> 10"
abbreviation DISP_Y :: i32 where "DISP_Y \<equiv> 25"
abbreviation DISP_W :: i32 where "DISP_W \<equiv> 220"
abbreviation DISP_H :: i32 where "DISP_H \<equiv> 40"
abbreviation DISP_RPAD :: i32 where "DISP_RPAD \<equiv> 8"

section \<open>Operations\<close>

text \<open>\<open>while (n > 0)\<close>: the contents of \<open>tmp\<close>, least significant digit first.\<close>

function itoa_digits :: "i32 \<Rightarrow> u8 list" where
  "itoa_digits n = (if 0 <s n then (0x30 + ucast (smod32 n 10)) # itoa_digits (sdiv32 n 10) else [])"
  by pat_completeness auto
termination
proof (relation "measure (\<lambda>n. nat (sint n))")
  fix n :: i32
  assume "0 <s n"
  then have n: "0 < sint n"
    by (simp add: word_sless_alt)
  have "sint n sdiv 10 = sint n div 10"
    using n by (simp add: signed_divide_int_def)
  moreover have "sint n div 10 < sint n"
    using n by simp
  ultimately have "sint (sdiv32 n 10) < sint n"
    using n sint_range [of n] unfolding sdiv32_def by (subst sint_of_int) (auto simp: pos_imp_zdiv_nonneg_iff)
  then show "(sdiv32 n 10, n) \<in> measure (\<lambda>n. nat (sint n))"
    using n by simp
qed simp

declare itoa_digits.simps [simp del]

definition itoa :: "i32 \<Rightarrow> u8 list" where
  "itoa n =
     (if n = 0 then [0x30]
      else let (sign, n) = (if n <s 0 then ([0x2D], - n) else ([], n)) in sign @ rev (itoa_digits n))"

definition calc_refresh_display :: "'a calc_state_scheme \<Rightarrow> 'a calc_state_scheme option" where
  "calc_refresh_display s =
     (let abs_x = win_x (windows s Calc_Win) + DISP_X;
          abs_y = win_y (windows s Calc_Win) + DISP_Y;
          buf = itoa (if g_entering s then g_current s else g_accumulator s);
          m = fill_rect (fb s) (vram s) abs_x abs_y DISP_W DISP_H (body_color (windows s Calc_Win));
          text_x = abs_x + DISP_W - DISP_RPAD - of_nat (length buf) * 8;
          text_x = (if text_x <s abs_x + 4 then abs_x + 4 else text_x);
          text_color = make_color (fb s) 0x10 0x10 0x10;
          s = s\<lparr>vram := draw_string (fb s) m text_x (abs_y + 12) buf text_color\<rparr>
      in say [Str ''Calc: display \"'', Raw buf, Str (''\"'' @ newline)] s)"

text \<open>The signed division of the CPU: it raises \<open>#DE\<close> on overflow as on division by zero.\<close>

definition idiv32 :: "i32 \<Rightarrow> i32 \<Rightarrow> i32 option" where
  "idiv32 a b = (if b = 0 \<or> a = 0x80000000 \<and> b = - 1 then None else Some (sdiv32 a b))"

definition calc_execute_pending :: "'a calc_state_scheme \<Rightarrow> 'a calc_state_scheme option" where
  "calc_execute_pending s =
     (if g_pending_op s = 1 then Some (s\<lparr>g_accumulator := g_accumulator s + g_current s\<rparr>)
      else if g_pending_op s = 2 then Some (s\<lparr>g_accumulator := g_accumulator s - g_current s\<rparr>)
      else if g_pending_op s = 3 then Some (s\<lparr>g_accumulator := g_accumulator s * g_current s\<rparr>)
      else if g_pending_op s = 4
      then (if g_current s \<noteq> 0
            then do { q \<leftarrow> idiv32 (g_accumulator s) (g_current s); Some (s\<lparr>g_accumulator := q\<rparr>) }
            else Some s)
      else Some s)"

definition calc_input_digit :: "i32 \<Rightarrow> 'a calc_state_scheme \<Rightarrow> 'a calc_state_scheme option" where
  "calc_input_digit d s = calc_refresh_display
     (if g_entering s then s\<lparr>g_current := g_current s * 10 + d\<rparr> else s\<lparr>g_current := d, g_entering := True\<rparr>)"

definition calc_input_op :: "u8 \<Rightarrow> 'a calc_state_scheme \<Rightarrow> 'a calc_state_scheme option" where
  "calc_input_op op s = do {
     s \<leftarrow> (if g_pending_op s \<noteq> 0 then calc_execute_pending s else Some (s\<lparr>g_accumulator := g_current s\<rparr>));
     calc_refresh_display (s\<lparr>g_pending_op := op, g_current := 0, g_entering := False\<rparr>) }"

definition calc_do_equals :: "'a calc_state_scheme \<Rightarrow> 'a calc_state_scheme option" where
  "calc_do_equals s = do {
     s \<leftarrow> (if g_pending_op s \<noteq> 0
           then do { s \<leftarrow> calc_execute_pending s; Some (s\<lparr>g_current := g_accumulator s\<rparr>) } else Some s);
     calc_refresh_display (s\<lparr>g_accumulator := g_current s, g_pending_op := 0, g_entering := False\<rparr>) }"

definition calc_do_clear :: "'a calc_state_scheme \<Rightarrow> 'a calc_state_scheme option" where
  "calc_do_clear s = calc_refresh_display
     (s\<lparr>g_current := 0, g_accumulator := 0, g_pending_op := 0, g_entering := False\<rparr>)"

text \<open>The callbacks \<open>cb_d0\<close> to \<open>cb_clr\<close>.\<close>

fun calc_callback :: "click_fn \<Rightarrow> 'a calc_state_scheme \<Rightarrow> 'a calc_state_scheme option" where
  "calc_callback Cb_d0 s = calc_input_digit 0 s"
| "calc_callback Cb_d1 s = calc_input_digit 1 s"
| "calc_callback Cb_d2 s = calc_input_digit 2 s"
| "calc_callback Cb_d3 s = calc_input_digit 3 s"
| "calc_callback Cb_d4 s = calc_input_digit 4 s"
| "calc_callback Cb_d5 s = calc_input_digit 5 s"
| "calc_callback Cb_d6 s = calc_input_digit 6 s"
| "calc_callback Cb_d7 s = calc_input_digit 7 s"
| "calc_callback Cb_d8 s = calc_input_digit 8 s"
| "calc_callback Cb_d9 s = calc_input_digit 9 s"
| "calc_callback Cb_add s = calc_input_op 1 s"
| "calc_callback Cb_sub s = calc_input_op 2 s"
| "calc_callback Cb_mul s = calc_input_op 3 s"
| "calc_callback Cb_div s = calc_input_op 4 s"
| "calc_callback Cb_eq s = calc_do_equals s"
| "calc_callback Cb_clr s = calc_do_clear s"

definition add_btn :: "i32 \<Rightarrow> i32 \<Rightarrow> string \<Rightarrow> u32 \<Rightarrow> u32 \<Rightarrow> click_fn \<Rightarrow> 'a calc_state_scheme \<Rightarrow> 'a calc_state_scheme" where
  "add_btn rx ry label idle pressed cb s =
     (if length (btns s) \<ge> MAX_BTNS then s
      else s\<lparr>btns := btns s @ [\<lparr>btn_x = rx, btn_y = ry, btn_w = 52, btn_h = 35, btn_label = label,
             color_idle = idle, color_pressed = pressed, on_click = Some cb\<rparr>]\<rparr>)"

definition draw_buttons :: "'a calc_state_scheme \<Rightarrow> 'a calc_state_scheme option" where
  "draw_buttons s = each (\<lambda>i. draw_button i Calc_Win False) [0..<length (btns s)] s"

text \<open>The window and the buttons of \<open>calc_init\<close>, before anything is drawn.\<close>

definition calc_setup :: "'a calc_state_scheme \<Rightarrow> 'a calc_state_scheme" where
  "calc_setup s =
     (let c_digit = make_color (fb s) 0x90 0x95 0xA0;
          c_digit_pr = make_color (fb s) 0x60 0x65 0x70;
          c_op = make_color (fb s) 0xD0 0xA0 0x60;
          c_op_pr = make_color (fb s) 0xC0 0x70 0x20;
          c_eq = make_color (fb s) 0x60 0xB0 0x60;
          c_eq_pr = make_color (fb s) 0x30 0x90 0x30;
          s = s\<lparr>windows := (windows s)(Calc_Win := \<lparr>win_x = 500, win_y = 40, win_w = 240, win_h = 280, win_title = ''Calculator'',
                title_bar_color = make_color (fb s) 0x30 0x40 0x60, body_color = make_color (fb s) 0xE0 0xE0 0xE0,
                on_redraw = Some Calc_Redraw\<rparr>)\<rparr>;
          s = wm_add_window Calc_Win s;
          x0 = 10; x1 = 66; x2 = 122; x3 = 178;
          y0 = 69; y1 = 108; y2 = 147; y3 = 186;
          s = add_btn x0 y0 ''7'' c_digit c_digit_pr Cb_d7 s;
          s = add_btn x1 y0 ''8'' c_digit c_digit_pr Cb_d8 s;
          s = add_btn x2 y0 ''9'' c_digit c_digit_pr Cb_d9 s;
          s = add_btn x3 y0 ''/'' c_op c_op_pr Cb_div s;
          s = add_btn x0 y1 ''4'' c_digit c_digit_pr Cb_d4 s;
          s = add_btn x1 y1 ''5'' c_digit c_digit_pr Cb_d5 s;
          s = add_btn x2 y1 ''6'' c_digit c_digit_pr Cb_d6 s;
          s = add_btn x3 y1 ''*'' c_op c_op_pr Cb_mul s;
          s = add_btn x0 y2 ''1'' c_digit c_digit_pr Cb_d1 s;
          s = add_btn x1 y2 ''2'' c_digit c_digit_pr Cb_d2 s;
          s = add_btn x2 y2 ''3'' c_digit c_digit_pr Cb_d3 s;
          s = add_btn x3 y2 ''-'' c_op c_op_pr Cb_sub s;
          s = add_btn x0 y3 ''C'' c_eq c_eq_pr Cb_clr s;
          s = add_btn x1 y3 ''0'' c_digit c_digit_pr Cb_d0 s;
          s = add_btn x2 y3 ''='' c_eq c_eq_pr Cb_eq s
      in add_btn x3 y3 ''+'' c_op c_op_pr Cb_add s)"

definition calc_init :: "'a calc_state_scheme \<Rightarrow> 'a calc_state_scheme option" where
  "calc_init s = do {
     let s = calc_setup s;
     s \<leftarrow> draw_window Calc_Win s;
     s \<leftarrow> draw_buttons s;
     s \<leftarrow> calc_refresh_display s;
     say [Str ''Calc: init done, '', Hex (of_nat (length (btns s))), Str ('' buttons'' @ newline)] s }"

text \<open>The argument of \<open>calc_redraw\<close> is not used.\<close>

definition calc_redraw :: "window_id \<Rightarrow> 'a calc_state_scheme \<Rightarrow> 'a calc_state_scheme option" where
  "calc_redraw win s = do {
     s \<leftarrow> draw_window Calc_Win s;
     s \<leftarrow> draw_buttons s;
     calc_refresh_display s }"

fun call_redraw :: "redraw_fn \<Rightarrow> window_id \<Rightarrow> 'a calc_state_scheme \<Rightarrow> 'a calc_state_scheme option" where
  "call_redraw Calc_Redraw w s = calc_redraw w s"

definition calc_handle_click ::
    "i32 \<Rightarrow> i32 \<Rightarrow> u8 \<Rightarrow> 'a calc_state_scheme \<Rightarrow> (bool \<times> 'a calc_state_scheme) option" where
  "calc_handle_click x y buttons s =
     (if \<not> wm_is_window_active Calc_Win s then Some (False, s)
      else if buttons AND 1 \<noteq> 0
      then (case find (\<lambda>i. button_hit_test (btns s ! i) (windows s Calc_Win) x y) [0..<length (btns s)] of
              Some i \<Rightarrow> do { (_, s) \<leftarrow> button_handle_down i Calc_Win x y s; Some (True, s) }
            | None \<Rightarrow> Some (False, s))
      else do { (r, s) \<leftarrow> button_handle_up calc_callback x y s; if r then Some (True, s) else Some (False, s) })"

section \<open>Numbers are displayed in decimal\<close>

definition digits_value :: "u8 list \<Rightarrow> int" where
  "digits_value cs = foldl (\<lambda>a c. a * 10 + (int (unat c) - 48)) 0 cs"

fun decimal_value :: "u8 list \<Rightarrow> int" where
  "decimal_value [] = 0"
| "decimal_value (c # cs) = (if c = 0x2D then - digits_value cs else digits_value (c # cs))"

definition is_digit :: "u8 \<Rightarrow> bool" where
  "is_digit c \<longleftrightarrow> 48 \<le> unat c \<and> unat c \<le> 57"

lemma digit_of:
  assumes "0 < sint n"
  shows "int (unat (0x30 + ucast (smod32 n 10) :: u8)) = 48 + sint n mod 10" "sint (sdiv32 n 10) = sint n div 10"
proof -
  have m: "sint n smod 10 = sint n mod 10" and d: "sint n sdiv 10 = sint n div 10"
    using assms by (simp_all add: signed_modulo_int_def signed_divide_int_def minus_mult_div_eq_mod [symmetric])
  have r: "0 \<le> sint n mod 10" "sint n mod 10 < 10"
    by simp_all
  have "unat (smod32 n 10) = nat (sint n mod 10)"
    using r unfolding smod32_def by (simp add: m unat_of_int)
  then have "unat (ucast (smod32 n 10) :: u8) = nat (sint n mod 10)"
    using r by (simp add: unsigned_ucast_eq take_bit_nat_eq_self)
  moreover have "nat (sint n mod 10) < 10"
    using r by linarith
  ultimately have "unat (0x30 + ucast (smod32 n 10) :: u8) = 48 + nat (sint n mod 10)"
    by (simp add: unat_word_ariths)
  then show "int (unat (0x30 + ucast (smod32 n 10) :: u8)) = 48 + sint n mod 10"
    using r by (simp del: of_nat_unat)
  show "sint (sdiv32 n 10) = sint n div 10"
    unfolding sdiv32_def using assms sint_range [of n] d by (subst sint_of_int) (auto simp: pos_imp_zdiv_nonneg_iff)
qed

lemma itoa_digits_ok:
  assumes "0 \<le> sint n" "sint n < 10 ^ k"
  shows "foldr (\<lambda>c a. a * 10 + (int (unat c) - 48)) (itoa_digits n) 0 = sint n \<and> (\<forall>c\<in>set (itoa_digits n). is_digit c) \<and>
    length (itoa_digits n) \<le> k"
  using assms
proof (induction n arbitrary: k rule: itoa_digits.induct)
  case (1 n)
  show ?case
  proof (cases "0 <s n")
    case True
    then have n: "0 < sint n"
      by (simp add: word_sless_alt)
    note D = digit_of [OF n]
    obtain j where j: "k = Suc j"
      using 1(3) n by (cases k) auto
    have "foldr (\<lambda>c a. a * 10 + (int (unat c) - 48)) (itoa_digits (sdiv32 n 10)) 0 = sint (sdiv32 n 10) \<and>
        (\<forall>c\<in>set (itoa_digits (sdiv32 n 10)). is_digit c) \<and> length (itoa_digits (sdiv32 n 10)) \<le> j"
      using n 1(3) unfolding j by (intro 1(1) [OF True]) (auto simp: D(2))
    moreover have "is_digit (0x30 + ucast (smod32 n 10))"
      using D(1) pos_mod_bound [of 10 "sint n"] pos_mod_sign [of 10 "sint n"] unfolding is_digit_def by linarith
    ultimately show ?thesis
      using True D j by (subst (1 2 3) itoa_digits.simps) (simp del: of_nat_unat)
  next
    case False
    then show ?thesis
      using 1(2) by (subst (1 2 3) itoa_digits.simps) (simp add: word_sless_alt)
  qed
qed

lemma itoa_pos:
  assumes "0 < sint n"
  shows "digits_value (rev (itoa_digits n)) = sint n" "\<forall>c\<in>set (itoa_digits n). is_digit c" "length (itoa_digits n) \<le> 10"
    "itoa_digits n \<noteq> []"
proof -
  have "sint n < 10 ^ 10"
    using sint_range [of n] by simp
  with itoa_digits_ok [of n 10] show "digits_value (rev (itoa_digits n)) = sint n" "\<forall>c\<in>set (itoa_digits n). is_digit c"
    "length (itoa_digits n) \<le> 10"
    using assms by (simp_all add: digits_value_def foldl_conv_foldr)
  show "itoa_digits n \<noteq> []"
    using assms by (subst itoa_digits.simps) (simp add: word_sless_alt)
qed

lemma itoa_roundtrip:
  assumes "n \<noteq> 0x80000000"
  shows "decimal_value (itoa n) = sint n \<and> length (itoa n) \<le> 11 \<and> (\<forall>c\<in>set (itoa n). is_digit c \<or> c = 0x2D)"
proof -
  have "sint n = 0 \<longleftrightarrow> n = 0"
    by (rule signed_eq_0_iff)
  then consider "n = 0" | "0 < sint n" | "sint n < 0"
    by linarith
  then show ?thesis
  proof cases
    case 1
    then show ?thesis
      by (simp add: itoa_def digits_value_def is_digit_def)
  next
    case 2
    then have i: "itoa n = rev (itoa_digits n)"
      by (auto simp: itoa_def word_sless_alt)
    obtain c cs where c: "rev (itoa_digits n) = c # cs"
      using itoa_pos(4) [OF 2] by (cases "rev (itoa_digits n)") auto
    then have "is_digit c"
      using itoa_pos(2) [OF 2] by (metis list.set_intros(1) set_rev)
    then have "c \<noteq> 0x2D"
      by (auto simp: is_digit_def)
    then have "decimal_value (rev (itoa_digits n)) = digits_value (rev (itoa_digits n))"
      unfolding c by simp
    then show ?thesis
      unfolding i using itoa_pos [OF 2] by simp
  next
    case 3
    have "sint n \<noteq> - 2147483648"
    proof
      assume "sint n = - 2147483648"
      then have "word_of_int (sint n) = (0x80000000 :: i32)"
        by (simp only:) simp
      then show False
        using assms by simp
    qed
    then have m: "sint (- n) = - sint n"
      using sint_range [of n] 3 sint_sub [of 0 n] by simp
    then have p: "0 < sint (- n)"
      using 3 by simp
    have i: "itoa n = 0x2D # rev (itoa_digits (- n))"
      using 3 by (auto simp: itoa_def word_sless_alt)
    show ?thesis
      unfolding i using itoa_pos [OF p] m by simp
  qed
qed

text \<open>The one number without a positive counterpart is displayed as a lone minus sign.\<close>

lemma itoa_min: "itoa 0x80000000 = [0x2D]"
proof -
  have d: "itoa_digits 0x80000000 = []"
    by (subst itoa_digits.simps) (simp add: word_sless_alt sint_cases)
  have s: "(0x80000000 :: i32) <s 0"
    by (simp add: word_sless_alt sint_cases)
  have n: "- (0x80000000 :: i32) = 0x80000000"
    by (simp add: word_uint_eq_iff uint_word_ariths)
  show ?thesis
    unfolding itoa_def using s by (simp add: n d)
qed

section \<open>Drawing the calculator\<close>

lemma refresh_draws:
  assumes "driver_ok s"
  shows "returns (calc_refresh_display s) (draws s)"
proof -
  have t: "draws s (s\<lparr>vram := draw_string (fb s) (fill_rect (fb s) (vram s) a b w h c) x y cs d\<rparr>)" for a b w h c x y cs d
    by (intro draws_vram paint_trans(2) fill_rect_confined driver_fb assms)
  show ?thesis
    unfolding calc_refresh_display_def Let_def
    by (rule returns_mono [OF say_draws [OF drawsD(1) [OF t assms]]]) (rule draws_trans [OF t])
qed

lemma draw_buttons_draws: "driver_ok s \<Longrightarrow> returns (draw_buttons s) (draws s)"
  unfolding draw_buttons_def by (rule each_draws, rule draw_button_draws, erule drawsD(1))

lemma calc_redraw_draws:
  assumes "driver_ok s"
  shows "returns (calc_redraw w s) (draws s)"
  unfolding calc_redraw_def
proof (rule draws_bind [OF draw_window_draws [OF assms]], rule draws_bind)
  fix t
  assume "draws s t"
  then have t: "driver_ok t"
    using assms by (rule drawsD(1))
  show "returns (draw_buttons t) (draws t)"
    using t by (rule draw_buttons_draws)
  show "returns (calc_refresh_display u) (draws u)" if "draws t u" for u
    using drawsD(1) [OF that t] by (rule refresh_draws)
qed

interpretation calc_wm: window_client call_redraw
proof
  show "returns (call_redraw f w s) (draws s)" if "driver_ok s" for f w and s :: "'a calc_state_scheme"
    using calc_redraw_draws [OF that] by (cases f) simp
qed

section \<open>The calculator as an abstract machine\<close>

text \<open>Accumulator, current number, pending operation, whether a number is being entered.\<close>

type_synonym core = "i32 \<times> i32 \<times> u8 \<times> bool"

definition core_of :: "'a calc_state_scheme \<Rightarrow> core" where
  "core_of s = (g_accumulator s, g_current s, g_pending_op s, g_entering s)"

definition with_core :: "core \<Rightarrow> 'a calc_state_scheme \<Rightarrow> 'a calc_state_scheme" where
  "with_core k s = (case k of (a, c, p, e) \<Rightarrow> s\<lparr>g_accumulator := a, g_current := c, g_pending_op := p, g_entering := e\<rparr>)"

fun key_digit :: "click_fn \<Rightarrow> i32 option" where
  "key_digit Cb_d0 = Some 0" | "key_digit Cb_d1 = Some 1" | "key_digit Cb_d2 = Some 2" | "key_digit Cb_d3 = Some 3"
| "key_digit Cb_d4 = Some 4" | "key_digit Cb_d5 = Some 5" | "key_digit Cb_d6 = Some 6" | "key_digit Cb_d7 = Some 7"
| "key_digit Cb_d8 = Some 8" | "key_digit Cb_d9 = Some 9" | "key_digit f = None"

fun key_op :: "click_fn \<Rightarrow> u8" where
  "key_op Cb_add = 1" | "key_op Cb_sub = 2" | "key_op Cb_mul = 3" | "key_op Cb_div = 4" | "key_op f = 0"

definition apply_op :: "u8 \<Rightarrow> i32 \<Rightarrow> i32 \<Rightarrow> i32 option" where
  "apply_op p a c =
     (if p = 1 then Some (a + c) else if p = 2 then Some (a - c) else if p = 3 then Some (a * c)
      else if p = 4 \<and> c \<noteq> 0 then idiv32 a c else Some a)"

fun core_step :: "click_fn \<Rightarrow> core \<Rightarrow> core option" where
  "core_step f (a, c, p, e) =
     (case key_digit f of
        Some d \<Rightarrow> Some (a, (if e then c * 10 + d else d), p, True)
      | None \<Rightarrow>
          if key_op f \<noteq> 0 then do { a \<leftarrow> (if p \<noteq> 0 then apply_op p a c else Some c); Some (a, 0, key_op f, False) }
          else if f = Cb_eq then do { a \<leftarrow> (if p \<noteq> 0 then apply_op p a c else Some c); Some (a, a, 0, False) }
          else Some (0, 0, 0, False))"

lemma execute_pending_core: "calc_execute_pending s = do { a \<leftarrow> apply_op (g_pending_op s) (g_accumulator s) (g_current s); Some (s\<lparr>g_accumulator := a\<rparr>) }"
  by (cases s) (simp add: calc_execute_pending_def apply_op_def)

lemma callback_core:
  "calc_callback f s = do { k \<leftarrow> core_step f (core_of s); calc_refresh_display (with_core k s) }"
proof -
  have e: "calc_do_equals s = do { k \<leftarrow> core_step Cb_eq (core_of s); calc_refresh_display (with_core k s) }" for s :: "'a calc_state_scheme"
    by (cases s) (simp add: calc_do_equals_def core_of_def with_core_def execute_pending_core)
  have o: "calc_input_op (key_op f) s = do { k \<leftarrow> core_step f (core_of s); calc_refresh_display (with_core k s) }"
    if "key_op f \<noteq> 0" for f and s :: "'a calc_state_scheme"
    using that by (cases f; cases s) (simp_all add: calc_input_op_def core_of_def with_core_def execute_pending_core Option.bind_assoc)
  have d: "calc_input_digit d s = do { k \<leftarrow> core_step f (core_of s); calc_refresh_display (with_core k s) }"
    if "key_digit f = Some d" for d and s :: "'a calc_state_scheme"
    using that by (cases s) (simp add: calc_input_digit_def core_of_def with_core_def)
  have c: "calc_do_clear s = do { k \<leftarrow> core_step Cb_clr (core_of s); calc_refresh_display (with_core k s) }"
    by (cases s) (simp add: calc_do_clear_def core_of_def with_core_def)
  show ?thesis
    using e [of s] o [of f s] d [of _ s] c by (cases f) simp_all
qed

lemma with_core_simps [simp]:
  "core_of (with_core k s) = k" "with_core k (with_core j s) = with_core k s" "driver_ok (with_core k s) \<longleftrightarrow> driver_ok s"
  "fb (with_core k s) = fb s" "windows (with_core k s) = windows s" "btns (with_core k s) = btns s"
  "g_pressed_button (with_core k s) = g_pressed_button s" "g_pressed_parent (with_core k s) = g_pressed_parent s"
  "g_windows (with_core k s) = g_windows s" "g_dirty (with_core k s) = g_dirty s" "calc_state.more (with_core k s) = calc_state.more s"
  "vram (with_core k s) = vram s" "cursor_x (with_core k s) = cursor_x s" "cursor_y (with_core k s) = cursor_y s"
  "mouse_cycle (with_core k s) = mouse_cycle s" "mouse_bytes (with_core k s) = mouse_bytes s" "first_packet (with_core k s) = first_packet s"
  by (auto simp: core_of_def with_core_def driver_ok_def split: prod.split)

lemma with_core_of [simp]: "with_core (core_of s) s = s"
  by (cases s) (simp add: core_of_def with_core_def)

lemma more_calc:
  assumes "mouse_state.more t = mouse_state.more s"
  shows "core_of t = core_of s" "calc_state.more t = calc_state.more s"
  using assms by (cases s; cases t; simp add: core_of_def)+

lemma draws_with_core:
  assumes "draws s t"
  shows "draws (with_core k s) (with_core k t)"
proof -
  have "mouse_state.more (with_core k t) = mouse_state.more (with_core k s)"
    using drawsD(4) [OF assms] by (cases s; cases t; cases k) (simp add: with_core_def)
  then show ?thesis
    using assms by (simp add: draws_def client_frame_def)
qed

lemma callback_draws:
  assumes "driver_ok s" "core_step f (core_of s) = Some k"
  shows "returns (calc_callback f s) (draws (with_core k s))"
  using refresh_draws [of "with_core k s"] assms by (simp add: callback_core)

primrec core_run :: "click_fn list \<Rightarrow> core \<Rightarrow> core option" where
  "core_run [] k = Some k"
| "core_run (f # fs) k = core_step f k \<bind> core_run fs"

lemma core_run_append: "core_run (fs @ gs) k = core_run fs k \<bind> core_run gs"
proof (induction fs arbitrary: k)
  case (Cons f fs)
  then show ?case
    by (cases "core_step f k") simp_all
qed simp

text \<open>Pressing keys runs the machine, and does nothing else than drawing; it stops where the machine does.\<close>

lemma callbacks_run:
  assumes "driver_ok s"
  shows "case core_run fs (core_of s) of None \<Rightarrow> each calc_callback fs s = None
    | Some k \<Rightarrow> returns (each calc_callback fs s) (draws (with_core k s))"
  using assms
proof (induction fs arbitrary: s)
  case (Cons f fs)
  show ?case
  proof (cases "core_step f (core_of s)")
    case None
    then show ?thesis
      by (simp add: callback_core)
  next
    case (Some k)
    obtain t where t: "calc_callback f s = Some t" "draws (with_core k s) t"
      using callback_draws [OF Cons.prems Some] by (auto simp: returns_def)
    have "driver_ok t" "core_of t = k"
      using drawsD(1) [OF t(2)] Cons.prems more_calc(1) [OF drawsD(4) [OF t(2)]] by simp_all
    note ih = Cons.IH [OF this(1), unfolded this(2)]
    have d: "draws (with_core j s) (with_core j t)" for j
      using draws_with_core [OF t(2), of j] by simp
    show ?thesis
      using ih t(1) Some returns_mono [OF _ draws_trans [OF d]] by (cases "core_run fs k") auto
  qed
qed simp

section \<open>What the calculator computes\<close>

definition digit_key :: "nat \<Rightarrow> click_fn" where
  "digit_key d = [Cb_d0, Cb_d1, Cb_d2, Cb_d3, Cb_d4, Cb_d5, Cb_d6, Cb_d7, Cb_d8, Cb_d9] ! d"

text \<open>The number that a list of digits denotes.\<close>

definition number :: "nat list \<Rightarrow> int" where
  "number ds = foldl (\<lambda>v d. v * 10 + int d) 0 ds"

lemma key_digit_key: "d < 10 \<Longrightarrow> key_digit (digit_key d) = Some (of_nat d)"
proof -
  assume "d < 10"
  then have "d \<in> {0, 1, 2, 3, 4, 5, 6, 7, 8, 9}"
    by auto
  then show ?thesis
    by (auto simp: digit_key_def)
qed

lemma run_digits:
  assumes "\<forall>d\<in>set ds. d < 10"
  shows "core_run (map digit_key ds) (a, word_of_int v, p, True) = Some (a, word_of_int (foldl (\<lambda>v d. v * 10 + int d) v ds), p, True)"
  using assms
proof (induction ds arbitrary: v)
  case (Cons d ds)
  have "word_of_int v * 10 + of_nat d = (word_of_int (v * 10 + int d) :: i32)"
    by simp
  then show ?case
    using Cons.IH [of "v * 10 + int d"] Cons.prems by (simp add: key_digit_key)
qed simp

lemma run_number:
  assumes "ds \<noteq> []" "\<forall>d\<in>set ds. d < 10"
  shows "core_run (map digit_key ds) (a, c, p, False) = Some (a, word_of_int (number ds), p, True)"
proof -
  obtain d es where ds: "ds = d # es"
    using assms(1) by (cases ds) auto
  show ?thesis
    using run_digits [of es a "int d" p] assms(2) by (simp add: ds key_digit_key number_def)
qed

lemma run_calculation:
  assumes "ds \<noteq> []" "es \<noteq> []" "\<forall>d\<in>set ds \<union> set es. d < 10" "op \<in> {Cb_add, Cb_sub, Cb_mul, Cb_div}"
  shows "core_run (Cb_clr # map digit_key ds @ op # map digit_key es @ [Cb_eq]) k =
    map_option (\<lambda>r. (r, r, 0, False)) (apply_op (key_op op) (word_of_int (number ds)) (word_of_int (number es)))"
proof -
  have op: "key_digit op = None" "key_op op \<noteq> 0"
    using assms(4) by auto
  have "core_run (map digit_key ds) (0, 0, 0, False) = Some (0, word_of_int (number ds), 0, True)"
    "core_run (map digit_key es) (word_of_int (number ds), 0, key_op op, False) = Some (word_of_int (number ds), word_of_int (number es), key_op op, True)"
    using assms(1-3) by (intro run_number; simp)+
  then show ?thesis
    using op by (cases k, cases "apply_op (key_op op) (word_of_int (number ds)) (word_of_int (number es))")
      (simp_all add: core_run_append)
qed

text \<open>The exact result of an operation; division is rounded towards zero, division by zero leaves the dividend.\<close>

definition exact :: "click_fn \<Rightarrow> int \<Rightarrow> int \<Rightarrow> int" where
  "exact op m n =
     (if op = Cb_add then m + n else if op = Cb_sub then m - n else if op = Cb_mul then m * n
      else if n = 0 then m else m div n)"

lemma number_nonneg: "0 \<le> number ds"
proof -
  have "0 \<le> v \<Longrightarrow> 0 \<le> foldl (\<lambda>v d. v * 10 + int d) v ds" for v
    by (induction ds arbitrary: v) simp_all
  then show ?thesis
    by (simp add: number_def)
qed

lemma apply_op_exact:
  assumes "0 \<le> m" "m < 2147483648" "0 \<le> n" "n < 2147483648" "op \<in> {Cb_add, Cb_sub, Cb_mul, Cb_div}"
  shows "apply_op (key_op op) (word_of_int m) (word_of_int n) = Some (word_of_int (exact op m n))"
proof -
  have w: "(word_of_int n :: i32) = 0 \<longleftrightarrow> n = 0"
    using sint_of_int [of n] assms(3,4) by auto
  have m1: "(word_of_int n :: i32) \<noteq> - 1"
  proof
    assume "(word_of_int n :: i32) = - 1"
    then have "sint (word_of_int n :: i32) = - 1"
      by (simp only:) simp
    then show False
      using sint_of_int [of n] assms(3,4) by simp
  qed
  have "sdiv32 (word_of_int m) (word_of_int n) = word_of_int (m div n)"
    using assms sint_of_int [of m] sint_of_int [of n] by (simp add: sdiv32_def signed_divide_int_def sgn_if)
  then show ?thesis
    using assms(5) w m1 by (auto simp: apply_op_def exact_def idiv32_def)
qed

lemma calc_run_ok:
  assumes "driver_ok s" "ds \<noteq> []" "es \<noteq> []" "\<forall>d\<in>set ds \<union> set es. d < 10" "op \<in> {Cb_add, Cb_sub, Cb_mul, Cb_div}"
    and "apply_op (key_op op) (word_of_int (number ds)) (word_of_int (number es)) = Some r"
  shows "\<exists>s'. each calc_callback (Cb_clr # map digit_key ds @ op # map digit_key es @ [Cb_eq]) s = Some s' \<and> driver_ok s' \<and>
    core_of s' = (r, r, 0, False) \<and> draws (with_core (r, r, 0, False) s) s'"
proof -
  have "core_run (Cb_clr # map digit_key ds @ op # map digit_key es @ [Cb_eq]) (core_of s) = Some (r, r, 0, False)"
    unfolding run_calculation [OF assms(2-5)] assms(6) by simp
  then obtain s' where s': "each calc_callback (Cb_clr # map digit_key ds @ op # map digit_key es @ [Cb_eq]) s = Some s'"
    "draws (with_core (r, r, 0, False) s) s'"
    using callbacks_run [OF assms(1), of "Cb_clr # map digit_key ds @ op # map digit_key es @ [Cb_eq]"] by (auto simp: returns_def)
  then show ?thesis
    using drawsD(1) [OF s'(2)] assms(1) more_calc(1) [OF drawsD(4) [OF s'(2)]] by (intro exI [of _ s']) (simp only: with_core_simps simp_thms)
qed

text \<open>C37: clear, a number, an operation, another number, equals: the calculator returns with the exact integer result,
  whenever both numbers and the result fit 32 bits (division rounds towards zero, division by zero
  leaves the dividend), and shows it; nothing but the framebuffer has changed in memory.\<close>

theorem calc_computes:
  assumes "driver_ok s" and "ds \<noteq> []" and "es \<noteq> []" and "\<forall>d\<in>set ds \<union> set es. d < 10"
    and "op \<in> {Cb_add, Cb_sub, Cb_mul, Cb_div}" and "number ds < 2147483648" and "number es < 2147483648"
    and "- 2147483648 \<le> exact op (number ds) (number es)" and "exact op (number ds) (number es) < 2147483648"
  shows "\<exists>s'. each calc_callback (Cb_clr # map digit_key ds @ op # map digit_key es @ [Cb_eq]) s = Some s' \<and>
    sint (g_accumulator s') = exact op (number ds) (number es) \<and> \<not> g_entering s' \<and> driver_ok s' \<and> confined (fb s) (vram s) (vram s')"
proof -
  have "apply_op (key_op op) (word_of_int (number ds)) (word_of_int (number es)) = Some (word_of_int (exact op (number ds) (number es)))"
    using assms(5-7) number_nonneg by (intro apply_op_exact)
  from calc_run_ok [OF assms(1-5) this] obtain s' where
    s': "each calc_callback (Cb_clr # map digit_key ds @ op # map digit_key es @ [Cb_eq]) s = Some s'" "driver_ok s'"
    "core_of s' = (word_of_int (exact op (number ds) (number es)), word_of_int (exact op (number ds) (number es)), 0, False)"
    "client_frame (with_core (word_of_int (exact op (number ds) (number es)), word_of_int (exact op (number ds) (number es)), 0, False) s) s'"
    using drawsD(2) by blast
  have a: "g_accumulator s' = word_of_int (exact op (number ds) (number es))" "\<not> g_entering s'"
    using s'(3) by (simp_all add: core_of_def)
  have "sint (g_accumulator s') = exact op (number ds) (number es)"
    unfolding a(1) using assms(8,9) by (rule sint_of_int)
  then show ?thesis
    using s'(1,2,4) a(2) by (intro exI [of _ s']) (simp add: client_frame_def)
qed

text \<open>C38: dividing -2147483648 by -1 is an overflow trap of the CPU: the sixteen buttons suffice to enter
  these numbers (digits wrap around), and the call that handles the last click never returns.\<close>

theorem calc_division_halts:
  assumes "driver_ok s"
  shows "each calc_callback (Cb_clr # map digit_key [2, 1, 4, 7, 4, 8, 3, 6, 4, 8] @ Cb_div #
    map digit_key [4, 2, 9, 4, 9, 6, 7, 2, 9, 5] @ [Cb_eq]) s = None"
proof -
  have n: "number [2, 1, 4, 7, 4, 8, 3, 6, 4, 8] = 2147483648" "number [4, 2, 9, 4, 9, 6, 7, 2, 9, 5] = 4294967295"
    by (simp_all add: number_def)
  have "(word_of_int 4294967295 :: i32) = - 1"
    by (simp add: word_uint_eq_iff unsigned_minus_1_eq_mask mask_eq_exp_minus_1)
  then have "apply_op (key_op Cb_div) (word_of_int 2147483648) (word_of_int 4294967295) = None"
    by (simp add: apply_op_def idiv32_def)
  then have "core_run (Cb_clr # map digit_key [2, 1, 4, 7, 4, 8, 3, 6, 4, 8] @ Cb_div #
      map digit_key [4, 2, 9, 4, 9, 6, 7, 2, 9, 5] @ [Cb_eq]) (core_of s) = None"
  proof -
    assume a: "apply_op (key_op Cb_div) (word_of_int 2147483648) (word_of_int 4294967295) = None"
    show ?thesis
      by (subst run_calculation, simp, simp, simp, simp, unfold n a, simp)
  qed
  then show ?thesis
    using callbacks_run [OF assms, of "Cb_clr # map digit_key [2, 1, 4, 7, 4, 8, 3, 6, 4, 8] @ Cb_div #
      map digit_key [4, 2, 9, 4, 9, 6, 7, 2, 9, 5] @ [Cb_eq]"] by simp
qed

text \<open>The display shows numbers faithfully: reading the decimal text of any number but -2147483648 gives the
  number back, and the text fits the buffer of sixteen bytes.\<close>

theorem calc_itoa_roundtrip:
  assumes "n \<noteq> 0x80000000"
  shows "decimal_value (itoa n) = sint n \<and> length (itoa n) < 16"
  using itoa_roundtrip [OF assms] by simp

section \<open>Clicks on the calculator\<close>

text \<open>The invariant of the windows and buttons.\<close>

definition pressed_ok :: "'a button_state_scheme \<Rightarrow> bool" where
  "pressed_ok s \<longleftrightarrow> (case g_pressed_button s of None \<Rightarrow> True | Some b \<Rightarrow> b < length (btns s) \<and> g_pressed_parent s \<noteq> None)"

definition ui_ok :: "'a wm_state_scheme \<Rightarrow> bool" where
  "ui_ok s \<longleftrightarrow> distinct (g_windows s) \<and> length (g_windows s) \<le> MAX_WINDOWS \<and> dirty_ok (fb s) (g_dirty s) \<and> pressed_ok s \<and>
     (\<forall>w. unat (win_w (windows s w)) < 1073741824 \<and> unat (win_h (windows s w)) < 1073741824)"

lemma pressed_ok_cong:
  "g_pressed_button t = g_pressed_button s \<Longrightarrow> g_pressed_parent t = g_pressed_parent s \<Longrightarrow> btns t = btns s \<Longrightarrow>
    pressed_ok t \<longleftrightarrow> pressed_ok s"
  by (simp add: pressed_ok_def split: option.split)

lemma ui_ok_cong:
  assumes "fb t = fb s" "mouse_state.more t = mouse_state.more s"
  shows "ui_ok t \<longleftrightarrow> ui_ok s"
  using more_fields [OF assms(2)] assms(1) pressed_ok_cong [of t s] by (simp add: ui_ok_def)

lemma ui_ok_with_core [simp]: "ui_ok (with_core k s) \<longleftrightarrow> ui_ok s"
  using pressed_ok_cong [of "with_core k s" s] by (simp add: ui_ok_def)

text \<open>The states in which the pending operation would trap.\<close>

definition div_trap :: "'a calc_state_scheme \<Rightarrow> bool" where
  "div_trap s \<longleftrightarrow> g_pending_op s = 4 \<and> g_accumulator s = 0x80000000 \<and> g_current s = - 1"

lemma div_trap_cong: "mouse_state.more t = mouse_state.more s \<Longrightarrow> div_trap t \<longleftrightarrow> div_trap s"
  using more_calc(1) [of t s] by (auto simp: div_trap_def core_of_def)

lemma core_step_total: "\<not> div_trap s \<Longrightarrow> \<exists>k. core_step f (core_of s) = Some k"
  by (cases "key_digit f") (auto simp: core_of_def apply_op_def idiv32_def div_trap_def)

text \<open>Steps of the user interface: what happens in the calculator's part of the state.\<close>

definition ui_step :: "'a calc_state_scheme \<Rightarrow> 'a calc_state_scheme \<Rightarrow> bool" where
  "ui_step s t \<longleftrightarrow> client_frame s t \<and> driver_ok t \<and> ui_ok t \<and> calc_state.more t = calc_state.more s"

lemma ui_step_trans: "ui_step s t \<Longrightarrow> ui_step t u \<Longrightarrow> ui_step s u"
  by (auto simp: ui_step_def intro: client_frame_trans)

lemma ui_step_refl: "driver_ok s \<Longrightarrow> ui_ok s \<Longrightarrow> ui_step s s"
  by (simp add: ui_step_def client_frame_def)

lemma draws_ui:
  assumes "draws s t" "driver_ok s" "ui_ok s"
  shows "ui_step s t"
  using drawsD [OF assms(1)] assms(2,3) ui_ok_cong [of t s] more_calc(2) [of t s] by (simp add: ui_step_def)

lemma draws_ui_core:
  assumes "draws (with_core k s) t" "driver_ok s" "ui_ok s"
  shows "ui_step s t"
  using draws_ui [OF assms(1)] assms(2,3) by (simp add: ui_step_def client_frame_def)

lemma callback_ui:
  assumes "driver_ok s" "ui_ok s" "\<not> div_trap s"
  shows "returns (calc_callback f s) (ui_step s)"
proof -
  obtain k where k: "core_step f (core_of s) = Some k"
    using core_step_total [OF assms(3)] by blast
  show ?thesis
    by (rule returns_mono [OF callback_draws [OF assms(1) k]]) (rule draws_ui_core [OF _ assms(1,2)])
qed

lemma handle_down_ui:
  assumes "driver_ok s" "ui_ok s" "b < length (btns s)"
  shows "returns (button_handle_down b p x y s) (\<lambda>(r, t). ui_step s t)"
proof -
  let ?s = "s\<lparr>g_pressed_button := Some b, g_pressed_parent := Some p\<rparr>"
  have d: "driver_ok ?s"
    using assms(1) by (simp add: driver_ok_def)
  have u: "ui_step s ?s"
    using d assms by (simp add: ui_step_def client_frame_def ui_ok_def pressed_ok_def)
  show ?thesis
    unfolding button_handle_down_def Let_def
  proof (rule returns_bind [OF draw_button_draws [OF d]], rule returns_bind [OF say_draws])
    fix t v
    assume t: "draws ?s t"
    then show "driver_ok t"
      using d by (rule drawsD(1))
    show "returns (Some (True, v)) (\<lambda>(r, t). ui_step s t)" if "draws t v"
      using draws_ui [OF draws_trans [OF t that] d] u ui_step_trans [OF u] by (simp add: ui_step_def)
  qed
qed

lemma handle_up_ui:
  assumes "driver_ok s" "ui_ok s" "\<not> div_trap s"
  shows "returns (button_handle_up calc_callback x y s) (\<lambda>(r, t). ui_step s t)"
proof (cases "g_pressed_button s")
  case None
  then show ?thesis
    using ui_step_refl [OF assms(1,2)] by (simp add: button_handle_up_def)
next
  case (Some b)
  then obtain p where p: "g_pressed_parent s = Some p"
    using assms(2) by (auto simp: ui_ok_def pressed_ok_def)
  have say: "returns (say ps s) (\<lambda>t. draws s t \<and> ui_step s t \<and> \<not> div_trap t)" for ps
    by (rule returns_mono [OF say_draws [OF assms(1)]])
      (use draws_ui [OF _ assms(1,2)] div_trap_cong [OF drawsD(4)] assms(3) in blast)
  let ?click = "\<lambda>t. case on_click (btns t ! b) of None \<Rightarrow> Some t | Some f \<Rightarrow> calc_callback f t"
  have click: "returns (?click t) (ui_step s)" if t: "ui_step s t" "\<not> div_trap t" for t
  proof (cases "on_click (btns t ! b)")
    case (Some f)
    have "returns (calc_callback f t) (ui_step t)"
      using t by (intro callback_ui) (simp_all add: ui_step_def)
    then show ?thesis
      unfolding Some option.case by (rule returns_mono) (rule ui_step_trans [OF t(1)])
  qed (use t in simp)
  have finish: "returns (do { u \<leftarrow> draw_button b p False t; Some (True, u\<lparr>g_pressed_button := None, g_pressed_parent := None\<rparr>) }) (\<lambda>(r, t). ui_step s t)"
    if t: "ui_step s t" for t
  proof (rule returns_bind [OF draw_button_draws])
    show "driver_ok t"
      using t by (simp add: ui_step_def)
    fix u
    assume "draws t u"
    then have "ui_step s u"
      using ui_step_trans [OF t draws_ui] t by (simp add: ui_step_def)
    then show "returns (Some (True, u\<lparr>g_pressed_button := None, g_pressed_parent := None\<rparr>)) (\<lambda>(r, t). ui_step s t)"
      by (auto simp: ui_step_def client_frame_def driver_ok_def ui_ok_def pressed_ok_def)
  qed
  show ?thesis
    unfolding button_handle_up_def Some p option.case
    by (rule returns_bind [where P = "ui_step s"], rule returns_if)
      (auto intro!: finish returns_bind [OF say] click intro: returns_mono [OF say])
qed

lemma calc_click_ui:
  assumes "driver_ok s" "ui_ok s" "\<not> div_trap s"
  shows "returns (calc_handle_click x y b s) (\<lambda>(r, t). ui_step s t)"
proof -
  note same = ui_step_refl [OF assms(1,2)]
  have down: "returns (case find (\<lambda>i. button_hit_test (btns s ! i) (windows s Calc_Win) x y) [0..<length (btns s)] of
      Some i \<Rightarrow> do { (_, s) \<leftarrow> button_handle_down i Calc_Win x y s; Some (True, s) } | None \<Rightarrow> Some (False, s)) (\<lambda>(r, t). ui_step s t)"
  proof (cases "find (\<lambda>i. button_hit_test (btns s ! i) (windows s Calc_Win) x y) [0..<length (btns s)]")
    case (Some i)
    then have "i < length (btns s)"
      by (auto simp: find_Some_iff)
    then show ?thesis
      unfolding Some option.case by (rule returns_bind [OF handle_down_ui [OF assms(1,2)]]) auto
  qed (use same in simp)
  have up: "returns (do { (r, s) \<leftarrow> button_handle_up calc_callback x y s; if r then Some (True, s) else Some (False, s) }) (\<lambda>(r, t). ui_step s t)"
    by (rule returns_bind [OF handle_up_ui [OF assms]]) auto
  show ?thesis
    unfolding calc_handle_click_def using same down up by simp
qed

section \<open>The calculator's window and buttons\<close>

lemma add_btn_simps [simp]:
  "driver_ok (add_btn rx ry l i p cb s) \<longleftrightarrow> driver_ok s" "g_windows (add_btn rx ry l i p cb s) = g_windows s"
  "windows (add_btn rx ry l i p cb s) = windows s" "g_dirty (add_btn rx ry l i p cb s) = g_dirty s"
  "g_pressed_button (add_btn rx ry l i p cb s) = g_pressed_button s" "g_pressed_parent (add_btn rx ry l i p cb s) = g_pressed_parent s"
  "core_of (add_btn rx ry l i p cb s) = core_of s" "fb (add_btn rx ry l i p cb s) = fb s"
  "calc_state.more (add_btn rx ry l i p cb s) = calc_state.more s"
  by (auto simp: add_btn_def driver_ok_def core_of_def)

lemma add_btn_length:
  "length (btns s) = k - 1 \<Longrightarrow> 0 < k \<Longrightarrow> k \<le> MAX_BTNS \<Longrightarrow> length (btns (add_btn rx ry l i p cb s)) = k"
  by (auto simp: add_btn_def)

lemma calc_setup_facts:
  assumes "btns s = []" "length (g_windows s) < MAX_WINDOWS" "driver_ok s"
  shows "driver_ok (calc_setup s)" "g_windows (calc_setup s) = g_windows s @ [Calc_Win]" "length (btns (calc_setup s)) = 16"
    "g_dirty (calc_setup s) = g_dirty s" "g_pressed_button (calc_setup s) = g_pressed_button s" "core_of (calc_setup s) = core_of s"
    "fb (calc_setup s) = fb s" "calc_state.more (calc_setup s) = calc_state.more s"
    "w \<noteq> Calc_Win \<Longrightarrow> windows (calc_setup s) w = windows s w"
    "win_w (windows (calc_setup s) Calc_Win) = 240" "win_h (windows (calc_setup s) Calc_Win) = 280"
proof -
  have w: "driver_ok (t\<lparr>windows := v\<rparr>) \<longleftrightarrow> driver_ok t" "core_of (u\<lparr>windows := v\<rparr>) = core_of u" "core_of (u\<lparr>g_windows := ws\<rparr>) = core_of u"
    for t :: "'b button_state_scheme" and u :: "'c calc_state_scheme" and v ws
    by (simp_all add: driver_ok_def core_of_def)
  show "length (btns (calc_setup s)) = 16"
    using assms unfolding calc_setup_def Let_def by (intro add_btn_length) (simp_all add: wm_add_window_def)
  show "driver_ok (calc_setup s)" "g_windows (calc_setup s) = g_windows s @ [Calc_Win]"
    "g_dirty (calc_setup s) = g_dirty s" "g_pressed_button (calc_setup s) = g_pressed_button s" "core_of (calc_setup s) = core_of s"
    "fb (calc_setup s) = fb s" "calc_state.more (calc_setup s) = calc_state.more s"
    "w \<noteq> Calc_Win \<Longrightarrow> windows (calc_setup s) w = windows s w"
    "win_w (windows (calc_setup s) Calc_Win) = 240" "win_h (windows (calc_setup s) Calc_Win) = 280"
    using assms unfolding calc_setup_def Let_def by (simp_all add: wm_add_window_def w)
qed

lemma calc_init_draws:
  assumes "driver_ok (calc_setup s)"
  shows "returns (calc_init s) (draws (calc_setup s))"
  unfolding calc_init_def Let_def
proof (rule draws_bind [OF draw_window_draws [OF assms]], rule draws_bind, goal_cases)
  case (1 t)
  then show ?case
    using assms drawsD(1) by (intro draw_buttons_draws) blast
next
  case (2 t u)
  have "driver_ok u"
    using drawsD(1) [OF 2(2) drawsD(1) [OF 2(1) assms]] .
  then show ?case
    by (intro draws_bind [OF refresh_draws]) (auto intro: say_draws drawsD(1))
qed

section \<open>Witnesses\<close>

definition calc_example :: calc_state where
  "calc_example = \<lparr>fb = fb_example, vram = (\<lambda>_. 0), ports = io_example, itabs = tables_example, cursor_x = 0, cursor_y = 0,
     cursor_old_x = 0, cursor_old_y = 0, cursor_visible = False, cursor_backup = [], mouse_cycle = 0, mouse_bytes = [0, 0, 0],
     packet_count = 0, first_packet = True, last_buttons = 0, windows = (\<lambda>_. window_example), btns = [], g_pressed_button = None,
     g_pressed_parent = None, g_windows = [], g_dirty = \<lparr>dirty_x = 0, dirty_y = 0, dirty_w = 0, dirty_h = 0, dirty_valid = False\<rparr>,
     g_accumulator = 7, g_current = 9, g_pending_op = 3, g_entering = True\<rparr>"

lemma calc_example_ok: "driver_ok calc_example"
  using screen_example_ok io_example_live by (simp add: driver_ok_def calc_example_def coord_ok_def fb_example_def)

theorem calc_computes_witness:
  "\<exists>s'. each calc_callback [Cb_clr, Cb_d1, Cb_d2, Cb_sub, Cb_d5, Cb_d0, Cb_eq] calc_example = Some s' \<and> sint (g_accumulator s') = - 38"
  using calc_computes [OF calc_example_ok, of "[1, 2]" "[5, 0]" Cb_sub]
  by (auto simp: number_def exact_def digit_key_def)

theorem calc_division_halts_witness:
  "each calc_callback (Cb_clr # map digit_key [2, 1, 4, 7, 4, 8, 3, 6, 4, 8] @ Cb_div #
    map digit_key [4, 2, 9, 4, 9, 6, 7, 2, 9, 5] @ [Cb_eq]) calc_example = None"
  by (rule calc_division_halts [OF calc_example_ok])

theorem calc_itoa_roundtrip_witness: "decimal_value (itoa (- 1205)) = - 1205"
  using calc_itoa_roundtrip [of "- 1205"] by (simp add: word_uint_eq_iff)

end
