(* ===== verification/Desktop.thy ===== *)
theory Desktop
  imports Calc
begin

text \<open>
  The desktop, from \<open>kernel/main.c\<close>: the callbacks that \<open>kmain\<close> registers with the mouse driver
  (closing, dragging and raising windows, the calculator) and the start of the graphical interface.
\<close>

section \<open>State\<close>

record desktop_state = calc_state +
  g_drag_win :: "window_id option"
  g_drag_move_diag :: i32

abbreviation MIN_GRIP :: i32 where "MIN_GRIP \<equiv> 30"

section \<open>Moving the mouse\<close>

definition place_window :: "window_id \<Rightarrow> i32 \<Rightarrow> i32 \<Rightarrow> 'a button_state_scheme \<Rightarrow> 'a button_state_scheme" where
  "place_window w x y s = s\<lparr>windows := (windows s)(w := (windows s w)\<lparr>win_x := x, win_y := y\<rparr>)\<rparr>"

definition clamp_window :: "i32 \<Rightarrow> i32 \<Rightarrow> i32" where
  "clamp_window v limit = (let v = (if v <s 0 then 0 else v) in if limit <s v then limit else v)"

definition on_mouse_move :: "i32 \<Rightarrow> i32 \<Rightarrow> 'a desktop_state_scheme \<Rightarrow> 'a desktop_state_scheme option" where
  "on_mouse_move dx dy s =
     (case g_drag_win s of None \<Rightarrow> Some s
      | Some win \<Rightarrow>
        let old_x = win_x (windows s win);
            old_y = win_y (windows s win);
            x = old_x + dx;
            y = old_y - dy;
            max_x = fb_width (fb s) - MIN_GRIP;
            max_y = fb_height (fb s) - TITLE_BAR_H;
            s = place_window win (clamp_window x max_x) (clamp_window y max_y) s
        in do {
          s \<leftarrow> (if g_drag_move_diag s <s 8
                then say [Str ''DRAG: move #'', Hex (g_drag_move_diag s), Str '' ('', Hex (win_x (windows s win)), Str '','',
                          Hex (win_y (windows s win)), Str ('')'' @ newline)] s
                else Some s);
          let s = s\<lparr>g_drag_move_diag := g_drag_move_diag s + 1\<rparr>;
          let s = wm_mark_dirty old_x old_y (win_w (windows s win) + 1) (win_h (windows s win) + 1) s;
          Some (wm_mark_dirty (win_x (windows s win)) (win_y (windows s win)) (win_w (windows s win) + 1) (win_h (windows s win) + 1) s) })"

section \<open>Clicks\<close>

text \<open>The routing of a click that is neither on a close button nor on a title bar.\<close>

definition route_click :: "i32 \<Rightarrow> i32 \<Rightarrow> u8 \<Rightarrow> 'a desktop_state_scheme \<Rightarrow> 'a desktop_state_scheme option" where
  "route_click x y buttons s = do {
     (consumed, s) \<leftarrow> calc_handle_click x y buttons s;
     if consumed then Some s else wm_handle_click call_redraw x y buttons s }"

definition on_mouse_click :: "i32 \<Rightarrow> i32 \<Rightarrow> u8 \<Rightarrow> 'a desktop_state_scheme \<Rightarrow> 'a desktop_state_scheme option" where
  "on_mouse_click x y buttons s =
     (if buttons AND 1 \<noteq> 0
      then (case wm_find_window_at x y s of
              Some hit \<Rightarrow>
                if window_hit_test_close_button (windows s hit) x y
                then do {
                  s \<leftarrow> say [Str (''WM: close button on '' @ quote), Str (win_title (windows s hit)), Str (quote @ newline)] s;
                  let s = (if g_drag_win s = Some hit then s\<lparr>g_drag_win := None\<rparr> else s);
                  wm_remove_window call_redraw hit s }
                else if window_hit_test_title_bar (windows s hit) x y
                then do {
                  let s = s\<lparr>g_drag_move_diag := 0\<rparr>;
                  s \<leftarrow> say [Str (''DRAG: start on '' @ quote), Str (win_title (windows s hit)), Str (quote @ '' at (''), Hex x, Str '','',
                            Hex y, Str ('')'' @ newline)] s;
                  s \<leftarrow> wm_bring_to_top call_redraw hit s;
                  Some (s\<lparr>g_drag_win := Some hit\<rparr>) }
                else do {
                  s \<leftarrow> say [Str (''WM: body hit '' @ quote), Str (win_title (windows s hit)), Str (quote @ '' at y=''), Hex y,
                            Str '' (title bar is y='', Hex (win_y (windows s hit)), Str ''..'',
                            Hex (win_y (windows s hit) + TITLE_BAR_H), Str ('')'' @ newline)] s;
                  route_click x y buttons s }
            | None \<Rightarrow> route_click x y buttons s)
      else (case g_drag_win s of
              Some win \<Rightarrow> do {
                s \<leftarrow> say [Str ''DRAG: end at ('', Hex (win_x (windows s win)), Str '','', Hex (win_y (windows s win)), Str ('')'' @ newline)] s;
                Some (s\<lparr>g_drag_win := None\<rparr>) }
            | None \<Rightarrow> route_click x y buttons s))"

section \<open>Start\<close>

definition demo_window :: "framebuffer \<Rightarrow> i32 \<Rightarrow> i32 \<Rightarrow> string \<Rightarrow> u32 \<Rightarrow> u32 \<Rightarrow> window \<Rightarrow> window" where
  "demo_window f x y title bar body w =
     w\<lparr>win_x := x, win_y := y, win_w := 220, win_h := 160, win_title := title, title_bar_color := bar, body_color := body\<rparr>"

text \<open>The test picture of phase 10; \<open>ascii_row\<close> is the string of all printable characters.\<close>

definition draw_test_picture :: "framebuffer \<Rightarrow> mem \<Rightarrow> mem option" where
  "draw_test_picture f m = (
     let m = fill_rect f m 0 0 (fb_width f - 1) (fb_height f - 1) (make_color f 0x20 0x20 0x30);
         yellow = make_color f 0xFF 0xFF 0x00;
         red = make_color f 0xFF 0x00 0x00;
         m = fill_rect f m 400 300 200 100 yellow
     in do {
       m \<leftarrow> draw_rect f m 396 296 208 108 red;
       m \<leftarrow> draw_line f m 100 100 900 650 (make_color f 0x00 0xFF 0xFF);
       let m = draw_string f m 50 30 (bytes_of ''Kumo OS - Phase 10'') (make_color f 0xFF 0xFF 0xFF);
       let ascii_row = map of_nat [0x20..<0x7F];
       let m = draw_string f m 50 60 ascii_row (make_color f 0xAA 0xAA 0xAA);
       let m = draw_string f m 50 78 (bytes_of ''abcdefghijklmnopqrstuvwxyz'') (make_color f 0x00 0xCC 0x00);
       let m = draw_string f m 50 96 (bytes_of ''ABCDEFGHIJKLMNOPQRSTUVWXYZ'') (make_color f 0x00 0x88 0xFF);
       Some (draw_string f m 50 114 (bytes_of ''0123456789 !@#$%^&*()[]{}<>'') (make_color f 0xFF 0x88 0x00)) })"

text \<open>
  \<open>kmain\<close> from the message of phase 10 to the calculator, after the framebuffer has been mapped; the
  callbacks it registers are the arguments of the interrupt handler.
\<close>

definition start_mouse :: "link_map \<Rightarrow> 'a desktop_state_scheme \<Rightarrow> 'a desktop_state_scheme option" where
  "start_mouse lm s = do {
     s \<leftarrow> say [Str (newline @ ''=== Phase 10: 2D Primitives + Font ==='' @ newline)] s;
     m \<leftarrow> draw_test_picture (fb s) (vram s);
     s \<leftarrow> say [Str (''FB: Phase 10 drawing complete.'' @ newline)] (s\<lparr>vram := m\<rparr>);
     s \<leftarrow> say [Str (newline @ ''=== Phase 11b: Mouse ==='' @ newline)] s;
     s \<leftarrow> mouse_init lm s;
     say [Str (newline @ ''=== Phase 13c: Window Manager ==='' @ newline)] s }"

definition start_windows :: "'a desktop_state_scheme \<Rightarrow> 'a desktop_state_scheme option" where
  "start_windows s = do {
     let s = s\<lparr>windows := (windows s)(
       Win_A := demo_window (fb s) 50 60 ''Demo A'' (make_color (fb s) 0x80 0x30 0x20) (make_color (fb s) 0xFF 0xE8 0xE0) (windows s Win_A),
       Win_B := demo_window (fb s) 160 120 ''Demo B'' (make_color (fb s) 0x20 0x70 0x30) (make_color (fb s) 0xE0 0xFF 0xE0) (windows s Win_B),
       Win_C := demo_window (fb s) 270 180 ''Demo C'' (make_color (fb s) 0x20 0x30 0x80) (make_color (fb s) 0xE0 0xE8 0xFF) (windows s Win_C))\<rparr>;
     let s = wm_add_window Win_C (wm_add_window Win_B (wm_add_window Win_A s));
     s \<leftarrow> wm_draw_all call_redraw s;
     s \<leftarrow> say [Str (''WM: 3 windows drawn (A bottom, C top).'' @ newline)] s;
     s \<leftarrow> say [Str (newline @ ''=== Phase 15: Calculator ==='' @ newline)] s;
     calc_init s }"

definition desktop_start :: "link_map \<Rightarrow> 'a desktop_state_scheme \<Rightarrow> 'a desktop_state_scheme option" where
  "desktop_start lm s = do { s \<leftarrow> start_mouse lm s; start_windows s }"

text \<open>The graphical part of the idle loop.\<close>

definition idle_redraw :: "'a desktop_state_scheme \<Rightarrow> 'a desktop_state_scheme option" where
  "idle_redraw s = (if wm_has_dirty s then wm_flush_dirty call_redraw s else Some s)"

section \<open>Every interrupt of the mouse is handled\<close>

lemma pressed_frame [simp]:
  "pressed_ok (s\<lparr>windows := v\<rparr>) \<longleftrightarrow> pressed_ok s" "pressed_ok (t\<lparr>g_windows := ws\<rparr>) \<longleftrightarrow> pressed_ok t"
  "pressed_ok (t\<lparr>g_dirty := d\<rparr>) \<longleftrightarrow> pressed_ok t"
  "pressed_ok (u\<lparr>g_drag_win := w\<rparr>) \<longleftrightarrow> pressed_ok u" "pressed_ok (u\<lparr>g_drag_move_diag := n\<rparr>) \<longleftrightarrow> pressed_ok u"
  by (rule pressed_ok_cong; simp)+

text \<open>Steps of the desktop keep the driver, the windows and the memory outside the framebuffer in order.\<close>

definition desk_step :: "'a desktop_state_scheme \<Rightarrow> 'a desktop_state_scheme \<Rightarrow> bool" where
  "desk_step s t \<longleftrightarrow> client_frame s t \<and> driver_ok t \<and> ui_ok t"

lemma desk_step_refl: "driver_ok s \<Longrightarrow> ui_ok s \<Longrightarrow> desk_step s s"
  by (simp add: desk_step_def client_frame_def)

lemma desk_step_trans: "desk_step s t \<Longrightarrow> desk_step t u \<Longrightarrow> desk_step s u"
  by (auto simp: desk_step_def intro: client_frame_trans)

lemma ui_desk: "ui_step s t \<Longrightarrow> desk_step s t"
  by (simp add: ui_step_def desk_step_def)

lemma draws_desk: "draws s t \<Longrightarrow> driver_ok s \<Longrightarrow> ui_ok s \<Longrightarrow> desk_step s t"
  using draws_ui ui_desk by blast

lemma desk_drag:
  assumes "desk_step s t"
  shows "desk_step s (t\<lparr>g_drag_win := w\<rparr>)" "desk_step s (t\<lparr>g_drag_move_diag := n\<rparr>)"
  using assms by (auto simp: desk_step_def client_frame_def driver_ok_def ui_ok_def)

lemma order_desk:
  assumes "draws (s\<lparr>g_windows := ws\<rparr>) t" "driver_ok s" "ui_ok s" "distinct ws" "length ws \<le> length (g_windows s)"
  shows "desk_step s t"
proof -
  have "ui_ok (s\<lparr>g_windows := ws\<rparr>)"
    using assms(3-5) by (simp add: ui_ok_def)
  then have "desk_step (s\<lparr>g_windows := ws\<rparr>) t"
    using assms(1,2) by (intro draws_desk) simp_all
  then show ?thesis
    by (simp add: desk_step_def client_frame_def)
qed

lemma length_raise: "w \<in> set ws \<Longrightarrow> length (filter (\<lambda>v. v \<noteq> w) ws @ [w]) \<le> length ws"
  using length_filter_less [of w ws "\<lambda>v. v \<noteq> w"] by simp

lemma find_window_in: "wm_find_window_at x y s = Some w \<Longrightarrow> w \<in> set (g_windows s)"
  by (auto simp: wm_find_window_at_def hit_index_Some)

lemma wm_click_desk:
  assumes "driver_ok s" "ui_ok s"
  shows "returns (wm_handle_click call_redraw x y b s) (desk_step s)"
proof (rule returns_mono [OF calc_wm.handle_click_order [OF assms(1)]])
  show "distinct (g_windows s)"
    using assms(2) by (simp add: ui_ok_def)
  then have o: "distinct (click_order s x y)" "length (click_order s x y) \<le> length (g_windows s)"
    using length_raise [OF find_window_in] by (auto simp: click_order_def split: option.splits)
  show "desk_step s t" if "draws (s\<lparr>g_windows := click_order s x y\<rparr>) t" for t
    using that assms o by (rule order_desk)
qed

lemma route_desk:
  assumes "driver_ok s" "ui_ok s" "\<not> div_trap s"
  shows "returns (route_click x y b s) (desk_step s)"
  unfolding route_click_def
proof (rule returns_bind [OF calc_click_ui [OF assms]], clarify)
  fix r t
  assume t: "ui_step s t"
  then have "returns (wm_handle_click call_redraw x y b t) (desk_step s)"
    by (intro returns_mono [OF wm_click_desk]) (auto simp: ui_step_def intro: desk_step_trans [OF ui_desk [OF t]])
  then show "returns (if r then Some t else wm_handle_click call_redraw x y b t) (desk_step s)"
    using ui_desk [OF t] by simp
qed

lemma say_desk: "driver_ok s \<Longrightarrow> ui_ok s \<Longrightarrow> returns (say ps s) (\<lambda>t. draws s t \<and> desk_step s t)"
  by (rule returns_mono [OF say_draws]) (auto intro: draws_desk)

lemma desk_stepD: "desk_step s t \<Longrightarrow> driver_ok t" "desk_step s t \<Longrightarrow> ui_ok t"
  by (simp_all add: desk_step_def)

lemma ui_distinct: "ui_ok s \<Longrightarrow> distinct (g_windows s)"
  by (simp add: ui_ok_def)

lemma close_desk:
  assumes "driver_ok s" "ui_ok s"
  shows "returns (wm_remove_window call_redraw w s) (desk_step s)"
  by (rule returns_mono [OF calc_wm.remove_window_order [OF assms(1) ui_distinct [OF assms(2)]]])
    (erule order_desk [OF _ assms], use ui_distinct [OF assms(2)] in simp_all)

lemma raise_desk:
  assumes "driver_ok s" "ui_ok s" "w \<in> set (g_windows s)"
  shows "returns (wm_bring_to_top call_redraw w s) (desk_step s)"
  by (rule returns_mono [OF calc_wm.bring_to_top_order [OF assms(1) ui_distinct [OF assms(2)] assms(3)]])
    (erule order_desk [OF _ assms(1,2)], use ui_distinct [OF assms(2)] length_raise [OF assms(3)] in simp_all)

lemma returns_case:
  "(x = None \<Longrightarrow> returns r Q) \<Longrightarrow> (\<And>v. x = Some v \<Longrightarrow> returns (f v) Q) \<Longrightarrow> returns (case x of None \<Rightarrow> r | Some v \<Rightarrow> f v) Q"
  by (cases x) simp_all

lemma click_desk:
  assumes "driver_ok s" "ui_ok s" "\<not> div_trap s"
  shows "returns (on_mouse_click x y b s) (desk_step s)"
proof -
  note say = say_desk [OF assms(1,2)]
  have trap: "\<not> div_trap t" if "draws s t" for t
    using div_trap_cong [OF drawsD(4) [OF that]] assms(3) by simp
  have route: "returns (route_click x y b t) (desk_step s)" if "draws s t \<and> desk_step s t" for t
    using that by (intro returns_mono [OF route_desk]) (auto dest: desk_stepD trap intro: desk_step_trans)
  have close: "returns (do { let s = (if g_drag_win t = Some h then t\<lparr>g_drag_win := None\<rparr> else t); wm_remove_window call_redraw h s }) (desk_step s)"
    if "desk_step s t" for t h
  proof -
    have "desk_step s (if g_drag_win t = Some h then t\<lparr>g_drag_win := None\<rparr> else t)"
      using desk_drag(1) [OF that] that by simp
    then show ?thesis
      unfolding Let_def by (intro returns_mono [OF close_desk]) (auto dest: desk_stepD intro: desk_step_trans)
  qed
  have drag: "returns (do { let s = s\<lparr>g_drag_move_diag := 0\<rparr>; s \<leftarrow> say (ps s) s; s \<leftarrow> wm_bring_to_top call_redraw h s; Some (s\<lparr>g_drag_win := Some h\<rparr>) })
      (desk_step s)" if h: "h \<in> set (g_windows s)" for h ps
  proof -
    let ?s = "s\<lparr>g_drag_move_diag := 0\<rparr>"
    have s: "desk_step s ?s"
      using desk_drag(2) [OF desk_step_refl [OF assms(1,2)]] .
    show ?thesis
      unfolding Let_def
    proof (rule returns_bind [OF say_desk [OF desk_stepD [OF s]]], elim conjE, rule returns_bind [OF raise_desk])
      fix t u
      assume t: "draws ?s t" "desk_step ?s t"
      show "driver_ok t" "ui_ok t"
        using desk_stepD [OF t(2)] by blast+
      show "h \<in> set (g_windows t)"
        using draws_fields(5) [OF t(1)] h by simp
      assume u: "desk_step t u"
      show "returns (Some (u\<lparr>g_drag_win := Some h\<rparr>)) (desk_step s)"
        using desk_drag(1) [OF desk_step_trans [OF s desk_step_trans [OF t(2) u]]] by simp
    qed
  qed
  have here: "draws s s \<and> desk_step s s"
    using desk_step_refl [OF assms(1,2)] by simp
  have stop: "returns (Some (t\<lparr>g_drag_win := None\<rparr>)) (desk_step s)" if "desk_step s t" for t
    using desk_drag(1) [OF that] by simp
  show ?thesis
    unfolding on_mouse_click_def
    apply (intro returns_if returns_case)
         apply (rule route [OF here])
        apply (rule returns_bind [OF say], rule close, erule conjunct2)
       apply (rule drag, erule find_window_in)
      apply (rule returns_bind [OF say], erule route)
     apply (rule route [OF here])
    apply (rule returns_bind [OF say], rule stop, erule conjunct2)
    done
qed

lemma mark_desk:
  assumes "desk_step s t" "unat w < 1073741824" "unat h < 1073741824"
  shows "desk_step s (wm_mark_dirty x y (w + 1) (h + 1) t)"
proof -
  have "unat (w + 1) \<le> 2147483648" "unat (h + 1) \<le> 2147483648"
    using assms(2,3) by (simp_all add: unat_add_no_wrap)
  moreover have "screen_ok (fb t)" "dirty_ok (fb t) (g_dirty t)"
    using assms(1) by (simp_all add: desk_step_def driver_ok_def ui_ok_def)
  ultimately have "dirty_ok (fb t) (g_dirty (wm_mark_dirty x y (w + 1) (h + 1) t))"
    using mark_dirty_ok by blast
  then show ?thesis
    using assms(1) by (subst mark_dirty_frame) (auto simp: desk_step_def client_frame_def ui_ok_def)
qed

lemma clamp_window_ok:
  assumes "0 \<le> sint limit"
  shows "sint (clamp_window v limit) = max 0 (min (sint limit) (sint v))"
  using assms by (auto simp: clamp_window_def Let_def word_sless_alt min_def max_def)

lemma place_desk:
  assumes "driver_ok s" "ui_ok s"
  shows "desk_step s (place_window w x y s)"
  using assms by (auto simp: desk_step_def place_window_def client_frame_def driver_ok_def ui_ok_def)

text \<open>
  The dragged window moves with the mouse, within the limits that keep a grip of its title bar on
  the screen, and its old and new boxes (with their borders) are marked dirty.
\<close>

definition box_of :: "window \<Rightarrow> int \<times> int \<times> int \<times> int" where
  "box_of w = (sint (win_x w), sint (win_y w), sint (win_x w) + int (unat (win_w w)) + 1, sint (win_y w) + int (unat (win_h w)) + 1)"

lemma mark_upper [simp]:
  "windows (wm_mark_dirty x y w h s) = windows s" "g_windows (wm_mark_dirty x y w h s) = g_windows s"
  "g_drag_win (wm_mark_dirty x y w h t) = g_drag_win t" "fb (wm_mark_dirty x y w h s) = fb s"
  by (subst mark_dirty_frame, simp)+

lemma move_ok:
  assumes "driver_ok s" "ui_ok s" "g_drag_win s = Some win"
  shows "returns (on_mouse_move dx dy s) (\<lambda>t. desk_step s t \<and>
    windows t = (windows s)(win := (windows s win)
      \<lparr>win_x := clamp_window (win_x (windows s win) + dx) (fb_width (fb s) - MIN_GRIP),
       win_y := clamp_window (win_y (windows s win) - dy) (fb_height (fb s) - TITLE_BAR_H)\<rparr>) \<and>
    g_windows t = g_windows s \<and> g_drag_win t = Some win \<and>
    dirty_area (g_dirty t) = hull (hull (dirty_area (g_dirty s)) (clip (fb s) (box_of (windows s win)))) (clip (fb s) (box_of (windows t win))))"
proof -
  let ?w = "windows s win"
  let ?x = "clamp_window (win_x ?w + dx) (fb_width (fb s) - MIN_GRIP)" and ?y = "clamp_window (win_y ?w - dy) (fb_height (fb s) - TITLE_BAR_H)"
  let ?p = "place_window win ?x ?y s"
  let ?tell = "if g_drag_move_diag ?p <s 8
    then say [Str ''DRAG: move #'', Hex (g_drag_move_diag ?p), Str '' ('', Hex (win_x (windows ?p win)), Str '','',
              Hex (win_y (windows ?p win)), Str ('')'' @ newline)] ?p
    else Some ?p"
  have p: "desk_step s ?p"
    by (rule place_desk [OF assms(1,2)])
  have tell: "returns ?tell (draws ?p)"
    using say_draws [OF desk_stepD(1) [OF p]] by simp
  have sz: "unat (win_w ?w) < 1073741824" "unat (win_h ?w) < 1073741824"
    using assms(2) by (simp_all add: ui_ok_def)
  have one: "int (unat (win_w ?w + 1)) = int (unat (win_w ?w)) + 1" "int (unat (win_h ?w + 1)) = int (unat (win_h ?w)) + 1"
    "unat (win_w ?w + 1) \<le> 2147483648" "unat (win_h ?w + 1) \<le> 2147483648"
    using sz by (simp_all add: unat_add_no_wrap)
  show ?thesis
    unfolding on_mouse_move_def assms(3) option.case Let_def
  proof (rule returns_bind [OF tell], unfold returns_Some, intro conjI)
    fix t
    assume t: "draws ?p t"
    note f = draws_fields [OF t]
    have w: "windows t = (windows s)(win := ?w\<lparr>win_x := ?x, win_y := ?y\<rparr>)"
      unfolding f(1) by (simp add: place_window_def)
    let ?u = "t\<lparr>g_drag_move_diag := g_drag_move_diag t + 1\<rparr>"
    let ?v = "wm_mark_dirty (win_x ?w) (win_y ?w) (win_w (windows ?u win) + 1) (win_h (windows ?u win) + 1) ?u"
    let ?z = "wm_mark_dirty (win_x (windows ?v win)) (win_y (windows ?v win)) (win_w (windows ?v win) + 1) (win_h (windows ?v win) + 1) ?v"
    have u: "desk_step s ?u"
      by (rule desk_drag(2) [OF desk_step_trans [OF p draws_desk [OF t desk_stepD [OF p]]]])
    have v: "desk_step s ?v"
      using sz by (intro mark_desk [OF u]) (simp_all add: w)
    show "desk_step s ?z"
      using sz by (intro mark_desk [OF v]) (simp_all add: w)
    show "windows ?z = (windows s)(win := ?w\<lparr>win_x := ?x, win_y := ?y\<rparr>)"
      by (simp add: w)
    show "g_windows ?z = g_windows s"
      using f(5) by (simp add: place_window_def)
    have "calc_state.more t = calc_state.more ?p"
      using more_calc(2) [OF drawsD(4) [OF t]] .
    then have "g_drag_win t = g_drag_win s"
      by (cases s; cases t) (simp add: place_window_def)
    then show "g_drag_win ?z = Some win"
      using assms(3) by simp
    have fb: "fb t = fb s" "g_dirty t = g_dirty s"
      using f(6,8) by (simp_all add: place_window_def)
    have ok: "screen_ok (fb s)" "dirty_ok (fb s) (g_dirty s)" "dirty_ok (fb s) (g_dirty ?v)"
      using assms(1,2) v fb by (simp_all add: driver_ok_def ui_ok_def desk_step_def)
    have "dirty_area (g_dirty ?v) = hull (dirty_area (g_dirty s)) (clip (fb s) (box_of ?w))"
      using mark_dirty_ok [of ?u "win_w ?w + 1" "win_h ?w + 1" "win_x ?w" "win_y ?w"] ok one by (simp add: fb w box_of_def add.assoc del: of_nat_unat)
    moreover have "dirty_area (g_dirty ?z) = hull (dirty_area (g_dirty ?v)) (clip (fb s) (box_of (windows t win)))"
      using mark_dirty_ok [of ?v "win_w ?w + 1" "win_h ?w + 1" ?x ?y] ok one by (simp add: fb w box_of_def add.assoc del: of_nat_unat)
    ultimately show "dirty_area (g_dirty ?z) = hull (hull (dirty_area (g_dirty s)) (clip (fb s) (box_of ?w))) (clip (fb s) (box_of (windows ?z win)))"
      by simp
  qed
qed

interpretation desk: mouse_client on_mouse_click on_mouse_move ui_ok div_trap
proof
  fix s t :: "'a desktop_state_scheme"
  show "ui_ok t" if "fb t = fb s" "mouse_state.more t = mouse_state.more s" "ui_ok s"
    using ui_ok_cong [OF that(1,2)] that(3) by simp
  show "div_trap t \<longleftrightarrow> div_trap s" if "mouse_state.more t = mouse_state.more s"
    using div_trap_cong [OF that] .
next
  fix x y b and s :: "'a desktop_state_scheme"
  assume "driver_ok s" "ui_ok s" "\<not> div_trap s"
  then show "\<exists>s'. on_mouse_click x y b s = Some s' \<and> driver_ok s' \<and> ui_ok s' \<and> client_frame s s'"
    using click_desk [of s x y b] by (auto simp: returns_def desk_step_def)
next
  fix dx dy and s :: "'a desktop_state_scheme"
  assume s: "driver_ok s" "ui_ok s"
  have "returns (on_mouse_move dx dy s) (desk_step s)"
  proof (cases "g_drag_win s")
    case None
    then show ?thesis
      using desk_step_refl [OF s] by (simp add: on_mouse_move_def)
  next
    case (Some win)
    show ?thesis
      by (rule returns_mono [OF move_ok [OF s Some]]) (erule conjunct1)
  qed
  then show "\<exists>s'. on_mouse_move dx dy s = Some s' \<and> driver_ok s' \<and> ui_ok s' \<and> client_frame s s'"
    by (auto simp: returns_def desk_step_def)
qed

text \<open>In every state that satisfies the invariants of the driver and of the windows, and in which no trapping
  division is pending in the calculator, the handler of the mouse interrupt, with the callbacks of
  the desktop, returns in such a state again and has changed memory only inside the framebuffer.\<close>

theorem mouse_interrupt_safe:
  fixes s :: "'a desktop_state_scheme"
  assumes "driver_ok s" and "ui_ok s" and "\<not> div_trap s"
  shows "\<exists>s'. mouse_handle_interrupt (Some on_mouse_click) (Some on_mouse_move) s = Some s' \<and> driver_ok s' \<and> ui_ok s' \<and>
    fb s' = fb s \<and> (\<forall>a. a \<notin> fb_bytes (fb s) \<longrightarrow> vram s' a = vram s a)"
  using desk.interrupt_ok [of s] assms by (auto simp: desk.good_def confined_def)

text \<open>C35: a movement while a window is dragged moves that window by the displacement (upwards is positive for the
  mouse), keeps a grip of its title bar on the screen, moves no other window, and marks the old
  and the new box with their borders for repainting.\<close>

theorem drag_moves_window:
  assumes "driver_ok s" and "ui_ok s" and "g_drag_win s = Some win" and "30 \<le> unat (fb_width (fb s))"
  shows "\<exists>t. on_mouse_move dx dy s = Some t \<and>
    sint (win_x (windows t win)) = max 0 (min (int (unat (fb_width (fb s))) - 30) (sint (win_x (windows s win) + dx))) \<and>
    sint (win_y (windows t win)) = max 0 (min (int (unat (fb_height (fb s))) - 26) (sint (win_y (windows s win) - dy))) \<and>
    (\<forall>v. v \<noteq> win \<longrightarrow> windows t v = windows s v) \<and> g_windows t = g_windows s \<and>
    dirty_area (g_dirty t) = hull (hull (dirty_area (g_dirty s)) (clip (fb s) (box_of (windows s win)))) (clip (fb s) (box_of (windows t win)))"
proof -
  have sc: "unat (fb_width (fb s)) < 1073741824" "40 \<le> unat (fb_height (fb s))" "unat (fb_height (fb s)) < 1073741824"
    using assms(1) by (simp_all add: driver_ok_def screen_ok_def)
  have l: "sint (fb_width (fb s) - 30) = int (unat (fb_width (fb s))) - 30" "sint (fb_height (fb s) - 26) = int (unat (fb_height (fb s))) - 26"
    using sc assms(4) sint_small [of "fb_width (fb s)"] sint_small [of "fb_height (fb s)"]
    by (subst sint_sub; simp_all del: of_nat_unat)+
  have c: "sint (clamp_window v (fb_width (fb s) - 30)) = max 0 (min (int (unat (fb_width (fb s))) - 30) (sint v))"
    "sint (clamp_window v (fb_height (fb s) - 26)) = max 0 (min (int (unat (fb_height (fb s))) - 26) (sint v))" for v
    using sc assms(4) clamp_window_ok [of "fb_width (fb s) - 30" v] clamp_window_ok [of "fb_height (fb s) - 26" v] unfolding l
    by (simp_all del: of_nat_unat)
  obtain t where t: "on_mouse_move dx dy s = Some t" "g_windows t = g_windows s"
    "windows t = (windows s)(win := (windows s win)
      \<lparr>win_x := clamp_window (win_x (windows s win) + dx) (fb_width (fb s) - MIN_GRIP),
       win_y := clamp_window (win_y (windows s win) - dy) (fb_height (fb s) - TITLE_BAR_H)\<rparr>)"
    "dirty_area (g_dirty t) = hull (hull (dirty_area (g_dirty s)) (clip (fb s) (box_of (windows s win)))) (clip (fb s) (box_of (windows t win)))"
    using move_ok [OF assms(1-3), of dx dy] unfolding returns_def by blast
  show ?thesis
    using t(1,2,4) c by (intro exI [of _ t]) (simp add: t(3) del: of_nat_unat)
qed

text \<open>C34: a click raises the topmost window under the pointer to the top of the stack, keeps the order of the
  others and moves no window in or out; a click beside every window changes nothing.\<close>

theorem wm_click_raises:
  fixes s :: "'a desktop_state_scheme"
  assumes "driver_ok s" and "distinct (g_windows s)"
  shows "\<exists>t. wm_handle_click call_redraw x y b s = Some t \<and> windows t = windows s \<and> mset (g_windows t) = mset (g_windows s) \<and>
    (case wm_find_window_at x y s of
       None \<Rightarrow> g_windows t = g_windows s \<and> (\<forall>w\<in>set (g_windows s). \<not> window_hit_test (windows s w) x y)
     | Some w \<Rightarrow> window_hit_test (windows s w) x y \<and> g_windows t = filter (\<lambda>v. v \<noteq> w) (g_windows s) @ [w] \<and>
         wm_find_window_at x y t = Some w)"
proof -
  obtain t where t: "wm_handle_click call_redraw x y b s = Some t" "draws (s\<lparr>g_windows := click_order s x y\<rparr>) t"
    using calc_wm.handle_click_order [OF assms, of x y b] unfolding returns_def by blast
  have f: "windows t = windows s" "g_windows t = click_order s x y"
    using draws_fields [OF t(2)] by simp_all
  show ?thesis
  proof (cases "wm_find_window_at x y s")
    case None
    then have "\<forall>w\<in>set (g_windows s). \<not> window_hit_test (windows s w) x y"
      by (auto simp: wm_find_window_at_def hit_index_None in_set_conv_nth)
    then show ?thesis
      using t(1) f None by (intro exI [of _ t]) (simp add: click_order_def)
  next
    case (Some w)
    then obtain i where i: "i < length (g_windows s)" "w = g_windows s ! i" "window_hit_test (windows s w) x y"
      by (auto simp: wm_find_window_at_def hit_index_Some)
    have o: "click_order s x y = filter (\<lambda>v. v \<noteq> w) (g_windows s) @ [w]"
      using Some by (simp add: click_order_def)
    have "mset (g_windows t) = mset (g_windows s)"
      using to_top_filter(1) [OF i(1) assms(2)] to_top_permutes [OF i(1)] unfolding f o i(2) by simp
    moreover have "wm_find_window_at x y t = Some w"
      using i(3) f by (simp add: wm_find_window_at_def o nth_append)
    ultimately show ?thesis
      using t(1) f o i(3) Some by (intro exI [of _ t]) simp
  qed
qed

section \<open>The start of the desktop\<close>

text \<open>The static variables as the program is loaded, a usable screen and a live serial line.\<close>

definition desktop_boot :: "'a desktop_state_scheme \<Rightarrow> bool" where
  "desktop_boot s \<longleftrightarrow> screen_ok (fb s) \<and> tx_live (ports s) \<and> 44 < length (idt (itabs s)) \<and> cursor_x s = 0 \<and> cursor_y s = 0 \<and>
     mouse_cycle s = 0 \<and> length (mouse_bytes s) = 3 \<and> g_windows s = [] \<and> btns s = [] \<and> \<not> dirty_valid (g_dirty s) \<and>
     g_pressed_button s = None \<and> g_pending_op s = 0 \<and> g_drag_win s = None"

lemma say_ports: "driver_ok s \<Longrightarrow> returns (say ps s) (\<lambda>t. \<exists>p. t = s\<lparr>ports := p\<rparr> \<and> driver_ok t)"
  using say_driver_ok [of s ps] by (auto simp: returns_def)

lemma test_picture_confined:
  assumes "fb_ok f"
  shows "returns (draw_test_picture f m) (confined f m)"
  unfolding draw_test_picture_def Let_def
proof (rule returns_bind [OF draw_rect_confined [OF assms]], rule returns_bind)
  fix m1
  assume c: "confined f (fill_rect f (fill_rect f m 0 0 (fb_width f - 1) (fb_height f - 1) (make_color f 0x20 0x20 0x30)) 400 300 200 100
      (make_color f 0xFF 0xFF 0x00)) m1"
  show "returns (draw_line f m1 100 100 900 650 (make_color f 0x00 0xFF 0xFF)) (confined f m)"
  proof -
    obtain ps where "draw_line f m1 100 100 900 650 (make_color f 0x00 0xFF 0xFF) = Some (plot f (make_color f 0x00 0xFF 0xFF) ps m1)"
      using draw_line_returns [of f m1 100 100 900 650 "make_color f 0x00 0xFF 0xFF"] by blast
    then show ?thesis
      using confined_trans [OF confined_trans [OF fill_rect_confined [OF assms] confined_trans [OF fill_rect_confined [OF assms] c]]
        plot_confined [OF assms]] by simp
  qed
qed (simp add: paint_trans assms)

lemma draws_same:
  assumes "draws s t"
  shows "driver_ok s \<Longrightarrow> driver_ok t" "fb t = fb s" "mouse_state.more t = mouse_state.more s"
  using drawsD [OF assms] by blast+

lemma start_mouse_ok:
  assumes "desktop_boot s"
  shows "returns (start_mouse lm s) (\<lambda>t. driver_ok t \<and> fb t = fb s \<and> mouse_state.more t = mouse_state.more s)"
proof -
  have d: "driver_ok s"
    using assms by (auto simp: desktop_boot_def driver_ok_def screen_ok_def coord_ok_def)
  show ?thesis
    unfolding start_mouse_def
  proof (rule returns_bind [OF say_ports [OF d]], elim exE conjE)
    fix t p
    assume t: "t = s\<lparr>ports := p\<rparr>" "driver_ok t"
    show "returns (do { m \<leftarrow> draw_test_picture (fb t) (vram t); s \<leftarrow> say [Str (''FB: Phase 10 drawing complete.'' @ newline)] (t\<lparr>vram := m\<rparr>); s \<leftarrow> say [Str (newline @ ''=== Phase 11b: Mouse ==='' @ newline)] s; s \<leftarrow> mouse_init lm s; say [Str (newline @ ''=== Phase 13c: Window Manager ==='' @ newline)] s })
        (\<lambda>t. driver_ok t \<and> fb t = fb s \<and> mouse_state.more t = mouse_state.more s)"
    proof (rule returns_bind [OF test_picture_confined [OF driver_fb [OF t(2)]]])
      fix m
      assume "confined (fb t) (vram t) m"
      have m: "driver_ok (t\<lparr>vram := m\<rparr>)"
        using t(2) by (simp add: driver_ok_def)
      show "returns (do { s \<leftarrow> say [Str (''FB: Phase 10 drawing complete.'' @ newline)] (t\<lparr>vram := m\<rparr>); s \<leftarrow> say [Str (newline @ ''=== Phase 11b: Mouse ==='' @ newline)] s; s \<leftarrow> mouse_init lm s; say [Str (newline @ ''=== Phase 13c: Window Manager ==='' @ newline)] s })
          (\<lambda>t. driver_ok t \<and> fb t = fb s \<and> mouse_state.more t = mouse_state.more s)"
      proof (rule returns_bind [OF say_ports [OF m]], elim exE conjE, rule returns_bind [OF say_ports], assumption, elim exE conjE)
        fix u v q r
        assume u: "u = t\<lparr>vram := m, ports := q\<rparr>" "driver_ok u" and v: "v = u\<lparr>ports := r\<rparr>" "driver_ok v"
        have i: "tx_live (ports v)" "screen_ok (fb v)" "length (mouse_bytes v) = 3" "mouse_cycle v = 0" "44 < length (idt (itabs v))"
          using v(2) assms by (simp_all add: driver_ok_def desktop_boot_def v(1) u(1) t(1))
        have "returns (mouse_init lm v) (\<lambda>w. driver_ok w \<and> fb w = fb v \<and> mouse_state.more w = mouse_state.more v)"
          using mouse_init_ok [OF i, of lm] unfolding returns_def by blast
        then show "returns (do { s \<leftarrow> mouse_init lm v; say [Str (newline @ ''=== Phase 13c: Window Manager ==='' @ newline)] s }) (\<lambda>t. driver_ok t \<and> fb t = fb s \<and> mouse_state.more t = mouse_state.more s)"
        proof (rule returns_bind, elim conjE)
          fix w
          assume w: "driver_ok w" "fb w = fb v" "mouse_state.more w = mouse_state.more v"
          then show "returns (say [Str (newline @ ''=== Phase 13c: Window Manager ==='' @ newline)] w) (\<lambda>t. driver_ok t \<and> fb t = fb s \<and> mouse_state.more t = mouse_state.more s)"
            by (intro returns_mono [OF say_draws]) (auto dest: draws_same simp: v(1) u(1) t(1))
        qed
      qed
    qed
  qed
qed

lemma windows_upper [simp]:
  "driver_ok (s\<lparr>windows := v\<rparr>) \<longleftrightarrow> driver_ok s" "core_of (c\<lparr>windows := v\<rparr>) = core_of c" "core_of (c\<lparr>g_windows := ws\<rparr>) = core_of c"
  by (simp_all add: driver_ok_def core_of_def)

lemma draws_drag: "draws s t \<Longrightarrow> g_drag_win t = g_drag_win s"
  using drawsD(4) [of s t] by (cases s; cases t) simp

lemma add_first_windows:
  "g_windows s = [] \<Longrightarrow> wm_add_window c (wm_add_window b (wm_add_window a s)) = s\<lparr>g_windows := [a, b, c]\<rparr>"
  by (simp add: wm_add_window_def)

lemma start_windows_ok:
  assumes "driver_ok s" "g_windows s = []" "btns s = []" "\<not> dirty_valid (g_dirty s)" "g_pressed_button s = None" "g_pending_op s = 0"
    "g_drag_win s = None"
  shows "returns (start_windows s) (\<lambda>t. driver_ok t \<and> ui_ok t \<and> \<not> div_trap t \<and> fb t = fb s \<and>
    g_windows t = [Win_A, Win_B, Win_C, Calc_Win] \<and> length (btns t) = 16 \<and> g_drag_win t = None)"
proof -
  define v where "v = (windows s)(
       Win_A := demo_window (fb s) 50 60 ''Demo A'' (make_color (fb s) 0x80 0x30 0x20) (make_color (fb s) 0xFF 0xE8 0xE0) (windows s Win_A),
       Win_B := demo_window (fb s) 160 120 ''Demo B'' (make_color (fb s) 0x20 0x70 0x30) (make_color (fb s) 0xE0 0xFF 0xE0) (windows s Win_B),
       Win_C := demo_window (fb s) 270 180 ''Demo C'' (make_color (fb s) 0x20 0x30 0x80) (make_color (fb s) 0xE0 0xE8 0xFF) (windows s Win_C))"
  have v: "win_w (v w) = 220 \<and> win_h (v w) = 160" if "w \<noteq> Calc_Win" for w
    using that by (cases w) (simp_all add: v_def demo_window_def)
  let ?s = "s\<lparr>windows := v, g_windows := [Win_A, Win_B, Win_C]\<rparr>"
  have d: "driver_ok ?s"
    using assms(1) by simp
  have add: "wm_add_window Win_C (wm_add_window Win_B (wm_add_window Win_A (s\<lparr>windows := v\<rparr>))) = ?s"
    using assms(2) by (intro add_first_windows) simp
  have "returns (do { s \<leftarrow> wm_draw_all call_redraw ?s; s \<leftarrow> say [Str (''WM: 3 windows drawn (A bottom, C top).'' @ newline)] s;
      say [Str (newline @ ''=== Phase 15: Calculator ==='' @ newline)] s }) (draws ?s)"
    by (rule draws_bind [OF calc_wm.draw_all_draws [OF d]], rule draws_bind [OF say_draws], erule drawsD(1), rule d, rule say_draws)
      (blast intro: d drawsD(1))
  moreover have "returns (calc_init t) (\<lambda>t. driver_ok t \<and> ui_ok t \<and> \<not> div_trap t \<and> fb t = fb s \<and>
      g_windows t = [Win_A, Win_B, Win_C, Calc_Win] \<and> length (btns t) = 16 \<and> g_drag_win t = None)" if t: "draws ?s t" for t
  proof -
    note f = draws_fields [OF t]
    have td: "driver_ok t" "btns t = []" "length (g_windows t) < MAX_WINDOWS"
      using f assms(3) drawsD(1) [OF t d] by simp_all
    note c = calc_setup_facts [OF td(2,3,1)]
    show ?thesis
    proof (rule returns_mono [OF calc_init_draws [OF c(1)]])
      fix u
      assume u: "draws (calc_setup t) u"
      note g = draws_fields [OF u]
      have ws: "g_windows u = [Win_A, Win_B, Win_C, Calc_Win]"
        using g(5) c(2) f(5) by simp
      have sz: "unat (win_w (windows u w)) < 1073741824 \<and> unat (win_h (windows u w)) < 1073741824" for w
      proof (cases "w = Calc_Win")
        case True
        then show ?thesis
          using g(1) c(10,11) by simp
      next
        case False
        then show ?thesis
          using g(1) c(9) [OF False] f(1) v [OF False] by simp
      qed
      have "core_of u = core_of s"
        using more_calc(1) [OF drawsD(4) [OF u]] c(6) more_calc(1) [OF drawsD(4) [OF t]] by simp
      then have "\<not> div_trap u"
        using assms(6) by (simp add: core_of_def div_trap_def)
      moreover have "ui_ok u"
        using ws sz g(6,3) c(4,5) f(6,3) assms(4,5) by (simp add: ui_ok_def dirty_ok_def pressed_ok_def)
      moreover have "g_drag_win u = None"
      proof -
        have "calc_state.more u = calc_state.more t"
          using more_calc(2) [OF drawsD(4) [OF u]] c(8) by simp
        then have "g_drag_win u = g_drag_win t"
          by (cases u; cases t) simp
        then show ?thesis
          using draws_drag [OF t] assms(7) by simp
      qed
      ultimately show "driver_ok u \<and> ui_ok u \<and> \<not> div_trap u \<and> fb u = fb s \<and>
          g_windows u = [Win_A, Win_B, Win_C, Calc_Win] \<and> length (btns u) = 16 \<and> g_drag_win u = None"
        using drawsD(1) [OF u c(1)] ws g(2,8) c(3,7) f(8) by simp
    qed
  qed
  moreover have "start_windows s = do { s \<leftarrow> wm_draw_all call_redraw ?s; s \<leftarrow> say [Str (''WM: 3 windows drawn (A bottom, C top).'' @ newline)] s;
      say [Str (newline @ ''=== Phase 15: Calculator ==='' @ newline)] s } \<bind> calc_init"
    unfolding start_windows_def v_def [symmetric] Let_def add by simp
  ultimately show ?thesis
    by (simp only:) (erule returns_bind, blast)
qed

text \<open>C36: from the zeroed static variables, with a usable screen and a live serial line, the start of the desktop
  returns in a state that satisfies all the invariants the mouse interrupt needs, with the three
  demonstration windows and the calculator on top of them and its sixteen buttons.\<close>

theorem desktop_start_correct:
  assumes "desktop_boot s"
  shows "\<exists>t. desktop_start lm s = Some t \<and> driver_ok t \<and> ui_ok t \<and> \<not> div_trap t \<and> fb t = fb s \<and>
    g_windows t = [Win_A, Win_B, Win_C, Calc_Win] \<and> length (btns t) = 16 \<and> g_drag_win t = None"
proof -
  obtain u where u: "start_mouse lm s = Some u" "driver_ok u" "fb u = fb s" "mouse_state.more u = mouse_state.more s"
    using start_mouse_ok [OF assms, of lm] unfolding returns_def by blast
  note f = more_fields [OF u(4)]
  have "g_pending_op u = g_pending_op s" "g_drag_win u = g_drag_win s"
    using u(4) by (cases u; cases s; simp)+
  then have "returns (start_windows u) (\<lambda>t. driver_ok t \<and> ui_ok t \<and> \<not> div_trap t \<and> fb t = fb u \<and>
      g_windows t = [Win_A, Win_B, Win_C, Calc_Win] \<and> length (btns t) = 16 \<and> g_drag_win t = None)"
    using assms f by (intro start_windows_ok [OF u(2)]) (simp_all add: desktop_boot_def)
  then show ?thesis
    using u(1,3) unfolding desktop_start_def returns_def by simp
qed

section \<open>Witnesses\<close>

definition boot_example :: desktop_state where
  "boot_example = \<lparr>fb = fb_example, vram = (\<lambda>_. 0), ports = io_example, itabs = tables_example, cursor_x = 0, cursor_y = 0,
     cursor_old_x = 0, cursor_old_y = 0, cursor_visible = False, cursor_backup = [], mouse_cycle = 0, mouse_bytes = [0, 0, 0],
     packet_count = 0, first_packet = True, last_buttons = 0, windows = (\<lambda>_. window_example), btns = [], g_pressed_button = None,
     g_pressed_parent = None, g_windows = [], g_dirty = \<lparr>dirty_x = 0, dirty_y = 0, dirty_w = 0, dirty_h = 0, dirty_valid = False\<rparr>,
     g_accumulator = 0, g_current = 0, g_pending_op = 0, g_entering = False, g_drag_win = None, g_drag_move_diag = 0\<rparr>"

definition desktop_example :: desktop_state where
  "desktop_example = boot_example\<lparr>windows := (windows boot_example)(Win_B := window_example\<lparr>win_x := 150, win_y := 100\<rparr>),
     g_windows := [Win_B, Win_A], g_drag_win := Some Win_A, mouse_cycle := 2, mouse_bytes := [9, 5, 0], first_packet := False\<rparr>"

lemma boot_example_ok: "desktop_boot boot_example"
  using screen_example_ok io_example_live by (simp add: desktop_boot_def boot_example_def tables_example_def)

lemma desktop_example_ok:
  "driver_ok desktop_example" "ui_ok desktop_example" "\<not> div_trap desktop_example" "distinct (g_windows desktop_example)"
  "g_drag_win desktop_example = Some Win_A" "30 \<le> unat (fb_width (fb desktop_example))"
  using screen_example_ok io_example_live
  by (simp_all add: desktop_example_def boot_example_def driver_ok_def coord_ok_def fb_example_def ui_ok_def dirty_ok_def pressed_ok_def
    div_trap_def window_example_def)

theorem desktop_start_correct_witness:
  "\<exists>t. desktop_start link_example boot_example = Some t \<and> g_windows t = [Win_A, Win_B, Win_C, Calc_Win]"
  using desktop_start_correct [OF boot_example_ok, of link_example] by blast

theorem mouse_interrupt_safe_witness:
  "\<exists>s'. mouse_handle_interrupt (Some on_mouse_click) (Some on_mouse_move) desktop_example = Some s' \<and> driver_ok s' \<and> ui_ok s'"
  using mouse_interrupt_safe [OF desktop_example_ok(1-3)] by blast

theorem drag_moves_window_witness:
  "\<exists>t. on_mouse_move 7 100 desktop_example = Some t \<and> sint (win_x (windows t Win_A)) = 57 \<and> sint (win_y (windows t Win_A)) = 0"
  using drag_moves_window [OF desktop_example_ok(1,2,5,6), of 7 100]
  by (auto simp: desktop_example_def boot_example_def window_example_def fb_example_def)

theorem wm_click_raises_witness:
  "\<exists>t. wm_handle_click call_redraw 300 200 1 desktop_example = Some t \<and> g_windows t = [Win_A, Win_B]"
proof -
  have "wm_find_window_at 300 200 desktop_example = Some Win_B"
    by (simp add: wm_find_window_at_def desktop_example_def boot_example_def window_example_def window_hit_test_def
      word_sless_alt word_sle_eq numeral_2_eq_2)
  then show ?thesis
    using wm_click_raises [OF desktop_example_ok(1,4), of 300 200 1] by (auto simp: desktop_example_def)
qed

end
