(* ===== verification/Interrupts.thy ===== *)
theory Interrupts
  imports Desktop Task
begin

text \<open>
  The handlers behind the interrupt stubs: \<open>arch/x86/irq_handler.c\<close> (timer and mouse) and
  \<open>arch/x86/exception.c\<close>.
\<close>

section \<open>State\<close>

text \<open>
  The desktop (with the ports and the framebuffer), the scheduler's state (with the kernel's memory)
  and the tick counter. The mouse handler changes memory only in the framebuffer
  (\<open>interrupt_ok\<close>), which the kernel's data does not share.
\<close>

record irq_state =
  desk :: desktop_state
  sched :: task_state
  tick_count :: u32

text \<open>\<open>registers_t\<close>, what the stubs push.\<close>

record registers =
  reg_edi :: u32
  reg_esi :: u32
  reg_ebp :: u32
  reg_old_esp :: u32
  reg_ebx :: u32
  reg_edx :: u32
  reg_ecx :: u32
  reg_eax :: u32
  int_no :: u32
  err_code :: u32
  reg_eip :: u32
  reg_cs :: u32
  reg_eflags :: u32

section \<open>Hardware interrupts\<close>

text \<open>The CPU state is the one at the call of \<open>switch_to\<close> in \<open>task_yield\<close>, as in \<^term>\<open>task_yield\<close>.\<close>

definition irq_handler :: "registers \<Rightarrow> irq_state \<Rightarrow> cpu \<Rightarrow> (irq_state \<times> cpu) option" where
  "irq_handler r s c = do {
     s \<leftarrow> (if int_no r = 32
           then let s = s\<lparr>tick_count := tick_count s + 1\<rparr>
                in if tick_count s mod 50 = 0
                   then do { d \<leftarrow> say [Str ''tick '', Hex (tick_count s), Str newline] (desk s); Some (s\<lparr>desk := d\<rparr>) }
                   else Some s
           else Some s);
     s \<leftarrow> (if int_no r = 44
           then do { d \<leftarrow> mouse_handle_interrupt (Some on_mouse_click) (Some on_mouse_move) (desk s); Some (s\<lparr>desk := d\<rparr>) }
           else Some s);
     let s = s\<lparr>desk := (desk s)\<lparr>ports := pic_send_eoi (ports (desk s)) (ucast (int_no r - 32))\<rparr>\<rparr>;
     if int_no r = 32
     then do { (t, c) \<leftarrow> task_yield (sched s) c; Some (s\<lparr>sched := t\<rparr>, c) }
     else Some (s, c) }"

definition irq_init :: "link_map \<Rightarrow> 'a gfx_state_scheme \<Rightarrow> 'a gfx_state_scheme option" where
  "irq_init lm s =
     (let s = s\<lparr>itabs := idt_set_gate 32 (irq0_entry lm) 0x08 0x8E (itabs s)\<rparr>;
          p = outb (ports s) 0x20 0x20;
          p = outb p 0xA0 0x20;
          (m1, p) = inb p 0x21;
          m1 = m1 OR push_bit 1 1;
          p = outb p 0x21 m1
      in say [Str (''IRQ0 timer handler wired (vector 32), IRQ1 masked.'' @ newline)] (s\<lparr>ports := p\<rparr>))"

section \<open>Exceptions\<close>

definition exception_names :: "string list" where
  "exception_names =
     [''#DE Divide Error'', ''#DB Debug'', ''NMI'', ''#BP Breakpoint'', ''#OF Overflow'', ''#BR BOUND Range Exceeded'',
      ''#UD Invalid Opcode'', ''#NM Device Not Available'', ''#DF Double Fault'', ''Coprocessor Segment Overrun'',
      ''#TS Invalid TSS'', ''#NP Segment Not Present'', ''#SS Stack-Segment Fault'', ''#GP General Protection Fault'',
      ''#PF Page Fault'', ''Reserved (15)'', ''#MF x87 FPU Error'', ''#AC Alignment Check'', ''#MC Machine Check'',
      ''#XM SIMD FP Exception'', ''#VE Virtualization Exception'', ''#CP Control Protection Exception'',
      ''Reserved (22)'', ''Reserved (23)'', ''Reserved (24)'', ''Reserved (25)'', ''Reserved (26)'', ''Reserved (27)'',
      ''Reserved (28)'', ''Reserved (29)'', ''Reserved (30)'', ''Reserved (31)'']"

text \<open>
  The result is the state of the ports in which the function enters its endless \<open>hlt\<close> loop; it never
  returns to the code that raised the exception. \<open>cr2_val\<close> is the faulting address.
\<close>

definition isr_handler :: "registers \<Rightarrow> u32 \<Rightarrow> 'a task_state_scheme \<Rightarrow> io_state \<Rightarrow> io_state option" where
  "isr_handler r cr2_val t p = do {
     p \<leftarrow> print_all p [Str newline, Str (''=== EXCEPTION ==='' @ newline)];
     p \<leftarrow> (if int_no r < 32
           then print_all p [Str ''  '', Str (exception_names ! unat (int_no r)), Str newline]
           else Some p);
     p \<leftarrow> print_all p [Str ''  Vector:  '', Hex (int_no r), Str newline, Str ''  ErrCode: '', Hex (err_code r), Str newline,
            Str ''  CR2:     '', Hex cr2_val, Str newline];
     p \<leftarrow> (if task_current t \<noteq> 0
           then do { cur \<leftarrow> tasks t (task_current t);
                     print_all p [Str ''  Task:    id='', Hex (t_id cur), Str '' cr3='', Hex (t_cr3 cur), Str newline] }
           else Some p);
     print_all p [Str ''  EIP:     '', Hex (reg_eip r), Str ''  CS: '', Hex (reg_cs r), Str ''  EFLAGS: '', Hex (reg_eflags r), Str newline,
       Str ''  EAX='', Hex (reg_eax r), Str ''  EBX='', Hex (reg_ebx r), Str ''  ECX='', Hex (reg_ecx r), Str ''  EDX='', Hex (reg_edx r),
       Str newline, Str ''  ESI='', Hex (reg_esi r), Str ''  EDI='', Hex (reg_edi r), Str ''  EBP='', Hex (reg_ebp r),
       Str ''  ESP='', Hex (reg_old_esp r), Str newline, Str (''=== HALT ==='' @ newline)] }"

section \<open>The timer and the mouse\<close>

lemma eoi_step:
  assumes "io_step p0 ws p"
  shows "io_step p0 (ws @ (if 8 \<le> irq then [(PIC2_CMD, 0x20), (PIC1_CMD, 0x20)] else [(PIC1_CMD, 0x20)])) (pic_send_eoi p irq)"
  using io_step_append [OF assms io_step_outb [of PIC1_CMD p "0x20"] refl]
    io_step_append [OF io_step_append [OF assms io_step_outb [of PIC2_CMD p "0x20"] refl] io_step_outb [of PIC1_CMD _ "0x20"] refl]
  by (simp add: pic_send_eoi_def)

lemma tick_ok:
  assumes "tx_live (ports d)"
  shows "\<exists>p. (if n mod 50 = (0 :: u32) then say [Str ''tick '', Hex n, Str newline] d else Some d) = Some (d\<lparr>ports := p\<rparr>) \<and>
    io_step (ports d) [] p \<and> tx_live p"
  using say_step [OF io_step_refl assms, of "[Str ''tick '', Hex n, Str newline]" d] io_step_refl [of "ports d"] assms
  by (cases "n mod 50 = 0") (simp, intro exI [of _ "ports d"], simp)


text \<open>C40: the interrupt of the mouse, from a state of the desktop that satisfies its invariants with no trapping
  division pending, returns to the interrupted code without a task switch, with the interrupt
  acknowledged last, first at the second controller and then at the first.\<close>

theorem mouse_irq_correct:
  assumes "int_no r = 44" and "driver_ok (desk s)" and "ui_ok (desk s)" and "\<not> div_trap (desk s)"
  shows "\<exists>s' ws. irq_handler r s k = Some (s', k) \<and> sched s' = sched s \<and> tick_count s' = tick_count s \<and>
    outs (ports (desk s')) = ws @ [(PIC2_CMD, 0x20), (PIC1_CMD, 0x20)] \<and> driver_ok (desk s') \<and> ui_ok (desk s') \<and>
    (\<forall>a. a \<notin> fb_bytes (fb (desk s)) \<longrightarrow> vram (desk s') a = vram (desk s) a)"
proof -
  obtain d where d: "mouse_handle_interrupt (Some on_mouse_click) (Some on_mouse_move) (desk s) = Some d" "driver_ok d" "ui_ok d"
    "confined (fb (desk s)) (vram (desk s)) (vram d)"
    using desk.interrupt_ok [of "desk s"] assms(2-4) unfolding desk.good_def by blast
  let ?d = "d\<lparr>ports := pic_send_eoi (ports d) 12\<rparr>"
  have "tx_live (pic_send_eoi (ports d) 12)"
    using d(2) eoi_step [OF io_step_refl, of "ports d" 12] by (simp add: io_step_def driver_ok_def)
  then have "driver_ok ?d"
    using d(2) by (simp add: driver_ok_def)
  moreover have "ui_ok ?d"
    using d(3) ui_ok_cong [of ?d d] by simp
  moreover have "irq_handler r s k = Some (s\<lparr>desk := ?d\<rparr>, k)"
    using d(1) assms(1) by (simp add: irq_handler_def Let_def)
  ultimately show ?thesis
    using d(4) eoi_writes [of "ports d" 12] by (intro exI [of _ "s\<lparr>desk := ?d\<rparr>"] exI [of _ "outs (ports d)"]) (simp add: confined_def)
qed

text \<open>A handler that traps leaves the controllers without an acknowledgement: the interrupt is never completed.\<close>

lemma mouse_irq_trap:
  "int_no r = 44 \<Longrightarrow> mouse_handle_interrupt (Some on_mouse_click) (Some on_mouse_move) (desk s) = None \<Longrightarrow> irq_handler r s k = None"
  by (simp add: irq_handler_def Let_def)

section \<open>The report of an exception\<close>

text \<open>What an exception prints, for a current task or none.\<close>

definition isr_report :: "registers \<Rightarrow> u32 \<Rightarrow> task option \<Rightarrow> piece list" where
  "isr_report r cr2_val cur =
     [Str newline, Str (''=== EXCEPTION ==='' @ newline)] @
     (if int_no r < 32 then [Str ''  '', Str (exception_names ! unat (int_no r)), Str newline] else []) @
     [Str ''  Vector:  '', Hex (int_no r), Str newline, Str ''  ErrCode: '', Hex (err_code r), Str newline,
      Str ''  CR2:     '', Hex cr2_val, Str newline] @
     (case cur of None \<Rightarrow> [] | Some x \<Rightarrow> [Str ''  Task:    id='', Hex (t_id x), Str '' cr3='', Hex (t_cr3 x), Str newline]) @
     [Str ''  EIP:     '', Hex (reg_eip r), Str ''  CS: '', Hex (reg_cs r), Str ''  EFLAGS: '', Hex (reg_eflags r), Str newline,
       Str ''  EAX='', Hex (reg_eax r), Str ''  EBX='', Hex (reg_ebx r), Str ''  ECX='', Hex (reg_ecx r), Str ''  EDX='', Hex (reg_edx r),
       Str newline, Str ''  ESI='', Hex (reg_esi r), Str ''  EDI='', Hex (reg_edi r), Str ''  EBP='', Hex (reg_ebp r),
       Str ''  ESP='', Hex (reg_old_esp r), Str newline, Str (''=== HALT ==='' @ newline)]"

lemma print_all_append: "print_all p (xs @ ys) = print_all p xs \<bind> (\<lambda>p. print_all p ys)"
proof (induction xs arbitrary: p)
  case (Cons x xs)
  then show ?case
    by (cases "print_piece p x") simp_all
qed simp

lemma isr_handler_reports:
  assumes "(task_current t = 0 \<and> cur = None) \<or> (task_current t \<noteq> 0 \<and> cur = tasks t (task_current t) \<and> cur \<noteq> None)"
  shows "isr_handler r cr2_val t p = print_all p (isr_report r cr2_val cur)"
  using assms unfolding isr_handler_def isr_report_def print_all_append
  by (auto simp del: print_all.simps simp: print_all.simps(1) simp flip: newline_def)

section \<open>Witnesses\<close>

definition timer_registers :: registers where
  "timer_registers = \<lparr>reg_edi = 0, reg_esi = 0, reg_ebp = 0, reg_old_esp = 0, reg_ebx = 0, reg_edx = 0, reg_ecx = 0, reg_eax = 0,
     int_no = 32, err_code = 0, reg_eip = 0x800000, reg_cs = 0x1B, reg_eflags = 0x202\<rparr>"

definition irq_example :: irq_state where
  "irq_example = \<lparr>desk = desktop_example, sched = idle_example, tick_count = 49\<rparr>"


theorem mouse_irq_correct_witness:
  "\<exists>s' ws. irq_handler (timer_registers\<lparr>int_no := 44\<rparr>) irq_example \<lparr>r_ebx = 0, r_esi = 0, r_edi = 0, r_ebp = 0, r_esp = 0, r_eip = 0\<rparr> =
       Some (s', \<lparr>r_ebx = 0, r_esi = 0, r_edi = 0, r_ebp = 0, r_esp = 0, r_eip = 0\<rparr>) \<and>
     outs (ports (desk s')) = ws @ [(PIC2_CMD, 0x20), (PIC1_CMD, 0x20)]"
proof -
  have "int_no (timer_registers\<lparr>int_no := 44\<rparr>) = 44" "driver_ok (desk irq_example)" "ui_ok (desk irq_example)" "\<not> div_trap (desk irq_example)"
    using desktop_example_ok by (simp_all add: irq_example_def)
  from mouse_irq_correct [OF this, of "\<lparr>r_ebx = 0, r_esi = 0, r_edi = 0, r_ebp = 0, r_esp = 0, r_eip = 0\<rparr>"] show ?thesis
    by blast
qed

end
