(* ===== verification/Boot.thy ===== *)
theory Boot
  imports VFS Multiboot
begin

text \<open>
  The memory part of \<open>kmain\<close> (\<open>kernel/main.c\<close>): boot information, page allocator, page tables and heap,
  in the order in which the kernel brings them up, each working on what the one before it left.
  The theorems follow the components from the bytes the boot loader leaves in memory to a heap and
  a mounted file system: the contract of each component gives the assumptions of the next.
\<close>

section \<open>Bringing up the memory\<close>

text \<open>\<open>kernel_end\<close> is the linker symbol \<open>_kernel_end\<close>. The page that \<open>kmain\<close> takes to test the allocator is
  never given back. The self-test \<open>heap_tests\<close> that follows is left out.\<close>

definition kernel_memory ::
    "u32 \<Rightarrow> u32 \<Rightarrow> u32 \<Rightarrow> boot_info \<Rightarrow> 'a paging_state_scheme \<Rightarrow> (boot_info \<times> 'a paging_state_scheme) option" where
  "kernel_memory kernel_end magic info st s =
     do { st \<leftarrow> multiboot_parse (memory s) magic info st;
          p \<leftarrow> pmm_init kernel_end (mem_map st);
          let (test_page, p) = pmm_alloc_page p;
          let s = paging_init (s\<lparr>pmm := p\<rparr>) (top_of_memory (mem_map st));
          let s = paging_unmap_null_page s;
          Some (st, kheap_init s) }"

section \<open>Where the allocator starts\<close>

text \<open>The end of the allocator's bitmap, which follows the kernel image.\<close>

definition bitmap_end :: "u32 \<Rightarrow> u32 \<Rightarrow> u32" where
  "bitmap_end kernel_end top_mem =
     ((kernel_end + PAGE_SIZE - 1) AND NOT (PAGE_SIZE - 1)) +
     (((top_mem - MANAGED_BASE) div PAGE_SIZE + 7) div 8 + PAGE_SIZE - 1) div PAGE_SIZE * PAGE_SIZE"

lemma free_region_pages_first_free:
  assumes "free_region_pages s a e = Some s'"
  shows "first_free s' = first_free s"
  using assms
proof (rule free_region_pages.raw_induct [where P = "\<lambda>s a e s'. first_free s' = first_free s", rotated])
  fix f s a e s'
  assume ih: "\<And>s a e s'. f s a e = Some s' \<Longrightarrow> first_free s' = first_free s"
    and step: "(if a < e then f (if a < first_free s then s
        else (mark_free s (unat ((a - MANAGED_BASE) div PAGE_SIZE)))\<lparr>free_pages := free_pages s + 1\<rparr>) (a + PAGE_SIZE) e
      else Some s) = Some s'"
  show "first_free s' = first_free s"
    using step by (auto split: if_splits dest!: ih)
qed

lemma free_regions_first_free:
  "free_regions s top_mem rs = Some s' \<Longrightarrow> first_free s' = first_free s"
proof (induction rs arbitrary: s)
  case (Cons r rs)
  then obtain y where y: "free_region_pages s (if reg_base r < MANAGED_BASE then MANAGED_BASE else reg_base r)
      (if reg_base r + reg_length r > top_mem then top_mem else reg_base r + reg_length r) = Some y"
    "free_regions y top_mem rs = Some s'"
    by (auto simp: bind_eq_Some_conv Let_def)
  show ?case
    using Cons.IH [OF y(2)] free_region_pages_first_free [OF y(1)] by simp
qed simp

lemma pmm_init_first_free:
  assumes "pmm_init kernel_end mm = Some p"
  shows "first_free p = bitmap_end kernel_end (top_of_memory mm)"
  using free_regions_first_free [OF assms [unfolded pmm_init_def Let_def]] by (simp add: bitmap_end_def)

section \<open>Kernel pages in order\<close>

text \<open>All kernel pages from page \<open>k\<close> on are free, none before.\<close>

definition free_from :: "pmm_state \<Rightarrow> nat \<Rightarrow> bool" where
  "free_from p k \<longleftrightarrow> pmm_wf p \<and> free_set p \<inter> kernel_zone = {k..<1792}"

definition next_page :: "pmm_state \<Rightarrow> pmm_state" where
  "next_page p = snd (pmm_alloc_page p)"

lemma alloc_next:
  assumes "free_from p k" "k < 1792"
  shows "pmm_alloc_page p = (page_addr k, next_page p)" "free_from (next_page p) (Suc k)"
    "free_set (next_page p) = free_set p - {k}"
proof -
  have z: "pmm_wf p" "free_set p \<inter> kernel_zone = {k..<1792}"
    using assms(1) by (simp_all add: free_from_def)
  then have "free_set p \<inter> kernel_zone \<noteq> {}"
    using assms(2) by simp
  then obtain i q where i: "pmm_alloc_page p = (page_addr i, q)" "i \<in> {k..<1792}" "\<forall>j\<in>{k..<1792}. i \<le> j"
    "pmm_wf q" "free_set q = free_set p - {i}"
    using kernel_page.alloc_page [OF z(1)] unfolding z(2) by blast
  moreover have "i = k"
    using i(2,3) assms(2) by (intro antisym) auto
  moreover have "(free_set p - {k}) \<inter> kernel_zone = {Suc k..<1792}"
  proof -
    have "(free_set p - {k}) \<inter> kernel_zone = {k..<1792} - {k}"
      unfolding z(2) [symmetric] by blast
    also have "\<dots> = {Suc k..<1792}"
      by auto
    finally show ?thesis .
  qed
  ultimately show "pmm_alloc_page p = (page_addr k, next_page p)" "free_from (next_page p) (Suc k)"
    "free_set (next_page p) = free_set p - {k}"
    by (simp_all add: free_from_def next_page_def)
qed

lemma allocs_next:
  assumes "free_from p k" "k + n \<le> 1792"
  shows "free_from ((next_page ^^ n) p) (k + n)"
  using assms(2)
proof (induction n)
  case (Suc n)
  then show ?case
    using alloc_next(2) [of "(next_page ^^ n) p" "k + n"] by simp
qed (simp add: assms(1))

text \<open>Building the page tables takes a page for the directory and one for each table.\<close>

lemma pmm_page_tables:
  "pmm (fold (init_page_table top_mem pd) [0..<n] s) = (next_page ^^ n) (pmm s)"
  by (induction n) (simp_all add: init_page_table_def next_page_def Let_def split_beta)

lemma pmm_paging_init:
  "pmm (paging_init s top_mem) = (next_page ^^ Suc (unat ((top_mem + PT_COVERAGE - 1) div PT_COVERAGE))) (pmm s)"
  unfolding paging_init_def Let_def split_beta funpow_Suc_right by (simp add: pmm_page_tables next_page_def del: funpow.simps)

lemma pmm_unmap [simp]: "pmm (paging_unmap_null_page s) = pmm s"
  by (simp add: paging_unmap_null_page_def Let_def)

section \<open>The heap on free pages\<close>

lemma kheap_init_found:
  assumes z: "free_from (pmm s) k" "k + 16 \<le> 1792"
  obtains i where "k \<le> i" "i + 16 \<le> 1792" "heap_owns (kheap_init s) Map.empty (page_bytes {i..<i + 16})"
    "page_bytes {i..<i + 16} \<subseteq> heap_page_bytes (kheap_init s)" "length (heap_pages (kheap_init s)) = 16"
    "one_block (heap_of (kheap_init s)) (page_addr i) 65536"
    "changes_only (page_bytes {i..<i + 16}) (memory s) (memory (kheap_init s))"
    "{i..<i + 16} \<subseteq> free_set (pmm s)" "free_set (pmm (kheap_init s)) = free_set (pmm s) - {i..<i + 16}"
    "heap_state.more (kheap_init s) = heap_state.more s"
proof -
  have f: "pmm_wf (pmm s)" "free_set (pmm s) \<inter> kernel_zone = {k..<1792}"
    using z(1) by (simp_all add: free_from_def)
  obtain p t where r: "pmm_alloc_contiguous_pages (pmm s) 16 = (p, t)"
    by fastforce
  have "{k..<k + unat (16 :: u32)} \<subseteq> free_set (pmm s) \<inter> kernel_zone"
    unfolding f(2) using z(2) by auto
  then have p: "p \<noteq> 0"
    using kernel_run.run_failed [OF f(1), of 16 t] r by auto
  from kernel_run.run_found [OF f(1) r p] obtain i where i: "p = page_addr i"
    "{i..<i + 16} \<subseteq> free_set (pmm s) \<inter> kernel_zone" "pmm_wf t" "free_set t = free_set (pmm s) - {i..<i + 16}"
    by auto
  have "{i, i + 15} \<subseteq> {k..<1792}"
    using i(2) unfolding f(2) by auto
  then have b: "k \<le> i" "i + 16 \<le> 1792"
    by auto
  let ?s = "s\<lparr>free_head := 0, heap_pages := [], pmm := t\<rparr>"
  have k: "kheap_init s = add_pages ?s p 16"
    using r p by (simp add: kheap_init_def Let_def)
  have w: "heap_wf (memory ?s) (free_head ?s) {} []"
    by (simp add: heap_wf_def heap_core_def dll_def)
  have n: "{i..<i + unat (16 :: u32)} \<subseteq> kernel_zone" "(16 :: u32) \<noteq> 0"
    "\<Union>(extent (memory ?s) ` {}) \<inter> page_bytes {i..<i + unat (16 :: u32)} = {}"
    using b(2) by auto
  note a = add_pages_ok [OF w n, folded i(1), folded k]
  have u: "unat p = 0x100000 + 4096 * i"
    unfolding i(1) using b(2) by (intro kernel_page_addr(1)) simp
  have inv: "heap_inv (kheap_init s) {p} [p]"
    using a(1,4,5) i(3,4) by (auto simp: heap_inv_def mem_page_bytes)
  have ext: "\<Union>(extent (memory (kheap_init s)) ` {p}) = page_bytes {i..<i + 16}"
    using a(4) by simp
  have A: "alloc_map (memory (kheap_init s)) {p} = Map.empty"
    unfolding a(2) by (auto simp: alloc_map_def)
  have own: "heap_owns (kheap_init s) Map.empty (page_bytes {i..<i + 16})"
    unfolding heap_owns_def A [symmetric] ext [symmetric] using inv by blast
  have h: "header_ok p" "p \<noteq> 0" "unat p + 65536 < 4294967296"
    using u b(2) by (auto simp: header_ok_def u32_eq_iff intro!: dvd_add)
  have "free_head (kheap_init s) = p" "get (memory (kheap_init s)) p Next = 0" "get (memory (kheap_init s)) p Prev = 0"
    unfolding k using h(1) by (simp_all add: add_pages_def fl_insert_def Let_def get_put separate_def)
  then have one: "one_block (heap_of (kheap_init s)) p 65536"
    using h a(7) by (simp add: one_block_def)
  show ?thesis
    using that [OF b own _ _ one [unfolded i(1)] _ _ _ _]
      add_pages_recorded [OF n(1), of ?s, folded i(1), folded k] a(5,6) add_pages_changes [OF w n, folded i(1), folded k] i(2,4)
    by (auto simp: k)
qed

section \<open>Page tables do not lie in free pages\<close>

lemma used_page_not_free:
  assumes u: "used_page s t" and wf: "pmm_wf (pmm s)" and x: "x \<in> page_at t"
  shows "unat x \<notin> page_bytes (free_set (pmm s))"
proof
  assume "unat x \<in> page_bytes (free_set (pmm s))"
  then obtain i where i: "i \<in> free_set (pmm s)" "0x100000 + 4096 * i \<le> unat x" "unat x < 0x100000 + 4096 * i + 4096"
    by (auto simp: page_bytes_def)
  have "unat (page_addr i) = 0x100000 + 4096 * i"
    using page_in_memory [OF wf i(1)] by (rule unat_page_addr)
  moreover obtain j where "unat t = 4096 * j"
    using used_table [OF u] by (auto simp: table_def elim: dvdE)
  moreover from this have "4096 * j < 4096 * (257 + i)" "4096 * (256 + i) < 4096 * (j + 1)"
    using i(2,3) x by (simp_all add: page_at_def)
  then have "j = 256 + i"
    unfolding nat_mult_less_cancel_disj by simp
  ultimately have "unat t = unat (page_addr i)"
    by simp
  then show False
    using used_page_other [OF u i(1)] by (simp only: u32_eq_iff)
qed

lemma translate_cong:
  assumes "table d" "\<And>x. x \<in> page_at d \<Longrightarrow> m' x = m x"
    "\<And>i x. i < 1024 \<Longrightarrow> present m d i \<Longrightarrow> x \<in> page_at (ptab m d i) \<Longrightarrow> m' x = m x"
  shows "translate m' d va = translate m d va"
proof -
  have e: "entry m' d (pd_index va) = entry m d (pd_index va)"
    using assms(1,2) by (intro entry_cong) simp_all
  show ?thesis
  proof (cases "present m d (pd_index va)")
    case True
    have "entry m' (ptab m d (pd_index va)) (pt_index va) = entry m (ptab m d (pd_index va)) (pt_index va)"
      using assms(3) [OF index_bound(1) True] by (intro entry_cong) simp_all
    then show ?thesis
      using e by (simp add: translate_def present_def pte_def ptab_def)
  next
    case False
    then show ?thesis
      using e by (simp add: translate_def present_def)
  qed
qed

text \<open>Writing free pages and taking them from the allocator keeps the kernel's page tables.\<close>

lemma tables_kept:
  assumes iso: "isolated s {}" and ch: "changes_only (page_bytes (free_set (pmm s))) (memory s) (memory s')"
    and p: "pmm_wf (pmm s')" "free_set (pmm s') \<subseteq> free_set (pmm s)" and pd: "pd_phys s' = pd_phys s"
  shows "isolated s' {}" "translate (memory s') (pd_phys s) va = translate (memory s) (pd_phys s) va"
    "user_page (memory s') (pd_phys s) va = user_page (memory s) (pd_phys s) va"
proof -
  let ?m = "memory s" let ?m' = "memory s'" let ?d = "pd_phys s"
  note I = isolatedD [OF iso]
  have keep: "?m' x = ?m x" if "used_page s t" "x \<in> page_at t" for t x
    using ch used_page_not_free [OF that(1) I(1) that(2)] by (simp add: changes_only_def)
  have D: "used_page s ?d" "table ?d"
    using I(3) [of ?d] used_table [of s ?d] by simp_all
  have T: "used_page s (ptab ?m ?d i)" if "i < 1024" "present ?m ?d i" for i
    using I(4) [OF insertI1 that] by blast
  show "translate ?m' ?d va = translate ?m ?d va" "user_page ?m' ?d va = user_page ?m ?d va"
    using D(2) keep [OF D(1)] keep [OF T] by (intro translate_cong user_page_cong; blast)+
  have e: "entry ?m' ?d i = entry ?m ?d i" if "i < 1024" for i
    using D(2) that keep [OF D(1)] by (rule entry_cong)
  then have q: "present ?m' ?d i = present ?m ?d i" "ptab ?m' ?d i = ptab ?m ?d i" if "i < 1024" for i
    using that by (simp_all add: present_def ptab_def)
  have ee: "entry ?m' (ptab ?m ?d i) j = entry ?m (ptab ?m ?d i) j" if "i < 1024" "present ?m ?d i" "j < 1024" for i j
    using used_table [OF T [OF that(1,2)]] that(3) keep [OF T [OF that(1,2)]] by (rule entry_cong)
  have up: "used_page s' t" if "used_page s t" for t
    by (rule used_page_mono [OF p(2) that])
  show "isolated s' {}"
    unfolding isolated_def Let_def pd
  proof (intro conjI ballI allI impI)
    show "pmm_wf (pmm s')" by (rule p(1))
    fix d i assume d: "d \<in> {?d}" and i: "i < (1024 :: u32)"
    {
      assume "present ?m' d i"
      then show "used_page s' (ptab ?m' d i)" "ptab ?m' d i \<notin> {?d}"
        using I(4) [OF insertI1 i] q [OF i] d up by auto
    }
    fix e j assume "e \<in> {?d}" "j < (1024 :: u32)" "present ?m' d i" "present ?m' e j" "ptab ?m' d i = ptab ?m' e j"
    then show "i = j" "d = e \<or> ptab ?m' d i = ptab ?m' ?d i"
      using I(5) [OF insertI1 insertI1 i, of j] q [OF i] q [of j] d by auto
  next
    fix i assume i: "i < (1024 :: u32)" and "present ?m' ?d i"
    then have c: "present ?m ?d i"
      using q by simp
    show "entry ?m' ?d i AND PAGE_US = 0"
      using I(8) [OF i c] e [OF i] by simp
    fix j assume "j < (1024 :: u32)"
    then show "entry ?m' (ptab ?m' ?d i) j AND PAGE_US = 0"
      using I(9) [OF i _ c] ee [OF i c] q [OF i] by simp
  qed (use I(3) up in auto)
qed

section \<open>Room for the kernel\<close>

text \<open>Behind the bitmap there is room below 8 MB for the test page, the page directory, a page table for
  each 4 MB of memory and the 16 pages of the heap.\<close>

definition boot_room :: "u32 \<Rightarrow> u32 \<Rightarrow> bool" where
  "boot_room kernel_end top_mem \<longleftrightarrow> 0x100000 \<le> unat kernel_end \<and> unat kernel_end \<le> 0x800000 \<and>
     unat top_mem \<le> 0xFFC00000 \<and>
     unat (bitmap_end kernel_end top_mem) + 4096 * ((unat top_mem + 4194303) div 4194304 + 18) \<le> 0x800000"

lemma pmm_init_free_from:
  assumes mm: "map_ok mm" and room: "boot_room kernel_end (top_of_memory mm)"
    and r: "r \<in> set (regions mm)" "unat (reg_base r) \<le> 0x100000" "0x800000 \<le> region_end r"
  obtains p k where "pmm_init kernel_end mm = Some p" "free_from p k"
    "unat (bitmap_end kernel_end (top_of_memory mm)) = 0x100000 + 4096 * k"
    "free_set p = (\<Union>r\<in>set (regions mm). region_pages p r)" "unat kernel_end \<le> 0x100000 + 4096 * k"
proof -
  have k: "unat kernel_end \<le> 0x800000" "0x100000 \<le> unat kernel_end"
    using room by (simp_all add: boot_room_def)
  from pmm_init_ok [OF mm k(1)] obtain p where p: "pmm_init kernel_end mm = Some p" "pmm_wf p"
    "free_set p = (\<Union>r\<in>set (regions mm). region_pages p r)" "unat kernel_end \<le> unat (bitmap_addr p)"
    "unat (bitmap_addr p) + length (bitmap p) \<le> unat (first_free p)" "4096 dvd unat (first_free p)"
    by blast
  let ?k = "(unat (first_free p) - 0x100000) div 4096"
  have "0x100000 \<le> unat (first_free p)"
    using k(2) p(4,5) by simp
  note ff = page_addr_of_aligned(2) [OF p(6) this]
  have "free_set p \<inter> kernel_zone = {?k..<1792}"
  proof (rule set_eqI)
    fix i
    have lower: "i \<in> free_set p \<Longrightarrow> ?k \<le> i"
      unfolding p(3) using ff by (auto simp: region_pages_def)
    have "i \<in> region_pages p r" if "?k \<le> i" "i < 1792"
      unfolding region_pages_def using r(2,3) that ff by simp
    then have "i \<in> free_set p" if "?k \<le> i" "i < 1792"
      unfolding p(3) using r(1) that by blast
    then show "i \<in> free_set p \<inter> kernel_zone \<longleftrightarrow> i \<in> {?k..<1792}"
      using lower by auto
  qed
  then have "free_from p ?k"
    using p(2) by (simp add: free_from_def)
  then show ?thesis
    by (rule that [OF p(1) _ _ p(3)]) (use ff p(4,5) pmm_init_first_free [OF p(1)] in simp_all)
qed

lemma table_count:
  assumes "unat top_mem \<le> 0xFFC00000"
  shows "unat ((top_mem + PT_COVERAGE - 1) div PT_COVERAGE) = (unat top_mem + 4194303) div 4194304"
proof -
  have "unat (top_mem + 4194303) = unat top_mem + 4194303"
    using assms by (intro trans [OF unat_add_no_wrap]) simp_all
  moreover have "top_mem + PT_COVERAGE - 1 = top_mem + 4194303"
    by simp
  ultimately show ?thesis
    by (simp only: unat_div) simp
qed

section \<open>The memory after boot\<close>

lemma paging_fields [simp]:
  "free_head (paging_unmap_null_page s) = free_head s" "heap_pages (paging_unmap_null_page s) = heap_pages s"
  "pd_phys (paging_unmap_null_page s) = pd_phys s" "cr3 (paging_unmap_null_page s) = cr3 s"
  "paging_enabled (paging_unmap_null_page s) = paging_enabled s"
  "paging_state.more (paging_unmap_null_page s) = paging_state.more s"
  by (simp_all add: paging_unmap_null_page_def Let_def)

lemma page_tables_more:
  "paging_state.more (fold (init_page_table top_mem pd) [0..<n] s) = paging_state.more s"
  by (induction n) (simp_all add: init_page_table_def Let_def split_beta)

lemma paging_init_more [simp]: "paging_state.more (paging_init s top_mem) = paging_state.more s"
  by (simp add: paging_init_def Let_def split_beta page_tables_more)

text \<open>Unmapping page 0 writes only to its page table.\<close>

lemma unmap_changes:
  assumes iso: "isolated s {}" and x: "present (memory s) (pd_phys s) 0 \<Longrightarrow> x \<notin> page_at (ptab (memory s) (pd_phys s) 0)"
  shows "memory (paging_unmap_null_page s) x = memory s x"
proof (cases "present (memory s) (pd_phys s) 0")
  case True
  let ?t = "ptab (memory s) (pd_phys s) 0"
  have "table ?t"
    using isolatedD(4) [OF iso insertI1 _ True] used_table by simp
  from set_entry_outside [OF this _ x [OF True]] show ?thesis
    using True by (simp add: paging_unmap_null_page_def present_def ptab_def Let_def)
qed (simp add: paging_unmap_null_page_def present_def)

lemma paging_boot_from:
  assumes z: "free_from (pmm s) k" and top: "unat top_mem \<le> 0xFFC00000"
    and room: "k + (unat top_mem + 4194303) div 4194304 + 1 \<le> 1792"
  defines "s' \<equiv> paging_unmap_null_page (paging_init s top_mem)"
  shows "free_from (pmm s') (k + (unat top_mem + 4194303) div 4194304 + 1)" "free_set (pmm s') \<subseteq> free_set (pmm s)"
    "isolated s' {}" "cr3 s' = pd_phys s'" "paging_enabled s'"
    "translate (memory s') (pd_phys s') va = (if va AND NOT 0xFFF \<noteq> 0 \<and> va AND NOT 0xFFF < top_mem then Some va else None)"
    "\<not> user_page (memory s') (pd_phys s') va"
    "changes_only (page_bytes (free_set (pmm s))) (memory s) (memory s')"
proof -
  let ?i = "paging_init s top_mem" and ?n = "(unat top_mem + 4194303) div 4194304"
  have f: "pmm_wf (pmm s)" "free_set (pmm s) \<inter> kernel_zone = {k..<1792}"
    using z by (simp_all add: free_from_def)
  have "?n < card (free_set (pmm s) \<inter> kernel_zone)"
    unfolding f(2) using room by simp
  note ok = paging_init_ok [OF f(1) top this]
  have iso: "isolated ?i {}" and t: "tree (memory ?i) (pd_phys ?i)" and im: "identity_mapped (memory ?i) (pd_phys ?i) top_mem"
    and wf: "pmm_wf (pmm ?i)" and sub: "free_set (pmm ?i) \<subseteq> free_set (pmm s)"
    and same: "\<And>x. unat x \<notin> page_bytes (free_set (pmm s)) \<Longrightarrow> memory ?i x = memory s x"
    and tab: "present (memory ?i) (pd_phys ?i) 0 \<Longrightarrow> ptab (memory ?i) (pd_phys ?i) 0 \<in> page_addr ` (free_set (pmm s) \<inter> kernel_zone)"
    using ok by (blast | simp)+
  show "cr3 s' = pd_phys s'" "paging_enabled s'"
    unfolding s'_def using ok by simp_all
  show "free_set (pmm s') \<subseteq> free_set (pmm s)"
    unfolding s'_def using sub by simp
  show "free_from (pmm s') (k + ?n + 1)"
    unfolding s'_def pmm_unmap pmm_paging_init table_count [OF top]
    using allocs_next [OF z, of "Suc ?n"] room by (simp del: funpow.simps)
  show "isolated s' {}"
    unfolding s'_def by (rule isolated_unmap [OF iso])
  show "translate (memory s') (pd_phys s') va = (if va AND NOT 0xFFF \<noteq> 0 \<and> va AND NOT 0xFFF < top_mem then Some va else None)"
    "\<not> user_page (memory s') (pd_phys s') va"
    using unmap_null_translate [OF t, of va] im unfolding s'_def identity_mapped_def by auto
  show "changes_only (page_bytes (free_set (pmm s))) (memory s) (memory s')"
    unfolding changes_only_def s'_def
  proof (intro allI impI)
    fix x :: u32 assume x: "unat x \<notin> page_bytes (free_set (pmm s))"
    have "x \<notin> page_at (page_addr i)" if "i \<in> free_set (pmm s) \<inter> kernel_zone" for i
      using that x kernel_page_addr(1) [of i] by (auto simp: page_at_def page_bytes_def)
    then show "memory (paging_unmap_null_page ?i) x = memory s x"
      using same [OF x] tab by (subst unmap_changes [OF iso]) auto
  qed
qed

text \<open>What the memory part of \<open>kmain\<close> leaves, when the kernel image ends at \<open>kernel_end\<close>: the first 16 pages
  of an empty heap, the kernel's page directory with the identity mapping without page 0, and an
  untouched image.\<close>

definition memory_ready :: "u32 \<Rightarrow> u32 \<Rightarrow> 'a paging_state_scheme \<Rightarrow> 'a paging_state_scheme \<Rightarrow> bool" where
  "memory_ready kernel_end top_mem s s' \<longleftrightarrow>
     (\<exists>Z \<subseteq> heap_page_bytes s'. heap_owns s' Map.empty Z) \<and> length (heap_pages s') = 16 \<and>
     (\<forall>ns. fits 65536 ns \<longrightarrow> heap_serves (heap_of s') ns) \<and>
     isolated s' {} \<and> cr3 s' = pd_phys s' \<and> paging_enabled s' \<and>
     (\<forall>va. translate (memory s') (cr3 s') va =
        (if va AND NOT 0xFFF \<noteq> 0 \<and> va AND NOT 0xFFF < top_mem then Some va else None) \<and>
        \<not> user_page (memory s') (cr3 s') va) \<and>
     (\<forall>x < kernel_end. memory s' x = memory s x) \<and> paging_state.more s' = paging_state.more s"

lemma heap_more_paging:
  assumes "heap_state.more s' = heap_state.more (s :: 'a paging_state_scheme)"
  shows "pd_phys s' = pd_phys s" "cr3 s' = cr3 s" "paging_enabled s' = paging_enabled s"
    "paging_state.more s' = paging_state.more s"
  using assms by (cases s; cases s'; simp)+

lemma kernel_memory_ok:
  assumes tags: "tags_at (memory s) (unat info + 8) (unat info + unat (load32 (memory s) info)) ts"
    "unat info + unat (load32 (memory s) info) < 2 ^ 32"
    and e: "entries_ok (filter usable (entries_of ts))" and room: "boot_room kernel_end (top_of (regions_of ts))"
    and r: "r \<in> set (regions_of ts)" "unat (reg_base r) \<le> 0x100000" "0x800000 \<le> region_end r"
  obtains st' s' where "kernel_memory kernel_end MULTIBOOT2_MAGIC info st s = Some (st', s')"
    "st' = \<lparr>mem_map = \<lparr>regions = regions_of ts, top_of_memory = top_of (regions_of ts)\<rparr>, framebuf = last_framebuffer ts (framebuf st)\<rparr>"
    "memory_ready kernel_end (top_of (regions_of ts)) s s'"
proof -
  let ?top = "top_of (regions_of ts)" let ?mm = "\<lparr>regions = regions_of ts, top_of_memory = ?top\<rparr>"
  let ?st = "\<lparr>mem_map = ?mm, framebuf = last_framebuffer ts (framebuf st)\<rparr>" let ?n = "(unat ?top + 4194303) div 4194304"
  obtain p k where p: "pmm_init kernel_end ?mm = Some p" "free_from p k" "unat (bitmap_end kernel_end ?top) = 0x100000 + 4096 * k"
    "unat kernel_end \<le> 0x100000 + 4096 * k" "free_set p = (\<Union>r\<in>set (regions_of ts). region_pages p r)"
  proof (rule pmm_init_free_from [OF regions_map_ok [OF e], of kernel_end r])
    show "boot_room kernel_end (top_of_memory ?mm)" "r \<in> set (regions ?mm)"
      using room r(1) by simp_all
  qed (use r(2,3) in simp_all)
  have top: "unat ?top \<le> 0xFFC00000" and n: "k + (?n + 18) \<le> 1792"
    using room p(3) by (simp_all add: boot_room_def)
  have above: "unat kernel_end \<le> x" if "x \<in> page_bytes (free_set p)" for x
  proof -
    obtain i r' where "i \<in> region_pages p r'" "0x100000 + 4096 * i \<le> x"
      using \<open>x \<in> page_bytes (free_set p)\<close> by (auto simp: page_bytes_def p(5))
    then show ?thesis
      using p(4) pmm_init_first_free [OF p(1)] p(3) by (simp add: region_pages_def)
  qed
  have "k < 1792" using n by simp
  note a = alloc_next [OF p(2) this]
  let ?s1 = "s\<lparr>pmm := next_page p\<rparr>"
  let ?s2 = "paging_unmap_null_page (paging_init ?s1 ?top)" let ?s3 = "kheap_init ?s2"
  have z1: "free_from (pmm ?s1) (Suc k)" "Suc k + ?n + 1 \<le> 1792"
    using a(2) n by simp_all
  note b = paging_boot_from [OF z1(1) top z1(2)]
  have "Suc k + ?n + 1 + 16 \<le> 1792"
    using n by simp
  from kheap_init_found [OF b(1) this] obtain i where
    h: "heap_owns ?s3 Map.empty (page_bytes {i..<i + 16})" "page_bytes {i..<i + 16} \<subseteq> heap_page_bytes ?s3"
      "length (heap_pages ?s3) = 16" "one_block (heap_of ?s3) (page_addr i) 65536"
      "changes_only (page_bytes {i..<i + 16}) (memory ?s2) (memory ?s3)" "{i..<i + 16} \<subseteq> free_set (pmm ?s2)"
      "free_set (pmm ?s3) = free_set (pmm ?s2) - {i..<i + 16}" "heap_state.more ?s3 = heap_state.more ?s2"
    by metis
  note m = heap_more_paging [OF h(8)]
  have c: "changes_only (page_bytes (free_set (pmm ?s2))) (memory ?s2) (memory ?s3)"
    by (rule changes_only_mono [OF h(5) page_bytes_mono [OF h(6)]])
  note t = tables_kept [OF b(3) c heap_owns_wf(1) [OF h(1)] _ m(1)]
  have sub: "free_set (pmm ?s2) \<subseteq> free_set p"
    using b(2) a(3) by auto
  have "memory ?s3 x = memory s x" if "x < kernel_end" for x
  proof -
    have "unat x \<notin> page_bytes (free_set p)"
      using above [of "unat x"] that by (auto simp: word_less_nat_alt)
    then have "unat x \<notin> page_bytes (free_set (pmm ?s2))" "unat x \<notin> page_bytes (free_set (pmm ?s1))"
      using page_bytes_mono [OF sub] page_bytes_mono [of "free_set (pmm ?s1)" "free_set p"] a(3) by auto
    then show ?thesis
      using c b(8) by (simp add: changes_only_def)
  qed
  then have "memory_ready kernel_end ?top s ?s3"
    unfolding memory_ready_def using h(1-3) one_block_serves [OF h(4)] t h(7) b(4-7) m by auto
  moreover have "kernel_memory kernel_end MULTIBOOT2_MAGIC info st s = Some (?st, ?s3)"
    using multiboot_parse_at [OF tags, of st] p(1) a(1) by (simp add: kernel_memory_def)
  ultimately show ?thesis
    using that by blast
qed

section \<open>Mounting on a fresh heap\<close>

text \<open>Mounting keeps what the scheduler relies on.\<close>

lemma mount_root_owns:
  assumes own: "heap_owns s A Z" "Z \<subseteq> heap_page_bytes s" and r: "mount_root s = Some s'"
  shows "\<exists>A' Z'. heap_owns s' A' Z' \<and> Z' \<subseteq> heap_page_bytes s' \<and> free_set (pmm s') \<subseteq> free_set (pmm s) \<and> pd_phys s' = pd_phys s"
proof -
  let ?s = "vfs_init s"
  have o0: "heap_owns ?s A Z" "Z \<subseteq> heap_page_bytes ?s"
    using own by (simp_all add: vfs_init_def heap_owns_def heap_inv_def heap_page_bytes_def)
  obtain rn s1 A1 Z1 where n: "kmalloc ?s sizeof_ramfs_node = Some (rn, s1)" "malloc_step ?s A Z sizeof_ramfs_node rn s1 A1 Z1"
    using kmalloc_step [OF o0(1)] by blast
  have "rn \<noteq> 0"
    using r n(1) by (auto simp: mount_root_def ramfs_init_def ramfs_make_vfs_node_def)
  let ?x = "\<lparr>r_name = copy_name (bytes_of ''/''), r_type = VFS_TYPE_DIR, r_size = 0, r_data = 0, r_parent = 0, r_children = 0, r_next = 0\<rparr>"
  let ?s1 = "set_rnode rn (Some ?x) s1"
  have o1: "heap_owns ?s1 A1 Z1" "Z1 \<subseteq> heap_page_bytes ?s1" "free_set (pmm ?s1) \<subseteq> free_set (pmm s)" "pd_phys ?s1 = pd_phys s"
    using n(2) o0(2) more_task_fields(1) [of s1 ?s]
    by (auto simp: malloc_step_def set_rnode_def heap_owns_def heap_inv_def heap_page_bytes_def vfs_init_def)
  obtain vn s2 A2 Z2 where w: "kmalloc ?s1 sizeof_vfs_node = Some (vn, s2)" "malloc_step ?s1 A1 Z1 sizeof_vfs_node vn s2 A2 Z2"
    using kmalloc_step [OF o1(1)] by blast
  have o2: "heap_owns s2 A2 Z2" "Z2 \<subseteq> heap_page_bytes s2" "free_set (pmm s2) \<subseteq> free_set (pmm s)" "pd_phys s2 = pd_phys s"
    using w(2) o1 more_task_fields(1) [of s2 ?s1] by (auto simp: malloc_step_def)
  have "vn \<noteq> 0"
    using r n(1) w(1) \<open>rn \<noteq> 0\<close> by (auto simp: mount_root_def ramfs_init_def ramfs_make_vfs_node_def Let_def bind_eq_Some_conv)
  then have "memory s' = memory s2 \<and> pmm s' = pmm s2 \<and> free_head s' = free_head s2 \<and> heap_pages s' = heap_pages s2 \<and> pd_phys s' = pd_phys s2"
    using r n(1) w(1) \<open>rn \<noteq> 0\<close>
    by (auto simp: mount_root_def ramfs_init_def ramfs_make_vfs_node_def Let_def bind_eq_Some_conv vfs_mount_def set_rnode_def set_vnode_def
        split: if_splits)
  then show ?thesis
    using o2 by (intro exI [of _ A2] exI [of _ Z2]) (simp add: heap_owns_def heap_inv_def heap_page_bytes_def)
qed

section \<open>Properties\<close>



section \<open>Witnesses\<close>

text \<open>A machine with 8 MB and a kernel image of 1 MB, before the kernel has run.\<close>

definition boot_state :: fs_state where
  "boot_state = fs_example\<lparr>memory := info_example, free_head := 0, heap_pages := [], tasks := Map.empty\<rparr>"

lemma boot_state_ready:
  "tags_at (memory boot_state) (unat (0x10000 :: u32) + 8) (unat (0x10000 :: u32) + unat (load32 (memory boot_state) 0x10000)) tags_example"
  "unat (0x10000 :: u32) + unat (load32 (memory boot_state) 0x10000) < 2 ^ 32"
  "entries_ok (filter usable (entries_of tags_example))" "boot_room 0x200000 (top_of (regions_of tags_example))"
  "\<lparr>reg_base = 0x100000, reg_length = 0x700000\<rparr> \<in> set (regions_of tags_example)"
  "unat (reg_base \<lparr>reg_base = 0x100000, reg_length = 0x700000\<rparr>) \<le> 0x100000"
  "0x800000 \<le> region_end \<lparr>reg_base = 0x100000, reg_length = 0x700000\<rparr>"
proof -
  have r: "regions_of tags_example = [\<lparr>reg_base = 0x100000, reg_length = 0x700000\<rparr>]"
    by (simp add: regions_of_def tags_example_def usable_def region_of_def)
  have m: "memory boot_state = info_example"
    by (simp add: boot_state_def)
  show "tags_at (memory boot_state) (unat (0x10000 :: u32) + 8) (unat (0x10000 :: u32) + unat (load32 (memory boot_state) 0x10000)) tags_example"
    unfolding m by (rule tags_example_at)
  show "unat (0x10000 :: u32) + unat (load32 (memory boot_state) 0x10000) < 2 ^ 32"
    unfolding m info_example_load by simp
  show "entries_ok (filter usable (entries_of tags_example))"
    by (simp add: entries_ok_def tags_example_def usable_def)
  show "boot_room 0x200000 (top_of (regions_of tags_example))"
    unfolding r by (simp add: top_of_def boot_room_def bitmap_end_def)
qed (simp_all add: region_end_def regions_of_def tags_example_def usable_def region_of_def)



end
