(* ===== verification/Spec2Isabelle.thy ===== *)
theory Spec2Isabelle
  imports Kumo_Prelude Byte_Memory PMM KHeap Multiboot Paging Ports Descriptors Heap_Frame Task
    Heap_Client RamFS VFS Messages ELF Exec Syscall
    Signed_Words Graphics Font Mouse Windows WM Calc Desktop Interrupts Boot
begin

text \<open>
  Kumo OS, a 32-bit x86 teaching kernel: a verification library.

  \<^bold>\<open>The program.\<close> \<open>kmain\<close> (\<open>src/kernel/main.c\<close>) is entered from the boot loader. It sets up the serial
  port, the segment and interrupt tables and the interrupt controllers, reads the boot information,
  builds the page allocator on the memory map, the identity page tables on the page allocator and the
  kernel heap on the page allocator, draws a desktop with windows, a mouse cursor and a calculator,
  mounts a RAM file system, creates tasks, and lets the timer interrupt switch between them. User
  tasks run in ring 3 and enter the kernel through \<open>int 0x80\<close>; programs are ELF files of the file system.
  The parts call each other downwards only, with two exceptions: the mouse driver calls the desktop
  through two registered function pointers, and the window manager calls the application through the
  function pointers in its windows. Those two are the interfaces \<open>mouse_client\<close> and \<open>window_client\<close>.

  \<^bold>\<open>How the code is modelled.\<close> C unsigned integers are words of their width with wrapping arithmetic;
  \<open>int32_t\<close> values are 32-bit words with signed comparison and division (\<open>Signed_Words\<close>). Memory is a byte
  for every 32-bit address (\<open>Byte_Memory\<close>); heap blocks and their links, page tables, kernel stacks,
  register frames, user buffers, ELF images, file contents and the framebuffer are bytes of it. The
  static variables of a C file are the fields of one record, and the records extend each other in the
  order in which the parts use each other:

    \<^item> \<open>pmm_state\<close> (a field of the next), \<open>heap_state\<close>, \<open>paging_state\<close>, then \<open>task_state\<close>, or \<open>fs_state\<close>
      and \<open>sys_state\<close> upon \<open>task_state\<close>;
    \<^item> \<open>gfx_state\<close>, \<open>mouse_state\<close>, \<open>button_state\<close>, \<open>wm_state\<close>, \<open>calc_state\<close>, \<open>desktop_state\<close> for the graphical
      half; \<open>irq_state\<close> puts both halves together.

  Objects that no code reads as bytes (task control blocks, file-system nodes, open files) are typed maps
  from the address \<open>kmalloc\<close> returned to a record; \<open>Heap_Client\<close> shows that this is sound: the block is
  live, distinct from every other live block and untouched by the heap. A device is the stream of answers
  its ports give and the log of the writes it received (\<open>Ports\<close>). A C function is one definition that
  returns the new state. A call that does not return, because of an endless loop or because a CPU
  exception sends it to the halt loop of \<open>isr_handler\<close>, has the value \<^term>\<open>None\<close>. The error codes of the
  source (0, NULL, -1, 0xFFFFFFFF) are the values the code returns. So every property that says a call
  returns \<^term>\<open>Some s\<close> claims that it terminates without a fault.

  \<^bold>\<open>The theories,\<close> from the bottom up.

    \<^item> \<open>Kumo_Prelude\<close>: type names, page constants, the rule collection \<open>word_nat\<close> that moves word
      statements to the naturals. \<open>Signed_Words\<close>: the laws of \<open>int32_t\<close>. \<open>Byte_Memory\<close>: loads and stores of bytes
      and little-endian words, and when they interfere.
    \<^item> \<open>PMM\<close> (\<open>mm/pmm.c\<close>): bitmap, first fit and run search, \<open>pmm_init\<close>. Invariant \<open>pmm_wf\<close>, abstraction
      \<open>free_set\<close>. The locales \<open>page_allocator\<close> and \<open>run_allocator\<close> state the contract; they are interpreted
      for the kernel and for the user zone. Lemmas: which page is granted, grants of a trace of calls are
      disjoint, exactly the usable pages above the kernel are free after \<open>pmm_init\<close>.
    \<^item> \<open>KHeap\<close> (\<open>mm/kheap.c\<close>): block headers and free list in memory. Invariant \<open>heap_wf\<close> (a set of blocks
      that tile the heap pages, a doubly linked list of the free ones), abstraction \<open>alloc_map\<close> from the
      address of a live block to its size; \<open>heap_allocator\<close> is the interface, interpreted for \<open>kmalloc\<close>.
      Lemmas: \<open>kmalloc\<close> returns, takes the first fit or grows the heap, hands out a fresh block and keeps the
      contents of the live ones; \<open>kfree\<close> returns and merges with its free neighbours when the page of
      the block starts with a block header; the walk of \<open>coalesce_backward\<close> can hang otherwise.
      \<open>Heap_Frame\<close> and \<open>Heap_Client\<close>: what allocations leave unchanged.
    \<^item> \<open>Multiboot\<close> (\<open>mm/multiboot.c\<close>): the tag walk. The specification is a list of abstract tags laid out in
      memory (\<open>tags_at\<close>); parsing gives exactly what a fold over that list gives.
    \<^item> \<open>Paging\<close> (\<open>arch/x86/paging.c\<close>): directories and tables in memory, \<open>translate\<close> as the CPU walks them,
      identity mapping after boot, cloned directories and their isolation (\<open>isolated\<close>), the checks before
      user memory is touched, and the copy functions between user and kernel memory.
    \<^item> \<open>Ports\<close> (\<open>drivers/serial.c\<close>, \<open>arch/x86/pic.c\<close>), \<open>Messages\<close> (what is printed), \<open>Descriptors\<close>
      (\<open>gdt.c\<close>, \<open>idt.c\<close>, \<open>tss.c\<close>; the link addresses are the record \<open>link_map\<close>). The 8259 and the reading of
      descriptors by the CPU are modelled from their documentation, only to state what the writes achieve.
    \<^item> \<open>Task\<close> (\<open>sched/task.c\<close>, \<open>sched/switch.asm\<close>): the circular task list, creation, \<open>task_yield\<close> with the
      switch of stacks. \<open>sched_step\<close> and \<open>sched_run\<close> are the runs of the kernel seen from the scheduler;
      \<open>sched_inv\<close> with \<open>ring\<close> is kept along them. Lemmas: round robin, every task runs, a switched-out task resumes
      with its stack and registers, the first run of a user task ends in ring 3 at its entry point.
    \<^item> \<open>RamFS\<close>, \<open>VFS\<close> (\<open>fs/ramfs.c\<close>, \<open>fs/vfs.c\<close>): trees of nodes, path walking, descriptors. Invariants \<open>fs_inv\<close>
      and \<open>fds_ok\<close>; abstraction \<open>fs_abs\<close>, an association list from names to contents, which the operations refine.
    \<^item> \<open>ELF\<close> (\<open>fs/elf.c\<close>): loading, initial stack, the report. Well-formed images are \<open>elf_ok\<close>, their meaning is
      \<open>elf_loaded\<close>. \<open>Exec\<close> (\<open>run_register\<close> to \<open>exec_elf_from_path\<close> in \<open>kernel/main.c\<close>): starting programs.
    \<^item> \<open>Syscall\<close> (\<open>arch/x86/syscall_dispatch.c\<close>): every call number of the dispatcher.
    \<^item> \<open>Graphics\<close>, \<open>Font\<close> (\<open>gfx/primitives.c\<close>, \<open>gfx/font.c\<close>): \<open>paints\<close> says that exactly a set of pixels gets
      a colour and no byte outside the framebuffer changes.
    \<^item> \<open>Mouse\<close> (\<open>drivers/mouse.c\<close>): handshake, packets, cursor with saved background. \<open>driver_ok\<close> is the invariant
      of the driver, \<open>background\<close> the screen without the cursor. \<open>mouse_client\<close> is the contract of the callbacks.
    \<^item> \<open>Windows\<close>, \<open>WM\<close> (\<open>wm/window.c\<close>, \<open>wm/button.c\<close>, \<open>wm/wm.c\<close>): \<open>draws\<close> says that an operation only draws,
      \<open>window_client\<close> that redraw functions do. The stack operations are list operations; \<open>dirty_area\<close> is
      the set of points the dirty rectangle covers, and marking is its convex hull.
    \<^item> \<open>Calc\<close> (\<open>app/calc.c\<close>): interprets \<open>window_client\<close>. \<open>core_step\<close> is the calculator without its screen, and
      the button callbacks refine it.
    \<^item> \<open>Desktop\<close> (\<open>on_mouse_move\<close>, \<open>on_mouse_click\<close> and the graphical part of \<open>kmain\<close>): interprets
      \<open>mouse_client\<close> with the invariant \<open>ui_ok\<close>. Its parameter \<open>div_trap\<close> names the states in which a click on
      the calculator raises the divide error.
    \<^item> \<open>Interrupts\<close> (\<open>irq_handler.c\<close>, \<open>exception.c\<close>): the handlers, on both halves of the state.
    \<^item> \<open>Boot\<close> (the memory part of \<open>kmain\<close>): boot information, page allocator, page tables and heap on one
      state. Its theorems discharge the assumptions of the memory, file-system and scheduler theories from
      the bytes the boot loader leaves (\<open>tags_at\<close>, \<open>entries_ok\<close>) and the room behind the kernel image
      (\<open>boot_room\<close>).

  \<^bold>\<open>Loops, bounds and fuel.\<close> There is no fuel. A loop that the data may keep going for ever (the free-list
  search, the backward walk of \<open>kfree\<close>, the tag walk, the page loops whose end address may wrap, the line
  loop, the wait for the serial port, the lists of the file system) is a \<open>partial_function\<close> whose
  \<^term>\<open>None\<close> is the endless run, and the properties show that it returns. Where the source counts, the
  model counts likewise: 100000 polls for the mouse controller and at most 16 bytes in its drain loop, 16
  usable regions, 256 heap pages, 256 bytes for a path and 4096 for the console, 16 descriptors per task, 16 windows.
  Bitmap scans and the copy loops of the loader recurse up to the bound of the source, with a measure.
  Bounds in hypotheses (buffers that do not wrap around the address space, screens of fewer than
  \<open>2 ^ 31\<close> pixels a side that contain the cursor, usable regions below 4 GB) are where the code is only correct
  within them; the manifest lists what happens outside when it is a defect.

  \<^bold>\<open>What is not modelled.\<close> \<open>fill8\<close>, \<open>check8\<close> and \<open>heap_tests\<close> of \<open>main.c\<close> (self-tests that call the modelled
  heap and print); the embedded user programs and development self-checks of \<open>kmain\<close>, and with them
  its last part that creates the first tasks; \<open>boot.asm\<close>, \<open>isr.asm\<close>,
  \<open>irq.asm\<close>, \<open>syscall.asm\<close> and \<open>ring3.asm\<close>, whose register frames are the arguments of the handlers and whose
  return to ring 3 is \<open>iret_to_user\<close>; the programs under \<open>src/user\<close>, which the kernel treats as arbitrary
  code. The TLB is not modelled (an entry takes effect when it is written), nor are the \<open>cli\<close>/\<open>sti\<close> pairs of
  \<open>wm_flush_dirty\<close> (a handler runs to its end), nor interrupts in the middle of kernel code. The diagnostic
  messages are modelled in the drivers, the graphical half, the reports of the loader, the exception
  handler and \<open>SYSCALL_WRITECONSOLE\<close>, and left out in the memory, task and file-system theories.
\<close>

end
